(* ===== verification/Prelude.thy ===== *)
theory Prelude
  imports Main "HOL-Library.AList" "HOL-Library.Sublist" "HOL-Library.Multiset"
begin

text \<open>
  Shared vocabulary of the development: Python dictionaries as association lists in insertion
  order, loops that may raise, decimal text of integers, \<open>str.join\<close> and the order-preserving
  de-duplication the rewriters use. A raised exception is the left summand of a sum; the
  component theories declare their own error datatypes.
\<close>

named_theorems dict_simps \<open>facts about dictionaries as association lists\<close>
named_theorems str_simps \<open>facts about decimal text and string helpers\<close>

section \<open>Dictionaries in insertion order\<close>

text \<open>
  A Python dictionary keeps the position of a key's first insertion when the key is stored
  again, which is what \<open>AList.update\<close> does. \<open>dict_of\<close> is a dictionary comprehension.
\<close>

type_synonym ('k, 'v) dict = "('k \<times> 'v) list"

definition dict_of :: "('k \<times> 'v) list \<Rightarrow> ('k, 'v) dict" where
  "dict_of kvs = fold (\<lambda>(k, v). AList.update k v) kvs []"

definition keys :: "('k, 'v) dict \<Rightarrow> 'k list" where
  "keys d = map fst d"

definition has_key :: "('k, 'v) dict \<Rightarrow> 'k \<Rightarrow> bool" where
  "has_key d k = (map_of d k \<noteq> None)"

definition get_or :: "('k, 'v) dict \<Rightarrow> 'k \<Rightarrow> 'v \<Rightarrow> 'v" where
  "get_or d k v = (case map_of d k of None \<Rightarrow> v | Some x \<Rightarrow> x)"

lemma map_of_update [simp, dict_simps]: "map_of (AList.update k v d) = (map_of d)(k \<mapsto> v)"
  by (simp add: update_conv')

lemma keys_update [dict_simps]: "set (keys (AList.update k v d)) = insert k (set (keys d))"
  by (auto simp: keys_def dom_update)

lemma distinct_keys_update [intro, dict_simps]:
  "distinct (keys d) \<Longrightarrow> distinct (keys (AList.update k v d))"
  by (simp add: keys_def distinct_update)

lemma has_key_iff [dict_simps]: "has_key d k \<longleftrightarrow> k \<in> set (keys d)"
  by (auto simp: has_key_def keys_def map_of_eq_None_iff)

lemma fold_update_map_of:
  "map_of (fold (\<lambda>(k, v). AList.update k v) kvs d) = map_of d ++ map_of (rev kvs)"
proof (induction kvs arbitrary: d)
  case (Cons kv kvs)
  then show ?case by (cases kv) (auto simp: map_add_def fun_eq_iff split: option.splits)
qed simp

lemma map_of_dict_of [dict_simps]: "map_of (dict_of kvs) = map_of (rev kvs)"
  by (simp add: dict_of_def fold_update_map_of)

lemma distinct_keys_fold_update:
  "distinct (keys d) \<Longrightarrow> distinct (keys (fold (\<lambda>(k, v). AList.update k v) kvs d))"
  by (induction kvs arbitrary: d) (auto intro: distinct_keys_update)

lemma distinct_keys_dict_of [simp, dict_simps]: "distinct (keys (dict_of kvs))"
  unfolding dict_of_def by (rule distinct_keys_fold_update) (simp add: keys_def)

lemma keys_fold_update:
  "set (keys (fold (\<lambda>(k, v). AList.update k v) kvs d)) = set (keys d) \<union> fst ` set kvs"
  by (induction kvs arbitrary: d) (auto simp: keys_update)

lemma set_keys_dict_of [simp, dict_simps]: "set (keys (dict_of kvs)) = fst ` set kvs"
  unfolding dict_of_def by (subst keys_fold_update) (simp add: keys_def)

text \<open>Storing one value under several keys.\<close>

lemma map_of_fold_same:
  "map_of (fold (\<lambda>k. AList.update k v) ks d) x = (if x \<in> set ks then Some v else map_of d x)"
  by (induction ks arbitrary: d) auto

text \<open>With distinct keys a comprehension stores the pairs as they come.\<close>

lemma update_fresh: "k \<notin> set (keys d) \<Longrightarrow> AList.update k v d = d @ [(k, v)]"
  by (induction d) (auto simp: keys_def)

lemma fold_update_fresh:
  "distinct (map fst kvs) \<Longrightarrow> set (keys d) \<inter> fst ` set kvs = {} \<Longrightarrow>
   fold (\<lambda>(k, v). AList.update k v) kvs d = d @ kvs"
proof (induction kvs arbitrary: d)
  case (Cons kv kvs)
  obtain k v where kv: "kv = (k, v)" by fastforce
  from Cons.prems kv have "k \<notin> set (keys d)" by auto
  moreover from Cons.prems kv have "set (keys (d @ [(k, v)])) \<inter> fst ` set kvs = {}"
    by (auto simp: keys_def)
  ultimately show ?case using Cons kv by (simp add: update_fresh)
qed simp

lemma dict_of_distinct: "distinct (map fst kvs) \<Longrightarrow> dict_of kvs = kvs"
  by (simp add: dict_of_def fold_update_fresh keys_def)

text \<open>\<open>d.setdefault(k, []).append(v)\<close>.\<close>

definition append_to :: "'k \<Rightarrow> 'v \<Rightarrow> ('k, 'v list) dict \<Rightarrow> ('k, 'v list) dict" where
  "append_to k v d = AList.update k (get_or d k [] @ [v]) d"

lemma get_or_append_to [dict_simps]:
  "get_or (append_to k v d) x [] = (if x = k then get_or d k [] @ [v] else get_or d x [])"
  by (simp add: append_to_def get_or_def)

lemma has_key_append_to [dict_simps]: "has_key (append_to k v d) x \<longleftrightarrow> x = k \<or> has_key d x"
  by (simp add: append_to_def has_key_def)

lemma get_or_fold_append:
  "get_or (fold (\<lambda>x. append_to (f x) (h x)) xs d) k [] = get_or d k [] @ map h (filter (\<lambda>x. f x = k) xs)"
  by (induction xs arbitrary: d) (auto simp: get_or_append_to)

lemma distinct_keys_fold_append:
  "distinct (keys d) \<Longrightarrow> distinct (keys (fold (\<lambda>x. append_to (f x) (h x)) xs d))"
  by (induction xs arbitrary: d) (auto simp: append_to_def intro!: distinct_keys_update)

lemma has_key_fold_append:
  "has_key (fold (\<lambda>x. append_to (f x) (h x)) xs d) k \<longleftrightarrow> has_key d k \<or> k \<in> f ` set xs"
  by (induction xs arbitrary: d) (auto simp: has_key_append_to)

section \<open>Loops that may raise\<close>

text \<open>
  \<open>for_each f xs s\<close> runs the loop body \<open>f\<close> over \<open>xs\<close> on the state \<open>s\<close> and stops at the
  first exception.
\<close>

fun for_each :: "('a \<Rightarrow> 's \<Rightarrow> 'e + 's) \<Rightarrow> 'a list \<Rightarrow> 's \<Rightarrow> 'e + 's" where
  "for_each f [] s = Inr s"
| "for_each f (x # xs) s = (case f x s of Inl e \<Rightarrow> Inl e | Inr s' \<Rightarrow> for_each f xs s')"

text \<open>\<open>map_res f xs\<close>: a list comprehension whose element expression may raise.\<close>

fun map_res :: "('a \<Rightarrow> 'e + 'b) \<Rightarrow> 'a list \<Rightarrow> 'e + 'b list" where
  "map_res f [] = Inr []"
| "map_res f (x # xs) =
     (case f x of Inl e \<Rightarrow> Inl e
      | Inr y \<Rightarrow> (case map_res f xs of Inl e \<Rightarrow> Inl e | Inr ys \<Rightarrow> Inr (y # ys)))"

lemma for_each_append:
  "for_each f (xs @ ys) s = (case for_each f xs s of Inl e \<Rightarrow> Inl e | Inr s' \<Rightarrow> for_each f ys s')"
  by (induction xs arbitrary: s) (auto split: sum.splits)

lemma for_each_invariant:
  assumes "for_each f xs s = Inr s'" and "P s"
    and "\<And>x s s'. x \<in> set xs \<Longrightarrow> P s \<Longrightarrow> f x s = Inr s' \<Longrightarrow> P s'"
  shows "P s'"
  using assms
proof (induction xs arbitrary: s)
  case (Cons x xs)
  from Cons.prems(1) obtain s1 where s1: "f x s = Inr s1" and rest: "for_each f xs s1 = Inr s'"
    by (auto split: sum.splits)
  have "P s1" using Cons.prems(2,3) s1 by auto
  with rest show ?case using Cons.IH Cons.prems(3) by (metis list.set_intros(2))
qed simp

text \<open>Loop invariants that speak of the elements already visited.\<close>

lemma fold_prefix_inv:
  assumes "P [] s" and "\<And>pre x post s. xs = pre @ x # post \<Longrightarrow> P pre s \<Longrightarrow> P (pre @ [x]) (f x s)"
  shows "P xs (fold f xs s)"
proof -
  have "xs = pre @ post \<Longrightarrow> P pre s \<Longrightarrow> P xs (fold f post s)" for pre post s
  proof (induction post arbitrary: pre s)
    case (Cons x post)
    have "P (pre @ [x]) (f x s)" by (rule assms(2) [OF Cons.prems])
    with Cons.IH [of "pre @ [x]"] Cons.prems(1) show ?case by simp
  qed simp
  from this [of "[]" xs] assms(1) show ?thesis by simp
qed

lemma for_each_prefix_inv:
  assumes "for_each f xs s = Inr s'" and "P [] s"
    and "\<And>pre x post s s'. xs = pre @ x # post \<Longrightarrow> P pre s \<Longrightarrow> f x s = Inr s' \<Longrightarrow> P (pre @ [x]) s'"
  shows "P xs s'"
proof -
  have "xs = pre @ post \<Longrightarrow> P pre s \<Longrightarrow> for_each f post s = Inr s' \<Longrightarrow> P xs s'" for pre post s
  proof (induction post arbitrary: pre s)
    case (Cons x post)
    from Cons.prems(3) obtain s1 where s1: "f x s = Inr s1" "for_each f post s1 = Inr s'"
      by (auto split: sum.splits)
    have "P (pre @ [x]) s1" by (rule assms(3) [OF Cons.prems(1,2) s1(1)])
    with Cons.IH [of "pre @ [x]"] Cons.prems(1) s1(2) show ?case by simp
  qed simp
  from this [of "[]" xs] assms(1,2) show ?thesis by simp
qed

lemma set_map_filter: "y \<in> set (List.map_filter f xs) \<longleftrightarrow> (\<exists>x \<in> set xs. f x = Some y)"
  by (induction xs) (auto simp: List.map_filter_def split: option.splits)

lemma map_res_length: "map_res f xs = Inr ys \<Longrightarrow> length ys = length xs"
  by (induction xs arbitrary: ys) (auto split: sum.splits)

lemma map_res_nth:
  "map_res f xs = Inr ys \<Longrightarrow> i < length xs \<Longrightarrow> f (xs ! i) = Inr (ys ! i)"
proof (induction xs arbitrary: ys i)
  case (Cons x xs)
  then show ?case by (cases i) (auto split: sum.splits)
qed simp

lemma map_res_set:
  "map_res f xs = Inr ys \<Longrightarrow> y \<in> set ys \<Longrightarrow> \<exists>x \<in> set xs. f x = Inr y"
  by (induction xs arbitrary: ys) (auto split: sum.splits)

lemma map_res_Inr_iff:
  "(\<exists>ys. map_res f xs = Inr ys) \<longleftrightarrow> (\<forall>x \<in> set xs. \<exists>y. f x = Inr y)"
  by (induction xs) (auto split: sum.splits)

lemma map_res_total: "(\<And>x. x \<in> set xs \<Longrightarrow> f x = Inr (g x)) \<Longrightarrow> map_res f xs = Inr (map g xs)"
  by (induction xs) auto

lemma ex_nat_split: "(\<exists>n. P n) \<longleftrightarrow> P 0 \<or> (\<exists>n. P (Suc n))"
  by (metis not0_implies_Suc)

section \<open>Order-preserving de-duplication\<close>

fun uniq_acc :: "'a list \<Rightarrow> 'a list \<Rightarrow> 'a list" where
  "uniq_acc seen [] = []"
| "uniq_acc seen (x # xs) = (if x \<in> set seen then uniq_acc seen xs else x # uniq_acc (x # seen) xs)"

text \<open>Keep the first occurrence of every element, in order.\<close>

definition ordered_unique :: "'a list \<Rightarrow> 'a list" where
  "ordered_unique xs = uniq_acc [] xs"

lemma set_uniq_acc: "set (uniq_acc seen xs) = set xs - set seen"
  by (induction seen xs rule: uniq_acc.induct) auto

lemma distinct_uniq_acc: "distinct (uniq_acc seen xs)"
  by (induction seen xs rule: uniq_acc.induct) (auto simp: set_uniq_acc)

lemma set_ordered_unique [simp]: "set (ordered_unique xs) = set xs"
  by (simp add: ordered_unique_def set_uniq_acc)

lemma distinct_ordered_unique [simp]: "distinct (ordered_unique xs)"
  by (simp add: ordered_unique_def distinct_uniq_acc)

lemma ordered_unique_Nil [simp]: "ordered_unique [] = []"
  by (simp add: ordered_unique_def)

lemma uniq_acc_distinct: "distinct xs \<Longrightarrow> set xs \<inter> set seen = {} \<Longrightarrow> uniq_acc seen xs = xs"
  by (induction seen xs rule: uniq_acc.induct) auto

lemma ordered_unique_distinct: "distinct xs \<Longrightarrow> ordered_unique xs = xs"
  by (simp add: ordered_unique_def uniq_acc_distinct)

lemma ordered_unique_eq_Nil [simp]: "ordered_unique xs = [] \<longleftrightarrow> xs = []"
  by (metis ordered_unique_Nil set_empty set_ordered_unique)

section \<open>The first free index\<close>

text \<open>
  \<open>while f(k) in taken: k += 1\<close>. With an injective \<open>f\<close> one of \<open>length taken + 1\<close> candidates is free, so
  the bounded search is the loop.
\<close>

definition fresh_index :: "(nat \<Rightarrow> 'a) \<Rightarrow> 'a list \<Rightarrow> nat \<Rightarrow> nat" where
  "fresh_index f taken k =
     (case List.find (\<lambda>i. f i \<notin> set taken) [k..<k + length taken + 1] of None \<Rightarrow> k | Some i \<Rightarrow> i)"

lemma fresh_index:
  assumes "inj f"
  shows "f (fresh_index f taken k) \<notin> set taken \<and> k \<le> fresh_index f taken k \<and>
         (\<forall>i. k \<le> i \<longrightarrow> i < fresh_index f taken k \<longrightarrow> f i \<in> set taken)"
proof -
  let ?is = "[k..<k + length taken + 1]"
  have "\<not> f ` set ?is \<subseteq> set taken"
  proof
    assume "f ` set ?is \<subseteq> set taken"
    then have "card (f ` set ?is) \<le> card (set taken)" by (rule card_mono [OF finite_set])
    moreover have "card (f ` set ?is) = length taken + 1"
    proof -
      have "inj_on f (set ?is)" using assms by (rule inj_on_subset) simp
      then have "card (f ` set ?is) = card (set ?is)" by (rule card_image)
      then show ?thesis by (simp del: upt_Suc)
    qed
    ultimately show False using card_length [of taken] by simp
  qed
  then obtain i where i: "List.find (\<lambda>i. f i \<notin> set taken) ?is = Some i"
    by (cases "List.find (\<lambda>i. f i \<notin> set taken) ?is") (auto simp: find_None_iff simp del: upt_Suc)
  then have e: "fresh_index f taken k = i" unfolding fresh_index_def by (simp only: option.case)
  from i obtain n where n: "n < length ?is" "f (?is ! n) \<notin> set taken" "i = ?is ! n"
      "\<forall>j < n. \<not> f (?is ! j) \<notin> set taken"
    unfolding find_Some_iff by blast
  have nth: "?is ! j = k + j" if "j < length ?is" for j using that by (simp del: upt_Suc)
  have i_eq: "i = k + n" using n(1,3) nth by simp
  have "f j \<in> set taken" if "k \<le> j" "j < i" for j
    using n(4) [rule_format, of "j - k"] nth [of "j - k"] n(1) that i_eq by simp
  with n(2,3) i_eq show ?thesis unfolding e by auto
qed

section \<open>Sorted sets of integers\<close>

text \<open>Python's \<open>sorted(set(...))\<close>.\<close>

definition sorted_set :: "'a::linorder list \<Rightarrow> 'a list" where
  "sorted_set xs = sort (remdups xs)"

lemma sorted_sorted_set [simp]: "sorted (sorted_set xs)"
  by (simp add: sorted_set_def)

lemma set_sorted_set [simp]: "set (sorted_set xs) = set xs"
  by (simp add: sorted_set_def)

lemma distinct_sorted_set [simp]: "distinct (sorted_set xs)"
  by (simp add: sorted_set_def)

lemma sorted_set_eqI:
  assumes "set xs = set ys"
  shows "sorted_set xs = sorted_set ys"
  by (rule sorted_distinct_set_unique) (simp_all add: assms)

section \<open>Text\<close>

text \<open>\<open>str(n)\<close> of an integer, and \<open>sep.join(xs)\<close>.\<close>

fun str_nat :: "nat \<Rightarrow> string" where
  "str_nat n = (if n < 10 then [char_of (48 + n)] else str_nat (n div 10) @ [char_of (48 + n mod 10)])"

declare str_nat.simps [simp del]

definition str_int :: "int \<Rightarrow> string" where
  "str_int i = (if i < 0 then CHR ''-'' # str_nat (nat (- i)) else str_nat (nat i))"

fun join :: "string \<Rightarrow> string list \<Rightarrow> string" where
  "join sep [] = []"
| "join sep [x] = x"
| "join sep (x # y # zs) = x @ sep @ join sep (y # zs)"

text \<open>\<open>str.isdigit\<close> and \<open>int(...)\<close> on ASCII digits.\<close>

definition is_digit :: "char \<Rightarrow> bool" where
  "is_digit c = (48 \<le> (of_char c :: nat) \<and> (of_char c :: nat) \<le> 57)"

definition isdigit :: "string \<Rightarrow> bool" where
  "isdigit s = (s \<noteq> [] \<and> list_all is_digit s)"

definition digits_val :: "string \<Rightarrow> nat" where
  "digits_val s = foldl (\<lambda>n c. n * 10 + ((of_char c :: nat) - 48)) 0 s"

lemma of_char_char_of_digit [simp]:
  "d < 10 \<Longrightarrow> (of_char (char_of (48 + d) :: char) :: nat) = 48 + d"
  by simp

lemma str_nat_nonempty [simp]: "str_nat n \<noteq> []"
  by (subst str_nat.simps) simp

lemma str_nat_digits: "list_all is_digit (str_nat n)"
proof (induction n rule: str_nat.induct)
  case (1 n)
  show ?case
  proof (cases "n < 10")
    case True
    then show ?thesis by (subst str_nat.simps) (simp add: is_digit_def)
  next
    case False
    with "1.IH" have "list_all is_digit (str_nat (n div 10))" by simp
    moreover have "is_digit (char_of (48 + n mod 10))"
      using of_char_char_of_digit [of "n mod 10"] by (simp add: is_digit_def)
    ultimately show ?thesis using False by (subst str_nat.simps) simp
  qed
qed

lemma isdigit_str_nat [simp, str_simps]: "isdigit (str_nat n)"
  by (simp add: isdigit_def str_nat_digits)

lemma digits_val_append1: "digits_val (s @ [c]) = digits_val s * 10 + ((of_char c :: nat) - 48)"
  by (simp add: digits_val_def)

lemma digits_val_str_nat [simp, str_simps]: "digits_val (str_nat n) = n"
proof (induction n rule: str_nat.induct)
  case (1 n)
  show ?case
  proof (cases "n < 10")
    case True
    then show ?thesis
      by (subst str_nat.simps) (simp add: digits_val_def)
  next
    case False
    with "1.IH" have ih: "digits_val (str_nat (n div 10)) = n div 10" by simp
    have "digits_val (str_nat n) = digits_val (str_nat (n div 10) @ [char_of (48 + n mod 10)])"
      using False by (subst str_nat.simps) simp
    also have "\<dots> = (n div 10) * 10 + n mod 10"
      using of_char_char_of_digit [of "n mod 10"] by (simp add: digits_val_append1 ih)
    also have "\<dots> = n" by simp
    finally show ?thesis .
  qed
qed

lemma str_nat_inject [simp, str_simps]: "str_nat m = str_nat n \<longleftrightarrow> m = n"
  by (metis digits_val_str_nat)

lemma str_nat_no_minus: "CHR ''-'' \<notin> set (str_nat n)"
  using str_nat_digits [of n] by (auto simp: list_all_iff is_digit_def)

lemma str_int_inject [simp, str_simps]: "str_int i = str_int j \<longleftrightarrow> i = j"
proof
  assume eq: "str_int i = str_int j"
  have "hd (str_nat n) \<noteq> CHR ''-''" for n
    using str_nat_no_minus [of n] str_nat_nonempty [of n] by (metis hd_in_set)
  with eq show "i = j"
    by (auto simp: str_int_def split: if_splits) (metis list.sel(1))+
qed simp

text \<open>Character classes as membership in a list, which evaluates faster.\<close>

lemma char_range: "b \<le> 256 \<Longrightarrow> a \<le> (of_char c :: nat) \<and> of_char c < b \<longleftrightarrow> c \<in> set (map char_of [a..<b])"
proof
  assume "a \<le> (of_char c :: nat) \<and> of_char c < b"
  then have "(of_char c :: nat) \<in> set [a..<b]" by simp
  then have "char_of (of_char c :: nat) \<in> set (map char_of [a..<b])" unfolding set_map by (rule imageI)
  then show "c \<in> set (map char_of [a..<b])" by simp
next
  assume "b \<le> 256" "c \<in> set (map char_of [a..<b])"
  then show "a \<le> (of_char c :: nat) \<and> of_char c < b" by auto
qed

lemma is_digit_code [code]: "is_digit c \<longleftrightarrow> c \<in> set ''0123456789''"
proof -
  have "map char_of [48..<58::nat] = ''0123456789''" by code_simp
  then show ?thesis unfolding is_digit_def using char_range [of 58 48 c] by auto
qed

section \<open>Text of generated files\<close>

definition newline :: string where
  "newline = [CHR 0x0A]"

text \<open>\<open>s.replace(".", "_").replace("-", "_")\<close> and \<open>s.upper()\<close> on ASCII text.\<close>

definition c_ident :: "string \<Rightarrow> string" where
  "c_ident s = map (\<lambda>c. if c = CHR ''.'' \<or> c = CHR ''-'' then CHR ''_'' else c) s"

definition upper_char :: "char \<Rightarrow> char" where
  "upper_char c = (if 97 \<le> (of_char c :: nat) \<and> (of_char c :: nat) \<le> 122 then char_of ((of_char c :: nat) - 32) else c)"

definition upper :: "string \<Rightarrow> string" where
  "upper s = map upper_char s"

definition lower_char :: "char \<Rightarrow> char" where
  "lower_char c = (if 65 \<le> (of_char c :: nat) \<and> (of_char c :: nat) \<le> 90 then char_of ((of_char c :: nat) + 32) else c)"

definition lower :: "string \<Rightarrow> string" where
  "lower s = map lower_char s"

text \<open>\<open>os.path.join\<close> of two parts.\<close>

definition path_join :: "string \<Rightarrow> string \<Rightarrow> string" where
  "path_join a b =
     (if b \<noteq> [] \<and> hd b = CHR ''/'' then b
      else if a = [] \<or> last a = CHR ''/'' then a @ b else a @ ''/'' @ b)"

section \<open>Splitting text\<close>

definition is_space :: "char \<Rightarrow> bool" where
  "is_space c = (of_char c \<in> {9 :: nat, 10, 11, 12, 13, 28, 29, 30, 31, 32})"

lemma is_space_code [code]:
  "is_space c \<longleftrightarrow> c \<in> set [CHR 0x09, CHR 0x0A, CHR 0x0B, CHR 0x0C, CHR 0x0D, CHR 0x1C, CHR 0x1D, CHR 0x1E, CHR 0x1F, CHR '' '']"
proof -
  have m: "map char_of [9..<14::nat] = [CHR 0x09, CHR 0x0A, CHR 0x0B, CHR 0x0C, CHR 0x0D]"
    "map char_of [28..<33::nat] = [CHR 0x1C, CHR 0x1D, CHR 0x1E, CHR 0x1F, CHR '' '']" by code_simp+
  have "(of_char c :: nat) \<in> set ([9..<14] @ [28..<33]) \<longleftrightarrow> is_space c" by (simp add: is_space_def)
  moreover have "(of_char c :: nat) \<in> set ([9..<14] @ [28..<33]) \<longleftrightarrow>
      9 \<le> (of_char c :: nat) \<and> of_char c < (14 :: nat) \<or> 28 \<le> (of_char c :: nat) \<and> of_char c < (33 :: nat)"
    by (simp only: set_append Un_iff set_upt atLeastLessThan_iff)
  moreover have "9 \<le> (of_char c :: nat) \<and> of_char c < (14 :: nat) \<longleftrightarrow> c \<in> set [CHR 0x09, CHR 0x0A, CHR 0x0B, CHR 0x0C, CHR 0x0D]"
    "28 \<le> (of_char c :: nat) \<and> of_char c < (33 :: nat) \<longleftrightarrow> c \<in> set [CHR 0x1C, CHR 0x1D, CHR 0x1E, CHR 0x1F, CHR '' '']"
    using char_range [of 14 9 c] char_range [of 33 28 c] unfolding m by (simp_all only: numeral_le_iff semiring_norm)
  ultimately have "is_space c \<longleftrightarrow> c \<in> set ([CHR 0x09, CHR 0x0A, CHR 0x0B, CHR 0x0C, CHR 0x0D] @ [CHR 0x1C, CHR 0x1D, CHR 0x1E, CHR 0x1F, CHR '' ''])"
    by (simp only: set_append Un_iff)
  then show ?thesis by (simp only: append.simps)
qed

text \<open>\<open>s.split(sep)\<close> for one character, and \<open>s.strip()\<close>.\<close>

fun split_on :: "char \<Rightarrow> string \<Rightarrow> string list" where
  "split_on sep [] = [[]]"
| "split_on sep (c # cs) =
     (if c = sep then [] # split_on sep cs
      else (case split_on sep cs of [] \<Rightarrow> [[c]] | w # ws \<Rightarrow> (c # w) # ws))"

text \<open>\<open>p in s\<close>.\<close>

definition contains :: "string \<Rightarrow> string \<Rightarrow> bool" where
  "contains s p = list_ex (prefix p) (suffixes s)"

definition strip :: "string \<Rightarrow> string" where
  "strip s = rev (dropWhile is_space (rev (dropWhile is_space s)))"

end
