(* ===== verification/Json.thy ===== *)
theory Json
  imports Prelude
begin

text \<open>
  JSON values as Python's \<open>json\<close> reads them: numbers without a fraction are unbounded integers, the others IEEE doubles,
  kept as their 64 bits. The helpers are the \<open>isinstance\<close> tests the sources use (a bool is not accepted as an int).
\<close>

datatype json =
    J_Null
  | J_Bool bool
  | J_Int int
  | J_Float nat
  | J_Str string
  | J_List "json list"
  | J_Obj "(string \<times> json) list"

definition finite_double :: "nat \<Rightarrow> bool" where
  "finite_double b = ((b div 2 ^ 52) mod 2 ^ 11 \<noteq> 2047)"

fun as_int :: "json \<Rightarrow> int option" where
  "as_int (J_Int i) = Some i"
| "as_int _ = None"

fun as_str :: "json \<Rightarrow> string option" where
  "as_str (J_Str s) = Some s"
| "as_str _ = None"

fun as_ints :: "json \<Rightarrow> int list option" where
  "as_ints (J_List xs) = those (map as_int xs)"
| "as_ints _ = None"

lemma those_Some_iff: "those xs = Some ys \<longleftrightarrow> xs = map Some ys"
proof (induction xs arbitrary: ys)
  case (Cons x xs)
  then show ?case by (cases x; cases ys) auto
qed auto

lemma as_int_Some: "as_int j = Some i \<longleftrightarrow> j = J_Int i" by (cases j) auto

lemma as_str_Some: "as_str j = Some s \<longleftrightarrow> j = J_Str s" by (cases j) auto

lemma as_ints_ints [simp]: "as_ints (J_List (map J_Int is)) = Some is"
  by (simp add: those_Some_iff comp_def)

text \<open>The arguments of a node are smaller than the node.\<close>

lemma size_in_field:
  assumes "map_of kvs k = Some (J_List xs)" "x \<in> set xs"
  shows "size x < size (J_Obj kvs)"
proof -
  from assms(1) have "(k, J_List xs) \<in> set kvs" by (rule map_of_SomeD)
  then have "size (snd (k, J_List xs)) \<le> size_list (\<lambda>p. size (snd p)) kvs"
    using size_list_estimation' [of _ kvs _ "\<lambda>p. size (snd p)"] by blast
  moreover have "size_list (\<lambda>p. size (snd p)) kvs \<le> size_list (size_prod (\<lambda>_. 0) size) kvs"
    by (rule size_list_pointwise) (auto simp: prod.size split: prod.splits)
  moreover have "size x < size (J_List xs)" using assms(2) by (induction xs) auto
  ultimately show ?thesis by simp
qed

end
