(* ===== verification/Graph_IR.thy ===== *)
theory Graph_IR
  imports Json
begin

text \<open>
  The intermediate representation every component works on: the \<open>graph.json\<close> document of
  \<^verbatim>\<open>pipeline/extract_graph.py\<close> (its header gives the schema). A JSON object is a record; a key
  read through \<open>.get(key, [])\<close> is a list that is empty when the key is absent, any other
  optional key is an \<open>option\<close>. A number the passes only move (a scale) is kept as its JSON
  text; the shape of a fused op (a dictionary of the shapes of its stages) is \<open>stage_shapes\<close>, the list
  \<open>shape["C_inputs"]\<close> is \<open>c_inputs\<close>; \<open>null_dispatch\<close> says that the
  key \<open>dispatch_id\<close> is there and \<open>null\<close> (a view), not absent; every other key of an op, which the passes copy unread, is in \<open>extra\<close>.
  Derivations of weights are kept as JSON (\<open>Derivation\<close> reads them); a document that spells a number as \<open>1\<close> and one that
  spells it \<open>1.0\<close> differ here.
\<close>

section \<open>Operations\<close>

text \<open>\<open>split_from\<close> of a tile: the op it was cut from, its position and its width on the axis.\<close>

datatype split_tag =
    Tile_N (tag_op: int) (tag_tile: int) (tag_n_splits: int) (tag_width: int) (tag_offset: int)
  | Tile_OC (tag_op: int) (tag_tile: int) (tag_n_splits: int) (tag_width: int) (tag_offset: int)

text \<open>\<open>unfused_from\<close> of a restored op.\<close>

record unfuse_tag =
  un_op_id :: int
  un_piece :: nat
  un_n_pieces :: nat
  un_fused_op :: string

record op_fields =
  name :: string
  op_kind :: string
  inputs :: "string list"
  outputs :: "string list"
  dispatch_id :: "int option"
  null_dispatch :: bool
  depends_on :: "int list"
  hardware_target :: "string option"
  shape :: "(string, int) dict option"
  quant :: "(string, string) dict option"
  offset :: int
  internal :: "string list"
  internal_tensors :: "string list"
  fused_from :: "int list option"
  split_from :: "split_tag option"
  unfused_from :: "unfuse_tag option"
  shard_factor :: "int option"
  schedule_marker :: bool
  folded :: "string list option"
  stage_shapes :: "(string, (string, int) dict) dict"
  c_inputs :: "int list option"
  extra :: "(string, string) dict"

text \<open>An op with the ops it was fused from: \<open>sub_ops\<close> is \<open>None\<close> when the key is absent.\<close>

datatype op = Op (flds: op_fields) (sub_ops: "op list option")

definition upd :: "(op_fields \<Rightarrow> op_fields) \<Rightarrow> op \<Rightarrow> op" where
  "upd f x = Op (f (flds x)) (sub_ops x)"

lemma flds_upd [simp]: "flds (upd f x) = f (flds x)"
  by (simp add: upd_def)

lemma sub_ops_upd [simp]: "sub_ops (upd f x) = sub_ops x"
  by (simp add: upd_def)

text \<open>\<open>op.get("sub_ops") or []\<close>.\<close>

definition subs :: "op \<Rightarrow> op list" where
  "subs x = (case sub_ops x of None \<Rightarrow> [] | Some xs \<Rightarrow> xs)"

lemma subs_upd [simp]: "subs (upd f x) = subs x"
  by (simp add: subs_def)

abbreviation o_name :: "op \<Rightarrow> string" where "o_name x \<equiv> name (flds x)"
abbreviation o_kind :: "op \<Rightarrow> string" where "o_kind x \<equiv> op_kind (flds x)"
abbreviation o_ins :: "op \<Rightarrow> string list" where "o_ins x \<equiv> inputs (flds x)"
abbreviation o_outs :: "op \<Rightarrow> string list" where "o_outs x \<equiv> outputs (flds x)"
abbreviation o_did :: "op \<Rightarrow> int option" where "o_did x \<equiv> dispatch_id (flds x)"
abbreviation o_deps :: "op \<Rightarrow> int list" where "o_deps x \<equiv> depends_on (flds x)"
abbreviation o_target :: "op \<Rightarrow> string option" where "o_target x \<equiv> hardware_target (flds x)"

text \<open>An op with every optional key absent, for concrete graphs.\<close>

definition plain_fields :: "string \<Rightarrow> string \<Rightarrow> string list \<Rightarrow> string list \<Rightarrow> op_fields" where
  "plain_fields nm kd is os =
     \<lparr>name = nm, op_kind = kd, inputs = is, outputs = os, dispatch_id = None, null_dispatch = False, depends_on = [],
      hardware_target = None, shape = None, quant = None, offset = 0, internal = [],
      internal_tensors = [], fused_from = None, split_from = None, unfused_from = None,
      shard_factor = None, schedule_marker = False, folded = None,
      stage_shapes = [], c_inputs = None, extra = []\<rparr>"

definition mk_op :: "string \<Rightarrow> string \<Rightarrow> int option \<Rightarrow> int list \<Rightarrow> string list \<Rightarrow> string list \<Rightarrow> op" where
  "mk_op nm kd did deps is os =
     Op (plain_fields nm kd is os\<lparr>dispatch_id := did, depends_on := deps\<rparr>) None"

lemma mk_op_sel [simp]:
  "o_name (mk_op nm kd did deps is os) = nm" "o_kind (mk_op nm kd did deps is os) = kd"
  "o_did (mk_op nm kd did deps is os) = did" "o_deps (mk_op nm kd did deps is os) = deps"
  "o_ins (mk_op nm kd did deps is os) = is" "o_outs (mk_op nm kd did deps is os) = os"
  "sub_ops (mk_op nm kd did deps is os) = None" "subs (mk_op nm kd did deps is os) = []"
  by (simp_all add: mk_op_def plain_fields_def subs_def)

section \<open>Tensors and graphs\<close>

record tensor =
  t_shape :: "int list option"
  t_dtype :: "string option"
  t_quant :: "(string, string) dict option"
  t_const :: bool
  t_split_from :: "(string \<times> nat \<times> int) option"
  t_unfused_from :: "(int \<times> string) option"

definition plain_tensor :: "int list \<Rightarrow> tensor" where
  "plain_tensor sh = \<lparr>t_shape = Some sh, t_dtype = None, t_quant = None, t_const = False,
                      t_split_from = None, t_unfused_from = None\<rparr>"

text \<open>\<open>id_remap\<close> holds one id per key after a fusion and a list of ids after a split or unfuse.\<close>

datatype remap = To_One int | To_Many "int list"

record shard_record =
  sr_dispatch_id :: int
  sr_op :: string
  sr_oc :: int
  sr_n_shards :: int

record graph =
  g_name :: "string option"
  ops :: "op list"
  tensors :: "(string, tensor) dict"
  input_tensor :: string
  packed_inputs :: "string list"
  output_tensor :: "string option"
  output_tensors :: "string list"
  dispatches :: "int list option"
  id_remap :: "(int, remap) dict option"
  rewrite_shard :: "shard_record list"
  rewrite_schedule :: "(string \<times> shard_record list) option"
  weight_derivations :: "(string, json) dict"
  weight_dtypes :: "(string, string) dict"
  g_quant :: "string option"

definition plain_graph :: "op list \<Rightarrow> string list \<Rightarrow> graph" where
  "plain_graph xs outs =
     \<lparr>g_name = Some ''m'', ops = xs, tensors = [], input_tensor = ''x'', packed_inputs = [],
      output_tensor = None, output_tensors = outs, dispatches = None, id_remap = None,
      rewrite_shard = [], rewrite_schedule = None, weight_derivations = [], weight_dtypes = [], g_quant = None\<rparr>"

text \<open>\<open>out.get("name", "<unknown>")\<close>.\<close>

definition network_name :: "graph \<Rightarrow> string" where
  "network_name g = (case g_name g of None \<Rightarrow> ''<unknown>'' | Some n \<Rightarrow> n)"

section \<open>Dispatch ids\<close>

text \<open>The ids of the ops that are dispatches (views carry none), in order.\<close>

definition dids :: "op list \<Rightarrow> int list" where
  "dids xs = List.map_filter o_did xs"

lemma dids_Nil [simp]: "dids [] = []"
  by (simp add: dids_def List.map_filter_def)

lemma dids_Cons [simp]:
  "dids (x # xs) = (case o_did x of None \<Rightarrow> dids xs | Some d \<Rightarrow> d # dids xs)"
  by (simp add: dids_def List.map_filter_def split: option.splits)

lemma dids_append [simp]: "dids (xs @ ys) = dids xs @ dids ys"
  by (induction xs) (auto split: option.splits)

lemma set_dids: "set (dids xs) = {d. \<exists>x \<in> set xs. o_did x = Some d}"
  by (induction xs) (auto split: option.splits)

lemma in_dids_iff: "d \<in> set (dids xs) \<longleftrightarrow> (\<exists>x \<in> set xs. o_did x = Some d)"
  by (simp add: set_dids)

text \<open>\<open>{op["dispatch_id"]: op for op in ops if op.get("dispatch_id") is not None}\<close>.\<close>

definition id_pairs :: "op list \<Rightarrow> (int \<times> op) list" where
  "id_pairs xs = List.map_filter (\<lambda>x. map_option (\<lambda>d. (d, x)) (o_did x)) xs"

definition ops_by_id :: "op list \<Rightarrow> (int, op) dict" where
  "ops_by_id xs = dict_of (id_pairs xs)"

lemma id_pairs_Nil [simp]: "id_pairs [] = []"
  by (simp add: id_pairs_def List.map_filter_def)

lemma id_pairs_Cons [simp]:
  "id_pairs (x # xs) = (case o_did x of None \<Rightarrow> id_pairs xs | Some d \<Rightarrow> (d, x) # id_pairs xs)"
  by (simp add: id_pairs_def List.map_filter_def split: option.splits)

lemma map_fst_id_pairs [simp]: "map fst (id_pairs xs) = dids xs"
  by (induction xs) (auto split: option.splits)

lemma in_id_pairs: "(d, x) \<in> set (id_pairs xs) \<longleftrightarrow> x \<in> set xs \<and> o_did x = Some d"
  by (induction xs) (auto split: option.splits)

lemma keys_ops_by_id: "set (keys (ops_by_id xs)) = set (dids xs)"
  unfolding ops_by_id_def by (simp flip: map_fst_id_pairs)

lemma ops_by_id_in: "map_of (ops_by_id xs) d = Some x \<Longrightarrow> x \<in> set xs \<and> o_did x = Some d"
  by (auto simp: ops_by_id_def map_of_dict_of in_id_pairs dest!: map_of_SomeD)

lemma ops_by_id_Some_iff:
  "(\<exists>x. map_of (ops_by_id xs) d = Some x) \<longleftrightarrow> d \<in> set (dids xs)"
  by (metis has_key_def has_key_iff keys_ops_by_id not_None_eq)

lemma ops_by_id_distinct: "distinct (dids xs) \<Longrightarrow> ops_by_id xs = id_pairs xs"
  by (simp add: ops_by_id_def dict_of_distinct)

lemma map_of_ops_by_id:
  assumes "distinct (dids xs)" "x \<in> set xs" "o_did x = Some d"
  shows "map_of (ops_by_id xs) d = Some x"
  using assms by (simp add: ops_by_id_distinct in_id_pairs)

section \<open>The dependency relation of a graph\<close>

text \<open>
  \<open>(d, e)\<close>: the dispatch \<open>e\<close> lists \<open>d\<close> in its \<open>depends_on\<close>, and \<open>d\<close> is a dispatch of the
  graph.
\<close>

definition dep_rel :: "op list \<Rightarrow> (int \<times> int) set" where
  "dep_rel xs = {(d, e). \<exists>x \<in> set xs. o_did x = Some e \<and> d \<in> set (o_deps x) \<and> d \<in> set (dids xs)}"

text \<open>Every dependency of the graph points to an earlier dispatch id.\<close>

definition backward :: "op list \<Rightarrow> bool" where
  "backward xs = (\<forall>x \<in> set xs. case o_did x of None \<Rightarrow> True | Some e \<Rightarrow> \<forall>d \<in> set (o_deps x). d < e)"

lemma backward_acyclic:
  assumes "backward xs"
  shows "acyclic (dep_rel xs)"
proof (rule acyclicI_order [where f = "\<lambda>d. - d"])
  fix a b assume "(a, b) \<in> dep_rel xs"
  with assms have "a < b" by (fastforce simp: dep_rel_def backward_def)
  then show "- b < - a" by simp
qed

section \<open>What running a graph computes\<close>

text \<open>
  The generated driver calls the kernels in list order on named buffers. \<open>kern\<close> stands for the
  kernels: from an op and the values of its inputs, the values of its outputs.
\<close>

definition run_op :: "(op \<Rightarrow> 'v list \<Rightarrow> 'v list) \<Rightarrow> op \<Rightarrow> (string \<Rightarrow> 'v) \<Rightarrow> string \<Rightarrow> 'v" where
  "run_op kern x env = (\<lambda>t. case map_of (zip (o_outs x) (kern x (map env (o_ins x)))) t of
                               None \<Rightarrow> env t | Some v \<Rightarrow> v)"

fun run_ops :: "(op \<Rightarrow> 'v list \<Rightarrow> 'v list) \<Rightarrow> op list \<Rightarrow> (string \<Rightarrow> 'v) \<Rightarrow> string \<Rightarrow> 'v" where
  "run_ops kern [] env = env"
| "run_ops kern (x # xs) env = run_ops kern xs (run_op kern x env)"

lemma run_op_other: "t \<notin> set (o_outs x) \<Longrightarrow> run_op kern x env t = env t"
  by (auto simp: run_op_def split: option.splits dest!: map_of_SomeD set_zip_leftD)

lemma run_op_cong:
  assumes "\<And>t. t \<in> set (o_ins x) \<Longrightarrow> env1 t = env2 t" and "env1 t = env2 t"
  shows "run_op kern x env1 t = run_op kern x env2 t"
proof -
  have "map env1 (o_ins x) = map env2 (o_ins x)" using assms(1) by simp
  then show ?thesis unfolding run_op_def using assms(2) by (simp only:)
qed

lemma run_ops_append: "run_ops kern (xs @ ys) env = run_ops kern ys (run_ops kern xs env)"
  by (induction xs arbitrary: env) auto

end
