(* ===== verification/Reachability.thy ===== *)
theory Reachability
  imports Prelude
begin

text \<open>
  The graph search of the fusion validator (\<^verbatim>\<open>_closure\<close> of \<^verbatim>\<open>pipeline/apply_fusion_hint.py\<close>),
  proved to compute the proper descendants of its seeds, and the quotient argument behind
  fusing a closed set of nodes into one.
\<close>

section \<open>The search\<close>

definition edge_rel :: "('a, 'a list) dict \<Rightarrow> ('a \<times> 'a) set" where
  "edge_rel edges = {(a, b). b \<in> set (get_or edges a [])}"

text \<open>
  The inner loop of the search: mark every neighbour not reached yet with the seed the
  search came from and push it. The stack is kept with its top at the head.
\<close>

fun visit :: "'s \<Rightarrow> 'a list \<Rightarrow> ('a, 's) dict \<Rightarrow> ('a \<times> 's) list \<Rightarrow> ('a, 's) dict \<times> ('a \<times> 's) list" where
  "visit seed [] reached frontier = (reached, frontier)"
| "visit seed (nxt # nxts) reached frontier =
     (if has_key reached nxt then visit seed nxts reached frontier
      else visit seed nxts (AList.update nxt seed reached) ((nxt, seed) # frontier))"

lemma visit_keys:
  "visit seed nxts r f = (r', f') \<Longrightarrow> set (keys r') = set (keys r) \<union> set nxts"
  by (induction seed nxts r f rule: visit.induct) (auto simp: keys_update has_key_iff split: if_splits)

lemma visit_frontier:
  "visit seed nxts r f = (r', f') \<Longrightarrow> fst ` set f' = fst ` set f \<union> (set nxts - set (keys r))"
  by (induction seed nxts r f rule: visit.induct) (auto simp: keys_update has_key_iff split: if_splits)

lemma visit_measure:
  assumes "visit seed nxts r f = (r', f')" "finite U" "set nxts \<subseteq> U"
  shows "length f' + card (U - set (keys r')) = length f + card (U - set (keys r))"
  using assms(1,3)
proof (induction seed nxts r f rule: visit.induct)
  case (2 seed nxt nxts r f)
  show ?case
  proof (cases "has_key r nxt")
    case False
    with 2 have "length f' + card (U - set (keys r')) =
        Suc (length f) + card (U - insert nxt (set (keys r)))"
      by (simp add: keys_update)
    moreover have "U - insert nxt (set (keys r)) = (U - set (keys r)) - {nxt}" by auto
    moreover have "nxt \<in> U - set (keys r)"
      using False "2.prems" by (auto simp: has_key_iff)
    moreover have "card (U - set (keys r)) > 0"
      using \<open>nxt \<in> U - set (keys r)\<close> \<open>finite U\<close> by (auto simp: card_gt_0_iff)
    ultimately show ?thesis by simp
  qed (use 2 in simp)
qed simp

definition targets :: "('a, 'a list) dict \<Rightarrow> 'a set" where
  "targets edges = (\<Union>xs \<in> snd ` set edges. set xs)"

lemma finite_targets [simp]: "finite (targets edges)"
  by (simp add: targets_def)

lemma get_or_targets: "set (get_or edges a []) \<subseteq> targets edges"
proof (cases "map_of edges a")
  case (Some xs)
  then have "(a, xs) \<in> set edges" by (rule map_of_SomeD)
  with Some show ?thesis by (force simp: get_or_def targets_def)
qed (simp add: get_or_def)

function closure_loop ::
  "('a, 'a list) dict \<Rightarrow> ('a \<times> 's) list \<Rightarrow> ('a, 's) dict \<Rightarrow> ('a, 's) dict" where
  "closure_loop edges [] reached = reached"
| "closure_loop edges ((node, seed) # frontier) reached =
     (let st = visit seed (get_or edges node []) reached frontier
      in closure_loop edges (snd st) (fst st))"
  by pat_completeness auto
termination
proof (relation "measure (\<lambda>(edges, f, r). length f + card (targets edges - set (keys r)))")
  fix edges :: "('a, 'a list) dict" and node and seed :: 's and f r st
  assume st: "st = visit seed (get_or edges node []) r f"
  then have "length (snd st) + card (targets edges - set (keys (fst st))) =
      length f + card (targets edges - set (keys r))"
    by (intro visit_measure [OF _ finite_targets get_or_targets]) auto
  then show "((edges, snd st, fst st), (edges, (node, seed) # f, r)) \<in>
      measure (\<lambda>(edges, f, r). length f + card (targets edges - set (keys r)))"
    by simp
qed simp

text \<open>The seeds are pushed in the order the caller's set iterates.\<close>

definition closure :: "'a list \<Rightarrow> ('a, 'a list) dict \<Rightarrow> ('a, 'a) dict" where
  "closure seeds edges = closure_loop edges (rev (map (\<lambda>s. (s, s)) seeds)) []"

section \<open>The search is complete and every witness is a real one\<close>

text \<open>
  Invariant of the loop: what is marked is reachable from the seed it is marked with, what is on
  the stack is a seed or marked, and every marked node or seed that is not on the stack has all
  its neighbours marked.
\<close>

definition search_inv ::
  "'a set \<Rightarrow> ('a, 'a list) dict \<Rightarrow> ('a \<times> 'a) list \<Rightarrow> ('a, 'a) dict \<Rightarrow> bool" where
  "search_inv S edges f r \<longleftrightarrow>
     (\<forall>x s. map_of r x = Some s \<longrightarrow> s \<in> S \<and> (s, x) \<in> (edge_rel edges)\<^sup>+) \<and>
     (\<forall>(n, s) \<in> set f. s \<in> S \<and> (s, n) \<in> (edge_rel edges)\<^sup>*) \<and>
     (\<forall>n \<in> S \<union> set (keys r). n \<in> fst ` set f \<or> set (get_or edges n []) \<subseteq> set (keys r))"

lemma visit_map_of:
  "visit seed nxts r f = (r', f') \<Longrightarrow> map_of r' x = Some s \<Longrightarrow>
     map_of r x = Some s \<or> (x \<in> set nxts \<and> s = seed)"
  by (induction seed nxts r f rule: visit.induct) (auto split: if_splits)

lemma visit_stack:
  "visit seed nxts r f = (r', f') \<Longrightarrow> p \<in> set f' \<Longrightarrow>
     p \<in> set f \<or> (fst p \<in> set nxts \<and> snd p = seed)"
  by (induction seed nxts r f rule: visit.induct) (auto split: if_splits)

lemma search_inv_step:
  assumes inv: "search_inv S edges ((node, seed) # f) r"
    and v: "visit seed (get_or edges node []) r f = (r', f')"
  shows "search_inv S edges f' r'"
proof -
  let ?N = "get_or edges node []"
  have seed: "seed \<in> S" "(seed, node) \<in> (edge_rel edges)\<^sup>*"
    using inv by (auto simp: search_inv_def)
  have nbr: "(seed, x) \<in> (edge_rel edges)\<^sup>+" if "x \<in> set ?N" for x
    using seed(2) that by (auto simp: edge_rel_def intro: rtrancl_into_trancl1)
  have "s \<in> S \<and> (s, x) \<in> (edge_rel edges)\<^sup>+" if "map_of r' x = Some s" for x s
    using visit_map_of [OF v that] inv seed(1) nbr by (auto simp: search_inv_def)
  moreover have "s \<in> S \<and> (s, n) \<in> (edge_rel edges)\<^sup>*" if "(n, s) \<in> set f'" for n s
    using visit_stack [OF v that] inv seed(1) nbr
    by (auto simp: search_inv_def intro: trancl_into_rtrancl)
  moreover have "n \<in> fst ` set f' \<or> set (get_or edges n []) \<subseteq> set (keys r')"
    if n: "n \<in> S \<union> set (keys r')" for n
  proof (cases "n \<in> S \<union> set (keys r)")
    case True
    with inv have "n \<in> insert node (fst ` set f) \<or> set (get_or edges n []) \<subseteq> set (keys r)"
      by (auto simp: search_inv_def)
    then show ?thesis using visit_keys [OF v] visit_frontier [OF v] by auto
  next
    case False
    with n visit_keys [OF v] have "n \<in> set ?N - set (keys r)" by auto
    then show ?thesis using visit_frontier [OF v] by auto
  qed
  ultimately show ?thesis unfolding search_inv_def by blast
qed

lemma closure_loop_inv: "search_inv S edges f r \<Longrightarrow> search_inv S edges [] (closure_loop edges f r)"
proof (induction edges f r rule: closure_loop.induct)
  case (2 edges node seed f r)
  obtain r' f' where v: "visit seed (get_or edges node []) r f = (r', f')" by fastforce
  from search_inv_step [OF "2.prems" v] show ?case using "2.IH" v by simp
qed simp

lemma closure_inv: "search_inv (set seeds) edges [] (closure seeds edges)"
  unfolding closure_def
  by (rule closure_loop_inv) (auto simp: search_inv_def keys_def image_iff)

lemma closure_witness:
  assumes "map_of (closure seeds edges) x = Some s"
  shows "s \<in> set seeds" "(s, x) \<in> (edge_rel edges)\<^sup>+"
  using closure_inv [of seeds edges] assms by (auto simp: search_inv_def)

lemma closure_neighbours:
  assumes "a \<in> set seeds \<union> set (keys (closure seeds edges))" "(a, b) \<in> edge_rel edges"
  shows "b \<in> set (keys (closure seeds edges))"
proof -
  have "set (get_or edges a []) \<subseteq> set (keys (closure seeds edges))"
    using closure_inv [of seeds edges, unfolded search_inv_def, THEN conjunct2, THEN conjunct2]
      assms(1) by simp
  then show ?thesis using assms(2) by (auto simp: edge_rel_def)
qed

lemma closure_closed:
  assumes "(a, b) \<in> (edge_rel edges)\<^sup>+" "a \<in> set seeds"
  shows "b \<in> set (keys (closure seeds edges))"
  using assms
proof (induction rule: trancl_induct)
  case (base y)
  show ?case by (rule closure_neighbours [of a]) (use base in simp_all)
next
  case (step y z)
  show ?case by (rule closure_neighbours [of y]) (use step in simp_all)
qed

theorem keys_closure: "set (keys (closure seeds edges)) = (edge_rel edges)\<^sup>+ `` set seeds"
proof
  show "set (keys (closure seeds edges)) \<subseteq> (edge_rel edges)\<^sup>+ `` set seeds"
  proof
    fix x assume "x \<in> set (keys (closure seeds edges))"
    then have "map_of (closure seeds edges) x \<noteq> None"
      by (simp add: has_key_iff [symmetric] has_key_def)
    then obtain s where s: "map_of (closure seeds edges) x = Some s" by auto
    from closure_witness [OF s] show "x \<in> (edge_rel edges)\<^sup>+ `` set seeds" by (rule ImageI [rotated])
  qed
  show "(edge_rel edges)\<^sup>+ `` set seeds \<subseteq> set (keys (closure seeds edges))"
    using closure_closed by fast
qed

section \<open>Collapsing a closed set of nodes keeps a relation acyclic\<close>

text \<open>
  \<open>between E G x\<close>: \<open>x\<close> is outside \<open>G\<close> and lies on a path from one member of \<open>G\<close> to another.
\<close>

definition between :: "('a \<times> 'a) set \<Rightarrow> 'a set \<Rightarrow> 'a \<Rightarrow> bool" where
  "between E G x \<longleftrightarrow> x \<notin> G \<and> (\<exists>a \<in> G. (a, x) \<in> E\<^sup>+) \<and> (\<exists>b \<in> G. (x, b) \<in> E\<^sup>+)"

text \<open>The edges between different nodes after every member of \<open>G\<close> became one node.\<close>

definition collapse :: "('a \<Rightarrow> 'b) \<Rightarrow> 'a set \<Rightarrow> ('a \<times> 'a) set \<Rightarrow> ('b \<times> 'b) set" where
  "collapse r G E = {(r x, r y) |x y. (x, y) \<in> E \<and> \<not> (x \<in> G \<and> y \<in> G)}"

lemma collapse_path:
  assumes "(u, v) \<in> (collapse r G E)\<^sup>+"
    and inj: "\<And>x y. (x, y) \<in> E \<Longrightarrow> x \<in> A \<and> y \<in> A"
    and same: "\<And>x y. x \<in> A \<Longrightarrow> y \<in> A \<Longrightarrow> r x = r y \<Longrightarrow> x = y \<or> (x \<in> G \<and> y \<in> G)"
  shows "\<exists>x \<in> A. \<exists>y \<in> A. r x = u \<and> r y = v \<and>
           ((x, y) \<in> E\<^sup>+ \<or> (\<exists>a \<in> G. \<exists>b \<in> G. (x, a) \<in> E\<^sup>* \<and> (b, y) \<in> E\<^sup>*))"
  using assms(1)
proof (induction rule: trancl_induct)
  case (base v)
  then obtain x y where "(x, y) \<in> E" "r x = u" "r y = v" by (auto simp: collapse_def)
  then show ?case using inj by blast
next
  case (step v w)
  then obtain y' z where e: "(y', z) \<in> E" "r y' = v" "r z = w" by (auto simp: collapse_def)
  from step.IH obtain x y where xy: "x \<in> A" "y \<in> A" "r x = u" "r y = v"
    and path: "(x, y) \<in> E\<^sup>+ \<or> (\<exists>a \<in> G. \<exists>b \<in> G. (x, a) \<in> E\<^sup>* \<and> (b, y) \<in> E\<^sup>*)" by blast
  have A: "y' \<in> A" "z \<in> A" using inj e(1) by auto
  have "y = y' \<or> (y \<in> G \<and> y' \<in> G)" using same xy(2,4) A(1) e(2) by auto
  then show ?case
  proof
    assume "y = y'"
    then have "(x, z) \<in> E\<^sup>+ \<or> (\<exists>a \<in> G. \<exists>b \<in> G. (x, a) \<in> E\<^sup>* \<and> (b, z) \<in> E\<^sup>*)"
      using path e(1) by (meson rtrancl.rtrancl_into_rtrancl trancl.trancl_into_trancl)
    then show ?thesis using xy A e(3) by blast
  next
    assume g: "y \<in> G \<and> y' \<in> G"
    have "\<exists>a \<in> G. (x, a) \<in> E\<^sup>*" using path g by (meson trancl_into_rtrancl)
    moreover have "(y', z) \<in> E\<^sup>*" using e(1) by blast
    ultimately show ?thesis using xy A e(3) g by blast
  qed
qed

theorem collapse_acyclic:
  assumes acyc: "acyclic E"
    and closed: "\<And>x. \<not> between E G x"
    and inA: "\<And>x y. (x, y) \<in> E \<Longrightarrow> x \<in> A \<and> y \<in> A"
    and same: "\<And>x y. x \<in> A \<Longrightarrow> y \<in> A \<Longrightarrow> r x = r y \<Longrightarrow> x = y \<or> (x \<in> G \<and> y \<in> G)"
  shows "acyclic (collapse r G E)"
proof -
  let ?C = "collapse r G E"
  have outside: False if w: "w \<in> A" "w \<notin> G" and cyc: "(r w, r w) \<in> ?C\<^sup>+" for w
  proof -
    from collapse_path [OF cyc inA same] obtain x y where
      xy: "x \<in> A" "y \<in> A" "r x = r w" "r y = r w"
      and path: "(x, y) \<in> E\<^sup>+ \<or> (\<exists>a \<in> G. \<exists>b \<in> G. (x, a) \<in> E\<^sup>* \<and> (b, y) \<in> E\<^sup>*)" by blast
    have eq: "x = w" "y = w" using same xy w by blast+
    have proper: "(p, q) \<in> E\<^sup>+" if "(p, q) \<in> E\<^sup>*" "p \<noteq> q" for p q
      using that by (auto dest: rtranclD)
    from path show False
    proof
      assume "(x, y) \<in> E\<^sup>+"
      then show False using acyc eq by (simp add: acyclic_def)
    next
      assume "\<exists>a \<in> G. \<exists>b \<in> G. (x, a) \<in> E\<^sup>* \<and> (b, y) \<in> E\<^sup>*"
      then have "between E G w" using eq w(2) proper unfolding between_def by metis
      then show False using closed by blast
    qed
  qed
  have "(u, u) \<notin> ?C\<^sup>+" for u
  proof
    assume uu: "(u, u) \<in> ?C\<^sup>+"
    then obtain v where first: "(u, v) \<in> ?C" and rest: "(v, u) \<in> ?C\<^sup>*"
      by (meson tranclD)
    from first obtain x y where e: "(x, y) \<in> E" "r x = u" "r y = v" "\<not> (x \<in> G \<and> y \<in> G)"
      by (auto simp: collapse_def)
    have "(v, v) \<in> ?C\<^sup>+" using first rest by (meson rtrancl_into_trancl1)
    then show False
      using outside [of x] outside [of y] uu e inA by blast
  qed
  then show ?thesis by (simp add: acyclic_def)
qed

end
