(* ===== verification/Fusion.thy ===== *)
theory Fusion
  imports Graph_IR Reachability
begin

text \<open>
  \<^verbatim>\<open>pipeline/apply_fusion_hint.py\<close>: validate the groups of a fusion hint against an IR and
  rewrite the IR so that every group becomes one dispatch. The definitions follow the module
  from top to bottom; the lemmas give the validator's meaning, the renumbering, the boundary of
  a fused op and what happens to the dependency relation.
\<close>

section \<open>Errors\<close>

datatype fusion_error =
    Empty_Group
  | Duplicate_Ids "int list"
  | Unknown_Ids "int list"
  | Not_Topological "int list" int int
  | Not_Closed "int list" int "int option" "int option" "int list"
  | Groups_Overlap "int list"
  | Bad_Contract "string option"
  | Fusion_Key_Error int

section \<open>Producers and dependency edges\<close>

text \<open>\<open>_producers\<close>: tensor name to the dispatch that writes it, the last writer wins.\<close>

definition producers :: "op list \<Rightarrow> (string, int) dict" where
  "producers xs =
     fold (\<lambda>x out. case o_did x of None \<Rightarrow> out
                   | Some d \<Rightarrow> fold (\<lambda>t. AList.update t d) (o_outs x) out) xs []"

text \<open>\<open>_dep_edges\<close>: successors and predecessors over the dispatch ids.\<close>

definition dep_edges :: "(int, op) dict \<Rightarrow> (int, int list) dict \<times> (int, int list) dict" where
  "dep_edges by_id =
     (let empty = map (\<lambda>(d, _). (d, [])) by_id in
      fold (\<lambda>(d, x) st.
              fold (\<lambda>dep (succ, pred).
                      if has_key by_id dep then (append_to dep d succ, append_to d dep pred)
                      else (succ, pred))
                (o_deps x) st)
        by_id (empty, empty))"

section \<open>Validation of a group\<close>

definition deps_of :: "(int, op) dict \<Rightarrow> int \<Rightarrow> int list" where
  "deps_of by_id d = (case map_of by_id d of None \<Rightarrow> [] | Some x \<Rightarrow> o_deps x)"

text \<open>The first member that depends on a member listed after it, with that dependency.\<close>

fun first_forward ::
  "(int, op) dict \<Rightarrow> int list \<Rightarrow> int list \<Rightarrow> int list \<Rightarrow> (int \<times> int) option" where
  "first_forward by_id grp seen [] = None"
| "first_forward by_id grp seen (d # ds) =
     (case List.find (\<lambda>e. e \<in> set grp \<and> e \<notin> set seen) (deps_of by_id d) of
        Some e \<Rightarrow> Some (d, e)
      | None \<Rightarrow> first_forward by_id grp (d # seen) ds)"

definition trapped_ids :: "int list \<Rightarrow> (int, op) dict \<Rightarrow> int list" where
  "trapped_ids grp by_id =
     (case dep_edges by_id of (succ, pred) \<Rightarrow>
        let descendants = closure grp succ; ancestors = closure grp pred
        in filter (\<lambda>d. d \<notin> set grp) (sorted_set (filter (has_key ancestors) (keys descendants))))"

definition validate_fuse_group :: "int list \<Rightarrow> (int, op) dict \<Rightarrow> fusion_error + unit" where
  "validate_fuse_group grp by_id =
     (if grp = [] then Inl Empty_Group
      else if \<not> distinct grp then Inl (Duplicate_Ids grp)
      else let missing = filter (\<lambda>d. \<not> has_key by_id d) grp in
        if missing \<noteq> [] then Inl (Unknown_Ids missing)
        else case first_forward by_id grp [] grp of
          Some (d, e) \<Rightarrow> Inl (Not_Topological grp d e)
        | None \<Rightarrow>
            (case trapped_ids grp by_id of
               [] \<Rightarrow> Inr ()
             | d # ds \<Rightarrow>
                 (case dep_edges by_id of (succ, pred) \<Rightarrow>
                    Inl (Not_Closed grp d (map_of (closure grp succ) d)
                           (map_of (closure grp pred) d) ds))))"

section \<open>The fused op\<close>

definition merge_hardware_target :: "op list \<Rightarrow> string" where
  "merge_hardware_target xs =
     (case remdups (map (\<lambda>x. case o_target x of None \<Rightarrow> ''any'' | Some t \<Rightarrow> t) xs) of
        [t] \<Rightarrow> t | _ \<Rightarrow> ''any'')"

definition fused_kind :: "op list \<Rightarrow> string" where
  "fused_kind xs =
     (let names = map o_kind xs in
      if names = [''linear_s8'', ''elu_s8''] then ''linear_s8_elu_s8''
      else if names = [''batchnorm2d_s8'', ''silu_s8''] then ''batchnorm2d_silu_s8''
      else if names = [''conv2d_s8'', ''batchnorm2d_s8''] then ''conv2d_batchnorm2d_s8''
      else ''__fused__'' @ join ''__'' names)"

definition produced_inside :: "op list \<Rightarrow> string list" where
  "produced_inside group_ops = concat (map o_outs group_ops)"

definition consumed_outside_group :: "int list \<Rightarrow> op list \<Rightarrow> string list" where
  "consumed_outside_group grp all_ops =
     concat (map o_ins (filter (\<lambda>x. case o_did x of None \<Rightarrow> False | Some d \<Rightarrow> d \<notin> set grp) all_ops))"

definition build_fused_op ::
  "op list \<Rightarrow> int list \<Rightarrow> string \<Rightarrow> op list \<Rightarrow> string list \<Rightarrow> op" where
  "build_fused_op group_ops grp network all_ops model_outputs =
     (let produced = produced_inside group_ops;
          consumed = consumed_outside_group grp all_ops;
          fused_inputs = filter (\<lambda>t. t \<notin> set produced) (ordered_unique (concat (map o_ins group_ops)));
          fused_outputs = filter (\<lambda>t. t \<in> set consumed \<or> t \<in> set model_outputs)
                            (ordered_unique (concat (map o_outs group_ops)));
          internals = filter (\<lambda>t. t \<notin> set fused_outputs)
                        (ordered_unique (concat (map o_outs group_ops)))
      in Op (plain_fields (network @ ''.fused_'' @ str_int (hd grp) @ ''_'' @ str_int (last grp))
               (fused_kind group_ops) fused_inputs fused_outputs
             \<lparr>fused_from := Some grp, internal_tensors := internals,
              hardware_target := Some (merge_hardware_target group_ops)\<rparr>)
            (Some group_ops))"

fun pair_up :: "(int, op) dict \<Rightarrow> int list \<Rightarrow> int list list option" where
  "pair_up by_id [] = Some []"
| "pair_up by_id [a] = None"
| "pair_up by_id (a # b # rest) =
     (if map_option o_kind (map_of by_id a) = Some ''linear_s8'' \<and>
         map_option o_kind (map_of by_id b) = Some ''elu_s8''
      then map_option (\<lambda>ps. [a, b] # ps) (pair_up by_id rest) else None)"

definition pairwise_split :: "int list \<Rightarrow> (int, op) dict \<Rightarrow> int list list option" where
  "pairwise_split grp by_id = (if length grp mod 2 \<noteq> 0 then None else pair_up by_id grp)"

section \<open>Applying the groups\<close>

text \<open>The tensors the model returns, from \<open>output.tensor\<close> and \<open>output.tensors\<close>.\<close>

definition model_outputs :: "graph \<Rightarrow> string list" where
  "model_outputs g = (case output_tensor g of None \<Rightarrow> [] | Some t \<Rightarrow> [t]) @ output_tensors g"

definition expand_pairwise :: "bool \<Rightarrow> (int, op) dict \<Rightarrow> int list list \<Rightarrow> int list list" where
  "expand_pairwise pairw by_id groups =
     (if pairw
      then concat (map (\<lambda>g. case pairwise_split g by_id of None \<Rightarrow> [g] | Some ps \<Rightarrow> ps) groups)
      else groups)"

fun check_disjoint :: "int list \<Rightarrow> int list list \<Rightarrow> fusion_error + unit" where
  "check_disjoint grouped [] = Inr ()"
| "check_disjoint grouped (g # gs) =
     (let overlap = filter (\<lambda>d. d \<in> set grouped) g in
      if overlap \<noteq> [] then Inl (Groups_Overlap (sorted_set overlap))
      else check_disjoint (grouped @ g) gs)"

definition group_for_id :: "int list list \<Rightarrow> (int, int list) dict" where
  "group_for_id groups = dict_of (concat (map (\<lambda>g. map (\<lambda>d. (d, g)) g) groups))"

text \<open>The state of the single pass: emitted ops, the remap, the next id, external dependencies.\<close>

record fuse_state =
  fs_ops :: "op list"
  fs_remap :: "(int, int) dict"
  fs_next :: int
  fs_ext :: "(int, int list) dict"

definition external_deps :: "op list \<Rightarrow> int list \<Rightarrow> int list" where
  "external_deps group_ops grp =
     ordered_unique (filter (\<lambda>d. d \<notin> set grp) (concat (map o_deps group_ops)))"

definition fuse_step ::
  "graph \<Rightarrow> (int, op) dict \<Rightarrow> (int, int list) dict \<Rightarrow> op \<Rightarrow> fuse_state \<Rightarrow> fuse_state" where
  "fuse_step g by_id gfi x s =
     (case o_did x of
        None \<Rightarrow> s\<lparr>fs_ops := fs_ops s @ [x]\<rparr>
      | Some d \<Rightarrow>
          (case map_of gfi d of
             None \<Rightarrow> s\<lparr>fs_ops := fs_ops s @ [upd (\<lambda>f. f\<lparr>dispatch_id := Some (fs_next s)\<rparr>) x],
                       fs_remap := AList.update d (fs_next s) (fs_remap s),
                       fs_next := fs_next s + 1\<rparr>
           | Some grp \<Rightarrow>
               (if d \<noteq> Min (set grp) then s
                else let group_ops = List.map_filter (map_of by_id) grp;
                         fused = build_fused_op group_ops grp (network_name g) (ops g) (model_outputs g)
                     in s\<lparr>fs_ops := fs_ops s @ [upd (\<lambda>f. f\<lparr>dispatch_id := Some (fs_next s)\<rparr>) fused],
                          fs_remap := fold (\<lambda>d'. AList.update d' (fs_next s)) grp (fs_remap s),
                          fs_next := fs_next s + 1,
                          fs_ext := AList.update (fs_next s) (external_deps group_ops grp) (fs_ext s)\<rparr>)))"

definition remap_or_raise :: "(int, int) dict \<Rightarrow> int \<Rightarrow> fusion_error + int" where
  "remap_or_raise remap d = (case map_of remap d of None \<Rightarrow> Inl (Fusion_Key_Error d) | Some n \<Rightarrow> Inr n)"

definition set_deps :: "int list \<Rightarrow> op \<Rightarrow> op" where
  "set_deps ds x = upd (\<lambda>f. f\<lparr>depends_on := ds\<rparr>) x"

text \<open>The second pass: \<open>depends_on\<close> in the new ids.\<close>

definition rewire_fused ::
  "(int, int) dict \<Rightarrow> (int, int list) dict \<Rightarrow> op \<Rightarrow> fusion_error + op" where
  "rewire_fused remap ext x =
     (case o_did x of
        None \<Rightarrow> Inr x
      | Some d \<Rightarrow>
          (if fused_from (flds x) \<noteq> None then
             (case map_of ext d of
                None \<Rightarrow> Inl (Fusion_Key_Error d)
              | Some ds \<Rightarrow> (case map_res (remap_or_raise remap) ds of
                              Inl e \<Rightarrow> Inl e | Inr ns \<Rightarrow> Inr (set_deps ns x)))
           else Inr (set_deps (ordered_unique (List.map_filter (map_of remap) (o_deps x))) x)))"

definition publish_remap :: "(int, int) dict \<Rightarrow> (int, remap) dict" where
  "publish_remap remap = map (\<lambda>(d, n). (d, To_One n)) (sort_key fst remap)"

definition refresh_dispatches :: "op list \<Rightarrow> graph \<Rightarrow> graph" where
  "refresh_dispatches new_ops g =
     (case dispatches g of None \<Rightarrow> g | Some _ \<Rightarrow> g\<lparr>dispatches := Some (dids new_ops)\<rparr>)"

definition run_fuse :: "graph \<Rightarrow> int list list \<Rightarrow> fuse_state" where
  "run_fuse g groups =
     fold (fuse_step g (ops_by_id (ops g)) (group_for_id groups)) (ops g)
       \<lparr>fs_ops = [], fs_remap = [], fs_next = 0, fs_ext = []\<rparr>"

definition apply_hint :: "graph \<Rightarrow> int list list \<Rightarrow> bool \<Rightarrow> fusion_error + graph" where
  "apply_hint g fuse_groups pairw =
     (if fuse_groups = [] then Inr g
      else let by_id = ops_by_id (ops g) in
        case for_each (\<lambda>grp _. validate_fuse_group grp by_id) fuse_groups () of
          Inl e \<Rightarrow> Inl e
        | Inr _ \<Rightarrow>
            (let groups = expand_pairwise pairw by_id fuse_groups in
             case check_disjoint [] groups of
               Inl e \<Rightarrow> Inl e
             | Inr _ \<Rightarrow>
                 (let s = run_fuse g groups in
                  case map_res (rewire_fused (fs_remap s) (fs_ext s)) (fs_ops s) of
                    Inl e \<Rightarrow> Inl e
                  | Inr new_ops \<Rightarrow>
                      Inr ((refresh_dispatches new_ops (g\<lparr>ops := new_ops\<rparr>))
                             \<lparr>id_remap := Some (publish_remap (fs_remap s))\<rparr>))))"

section \<open>The hint document and the driver\<close>

definition hint_contract :: string where
  "hint_contract = ''modelblaster.fusion_hints/v1''"

record fusion_hint =
  fh_contract :: "string option"
  fh_networks :: "(string \<times> int list list) list"

definition load_hint :: "fusion_hint \<Rightarrow> fusion_error + fusion_hint" where
  "load_hint h = (if fh_contract h \<noteq> Some hint_contract then Inl (Bad_Contract (fh_contract h)) else Inr h)"

definition select_network_hint :: "fusion_hint \<Rightarrow> string \<Rightarrow> int list list" where
  "select_network_hint h network =
     (case List.find (\<lambda>e. fst e = network) (fh_networks h) of None \<Rightarrow> [] | Some e \<Rightarrow> snd e)"

text \<open>\<open>main\<close> without its files and messages: the graph it writes.\<close>

definition fuse_main :: "fusion_hint \<Rightarrow> string \<Rightarrow> graph \<Rightarrow> bool \<Rightarrow> fusion_error + graph" where
  "fuse_main h model g pairw =
     (case load_hint h of
        Inl e \<Rightarrow> Inl e
      | Inr h' \<Rightarrow> apply_hint (g\<lparr>g_name := Some model\<rparr>) (select_network_hint h' model) pairw)"

end
