(* ===== verification/Fusion_Facts.thy ===== *)
theory Fusion_Facts
  imports Fusion
begin

text \<open>
  The lemmas about the fusion rewriter: the edge maps are the dependency relation, the validator
  accepts a group exactly when its members exist, are distinct, are listed in topological order
  and trap no outside op, and the single pass hands out contiguous ids and a total remap.
\<close>

section \<open>The edge maps\<close>

lemma edge_rel_append_to: "edge_rel (append_to k v d) = insert (k, v) (edge_rel d)"
  by (auto simp: edge_rel_def append_to_def get_or_def split: option.splits if_splits)

lemma edge_rel_inner:
  assumes "fold (\<lambda>dep (succ, pred).
                   if has_key by_id dep then (append_to dep d succ, append_to d dep pred)
                   else (succ, pred)) ds (s, p) = (s', p')"
  shows "edge_rel s' = edge_rel s \<union> {(e, d) |e. e \<in> set ds \<and> has_key by_id e} \<and>
         edge_rel p' = edge_rel p \<union> {(d, e) |e. e \<in> set ds \<and> has_key by_id e}"
  using assms
proof (induction ds arbitrary: s p)
  case (Cons e ds)
  show ?case
  proof (cases "has_key by_id e")
    case True
    with Cons.prems have "fold (\<lambda>dep (succ, pred).
        if has_key by_id dep then (append_to dep d succ, append_to d dep pred)
        else (succ, pred)) ds (append_to e d s, append_to d e p) = (s', p')" by simp
    from Cons.IH [OF this] show ?thesis using True by (auto simp: edge_rel_append_to)
  next
    case False
    with Cons.prems have "fold (\<lambda>dep (succ, pred).
        if has_key by_id dep then (append_to dep d succ, append_to d dep pred)
        else (succ, pred)) ds (s, p) = (s', p')" by simp
    from Cons.IH [OF this] show ?thesis using False by auto
  qed
qed simp

definition id_edges :: "(int, op) dict \<Rightarrow> (int \<times> int) set" where
  "id_edges by_id = {(e, d). has_key by_id e \<and> (\<exists>x. (d, x) \<in> set by_id \<and> e \<in> set (o_deps x))}"

lemma edge_rel_outer:
  assumes "fold (\<lambda>(d, x) st.
              fold (\<lambda>dep (succ, pred).
                      if has_key by_id dep then (append_to dep d succ, append_to d dep pred)
                      else (succ, pred))
                (o_deps x) st) prs (s, p) = (s', p')"
  shows "edge_rel s' = edge_rel s \<union> {(e, d). has_key by_id e \<and> (\<exists>x. (d, x) \<in> set prs \<and> e \<in> set (o_deps x))} \<and>
         edge_rel p' = edge_rel p \<union> {(d, e). has_key by_id e \<and> (\<exists>x. (d, x) \<in> set prs \<and> e \<in> set (o_deps x))}"
  using assms
proof (induction prs arbitrary: s p)
  case (Cons dx prs)
  obtain d x where dx: "dx = (d, x)" by fastforce
  obtain s1 p1 where st: "fold (\<lambda>dep (succ, pred).
        if has_key by_id dep then (append_to dep d succ, append_to d dep pred)
        else (succ, pred)) (o_deps x) (s, p) = (s1, p1)" by fastforce
  from Cons.prems dx st have rest: "fold (\<lambda>(d, x) st.
      fold (\<lambda>dep (succ, pred).
              if has_key by_id dep then (append_to dep d succ, append_to d dep pred)
              else (succ, pred)) (o_deps x) st) prs (s1, p1) = (s', p')" by simp
  note inner = edge_rel_inner [OF st]
  note outer = Cons.IH [OF rest]
  show ?case
    unfolding outer [THEN conjunct1] outer [THEN conjunct2] inner [THEN conjunct1] inner [THEN conjunct2]
    using dx by auto
qed simp

lemma edge_rel_dep_edges:
  "edge_rel (fst (dep_edges by_id)) = id_edges by_id"
  "edge_rel (snd (dep_edges by_id)) = (id_edges by_id)\<inverse>"
proof -
  let ?e = "map (\<lambda>(d, _). (d, [])) by_id :: (int, int list) dict"
  have "get_or ?e d [] = []" for d
    by (auto simp: get_or_def split: option.splits dest!: map_of_SomeD)
  then have empty: "edge_rel ?e = {}" by (simp add: edge_rel_def)
  obtain s p where sp: "dep_edges by_id = (s, p)" by fastforce
  from edge_rel_outer [OF sp [unfolded dep_edges_def Let_def]]
  show "edge_rel (fst (dep_edges by_id)) = id_edges by_id"
    "edge_rel (snd (dep_edges by_id)) = (id_edges by_id)\<inverse>"
    using sp empty by (auto simp: id_edges_def)
qed

lemma id_edges_dep_rel:
  assumes "distinct (dids xs)"
  shows "id_edges (ops_by_id xs) = dep_rel xs"
proof -
  have "has_key (ops_by_id xs) e \<longleftrightarrow> e \<in> set (dids xs)" for e
    by (simp add: has_key_iff keys_ops_by_id)
  moreover have "(d, x) \<in> set (ops_by_id xs) \<longleftrightarrow> x \<in> set xs \<and> o_did x = Some d" for d x
    using assms by (simp add: ops_by_id_distinct in_id_pairs)
  ultimately show ?thesis by (auto simp: id_edges_def dep_rel_def)
qed

section \<open>The validator\<close>

text \<open>Every member's dependencies inside the group stand before it in the list.\<close>

definition topological_in :: "(int, op) dict \<Rightarrow> int list \<Rightarrow> bool" where
  "topological_in by_id grp =
     (\<forall>pre d post. grp = pre @ d # post \<longrightarrow> set (deps_of by_id d) \<inter> set grp \<subseteq> set pre)"

lemma find_None_iff_ball: "List.find P xs = None \<longleftrightarrow> (\<forall>x \<in> set xs. \<not> P x)"
  by (auto simp: find_None_iff)

lemma all_splits_Cons:
  "(\<forall>pre x post. d # ds = pre @ x # post \<longrightarrow> Q pre x) \<longleftrightarrow>
     Q [] d \<and> (\<forall>pre x post. ds = pre @ x # post \<longrightarrow> Q (d # pre) x)"
  by (auto simp: Cons_eq_append_conv)

lemma first_forward_None:
  "first_forward by_id grp seen ds = None \<longleftrightarrow>
     (\<forall>pre d post. ds = pre @ d # post \<longrightarrow>
        set (deps_of by_id d) \<inter> set grp \<subseteq> set seen \<union> set pre)"
proof (induction ds arbitrary: seen)
  case (Cons d ds)
  have "first_forward by_id grp seen (d # ds) = None \<longleftrightarrow>
      set (deps_of by_id d) \<inter> set grp \<subseteq> set seen \<and> first_forward by_id grp (d # seen) ds = None"
  proof (cases "List.find (\<lambda>e. e \<in> set grp \<and> e \<notin> set seen) (deps_of by_id d)")
    case None
    then have "set (deps_of by_id d) \<inter> set grp \<subseteq> set seen" by (auto simp: find_None_iff_ball)
    then show ?thesis by (simp add: None)
  next
    case (Some e)
    then have "e \<in> set (deps_of by_id d)" "e \<in> set grp" "e \<notin> set seen"
      by (auto simp: find_Some_iff in_set_conv_nth)
    with Some show ?thesis by auto
  qed
  then show ?case by (subst all_splits_Cons) (simp add: Cons.IH)
qed simp

lemma set_trapped_ids:
  "set (trapped_ids grp by_id) = {d. between (id_edges by_id) (set grp) d}"
proof -
  obtain s p where sp: "dep_edges by_id = (s, p)" by fastforce
  have s: "edge_rel s = id_edges by_id" and p: "edge_rel p = (id_edges by_id)\<inverse>"
    using edge_rel_dep_edges [of by_id] sp by simp_all
  have "d \<in> set (trapped_ids grp by_id) \<longleftrightarrow> between (id_edges by_id) (set grp) d" for d
    by (auto simp: trapped_ids_def sp has_key_iff keys_closure s p between_def
        trancl_converse Image_iff)
  then show ?thesis by auto
qed

lemma validate_Inr_iff:
  "validate_fuse_group grp by_id = Inr () \<longleftrightarrow>
     grp \<noteq> [] \<and> distinct grp \<and> (\<forall>d \<in> set grp. has_key by_id d) \<and>
     topological_in by_id grp \<and> (\<forall>d. \<not> between (id_edges by_id) (set grp) d)"
proof -
  have "trapped_ids grp by_id = [] \<longleftrightarrow> (\<forall>d. \<not> between (id_edges by_id) (set grp) d)"
    using set_trapped_ids [of grp by_id] by (metis empty_Collect_eq set_empty)
  moreover have "first_forward by_id grp [] grp = None \<longleftrightarrow> topological_in by_id grp"
    by (simp add: first_forward_None topological_in_def)
  moreover have "filter (\<lambda>d. \<not> has_key by_id d) grp = [] \<longleftrightarrow> (\<forall>d \<in> set grp. has_key by_id d)"
    by (simp add: filter_empty_conv)
  ultimately show ?thesis
    by (auto simp: validate_fuse_group_def Let_def split: option.splits list.splits prod.splits)
qed

section \<open>Groups and their heads\<close>

definition groups_ok :: "op list \<Rightarrow> int list list \<Rightarrow> bool" where
  "groups_ok xs groups \<longleftrightarrow>
     distinct (dids xs) \<and> (\<forall>g \<in> set groups. g \<noteq> [] \<and> distinct g \<and> set g \<subseteq> set (dids xs)) \<and>
     distinct (concat groups)"

lemma check_disjoint_Inr:
  "check_disjoint grouped groups = Inr () \<Longrightarrow> \<forall>g \<in> set groups. distinct g \<Longrightarrow>
     distinct (concat groups) \<and> set (concat groups) \<inter> set grouped = {}"
proof (induction grouped groups rule: check_disjoint.induct)
  case (2 grouped g gs)
  from "2.prems"(1) have none: "filter (\<lambda>d. d \<in> set grouped) g = []"
    and rest: "check_disjoint (grouped @ g) gs = Inr ()"
    by (auto simp: Let_def split: if_splits)
  have ih: "distinct (concat gs)" "set (concat gs) \<inter> set (grouped @ g) = {}"
    using "2.IH" [OF refl _ rest] none "2.prems"(2) by auto
  from none have "set g \<inter> set grouped = {}" by (auto simp: filter_empty_conv)
  with ih "2.prems"(2) show ?case by auto
qed simp

lemma validated_known:
  "for_each (\<lambda>grp _. validate_fuse_group grp by_id) groups () = Inr u \<Longrightarrow> g \<in> set groups \<Longrightarrow>
     validate_fuse_group g by_id = Inr ()"
proof (induction groups arbitrary: u)
  case (Cons a groups)
  then show ?case by (auto split: sum.splits)
qed simp

lemma groups_okI:
  assumes "distinct (dids xs)"
    and "for_each (\<lambda>grp _. validate_fuse_group grp (ops_by_id xs)) groups () = Inr u"
    and "check_disjoint [] groups = Inr ()"
  shows "groups_ok xs groups"
proof -
  have v: "validate_fuse_group g (ops_by_id xs) = Inr ()" if "g \<in> set groups" for g
    using validated_known [OF assms(2) that] .
  then have "\<forall>g \<in> set groups. distinct g" by (simp add: validate_Inr_iff)
  from check_disjoint_Inr [OF assms(3) this] have "distinct (concat groups)" by simp
  moreover have "g \<noteq> [] \<and> distinct g \<and> set g \<subseteq> set (dids xs)" if "g \<in> set groups" for g
    using v [OF that] by (auto simp: validate_Inr_iff has_key_iff keys_ops_by_id)
  ultimately show ?thesis using assms(1) by (simp add: groups_ok_def)
qed

lemma map_of_group_for_id:
  assumes "distinct (concat groups)"
  shows "map_of (group_for_id groups) d = Some g \<longleftrightarrow> g \<in> set groups \<and> d \<in> set g"
proof -
  let ?ps = "concat (map (\<lambda>g. map (\<lambda>d. (d, g)) g) groups)"
  have fsts: "map fst ?ps = concat groups" by (induction groups) (auto simp: o_def)
  then have "dict_of ?ps = ?ps" using assms by (intro dict_of_distinct) simp
  then have "map_of (group_for_id groups) d = Some g \<longleftrightarrow> (d, g) \<in> set ?ps"
    using fsts assms by (simp add: group_for_id_def)
  then show ?thesis by auto
qed

text \<open>The id whose slot a dispatch takes: the smallest member of its group.\<close>

definition head_of :: "(int, int list) dict \<Rightarrow> int \<Rightarrow> int" where
  "head_of gfi d = (case map_of gfi d of None \<Rightarrow> d | Some grp \<Rightarrow> Min (set grp))"

definition heads :: "(int, int list) dict \<Rightarrow> op list \<Rightarrow> int list" where
  "heads gfi xs = filter (\<lambda>d. head_of gfi d = d) (dids xs)"

text \<open>The new id of a dispatch: the position of its head among the heads.\<close>

definition new_id :: "(int, int list) dict \<Rightarrow> op list \<Rightarrow> int \<Rightarrow> int" where
  "new_id gfi xs d = int (length (takeWhile (\<lambda>h. h \<noteq> head_of gfi d) (heads gfi xs)))"

lemma head_of_group:
  assumes "groups_ok xs groups" "g \<in> set groups" "d \<in> set g"
  shows "head_of (group_for_id groups) d = Min (set g)"
  using assms map_of_group_for_id [of groups d g] by (auto simp: groups_ok_def head_of_def)

lemma head_of_outside:
  assumes "groups_ok xs groups" "\<forall>g \<in> set groups. d \<notin> set g"
  shows "head_of (group_for_id groups) d = d"
proof -
  have "map_of (group_for_id groups) d = None"
    using assms map_of_group_for_id [of groups d] by (cases "map_of (group_for_id groups) d") (auto simp: groups_ok_def)
  then show ?thesis by (simp add: head_of_def)
qed

lemma head_of_cases:
  assumes "groups_ok xs groups"
  obtains (inside) g where "g \<in> set groups" "d \<in> set g" "head_of (group_for_id groups) d = Min (set g)"
      "Min (set g) \<in> set g"
  | (outside) "\<forall>g \<in> set groups. d \<notin> set g" "head_of (group_for_id groups) d = d"
proof (cases "\<exists>g \<in> set groups. d \<in> set g")
  case True
  then obtain g where g: "g \<in> set groups" "d \<in> set g" by auto
  then have "set g \<noteq> {}" by auto
  then have "Min (set g) \<in> set g" by simp
  with g inside head_of_group [OF assms g] show ?thesis by blast
next
  case False
  with outside head_of_outside [OF assms] show ?thesis by blast
qed

lemma head_of_idem:
  assumes ok: "groups_ok xs groups"
  shows "head_of (group_for_id groups) (head_of (group_for_id groups) d) = head_of (group_for_id groups) d"
proof (cases rule: head_of_cases [OF ok, of d, case_names inside outside])
  case (inside g)
  then show ?thesis using head_of_group [OF ok inside(1) inside(4)] by simp
next
  case outside
  then show ?thesis by simp
qed

lemma head_of_known:
  assumes ok: "groups_ok xs groups" and "d \<in> set (dids xs)"
  shows "head_of (group_for_id groups) d \<in> set (heads (group_for_id groups) xs)"
proof -
  have "head_of (group_for_id groups) d \<in> set (dids xs)"
  proof (cases rule: head_of_cases [OF ok, of d, case_names inside outside])
    case (inside g)
    have "set g \<subseteq> set (dids xs)" using ok inside(1) by (simp add: groups_ok_def)
    then show ?thesis using inside(3,4) by auto
  qed (use assms(2) in simp)
  then show ?thesis using head_of_idem [OF ok] by (simp add: heads_def)
qed

lemma head_of_eq_iff:
  assumes ok: "groups_ok xs groups"
  shows "head_of (group_for_id groups) a = head_of (group_for_id groups) b \<longleftrightarrow>
           a = b \<or> (\<exists>g \<in> set groups. a \<in> set g \<and> b \<in> set g)"
proof
  assume eq: "head_of (group_for_id groups) a = head_of (group_for_id groups) b"
  have uniq: "g = h" if "g \<in> set groups" "h \<in> set groups" "x \<in> set g" "x \<in> set h" for g h x
    using that map_of_group_for_id [of groups x] ok by (metis groups_ok_def option.inject)
  show "a = b \<or> (\<exists>g \<in> set groups. a \<in> set g \<and> b \<in> set g)"
  proof (cases rule: head_of_cases [OF ok, of a, case_names inside outside])
    case (inside g)
    note a = inside
    show ?thesis
    proof (cases rule: head_of_cases [OF ok, of b, case_names inside outside])
      case (inside h)
      with a eq uniq show ?thesis by metis
    next
      case outside
      with a eq show ?thesis by metis
    qed
  next
    case outside
    note a = outside
    show ?thesis
    proof (cases rule: head_of_cases [OF ok, of b, case_names inside outside])
      case (inside h)
      with a eq show ?thesis by metis
    next
      case outside
      with a eq show ?thesis by simp
    qed
  qed
next
  assume "a = b \<or> (\<exists>g \<in> set groups. a \<in> set g \<and> b \<in> set g)"
  then show "head_of (group_for_id groups) a = head_of (group_for_id groups) b"
    using head_of_group [OF ok] by auto
qed

lemma takeWhile_position:
  assumes "distinct (pre @ d # post)"
  shows "takeWhile (\<lambda>h. h \<noteq> d) (pre @ d # post) = pre"
  using assms by (induction pre) auto

lemma takeWhile_neq_inj:
  assumes "a \<in> set hs" "b \<in> set hs"
    "length (takeWhile (\<lambda>h. h \<noteq> a) hs) = length (takeWhile (\<lambda>h. h \<noteq> b) hs)"
  shows "a = b"
  using assms by (induction hs) (auto split: if_splits)

lemma new_id_eq_iff:
  assumes ok: "groups_ok xs groups" and "a \<in> set (dids xs)" "b \<in> set (dids xs)"
  shows "new_id (group_for_id groups) xs a = new_id (group_for_id groups) xs b \<longleftrightarrow>
           a = b \<or> (\<exists>g \<in> set groups. a \<in> set g \<and> b \<in> set g)"
  unfolding head_of_eq_iff [OF ok, symmetric] new_id_def
  using takeWhile_neq_inj [OF head_of_known [OF ok assms(2)] head_of_known [OF ok assms(3)]] by auto

section \<open>The single pass in closed form\<close>

definition renumber_op :: "int \<Rightarrow> op \<Rightarrow> op" where
  "renumber_op n x = upd (\<lambda>f. f\<lparr>dispatch_id := Some n\<rparr>) x"

definition members :: "graph \<Rightarrow> int list \<Rightarrow> op list" where
  "members g grp = List.map_filter (map_of (ops_by_id (ops g))) grp"

definition fused_of :: "graph \<Rightarrow> int list \<Rightarrow> op" where
  "fused_of g grp = build_fused_op (members g grp) grp (network_name g) (ops g) (model_outputs g)"

text \<open>What the pass emits for one op of the input.\<close>

definition emitted :: "graph \<Rightarrow> (int, int list) dict \<Rightarrow> op \<Rightarrow> op list" where
  "emitted g gfi x =
     (case o_did x of
        None \<Rightarrow> [x]
      | Some d \<Rightarrow>
          (case map_of gfi d of
             None \<Rightarrow> [renumber_op (new_id gfi (ops g) d) x]
           | Some grp \<Rightarrow> if d \<noteq> Min (set grp) then []
                         else [renumber_op (new_id gfi (ops g) d) (fused_of g grp)]))"

definition walk_inv :: "graph \<Rightarrow> (int, int list) dict \<Rightarrow> op list \<Rightarrow> fuse_state \<Rightarrow> bool" where
  "walk_inv g gfi pre s \<longleftrightarrow>
     fs_ops s = concat (map (emitted g gfi) pre) \<and>
     fs_next s = int (length (heads gfi pre)) \<and>
     (\<forall>d. map_of (fs_remap s) d =
            (if head_of gfi d \<in> set (heads gfi pre) then Some (new_id gfi (ops g) d) else None)) \<and>
     (\<forall>d \<in> set (heads gfi pre). \<forall>grp. map_of gfi d = Some grp \<longrightarrow>
            map_of (fs_ext s) (new_id gfi (ops g) d) = Some (external_deps (members g grp) grp))"

lemma heads_snoc:
  "heads gfi (pre @ [x]) = heads gfi pre @
     (case o_did x of None \<Rightarrow> [] | Some d \<Rightarrow> if head_of gfi d = d then [d] else [])"
  by (simp add: heads_def split: option.splits)

lemma new_id_at:
  assumes "distinct (dids (pre @ x # post))" "o_did x = Some d" "head_of gfi d' = d" "head_of gfi d = d"
  shows "new_id gfi (pre @ x # post) d' = int (length (heads gfi pre))"
proof -
  have split: "heads gfi (pre @ x # post) = heads gfi pre @ d # heads gfi post"
    using assms(2,4) by (simp add: heads_def)
  moreover have "distinct (heads gfi (pre @ x # post))"
    using assms(1) unfolding heads_def by (rule distinct_filter)
  ultimately show ?thesis
    using takeWhile_position [of "heads gfi pre" d "heads gfi post"] assms(3) by (simp add: new_id_def)
qed

lemma new_id_before:
  assumes "distinct (dids (pre @ post))" "d \<in> set (heads gfi pre)" "head_of gfi d = d"
  shows "new_id gfi (pre @ post) d < int (length (heads gfi pre))"
proof -
  have "takeWhile (\<lambda>h. h \<noteq> d) (heads gfi pre @ ys) = takeWhile (\<lambda>h. h \<noteq> d) (heads gfi pre)" for ys
    using assms(2) by (intro takeWhile_append1 [of d]) auto
  moreover have "length (takeWhile (\<lambda>h. h \<noteq> d) hs) < length hs" if "d \<in> set hs" for hs :: "int list"
    using that by (induction hs) auto
  moreover have "heads gfi (pre @ post) = heads gfi pre @ heads gfi post" by (simp add: heads_def)
  ultimately show ?thesis using assms(2,3) by (simp add: new_id_def)
qed

lemma heads_in: "d \<in> set (heads gfi pre) \<Longrightarrow> head_of gfi d = d \<and> d \<in> set (dids pre)"
  by (simp add: heads_def)

lemma group_members_head:
  assumes "groups_ok xs groups" "map_of (group_for_id groups) d = Some grp"
  shows "d' \<in> set grp \<longleftrightarrow> head_of (group_for_id groups) d' = Min (set grp)"
proof -
  from assms have grp: "grp \<in> set groups" "d \<in> set grp"
    by (simp_all add: map_of_group_for_id groups_ok_def)
  have md: "head_of (group_for_id groups) d = Min (set grp)" by (rule head_of_group [OF assms(1) grp])
  show ?thesis
  proof
    assume "d' \<in> set grp" then show "head_of (group_for_id groups) d' = Min (set grp)"
      by (rule head_of_group [OF assms(1) grp(1)])
  next
    assume "head_of (group_for_id groups) d' = Min (set grp)"
    with md have "d' = d \<or> (\<exists>g \<in> set groups. d' \<in> set g \<and> d \<in> set g)"
      using head_of_eq_iff [OF assms(1), of d' d] by simp
    then show "d' \<in> set grp"
    proof
      assume "\<exists>g \<in> set groups. d' \<in> set g \<and> d \<in> set g"
      then obtain g where g: "g \<in> set groups" "d' \<in> set g" "d \<in> set g" by auto
      then have "map_of (group_for_id groups) d = Some g"
        using assms(1) by (simp add: map_of_group_for_id groups_ok_def)
      with assms(2) g show ?thesis by simp
    qed (use grp in simp)
  qed
qed

lemma walk_step:
  assumes ok: "groups_ok (ops g) groups" and split: "ops g = pre @ x # post"
    and inv: "walk_inv g (group_for_id groups) pre s"
  shows "walk_inv g (group_for_id groups) (pre @ [x])
           (fuse_step g (ops_by_id (ops g)) (group_for_id groups) x s)"
proof -
  let ?gfi = "group_for_id groups"
  have I: "fs_ops s = concat (map (emitted g ?gfi) pre)" "fs_next s = int (length (heads ?gfi pre))"
    using inv by (simp_all add: walk_inv_def)
  have remap: "map_of (fs_remap s) e = (if head_of ?gfi e \<in> set (heads ?gfi pre)
      then Some (new_id ?gfi (ops g) e) else None)" for e
    using inv unfolding walk_inv_def by blast
  have ext: "map_of (fs_ext s) (new_id ?gfi (ops g) e) = Some (external_deps (members g h) h)"
    if "e \<in> set (heads ?gfi pre)" "map_of ?gfi e = Some h" for e h
    using inv that unfolding walk_inv_def by blast
  have dist: "distinct (dids (pre @ x # post))" using ok split by (simp add: groups_ok_def)
  have before: "new_id ?gfi (ops g) e < fs_next s" if "e \<in> set (heads ?gfi pre)" for e
    using new_id_before [of pre "x # post" e ?gfi] dist heads_in [OF that] that I split by simp
  show ?thesis
  proof (cases "o_did x")
    case None
    then show ?thesis using inv by (simp add: walk_inv_def fuse_step_def heads_snoc emitted_def)
  next
    case (Some d)
    note did = this
    have fresh: "d \<notin> set (heads ?gfi pre)"
      using dist did by (auto simp: heads_def)
    show ?thesis
    proof (cases "map_of ?gfi d")
      case None
      then have hd: "head_of ?gfi d = d" by (simp add: head_of_def)
      have nid: "new_id ?gfi (ops g) d = fs_next s"
        using new_id_at [OF dist did hd hd] I split by simp
      have only: "e = d" if "head_of ?gfi e = d" for e
      proof -
        have "head_of ?gfi e = head_of ?gfi d" using that hd by simp
        then have "e = d \<or> (\<exists>g \<in> set groups. e \<in> set g \<and> d \<in> set g)"
          using head_of_eq_iff [OF ok] by simp
        then show ?thesis using None map_of_group_for_id [of groups d] ok by (auto simp: groups_ok_def)
      qed
      let ?s = "fuse_step g (ops_by_id (ops g)) ?gfi x s"
      have s: "?s = s\<lparr>fs_ops := fs_ops s @ [renumber_op (fs_next s) x],
          fs_remap := AList.update d (fs_next s) (fs_remap s), fs_next := fs_next s + 1\<rparr>"
        using did None by (simp add: fuse_step_def renumber_op_def)
      have hds: "heads ?gfi (pre @ [x]) = heads ?gfi pre @ [d]" using did hd by (simp add: heads_snoc)
      have "fs_ops ?s = concat (map (emitted g ?gfi) (pre @ [x]))"
        using s did None I nid by (simp add: emitted_def)
      moreover have "fs_next ?s = int (length (heads ?gfi (pre @ [x])))" using s hds I by simp
      moreover have "map_of (fs_remap ?s) e = (if head_of ?gfi e \<in> set (heads ?gfi (pre @ [x]))
          then Some (new_id ?gfi (ops g) e) else None)" for e
        using s hds remap [of e] only [of e] nid hd by (cases "e = d") auto
      moreover have "map_of (fs_ext ?s) (new_id ?gfi (ops g) e) = Some (external_deps (members g h) h)"
        if "e \<in> set (heads ?gfi (pre @ [x]))" "map_of ?gfi e = Some h" for e h
      proof -
        have "e \<in> set (heads ?gfi pre)" using that hds None by auto
        then show ?thesis using ext [OF _ that(2)] s by simp
      qed
      ultimately show ?thesis unfolding walk_inv_def by blast
    next
      case (Some grp)
      show ?thesis
      proof (cases "d = Min (set grp)")
        case False
        then have "head_of ?gfi d \<noteq> d" using Some by (simp add: head_of_def)
        then show ?thesis using did Some False inv
          by (simp add: walk_inv_def fuse_step_def heads_snoc emitted_def)
      next
        case True
        then have hd: "head_of ?gfi d = d" using Some by (simp add: head_of_def)
        have nid: "new_id ?gfi (ops g) e = fs_next s" if "head_of ?gfi e = d" for e
          using new_id_at [OF dist did that hd] I split by simp
        have mem: "e \<in> set grp \<longleftrightarrow> head_of ?gfi e = d" for e
          using group_members_head [OF ok Some] True by simp
        let ?s = "fuse_step g (ops_by_id (ops g)) ?gfi x s"
        have ops: "fs_ops ?s = concat (map (emitted g ?gfi) (pre @ [x]))"
          using did Some True I nid [OF hd]
          by (simp add: fuse_step_def emitted_def Let_def fused_of_def members_def renumber_op_def)
        have nxt: "fs_next ?s = int (length (heads ?gfi (pre @ [x])))"
          using did Some True I hd by (simp add: fuse_step_def Let_def heads_snoc)
        have "map_of (fs_remap ?s) e = (if head_of ?gfi e \<in> set (heads ?gfi (pre @ [x]))
            then Some (new_id ?gfi (ops g) e) else None)" for e
        proof -
          have "map_of (fs_remap ?s) e = (if e \<in> set grp then Some (fs_next s) else map_of (fs_remap s) e)"
            using did Some True by (simp add: fuse_step_def Let_def map_of_fold_same)
          also have "\<dots> = (if head_of ?gfi e \<in> set (heads ?gfi (pre @ [x]))
            then Some (new_id ?gfi (ops g) e) else None)"
          proof (cases "head_of ?gfi e = d")
            case True
            then show ?thesis using did hd mem nid by (simp add: heads_snoc)
          next
            case False
            then show ?thesis using did hd mem remap [of e] by (simp add: heads_snoc)
          qed
          finally show ?thesis .
        qed
        moreover have "map_of (fs_ext ?s) (new_id ?gfi (ops g) e) = Some (external_deps (members g h) h)"
          if e: "e \<in> set (heads ?gfi (pre @ [x]))" and h: "map_of ?gfi e = Some h" for e h
        proof -
          have ext': "fs_ext ?s = AList.update (fs_next s) (external_deps (members g grp) grp) (fs_ext s)"
            using did Some True by (simp add: fuse_step_def Let_def members_def)
          show ?thesis
          proof (cases "e = d")
            case True
            then show ?thesis using ext' Some h nid [OF hd] by simp
          next
            case False
            with e did hd have pre: "e \<in> set (heads ?gfi pre)" by (simp add: heads_snoc)
            then have "new_id ?gfi (ops g) e \<noteq> fs_next s" using before by fastforce
            then show ?thesis using ext' ext [OF pre h] by simp
          qed
        qed
        ultimately show ?thesis using ops nxt unfolding walk_inv_def by blast
      qed
    qed
  qed
qed

lemma run_fuse_inv:
  assumes "groups_ok (ops g) groups"
  shows "walk_inv g (group_for_id groups) (ops g) (run_fuse g groups)"
  unfolding run_fuse_def
proof (rule fold_prefix_inv [where P = "walk_inv g (group_for_id groups)"])
  show "walk_inv g (group_for_id groups) [] \<lparr>fs_ops = [], fs_remap = [], fs_next = 0, fs_ext = []\<rparr>"
    by (simp add: walk_inv_def heads_def)
qed (rule walk_step [OF assms])

end
