(* ===== verification/Fusion_Claims.thy ===== *)
theory Fusion_Claims
  imports Fusion_Facts
begin

text \<open>
  What \<open>apply_hint\<close> promises: the boundary of a fused op, the safety of the pairwise expansion,
  the renumbering, the dependency relation of the rewritten graph, and the cases in which the
  rewrite does not keep a promise of its documentation.
\<close>

section \<open>Positions in a validated group\<close>

definition position :: "'a list \<Rightarrow> 'a \<Rightarrow> nat" where
  "position xs x = length (takeWhile (\<lambda>y. y \<noteq> x) xs)"

lemma position_middle: "x \<notin> set pre \<Longrightarrow> position (pre @ x # post) x = length pre"
  by (induction pre) (auto simp: position_def)

lemma position_split:
  assumes "x \<in> set xs"
  obtains pre post where "xs = pre @ x # post" "x \<notin> set pre" "position xs x = length pre"
proof -
  obtain pre post where s: "xs = pre @ x # post" "x \<notin> set pre"
    using split_list_first [OF assms] by blast
  with that position_middle show thesis by metis
qed

lemma position_in_prefix:
  assumes "xs = pre @ post" "x \<in> set pre"
  shows "position xs x < length pre"
proof -
  have "takeWhile (\<lambda>y. y \<noteq> x) xs = takeWhile (\<lambda>y. y \<noteq> x) pre"
    unfolding assms(1) by (rule takeWhile_append1 [OF assms(2)]) simp
  moreover have "length (takeWhile (\<lambda>y. y \<noteq> x) pre) < length pre"
    using assms(2) by (induction pre) auto
  ultimately show ?thesis by (simp add: position_def)
qed

lemma id_edges_deps:
  assumes "distinct (keys by_id)" "(a, b) \<in> id_edges by_id"
  shows "a \<in> set (deps_of by_id b)"
proof -
  from assms(2) obtain x where "(b, x) \<in> set by_id" "a \<in> set (o_deps x)" by (auto simp: id_edges_def)
  with assms(1) show ?thesis by (simp add: deps_of_def keys_def)
qed

lemma topological_inD:
  assumes "topological_in by_id grp" "grp = pre @ d # post"
  shows "set (deps_of by_id d) \<inter> set grp \<subseteq> set pre"
  using assms unfolding topological_in_def by blast

lemma valid_path_forward:
  assumes keys: "distinct (keys by_id)" and valid: "validate_fuse_group grp by_id = Inr ()"
    and u: "u \<in> set grp" and path: "(u, v) \<in> (id_edges by_id)\<^sup>+"
    and w: "w \<in> set grp" "(v, w) \<in> (id_edges by_id)\<^sup>*"
  shows "v \<in> set grp \<and> position grp u < position grp v"
proof -
  let ?E = "id_edges by_id"
  have top: "topological_in by_id grp" and closed: "\<not> between ?E (set grp) d" for d
    using valid by (auto simp: validate_Inr_iff)
  have inside: "y \<in> set grp" if "(u, y) \<in> ?E\<^sup>+" "w' \<in> set grp" "(y, w') \<in> ?E\<^sup>*" for y w'
    using closed [of y] u that unfolding between_def by (metis rtranclD)
  have edge: "position grp a < position grp b" if "(a, b) \<in> ?E" "a \<in> set grp" "b \<in> set grp" for a b
  proof -
    from \<open>b \<in> set grp\<close> obtain pre post where s: "grp = pre @ b # post" "position grp b = length pre"
      by (rule position_split)
    with top id_edges_deps [OF keys that(1)] that(2) have "a \<in> set pre"
      by (auto simp: topological_in_def)
    with s show ?thesis by (metis position_in_prefix)
  qed
  show ?thesis using path w
  proof (induction arbitrary: w rule: trancl_induct)
    case (base y)
    then show ?case using inside [of y w] edge [of u y] u by blast
  next
    case (step y z)
    have "(y, w) \<in> ?E\<^sup>*" using step.hyps(2) step.prems(2) by (rule converse_rtrancl_into_rtrancl)
    from step.IH [OF step.prems(1) this] have y: "y \<in> set grp" "position grp u < position grp y" by auto
    have "z \<in> set grp"
      using inside [OF trancl_into_trancl [OF step.hyps] step.prems] .
    then show ?case using y edge [OF step.hyps(2)] by simp
  qed
qed

lemma pair_up_concat: "pair_up by_id grp = Some ps \<Longrightarrow> concat ps = grp \<and> (\<forall>p \<in> set ps. length p = 2)"
  by (induction by_id grp arbitrary: ps rule: pair_up.induct) (auto split: if_splits)

lemma pair_adjacent:
  assumes "pair_up by_id grp = Some ps" "p \<in> set ps"
  obtains a b pre post where "p = [a, b]" "grp = pre @ a # b # post"
proof -
  from assms have c: "concat ps = grp" "length p = 2" using pair_up_concat by blast+
  then obtain a b where p: "p = [a, b]" by (auto simp: length_Suc_conv numeral_2_eq_2)
  from assms(2) obtain l r where "ps = l @ p # r" by (auto simp: in_set_conv_decomp)
  with c p that [of a b "concat l" "concat r"] show thesis by simp
qed

lemma pair_valid:
  assumes keys: "distinct (keys by_id)" and valid: "validate_fuse_group grp by_id = Inr ()"
    and split: "grp = pre @ a # b # post"
  shows "validate_fuse_group [a, b] by_id = Inr ()"
proof -
  let ?E = "id_edges by_id"
  from valid have grp: "distinct grp" "\<forall>d \<in> set grp. has_key by_id d"
    and top: "topological_in by_id grp" and closed: "\<And>d. \<not> between ?E (set grp) d"
    by (auto simp: validate_Inr_iff)
  have ab: "a \<noteq> b" "a \<notin> set pre" "b \<notin> set pre" using grp(1) split by auto
  have pos: "position grp a = length pre" "position grp b = Suc (length pre)"
    using ab split position_middle [of a pre "b # post"] position_middle [of b "pre @ [a]" post]
    by simp_all
  have "set (deps_of by_id a) \<inter> set grp \<subseteq> set pre" by (rule topological_inD [OF top split])
  moreover have "set (deps_of by_id b) \<inter> set grp \<subseteq> set (pre @ [a])"
    by (rule topological_inD [OF top, of _ _ post]) (simp add: split)
  moreover have "a \<in> set grp" "b \<in> set grp" using split by simp_all
  ultimately have "topological_in by_id [a, b]"
    using ab by (auto simp: topological_in_def Cons_eq_append_conv)
  moreover have "\<not> between ?E {a, b} x" for x
  proof
    assume "between ?E {a, b} x"
    then obtain u v where x: "x \<noteq> a" "x \<noteq> b" and u: "u \<in> {a, b}" "(u, x) \<in> ?E\<^sup>+"
      and v: "v \<in> {a, b}" "(x, v) \<in> ?E\<^sup>+" by (auto simp: between_def)
    have uv: "u \<in> set grp" "v \<in> set grp" using u v split by auto
    have 1: "x \<in> set grp \<and> position grp u < position grp x"
      by (rule valid_path_forward [OF keys valid uv(1) u(2) uv(2) trancl_into_rtrancl [OF v(2)]])
    then have 2: "position grp x < position grp v"
      using valid_path_forward [OF keys valid _ v(2) uv(2) rtrancl_refl] by simp
    show False using 1 2 pos u(1) v(1) by auto
  qed
  ultimately show ?thesis using grp ab split by (auto simp: validate_Inr_iff)
qed

text \<open>
  The comment of \<open>apply_hint\<close> that the pairs carved out of a validated group need no second
  check: when \<open>_pairwise_split\<close> turns a group the validator accepted into pairs, the validator
  accepts every pair, so no pair can trap an op.
\<close>
theorem pairwise_needs_no_recheck:
  assumes "validate_fuse_group grp (ops_by_id xs) = Inr ()"
    and "pairwise_split grp (ops_by_id xs) = Some ps" and "p \<in> set ps"
  shows "validate_fuse_group p (ops_by_id xs) = Inr ()"
proof -
  have "distinct (keys (ops_by_id xs))" by (simp add: ops_by_id_def)
  moreover from assms(2) have "pair_up (ops_by_id xs) grp = Some ps"
    by (simp add: pairwise_split_def split: if_splits)
  then obtain a b pre post where "p = [a, b]" "grp = pre @ a # b # post"
    using assms(3) by (rule pair_adjacent)
  ultimately show ?thesis using pair_valid assms(1) by metis
qed

definition mlp_ops :: "op list" where
  "mlp_ops =
     [mk_op ''l0'' ''linear_s8'' (Some 0) [] [''x''] [''h0''],
      mk_op ''e0'' ''elu_s8'' (Some 1) [0] [''h0''] [''a0''],
      mk_op ''v'' ''view'' None [] [''a0''] [''a0v''],
      mk_op ''l1'' ''linear_s8'' (Some 2) [1] [''a0v''] [''h1''],
      mk_op ''e1'' ''elu_s8'' (Some 3) [2] [''h1''] [''y'']]"

theorem pairwise_needs_no_recheck_witness:
  "validate_fuse_group [2, 3] (ops_by_id mlp_ops) = Inr ()"
proof (rule pairwise_needs_no_recheck)
  show "validate_fuse_group [0, 1, 2, 3] (ops_by_id mlp_ops) = Inr ()" by code_simp
  show "pairwise_split [0, 1, 2, 3] (ops_by_id mlp_ops) = Some [[0, 1], [2, 3]]" by code_simp
qed simp

section \<open>What the validator accepts\<close>

text \<open>
  C1. \<open>_validate_fuse_group\<close> accepts a group exactly when it is not empty, lists no id twice, names
  only dispatches of the graph, lists every member after the members it depends on, and no
  dispatch outside the group lies on a dependency path from a member to a member.
\<close>
theorem validate_accepts_iff:
  "validate_fuse_group grp (ops_by_id xs) = Inr () \<longleftrightarrow>
     grp \<noteq> [] \<and> distinct grp \<and> set grp \<subseteq> set (dids xs) \<and> topological_in (ops_by_id xs) grp \<and>
     {d. between (id_edges (ops_by_id xs)) (set grp) d} = {}"
  by (auto simp: validate_Inr_iff has_key_iff keys_ops_by_id)

text \<open>
  \<open>_closure\<close> terminates with exactly the nodes a path of one or more edges leads to from a
  seed, and every witness it records is a seed that reaches the node it is recorded for.
\<close>
theorem closure_is_reachability:
  "set (keys (closure seeds edges)) = (edge_rel edges)\<^sup>+ `` set seeds \<and>
   {(s, x). map_of (closure seeds edges) x = Some s} \<subseteq> (set seeds \<times> UNIV) \<inter> (edge_rel edges)\<^sup>+"
proof
  show "{(s, x). map_of (closure seeds edges) x = Some s} \<subseteq> (set seeds \<times> UNIV) \<inter> (edge_rel edges)\<^sup>+"
    using closure_witness [of seeds edges] by auto
qed (rule keys_closure)

section \<open>The boundary of a fused op\<close>

text \<open>
  The boundary \<open>_build_fused_op\<close> computes: what the members produce is either an output or an
  internal tensor and never both; every tensor a dispatch outside the group reads, and every
  tensor the model returns, is an output when the group produces it; the inputs are exactly what
  the members read and none of them produces; the members are kept verbatim.
\<close>
theorem fused_boundary:
  "set (o_outs (build_fused_op mem grp nw all_ops outs)) \<union>
     set (internal_tensors (flds (build_fused_op mem grp nw all_ops outs))) = (\<Union>x \<in> set mem. set (o_outs x)) \<and>
   set (o_outs (build_fused_op mem grp nw all_ops outs)) \<inter>
     set (internal_tensors (flds (build_fused_op mem grp nw all_ops outs))) = {} \<and>
   (\<Union>x \<in> set mem. set (o_outs x)) \<inter>
     (set outs \<union> \<Union> (set ` o_ins ` {y \<in> set all_ops. \<exists>d. o_did y = Some d \<and> d \<notin> set grp}))
     = set (o_outs (build_fused_op mem grp nw all_ops outs)) \<and>
   set (o_ins (build_fused_op mem grp nw all_ops outs)) =
     (\<Union>x \<in> set mem. set (o_ins x)) - (\<Union>x \<in> set mem. set (o_outs x)) \<and>
   distinct (o_ins (build_fused_op mem grp nw all_ops outs)) \<and>
   distinct (o_outs (build_fused_op mem grp nw all_ops outs)) \<and>
   subs (build_fused_op mem grp nw all_ops outs) = mem"
  by (auto simp: build_fused_op_def plain_fields_def produced_inside_def subs_def
      consumed_outside_group_def split: option.splits)

section \<open>The rewritten graph\<close>

lemma expand_ok:
  assumes "distinct (dids xs)"
    and "for_each (\<lambda>grp _. validate_fuse_group grp (ops_by_id xs)) groups () = Inr u"
    and "check_disjoint [] (expand_pairwise pw (ops_by_id xs) groups) = Inr ()"
  shows "groups_ok xs (expand_pairwise pw (ops_by_id xs) groups)"
proof -
  let ?gs = "expand_pairwise pw (ops_by_id xs) groups"
  have v: "validate_fuse_group g (ops_by_id xs) = Inr ()" if "g \<in> set ?gs" for g
  proof (cases pw)
    case True
    with that obtain h where h: "h \<in> set groups"
      and g: "g \<in> set (case pairwise_split h (ops_by_id xs) of None \<Rightarrow> [h] | Some ps \<Rightarrow> ps)"
      by (auto simp: expand_pairwise_def)
    have vh: "validate_fuse_group h (ops_by_id xs) = Inr ()" by (rule validated_known [OF assms(2) h])
    show ?thesis
    proof (cases "pairwise_split h (ops_by_id xs)")
      case (Some ps)
      then have "pair_up (ops_by_id xs) h = Some ps" by (simp add: pairwise_split_def split: if_splits)
      moreover have "g \<in> set ps" using g Some by simp
      ultimately obtain a b pre post where "g = [a, b]" "h = pre @ a # b # post" by (rule pair_adjacent)
      then show ?thesis using pair_valid [OF _ vh, of pre a b post] by (simp add: ops_by_id_def)
    qed (use g vh in simp)
  next
    case False
    with that show ?thesis using validated_known [OF assms(2)] by (simp add: expand_pairwise_def)
  qed
  then have "\<forall>g \<in> set ?gs. distinct g" by (simp add: validate_Inr_iff)
  from check_disjoint_Inr [OF assms(3) this] have "distinct (concat ?gs)" by simp
  moreover have "g \<noteq> [] \<and> distinct g \<and> set g \<subseteq> set (dids xs)" if "g \<in> set ?gs" for g
    using v [OF that] by (auto simp: validate_Inr_iff has_key_iff keys_ops_by_id)
  ultimately show ?thesis using assms(1) by (simp add: groups_ok_def)
qed

text \<open>The groups the rewrite really fuses.\<close>

definition applied_groups :: "graph \<Rightarrow> int list list \<Rightarrow> bool \<Rightarrow> int list list" where
  "applied_groups g groups pw = expand_pairwise pw (ops_by_id (ops g)) groups"

lemma ops_refresh [simp]:
  "ops (refresh_dispatches xs g) = ops g" "id_remap (refresh_dispatches xs g) = id_remap g"
  by (simp_all add: refresh_dispatches_def split: option.splits)

lemma apply_hint_cases:
  assumes "apply_hint g groups pw = Inr g'" "groups \<noteq> []" "distinct (dids (ops g))"
  shows "groups_ok (ops g) (applied_groups g groups pw)"
    and "map_res (rewire_fused (fs_remap (run_fuse g (applied_groups g groups pw)))
                   (fs_ext (run_fuse g (applied_groups g groups pw))))
           (fs_ops (run_fuse g (applied_groups g groups pw))) = Inr (ops g')"
    and "id_remap g' = Some (publish_remap (fs_remap (run_fuse g (applied_groups g groups pw))))"
    and "dispatches g' = map_option (\<lambda>_. dids (ops g')) (dispatches g)"
proof -
  from assms(1,2) obtain u where v: "for_each (\<lambda>grp _. validate_fuse_group grp (ops_by_id (ops g))) groups () = Inr u"
    by (auto simp: apply_hint_def Let_def split: sum.splits)
  with assms(1,2) have d: "check_disjoint [] (applied_groups g groups pw) = Inr ()"
    by (auto simp: apply_hint_def applied_groups_def Let_def split: sum.splits)
  show "groups_ok (ops g) (applied_groups g groups pw)"
    unfolding applied_groups_def by (rule expand_ok [OF assms(3) v d [unfolded applied_groups_def]])
  from assms(1,2) v d obtain xs where
    xs: "map_res (rewire_fused (fs_remap (run_fuse g (applied_groups g groups pw)))
                   (fs_ext (run_fuse g (applied_groups g groups pw))))
           (fs_ops (run_fuse g (applied_groups g groups pw))) = Inr xs"
    and g': "g' = (refresh_dispatches xs (g\<lparr>ops := xs\<rparr>))
                    \<lparr>id_remap := Some (publish_remap (fs_remap (run_fuse g (applied_groups g groups pw))))\<rparr>"
    by (auto simp: apply_hint_def applied_groups_def Let_def split: sum.splits)
  from g' have "ops g' = xs" by simp
  with xs g' show "map_res (rewire_fused (fs_remap (run_fuse g (applied_groups g groups pw)))
                   (fs_ext (run_fuse g (applied_groups g groups pw))))
           (fs_ops (run_fuse g (applied_groups g groups pw))) = Inr (ops g')"
    and "id_remap g' = Some (publish_remap (fs_remap (run_fuse g (applied_groups g groups pw))))"
    and "dispatches g' = map_option (\<lambda>_. dids (ops g')) (dispatches g)"
    by (simp_all add: refresh_dispatches_def split: option.splits)
qed

lemma o_did_rewire: "rewire_fused r e x = Inr y \<Longrightarrow> o_did y = o_did x"
  by (auto simp: rewire_fused_def set_deps_def split: option.splits if_splits sum.splits)

lemma dids_map_res:
  "map_res f xs = Inr ys \<Longrightarrow> (\<And>x y. f x = Inr y \<Longrightarrow> o_did y = o_did x) \<Longrightarrow> dids ys = dids xs"
proof (induction xs arbitrary: ys)
  case (Cons x xs)
  from Cons.prems(1) obtain y ys' where y: "f x = Inr y" "map_res f xs = Inr ys'" "ys = y # ys'"
    by (auto split: sum.splits)
  with Cons.IH [OF y(2) Cons.prems(2)] Cons.prems(2) [OF y(1)] show ?case
    by (simp split: option.splits)
qed simp

lemma did_renumber_op [simp]: "o_did (renumber_op n x) = Some n"
  by (simp add: renumber_op_def)

lemma dids_emitted:
  "dids (concat (map (emitted g gfi) xs)) = map (new_id gfi (ops g)) (heads gfi xs)"
  by (induction xs) (auto simp: heads_def emitted_def head_of_def split: option.splits)

lemma new_ids_heads:
  assumes "distinct (heads gfi xs)"
  shows "map (new_id gfi xs) (heads gfi xs) = map int [0..<length (heads gfi xs)]"
proof (rule nth_equalityI)
  fix i assume "i < length (map (new_id gfi xs) (heads gfi xs))"
  then have i: "i < length (heads gfi xs)" by simp
  let ?d = "heads gfi xs ! i"
  from i have "heads gfi xs = take i (heads gfi xs) @ ?d # drop (Suc i) (heads gfi xs)"
    by (rule id_take_nth_drop)
  then have "takeWhile (\<lambda>h. h \<noteq> ?d) (heads gfi xs) = take i (heads gfi xs)"
    using assms takeWhile_position by metis
  moreover have "head_of gfi ?d = ?d" using i nth_mem [OF i] heads_in by blast
  ultimately show "map (new_id gfi xs) (heads gfi xs) ! i = map int [0..<length (heads gfi xs)] ! i"
    using i by (simp add: new_id_def)
qed simp

lemma distinct_heads: "groups_ok xs groups \<Longrightarrow> distinct (heads gfi xs)"
  by (simp add: heads_def groups_ok_def)

lemma map_of_publish:
  assumes "distinct (keys m)"
  shows "map_of (publish_remap m) d = map_option To_One (map_of m d)"
proof -
  have d: "distinct (map fst m)" using assms by (simp add: keys_def)
  then have ds: "distinct (map fst (sort_key fst m))"
    by (metis distinct_map distinct_sort set_sort inj_on_def)
  have "map_of (sort_key fst m) = map_of m"
    by (rule map_of_eqI) (use d ds in auto)
  moreover have "map_of (map (\<lambda>(d, n). (d, To_One n)) kvs) d = map_option To_One (map_of kvs d)" for kvs
    by (induction kvs) auto
  ultimately show ?thesis by (simp add: publish_remap_def)
qed

lemma distinct_keys_fold_const:
  "distinct (keys m) \<Longrightarrow> distinct (keys (fold (\<lambda>d'. AList.update d' n) ds m))"
  by (induction ds arbitrary: m) (auto intro: distinct_keys_update)

lemma distinct_keys_fuse_step:
  "distinct (keys (fs_remap s)) \<Longrightarrow> distinct (keys (fs_remap (fuse_step g by_id gfi x s)))"
  by (auto simp: fuse_step_def Let_def intro: distinct_keys_fold_const distinct_keys_update split: option.splits)

lemma distinct_keys_run_fuse: "distinct (keys (fs_remap (run_fuse g groups)))"
proof -
  have "distinct (keys (fs_remap s)) \<Longrightarrow> distinct (keys (fs_remap (fold (fuse_step g by_id gfi) xs s)))"
    for xs s by_id gfi
    by (induction xs arbitrary: s) (auto intro: distinct_keys_fuse_step)
  then show ?thesis unfolding run_fuse_def by (simp add: keys_def)
qed

lemma head_in_heads_iff:
  assumes ok: "groups_ok xs groups"
  shows "head_of (group_for_id groups) a \<in> set (heads (group_for_id groups) xs) \<longleftrightarrow> a \<in> set (dids xs)"
proof
  assume h: "head_of (group_for_id groups) a \<in> set (heads (group_for_id groups) xs)"
  show "a \<in> set (dids xs)"
  proof (cases rule: head_of_cases [OF ok, of a, case_names inside outside])
    case (inside g)
    then have "set g \<subseteq> set (dids xs)" using ok by (simp add: groups_ok_def)
    with inside show ?thesis by auto
  next
    case outside
    with h show ?thesis by (simp add: heads_def)
  qed
qed (rule head_of_known [OF ok])

lemma run_fuse_facts:
  assumes ok: "groups_ok (ops g) groups"
  shows "fs_ops (run_fuse g groups) = concat (map (emitted g (group_for_id groups)) (ops g))"
    and "map_of (fs_remap (run_fuse g groups)) d =
           (if d \<in> set (dids (ops g)) then Some (new_id (group_for_id groups) (ops g) d) else None)"
    and "d \<in> set (heads (group_for_id groups) (ops g)) \<Longrightarrow> map_of (group_for_id groups) d = Some grp \<Longrightarrow>
           map_of (fs_ext (run_fuse g groups)) (new_id (group_for_id groups) (ops g) d) =
             Some (external_deps (members g grp) grp)"
proof -
  note I = run_fuse_inv [OF ok, unfolded walk_inv_def head_in_heads_iff [OF ok]]
  show "fs_ops (run_fuse g groups) = concat (map (emitted g (group_for_id groups)) (ops g))"
    using I [THEN conjunct1] .
  show "map_of (fs_remap (run_fuse g groups)) d =
           (if d \<in> set (dids (ops g)) then Some (new_id (group_for_id groups) (ops g) d) else None)"
    using I [THEN conjunct2, THEN conjunct2, THEN conjunct1, THEN spec, of d] .
  assume "d \<in> set (heads (group_for_id groups) (ops g))" "map_of (group_for_id groups) d = Some grp"
  then show "map_of (fs_ext (run_fuse g groups)) (new_id (group_for_id groups) (ops g) d) =
             Some (external_deps (members g grp) grp)"
    using I [THEN conjunct2, THEN conjunct2, THEN conjunct2] by blast
qed

lemma dids_apply_hint:
  assumes "apply_hint g groups pw = Inr g'" "groups \<noteq> []" "distinct (dids (ops g))"
  defines "gfi \<equiv> group_for_id (applied_groups g groups pw)"
  shows "dids (ops g') = map (new_id gfi (ops g)) (heads gfi (ops g))"
    and "dids (ops g') = map int [0..<length (heads gfi (ops g))]"
proof -
  note A = apply_hint_cases [OF assms(1-3)]
  have "dids (ops g') = dids (fs_ops (run_fuse g (applied_groups g groups pw)))"
    by (rule dids_map_res [OF A(2)]) (rule o_did_rewire)
  then show d: "dids (ops g') = map (new_id gfi (ops g)) (heads gfi (ops g))"
    unfolding run_fuse_facts(1) [OF A(1)] dids_emitted gfi_def .
  show "dids (ops g') = map int [0..<length (heads gfi (ops g))]"
    unfolding d by (rule new_ids_heads) (simp add: gfi_def distinct_heads [OF A(1)])
qed

lemma map_of_id_remap:
  assumes "apply_hint g groups pw = Inr g'" "groups \<noteq> []" "distinct (dids (ops g))" "id_remap g' = Some rm"
  shows "map_of rm d = (if d \<in> set (dids (ops g))
           then Some (To_One (new_id (group_for_id (applied_groups g groups pw)) (ops g) d)) else None)"
  using apply_hint_cases [OF assms(1-3)] assms(4) run_fuse_facts(2)
  by (auto simp: map_of_publish distinct_keys_run_fuse)

lemma ran_if: "ran (\<lambda>d. if d \<in> D then Some (f d) else None) = f ` D"
  by (auto simp: ran_def split: if_splits)

lemma new_id_head:
  "head_of gfi a = head_of gfi b \<Longrightarrow> new_id gfi xs a = new_id gfi xs b"
  by (simp add: new_id_def)

text \<open>
  C3. The renumbering \<open>apply_hint\<close> publishes: the rewritten graph's dispatch ids are
  \<open>0, 1, 2, ...\<close> in op order and its \<open>dispatches\<close> list, when there is one, is exactly that; the
  \<open>id_remap\<close> has every input dispatch id and nothing else, its values are exactly the new ids, and
  it sends two ids to the same new id exactly when they are equal or members of one fused group.
\<close>
theorem fuse_renumbering:
  assumes hint: "apply_hint g groups pw = Inr g'" "groups \<noteq> []" and ids: "distinct (dids (ops g))"
  shows "dids (ops g') = map int [0..<length (dids (ops g'))] \<and>
         dispatches g' = map_option (\<lambda>_. dids (ops g')) (dispatches g) \<and>
         (\<exists>rm. id_remap g' = Some rm \<and> dom (map_of rm) = set (dids (ops g)) \<and>
           ran (map_of rm) = To_One ` set (dids (ops g')) \<and>
           (\<forall>a \<in> set (dids (ops g)). \<forall>b \<in> set (dids (ops g)).
              map_of rm a = map_of rm b \<longleftrightarrow>
                a = b \<or> (\<exists>G \<in> set (applied_groups g groups pw). a \<in> set G \<and> b \<in> set G)))"
proof -
  let ?gfi = "group_for_id (applied_groups g groups pw)"
  note A = apply_hint_cases [OF hint ids]
  note D = dids_apply_hint [OF hint ids]
  have dense: "dids (ops g') = map int [0..<length (dids (ops g'))]" using D(2) by simp
  from A(3) obtain rm where rm: "id_remap g' = Some rm" by simp
  note R = map_of_id_remap [OF hint ids rm]
  have "dom (map_of rm) = set (dids (ops g))" by (auto simp: R dom_def)
  moreover have "new_id ?gfi (ops g) ` set (dids (ops g)) = set (dids (ops g'))"
  proof
    show "new_id ?gfi (ops g) ` set (dids (ops g)) \<subseteq> set (dids (ops g'))"
    proof
      fix n assume "n \<in> new_id ?gfi (ops g) ` set (dids (ops g))"
      then obtain d where d: "d \<in> set (dids (ops g))" "n = new_id ?gfi (ops g) d" by auto
      have "n = new_id ?gfi (ops g) (head_of ?gfi d)"
        unfolding d(2) by (rule new_id_head) (simp add: head_of_idem [OF A(1)])
      with head_of_known [OF A(1) d(1)] show "n \<in> set (dids (ops g'))" by (simp add: D(1))
    qed
    show "set (dids (ops g')) \<subseteq> new_id ?gfi (ops g) ` set (dids (ops g))"
      using heads_in unfolding D(1) by fastforce
  qed
  then have "ran (map_of rm) = To_One ` set (dids (ops g'))"
    unfolding ext [of "map_of rm", OF R] ran_if by (simp flip: image_image)
  moreover have "map_of rm a = map_of rm b \<longleftrightarrow>
      a = b \<or> (\<exists>G \<in> set (applied_groups g groups pw). a \<in> set G \<and> b \<in> set G)"
    if "a \<in> set (dids (ops g))" "b \<in> set (dids (ops g))" for a b
    using that new_id_eq_iff [OF A(1) that] by (simp add: R)
  ultimately have "\<exists>rm. id_remap g' = Some rm \<and> dom (map_of rm) = set (dids (ops g)) \<and>
           ran (map_of rm) = To_One ` set (dids (ops g')) \<and>
           (\<forall>a \<in> set (dids (ops g)). \<forall>b \<in> set (dids (ops g)).
              map_of rm a = map_of rm b \<longleftrightarrow>
                a = b \<or> (\<exists>G \<in> set (applied_groups g groups pw). a \<in> set G \<and> b \<in> set G))"
    using rm by blast
  with dense A(4) show ?thesis by blast
qed

theorem fuse_renumbering_witness:
  "\<exists>g'. apply_hint (plain_graph mlp_ops [''y'']) [[0, 1, 2, 3]] True = Inr g' \<and>
        dids (ops g') = map int [0..<length (dids (ops g'))]"
proof -
  let ?g = "plain_graph mlp_ops [''y'']"
  have d: "distinct (dids (ops ?g))" by code_simp
  have "case apply_hint ?g [[0, 1, 2, 3]] True of Inl _ \<Rightarrow> False | Inr _ \<Rightarrow> True" by code_simp
  then obtain g' where g': "apply_hint ?g [[0, 1, 2, 3]] True = Inr g'" by (auto split: sum.splits)
  from fuse_renumbering [OF g' _ d] g' show ?thesis by blast
qed

section \<open>The dependency relation after fusing\<close>

lemma did_fused_of [simp]: "fused_from (flds (fused_of g grp)) = Some grp"
  by (simp add: fused_of_def build_fused_op_def Let_def)

lemma fused_from_renumber [simp]:
  "fused_from (flds (renumber_op n x)) = fused_from (flds x)" "o_deps (renumber_op n x) = o_deps x"
  by (simp_all add: renumber_op_def)

lemma members_deps:
  assumes "groups_ok (ops g) groups" "grp \<in> set groups"
  shows "set (external_deps (members g grp) grp) =
           {a. a \<notin> set grp \<and> (\<exists>x \<in> set (ops g). \<exists>b \<in> set grp. o_did x = Some b \<and> a \<in> set (o_deps x))}"
proof -
  have dist: "distinct (dids (ops g))" and known: "set grp \<subseteq> set (dids (ops g))"
    using assms by (auto simp: groups_ok_def)
  have mem: "m \<in> set (members g grp) \<longleftrightarrow> m \<in> set (ops g) \<and> (\<exists>b \<in> set grp. o_did m = Some b)" for m
  proof
    assume "m \<in> set (members g grp)"
    then obtain b where "b \<in> set grp" "map_of (ops_by_id (ops g)) b = Some m"
      by (auto simp: members_def List.map_filter_def)
    then show "m \<in> set (ops g) \<and> (\<exists>b \<in> set grp. o_did m = Some b)" using ops_by_id_in by blast
  next
    assume "m \<in> set (ops g) \<and> (\<exists>b \<in> set grp. o_did m = Some b)"
    then obtain b where b: "b \<in> set grp" "m \<in> set (ops g)" "o_did m = Some b" by auto
    have "map_of (ops_by_id (ops g)) b = Some m" by (rule map_of_ops_by_id [OF dist b(2,3)])
    with b(1) show "m \<in> set (members g grp)" by (force simp: members_def List.map_filter_def)
  qed
  have "a \<in> set (external_deps (members g grp) grp) \<longleftrightarrow>
      a \<notin> set grp \<and> (\<exists>m \<in> set (members g grp). a \<in> set (o_deps m))" for a
    by (auto simp: external_deps_def)
  with mem show ?thesis by blast
qed

text \<open>Two ids fall into one fused group.\<close>

definition same_group :: "int list list \<Rightarrow> int \<Rightarrow> int \<Rightarrow> bool" where
  "same_group groups a b = (\<exists>G \<in> set groups. a \<in> set G \<and> b \<in> set G)"

lemma rewritten_deps:
  assumes ok: "groups_ok (ops g) groups" and y: "y \<in> set ys" "o_did y = Some n"
    and ys: "map_res (rewire_fused (fs_remap (run_fuse g groups)) (fs_ext (run_fuse g groups)))
               (fs_ops (run_fuse g groups)) = Inr ys"
    and orig: "\<forall>x \<in> set (ops g). fused_from (flds x) = None"
  obtains h where "h \<in> set (heads (group_for_id groups) (ops g))"
    "n = new_id (group_for_id groups) (ops g) h"
    "set (o_deps y) = new_id (group_for_id groups) (ops g) ` {a. \<exists>b.
        head_of (group_for_id groups) b = h \<and> (a, b) \<in> dep_rel (ops g) \<and> \<not> same_group groups a b}"
proof -
  let ?gfi = "group_for_id groups" and ?r = "fs_remap (run_fuse g groups)"
  let ?n = "new_id (group_for_id groups) (ops g)"
  note F = run_fuse_facts [OF ok]
  have dist: "distinct (dids (ops g))" and dc: "distinct (concat groups)"
    using ok by (simp_all add: groups_ok_def)
  from map_res_set [OF ys y(1)] obtain z where z: "z \<in> set (fs_ops (run_fuse g groups))"
    and w: "rewire_fused ?r (fs_ext (run_fuse g groups)) z = Inr y" by blast
  from z F(1) obtain x where x: "x \<in> set (ops g)" "z \<in> set (emitted g ?gfi x)" by auto
  have dz: "o_did z = Some n" using o_did_rewire [OF w] y(2) by simp
  then obtain d where d: "o_did x = Some d"
    using x(2) by (cases "o_did x") (auto simp: emitted_def)
  have kn: "d \<in> set (dids (ops g))" using x(1) d by (auto simp: in_dids_iff)
  have uniq: "x' = x" if "x' \<in> set (ops g)" "o_did x' = Some d" for x'
    using map_of_ops_by_id [OF dist that] map_of_ops_by_id [OF dist x(1) d] by simp
  show thesis
  proof (cases "map_of ?gfi d")
    case None
    then have hd: "head_of ?gfi d = d" by (simp add: head_of_def)
    have no_grp: "\<not> same_group groups a d" for a
      using None map_of_group_for_id [OF dc, of d] by (auto simp: same_group_def)
    have only: "b = d" if "head_of ?gfi b = d" for b
      using that hd head_of_eq_iff [OF ok, of b d] no_grp [of b] by (auto simp: same_group_def)
    from x(2) d None have zx: "z = renumber_op (?n d) x" by (simp add: emitted_def)
    then have "set (o_deps y) = set (List.map_filter (map_of ?r) (o_deps x))"
      using w orig x(1) dz by (auto simp: rewire_fused_def set_deps_def)
    also have "\<dots> = ?n ` {a. a \<in> set (o_deps x) \<and> a \<in> set (dids (ops g))}"
      by (auto simp: List.map_filter_def F(2) split: if_splits)
    also have "\<dots> = ?n ` {a. \<exists>b. head_of ?gfi b = d \<and> (a, b) \<in> dep_rel (ops g) \<and> \<not> same_group groups a b}"
    proof -
      have "(a, d) \<in> dep_rel (ops g) \<longleftrightarrow> a \<in> set (o_deps x) \<and> a \<in> set (dids (ops g))" for a
      proof
        assume "(a, d) \<in> dep_rel (ops g)"
        then obtain x' where x': "x' \<in> set (ops g)" "o_did x' = Some d" "a \<in> set (o_deps x')"
          and k: "a \<in> set (dids (ops g))" unfolding dep_rel_def by blast
        have "x' = x" by (rule uniq [OF x'(1,2)])
        with x'(3) k show "a \<in> set (o_deps x) \<and> a \<in> set (dids (ops g))" by simp
      next
        assume "a \<in> set (o_deps x) \<and> a \<in> set (dids (ops g))"
        then show "(a, d) \<in> dep_rel (ops g)" using x(1) d unfolding dep_rel_def by blast
      qed
      moreover have "(\<exists>b. head_of ?gfi b = d \<and> (a, b) \<in> dep_rel (ops g) \<and> \<not> same_group groups a b) \<longleftrightarrow>
          (a, d) \<in> dep_rel (ops g)" for a
        using only hd no_grp by metis
      ultimately show ?thesis by simp
    qed
    finally have deps: "set (o_deps y) = \<dots>" .
    have "d \<in> set (heads ?gfi (ops g))" using hd kn by (simp add: heads_def)
    moreover have "n = ?n d" using dz zx by simp
    ultimately show thesis using deps by (rule that)
  next
    case (Some grp)
    from x(2) d Some have zx: "d = Min (set grp)" "z = renumber_op (?n d) (fused_of g grp)"
      by (simp_all add: emitted_def split: if_splits)
    have hd: "head_of ?gfi d = d" using Some zx(1) by (simp add: head_of_def)
    have hh: "d \<in> set (heads ?gfi (ops g))" using hd kn by (simp add: heads_def)
    have mem: "b \<in> set grp \<longleftrightarrow> head_of ?gfi b = d" for b
      using group_members_head [OF ok Some] zx(1) by simp
    have gin: "grp \<in> set groups" using Some map_of_group_for_id [OF dc] by simp
    have grp: "same_group groups a b \<longleftrightarrow> a \<in> set grp" if "b \<in> set grp" for a b
    proof
      assume "same_group groups a b"
      then obtain G where G: "G \<in> set groups" "a \<in> set G" "b \<in> set G" by (auto simp: same_group_def)
      have "map_of ?gfi b = Some G" "map_of ?gfi b = Some grp"
        using G gin that map_of_group_for_id [OF dc] by auto
      with G show "a \<in> set grp" by simp
    qed (use gin that in \<open>auto simp: same_group_def\<close>)
    have nn: "n = ?n d" using dz zx by simp
    have ext: "map_of (fs_ext (run_fuse g groups)) n = Some (external_deps (members g grp) grp)"
      unfolding nn by (rule F(3) [OF hh Some])
    from w zx(2) dz ext obtain ns where ns: "map_res (remap_or_raise ?r) (external_deps (members g grp) grp) = Inr ns"
      and yn: "o_deps y = ns" by (auto simp: rewire_fused_def set_deps_def split: sum.splits)
    have step: "remap_or_raise ?r a = Inr m \<longleftrightarrow> a \<in> set (dids (ops g)) \<and> m = ?n a" for a m
      by (auto simp: remap_or_raise_def F(2))
    have all: "a \<in> set (dids (ops g))" if "a \<in> set (external_deps (members g grp) grp)" for a
      using map_res_Inr_iff [of "remap_or_raise ?r" "external_deps (members g grp) grp"] ns that step by blast
    then have "map_res (remap_or_raise ?r) (external_deps (members g grp) grp) =
        Inr (map ?n (external_deps (members g grp) grp))"
      by (intro map_res_total) (simp add: step)
    with ns have "ns = map ?n (external_deps (members g grp) grp)" by simp
    with yn have "set (o_deps y) = ?n ` set (external_deps (members g grp) grp)" by simp
    also have "\<dots> = ?n ` {a. \<exists>b. head_of ?gfi b = d \<and> (a, b) \<in> dep_rel (ops g) \<and> \<not> same_group groups a b}"
    proof -
      have "a \<in> set (external_deps (members g grp) grp) \<longleftrightarrow>
          (\<exists>b. b \<in> set grp \<and> (a, b) \<in> dep_rel (ops g) \<and> a \<notin> set grp)" for a
        using all [of a] unfolding members_deps [OF ok gin] dep_rel_def by blast
      then have "a \<in> set (external_deps (members g grp) grp) \<longleftrightarrow>
          (\<exists>b. head_of ?gfi b = d \<and> (a, b) \<in> dep_rel (ops g) \<and> \<not> same_group groups a b)" for a
        using mem grp by metis
      then have "set (external_deps (members g grp) grp) =
          {a. \<exists>b. head_of ?gfi b = d \<and> (a, b) \<in> dep_rel (ops g) \<and> \<not> same_group groups a b}" by blast
      then show ?thesis by (rule arg_cong)
    qed
    finally show thesis using that [OF hh nn] by blast
  qed
qed

lemma new_id_in:
  assumes "groups_ok xs groups" "a \<in> set (dids xs)"
  shows "new_id (group_for_id groups) xs a \<in>
           new_id (group_for_id groups) xs ` set (heads (group_for_id groups) xs)"
proof (rule image_eqI)
  show "new_id (group_for_id groups) xs a =
      new_id (group_for_id groups) xs (head_of (group_for_id groups) a)"
    by (rule new_id_head) (simp add: head_of_idem [OF assms(1)])
qed (rule head_of_known [OF assms])

lemma new_id_head_inj:
  assumes "groups_ok xs groups" "h \<in> set (heads (group_for_id groups) xs)"
    "k \<in> set (heads (group_for_id groups) xs)"
    "new_id (group_for_id groups) xs h = new_id (group_for_id groups) xs k"
  shows "h = k"
proof -
  have "h \<in> set (dids xs)" "k \<in> set (dids xs)" using assms(2,3) heads_in by blast+
  then have "head_of (group_for_id groups) h = head_of (group_for_id groups) k"
    using new_id_eq_iff [OF assms(1)] head_of_eq_iff [OF assms(1)] assms(4) by blast
  then show ?thesis using assms(2,3) heads_in by metis
qed

lemma fused_dep_rel:
  assumes hint: "apply_hint g groups pw = Inr g'" "groups \<noteq> []" and ids: "distinct (dids (ops g))"
    and orig: "\<forall>x \<in> set (ops g). fused_from (flds x) = None" and rm: "id_remap g' = Some rm"
  shows "dep_rel (ops g') =
           {(m, n). \<exists>a b. (a, b) \<in> dep_rel (ops g) \<and> \<not> same_group (applied_groups g groups pw) a b \<and>
                          map_of rm a = Some (To_One m) \<and> map_of rm b = Some (To_One n)}"
    (is "_ = ?R")
proof -
  let ?gs = "applied_groups g groups pw"
  let ?n = "new_id (group_for_id ?gs) (ops g)"
  note A = apply_hint_cases [OF hint ids]
  note D = dids_apply_hint [OF hint ids]
  note M = map_of_id_remap [OF hint ids rm]
  have known: "a \<in> set (dids (ops g)) \<and> b \<in> set (dids (ops g))" if "(a, b) \<in> dep_rel (ops g)" for a b
    using that by (auto simp: dep_rel_def in_dids_iff)
  have out: "?n a \<in> set (dids (ops g'))" if "a \<in> set (dids (ops g))" for a
    using new_id_in [OF A(1) that] D(1) by simp
  have R: "(m, n) \<in> ?R \<longleftrightarrow> (\<exists>a b. (a, b) \<in> dep_rel (ops g) \<and> \<not> same_group ?gs a b \<and> m = ?n a \<and> n = ?n b)"
    for m n
  proof -
    have "map_of rm a = Some (To_One m) \<and> map_of rm b = Some (To_One n) \<longleftrightarrow> m = ?n a \<and> n = ?n b"
      if "(a, b) \<in> dep_rel (ops g)" for a b
      using known [OF that] by (auto simp: M)
    then have "(\<exists>a b. (a, b) \<in> dep_rel (ops g) \<and> \<not> same_group ?gs a b \<and>
          map_of rm a = Some (To_One m) \<and> map_of rm b = Some (To_One n)) \<longleftrightarrow>
        (\<exists>a b. (a, b) \<in> dep_rel (ops g) \<and> \<not> same_group ?gs a b \<and> m = ?n a \<and> n = ?n b)"
      by metis
    then show ?thesis by simp
  qed
  have lr: "(m, n) \<in> ?R" if "(m, n) \<in> dep_rel (ops g')" for m n
  proof -
    from that obtain y where y: "y \<in> set (ops g')" "o_did y = Some n" "m \<in> set (o_deps y)"
      by (auto simp: dep_rel_def)
    obtain h where
      h: "h \<in> set (heads (group_for_id ?gs) (ops g))" "n = ?n h"
        "set (o_deps y) = ?n ` {a. \<exists>b. head_of (group_for_id ?gs) b = h \<and> (a, b) \<in> dep_rel (ops g) \<and>
           \<not> same_group ?gs a b}" by (rule rewritten_deps [OF A(1) y(1,2) A(2) orig])
    then obtain a b where ab: "m = ?n a" "head_of (group_for_id ?gs) b = h" "(a, b) \<in> dep_rel (ops g)"
      "\<not> same_group ?gs a b" using y(3) by auto
    have "?n b = ?n h"
      by (rule new_id_head) (use ab(2) h(1) heads_in in simp)
    then have "m = ?n a \<and> n = ?n b" using ab h(2) by simp
    with ab(3,4) have "\<exists>a b. (a, b) \<in> dep_rel (ops g) \<and> \<not> same_group ?gs a b \<and> m = ?n a \<and> n = ?n b"
      by (intro exI [of _ a] exI [of _ b]) simp
    then show ?thesis unfolding R .
  qed
  have rl: "(m, n) \<in> dep_rel (ops g')" if "(m, n) \<in> ?R" for m n
  proof -
    from that [unfolded R] obtain a b where ab: "(a, b) \<in> dep_rel (ops g)" "\<not> same_group ?gs a b"
      "m = ?n a" "n = ?n b" by auto
    have "n \<in> set (dids (ops g'))" using out known [OF ab(1)] ab(4) by blast
    then obtain y where y: "y \<in> set (ops g')" "o_did y = Some n" by (auto simp: in_dids_iff)
    obtain h where
      h: "h \<in> set (heads (group_for_id ?gs) (ops g))" "n = ?n h"
        "set (o_deps y) = ?n ` {a. \<exists>b. head_of (group_for_id ?gs) b = h \<and> (a, b) \<in> dep_rel (ops g) \<and>
           \<not> same_group ?gs a b}" by (rule rewritten_deps [OF A(1) y A(2) orig])
    let ?k = "head_of (group_for_id ?gs) b"
    have k: "?k \<in> set (heads (group_for_id ?gs) (ops g))"
      using head_of_known [OF A(1)] known [OF ab(1)] by blast
    have "?n ?k = ?n b" by (rule new_id_head) (simp add: head_of_idem [OF A(1)])
    with h(2) ab(4) have "?k = h" using new_id_head_inj [OF A(1) k h(1)] by simp
    with ab(1,2) have "a \<in> {a. \<exists>b. head_of (group_for_id ?gs) b = h \<and> (a, b) \<in> dep_rel (ops g) \<and>
        \<not> same_group ?gs a b}" by auto
    then have "m \<in> set (o_deps y)" unfolding h(3) ab(3) by (rule imageI)
    moreover have "m \<in> set (dids (ops g'))" using out known [OF ab(1)] ab(3) by blast
    ultimately show ?thesis using y unfolding dep_rel_def by blast
  qed
  show ?thesis by (intro equalityI subrelI; (rule lr | rule rl); assumption)
qed

text \<open>
  C2. The dependency relation of the rewritten graph is the image of the input's under the
  published renumbering, without the pairs inside one fused group: no dependency is lost and none
  is made up. (The input has not been fused before, so no op carries \<open>fused_from\<close> yet.)
\<close>
theorem fuse_dependencies:
  assumes hint: "apply_hint g groups pw = Inr g'" "groups \<noteq> []" and ids: "distinct (dids (ops g))"
    and orig: "\<forall>x \<in> set (ops g). fused_from (flds x) = None" and rm: "id_remap g' = Some rm"
  shows "dep_rel (ops g') =
           {(m, n). \<exists>a b. (a, b) \<in> dep_rel (ops g) \<and> \<not> same_group (applied_groups g groups pw) a b \<and>
                          map_of rm a = Some (To_One m) \<and> map_of rm b = Some (To_One n)}"
    (is "_ = ?R")
  using assms by (rule fused_dep_rel)

definition diamond_ops :: "op list" where
  "diamond_ops =
     [mk_op ''a'' ''conv2d_s8'' (Some 0) [] [''x''] [''t0''],
      mk_op ''b'' ''batchnorm2d_s8'' (Some 1) [0] [''t0''] [''t1''],
      mk_op ''c'' ''silu_s8'' (Some 2) [0] [''t0''] [''t2''],
      mk_op ''d'' ''add_s8'' (Some 3) [1, 2] [''t1'', ''t2''] [''y'']]"

definition diamond_fused :: graph where
  "diamond_fused = (case apply_hint (plain_graph diamond_ops [''y'']) [[0, 1]] False of
                      Inl _ \<Rightarrow> plain_graph [] [] | Inr g' \<Rightarrow> g')"

lemma diamond_run: "apply_hint (plain_graph diamond_ops [''y'']) [[0, 1]] False = Inr diamond_fused"
  by code_simp

lemma diamond_remap:
  "id_remap diamond_fused = Some [(0, To_One 0), (1, To_One 0), (2, To_One 1), (3, To_One 2)]"
  by code_simp

theorem fuse_dependencies_witness: "(0, 1) \<in> dep_rel (ops diamond_fused)"
proof -
  let ?g = "plain_graph diamond_ops [''y'']"
  have d: "distinct (dids (ops ?g))" and o: "\<forall>x \<in> set (ops ?g). fused_from (flds x) = None"
    by code_simp+
  have "(0, 2) \<in> dep_rel (ops ?g)" by (simp add: dep_rel_def plain_graph_def diamond_ops_def)
  moreover have "\<not> same_group (applied_groups ?g [[0, 1]] False) 0 2" by code_simp
  ultimately show ?thesis
    unfolding fuse_dependencies [OF diamond_run _ d o diamond_remap, simplified]
    by (intro CollectI case_prodI exI [of _ 0] exI [of _ 2]) simp
qed

text \<open>
  C4. Fusing one validated group keeps the dependency relation free of cycles: this is what the
  validator's closure check is for.
\<close>
theorem fuse_one_group_acyclic:
  assumes hint: "apply_hint g [grp] False = Inr g'" and ids: "distinct (dids (ops g))"
    and orig: "\<forall>x \<in> set (ops g). fused_from (flds x) = None"
    and acyc: "acyclic (dep_rel (ops g))"
  shows "acyclic (dep_rel (ops g'))"
proof -
  have ne: "[grp] \<noteq> []" by simp
  have gs: "applied_groups g [grp] False = [grp]" by (simp add: applied_groups_def expand_pairwise_def)
  note A = apply_hint_cases [OF hint ne ids, unfolded gs]
  from A(3) obtain rm where rm: "id_remap g' = Some rm" by simp
  let ?n = "new_id (group_for_id [grp]) (ops g)"
  note M = map_of_id_remap [OF hint ne ids rm, unfolded gs]
  have known: "a \<in> set (dids (ops g)) \<and> b \<in> set (dids (ops g))" if "(a, b) \<in> dep_rel (ops g)" for a b
    using that by (auto simp: dep_rel_def in_dids_iff)
  have "dep_rel (ops g') \<subseteq> collapse ?n (set grp) (dep_rel (ops g))"
    unfolding fused_dep_rel [OF hint ne ids orig rm] gs collapse_def
    by (auto simp: M same_group_def split: if_splits)
  moreover have "acyclic (collapse ?n (set grp) (dep_rel (ops g)))"
  proof (rule collapse_acyclic [OF acyc])
    have "validate_fuse_group grp (ops_by_id (ops g)) = Inr ()"
      using hint by (auto simp: apply_hint_def Let_def split: sum.splits)
    then show "\<not> between (dep_rel (ops g)) (set grp) x" for x
      by (simp add: validate_Inr_iff id_edges_dep_rel [OF ids])
    show "x \<in> set (dids (ops g)) \<and> y \<in> set (dids (ops g))" if "(x, y) \<in> dep_rel (ops g)" for x y
      using known [OF that] .
    show "x = y \<or> x \<in> set grp \<and> y \<in> set grp"
      if "x \<in> set (dids (ops g))" "y \<in> set (dids (ops g))" "?n x = ?n y" for x y
      using new_id_eq_iff [OF A(1) that(1,2)] that(3) by simp
  qed
  ultimately show ?thesis by (metis acyclic_subset)
qed

theorem fuse_one_group_acyclic_witness: "acyclic (dep_rel (ops diamond_fused))"
proof (rule fuse_one_group_acyclic [OF diamond_run])
  have "backward (ops (plain_graph diamond_ops [''y'']))" by code_simp
  then show "acyclic (dep_rel (ops (plain_graph diamond_ops [''y''])))" by (rule backward_acyclic)
qed code_simp+

section \<open>Where the rewrite departs from its documentation\<close>

definition two_chains :: "op list" where
  "two_chains =
     [mk_op ''a'' ''relu_s8'' (Some 0) [] [''x''] [''t0''],
      mk_op ''b'' ''relu_s8'' (Some 1) [0] [''t0''] [''t1''],
      mk_op ''c'' ''relu_s8'' (Some 2) [] [''x''] [''t2''],
      mk_op ''d'' ''relu_s8'' (Some 3) [2] [''t2''] [''t3'']]"

text \<open>
  The closure check looks at one group at a time. Two disjoint groups that are each accepted
  can still be fused into two ops that depend on each other: from two independent chains
  \<open>0 -> 1\<close> and \<open>2 -> 3\<close> the groups \<open>[0, 3]\<close> and \<open>[1, 2]\<close> give a graph that cannot be scheduled.
\<close>
theorem two_groups_fuse_to_a_cycle:
  "acyclic (dep_rel two_chains) \<and>
   validate_fuse_group [0, 3] (ops_by_id two_chains) = Inr () \<and>
   validate_fuse_group [1, 2] (ops_by_id two_chains) = Inr () \<and>
   (case apply_hint (plain_graph two_chains [''t1'', ''t3'']) [[0, 3], [1, 2]] False of
      Inl _ \<Rightarrow> False | Inr g' \<Rightarrow> {(0, 1), (1, 0)} \<subseteq> dep_rel (ops g') \<and> \<not> acyclic (dep_rel (ops g')))"
proof -
  have "backward two_chains" by code_simp
  then have acyc: "acyclic (dep_rel two_chains)" by (rule backward_acyclic)
  have valid: "validate_fuse_group [0, 3] (ops_by_id two_chains) = Inr ()"
    "validate_fuse_group [1, 2] (ops_by_id two_chains) = Inr ()" by code_simp+
  have "case apply_hint (plain_graph two_chains [''t1'', ''t3'']) [[0, 3], [1, 2]] False of
      Inl _ \<Rightarrow> False
    | Inr g' \<Rightarrow> map (\<lambda>x. (o_did x, o_deps x)) (ops g') = [(Some 0, [1]), (Some 1, [0])]"
    by code_simp
  then obtain g' where g': "apply_hint (plain_graph two_chains [''t1'', ''t3'']) [[0, 3], [1, 2]] False = Inr g'"
    and shape: "map (\<lambda>x. (o_did x, o_deps x)) (ops g') = [(Some 0, [1]), (Some 1, [0])]"
    by (auto split: sum.splits)
  from shape obtain p q where "ops g' = [p, q]" "o_did p = Some 0" "o_deps p = [1]"
    "o_did q = Some 1" "o_deps q = [0]" by (auto simp: map_eq_Cons_conv)
  then have cyc: "{(0, 1), (1, 0)} \<subseteq> dep_rel (ops g')" by (auto simp: dep_rel_def)
  then have "(0, 0) \<in> (dep_rel (ops g'))\<^sup>+" by (auto intro: trancl_into_trancl)
  then show ?thesis using acyc valid g' cyc by (auto simp: acyclic_def)
qed

definition late_input :: "op list" where
  "late_input =
     [mk_op ''a'' ''conv2d_s8'' (Some 0) [] [''x''] [''t0''],
      mk_op ''b'' ''relu_s8'' (Some 1) [] [''x''] [''t1''],
      mk_op ''c'' ''add_s8'' (Some 2) [0, 1] [''t0'', ''t1''] [''y'']]"

text \<open>
  The fused op takes the list slot of its smallest member, which can stand before the producer
  of one of its inputs: fusing ops 0 and 2 of a graph whose op 1 feeds op 2 emits a first op that
  reads the tensor only the second op writes. The input lists every dependency backwards; the
  output does not.
\<close>
theorem fused_slot_precedes_producer:
  "backward late_input \<and>
   (case apply_hint (plain_graph late_input [''y'']) [[0, 2]] False of
      Inl _ \<Rightarrow> False
    | Inr g' \<Rightarrow> map (\<lambda>x. (o_did x, o_deps x, o_ins x, o_outs x)) (ops g') =
                [(Some 0, [1], [''x'', ''t1''], [''y'']), (Some 1, [], [''x''], [''t1''])] \<and>
              \<not> backward (ops g'))"
  by code_simp

definition viewed_inside :: "op list" where
  "viewed_inside =
     [mk_op ''a'' ''conv2d_s8'' (Some 0) [] [''x''] [''t0''],
      mk_op ''b'' ''relu_s8'' (Some 1) [0] [''t0''] [''t1''],
      mk_op ''v'' ''view'' None [0] [''t0''] [''t0v''],
      mk_op ''c'' ''linear_s8'' (Some 2) [0] [''t0v''] [''y'']]"

text \<open>
  A tensor that only a view reads outside the group is recorded as internal to the fused op,
  although the view stays in the graph and a later dispatch reads its alias: the view's source is
  no output of any op of the rewritten graph.
\<close>
theorem view_source_becomes_internal:
  "case apply_hint (plain_graph viewed_inside [''y'']) [[0, 1]] False of
     Inl _ \<Rightarrow> False
   | Inr g' \<Rightarrow> map (\<lambda>x. (o_did x, o_ins x, o_outs x, internal_tensors (flds x))) (ops g') =
               [(Some 0, [''x''], [], [''t0'', ''t1'']), (None, [''t0''], [''t0v''], []),
                (Some 1, [''t0v''], [''y''], [])]"
  by code_simp

text \<open>
  The rewrite is not re-applicable: a graph that already holds a fused op outside the new
  groups raises a plain \<open>KeyError\<close> on that op's id, because the second pass looks every op with
  \<open>fused_from\<close> up among the groups of this call.
\<close>
theorem second_hint_raises_key_error:
  "case apply_hint (plain_graph mlp_ops [''y'']) [[0, 1]] False of
     Inl _ \<Rightarrow> False
   | Inr g' \<Rightarrow> dids (ops g') = [0, 1, 2] \<and>
               apply_hint g' [[1, 2]] False = Inl (Fusion_Key_Error 0)"
  by code_simp

end
