(* ===== verification/Op_Class.thy ===== *)
theory Op_Class
  imports Graph_IR
begin

text \<open>
  \<^verbatim>\<open>pipeline/op_classes.py\<close>: the coarse class of an op kind, by which KernelBlaster shares
  knowledge and the graph passes choose candidates. Whether the recurrent class is on is an argument.
\<close>

section \<open>Kinds\<close>

text \<open>\<open>s.split("__")\<close>.\<close>

fun split_dunder :: "string \<Rightarrow> string list" where
  "split_dunder [] = [[]]"
| "split_dunder [c] = [[c]]"
| "split_dunder (c # d # cs) =
     (if c = CHR ''_'' \<and> d = CHR ''_'' then [] # split_dunder cs
      else case split_dunder (d # cs) of [] \<Rightarrow> [[c]] | w # ws \<Rightarrow> (c # w) # ws)"

definition join_dunder :: "string list \<Rightarrow> string" where
  "join_dunder ws = join ''__'' ws"

definition op_table :: "(string \<times> string list) list" where
  "op_table =
    [
     (''gemm'',
      [''linear'', ''matmul'', ''matmul_ta'', ''matmul_tb'', ''matmul_tatb'', ''bmm'', ''bmm_strided'',
       ''diag_matmul'', ''lstm'', ''lstm_seq'', ''gru_seq'']),
     (''conv'',
      [''conv2d'', ''conv2d_dw'', ''conv2d_grouped'', ''conv3d'', ''convnd'', ''conv_transpose2d'',
       ''conv_transpose3d'']),
     (''reduction'',
      [''softmax'', ''softmax_dim'', ''log_softmax'', ''layer_norm'', ''group_norm'', ''rms_norm'',
       ''reduce'', ''sum_dim'', ''mean_dim'', ''max_dim'', ''min_dim'', ''prod_dim'', ''argmax_dim'',
       ''argmin_dim'', ''frobenius_norm'', ''l1_norm'', ''l2_norm'', ''mean_abs_norm'', ''maxpool2d'',
       ''maxpool2d_ex'', ''maxpool3d'', ''avgpool2d'', ''avgpool3d'', ''adaptive_avg_pool2d'',
       ''cross_entropy_loss'', ''hinge_loss'', ''huber_loss'', ''kldiv_loss'', ''mse_loss'',
       ''triplet_loss'', ''topk'']),
     (''elementwise'',
      [''batchnorm2d'', ''relu'', ''relu6'', ''sigmoid'', ''silu'', ''swish'', ''elu'', ''selu'', ''gelu'',
       ''gelu_exact'', ''tanh'', ''log'', ''hardsigmoid'', ''hardtanh'', ''leaky_relu'', ''softplus'',
       ''softsign'', ''add'', ''mul'', ''mul_scalar'', ''ewise1'', ''ewise2'', ''ewise_scalar'', ''tril'',
       ''triu'']),
     (''data_movement'',
      [''strided_copy'', ''strided_scatter'', ''gather'', ''gather_dim'', ''index_select'', ''scatter_dim'',
       ''cat2_c1'', ''cat3_c1'', ''cat4_c1'', ''catn'', ''flip'', ''upsample_nearest'', ''view'',
       ''chunk2_c1'']),
     (''attention'',
      [''sdpa'', ''attention'']),
     (''scan'',
      [''cumsum'', ''cumprod'', ''exclusive_cumsum''])]"

definition cast_dtypes :: "string list" where
  "cast_dtypes = [''f32'', ''f16'', ''bf16'', ''i64'', ''i32'', ''b8'', ''u8'']"

definition cast_kinds :: "string list" where
  "cast_kinds =
     concat (map (\<lambda>a. map (\<lambda>b. ''cast_'' @ a @ ''_to_'' @ b) (filter (\<lambda>b. a \<noteq> b) cast_dtypes)) cast_dtypes)"

text \<open>Later entries of the dictionary win.\<close>

definition by_op :: "string \<Rightarrow> string option" where
  "by_op k =
     (if (if prefix ''cast_'' k then k \<in> set cast_kinds else False) then Some ''elementwise''
      else map_of (rev (concat (map (\<lambda>(c, ks). map (\<lambda>k. (k, c)) ks) op_table))) k)"

definition strip_suffix :: "string \<Rightarrow> string \<Rightarrow> string" where
  "strip_suffix sfx k = (if suffix sfx k \<and> by_op k = None then take (length k - length sfx) k else k)"

definition base_kind :: "string \<Rightarrow> string" where
  "base_kind k =
     fold strip_suffix [''_bf16'', ''_f16'', ''_s8_pc'', ''_s8'', ''_i8'']
       (if prefix ''fused__'' k
        then (let parts = split_dunder k in if parts ! 1 = ''par'' \<and> length parts > 2 then parts ! 2 else parts ! 1)
        else k)"

definition base_class :: "string \<Rightarrow> string" where
  "base_class k = (case by_op (base_kind k) of None \<Rightarrow> ''other'' | Some c \<Rightarrow> c)"

text \<open>\<open>region_slots.region_class\<close>: by the pattern of the region.\<close>

definition region_class :: "string \<Rightarrow> bool \<Rightarrow> string" where
  "region_class k recurrent =
     (let pat = hd (split_dunder (drop (length ''region__'') k)) in
      if pat = ''rnn_stack'' then (if recurrent then ''recurrent'' else ''gemm'')
      else if pat = ''attention_block'' then ''attention'' else ''other'')"

definition recurrent_kinds :: "string set" where
  "recurrent_kinds = {''lstm'', ''lstm_seq'', ''gru_seq''}"

definition op_class :: "bool \<Rightarrow> string \<Rightarrow> string" where
  "op_class recurrent k =
     (if prefix ''region__'' k then region_class k recurrent
      else if base_class k = ''gemm'' \<and> recurrent \<and> base_kind k \<in> recurrent_kinds then ''recurrent''
      else base_class k)"

section \<open>Facts\<close>

lemma split_dunder_nonempty [simp]: "split_dunder s \<noteq> []"
  by (induction s rule: split_dunder.induct) (auto split: list.splits)

lemma prefix_dunder: "w \<noteq> [] \<Longrightarrow> last w \<noteq> CHR ''_'' \<Longrightarrow> split_dunder w = [w] \<Longrightarrow> split_dunder (w @ ''__'' @ s) = w # split_dunder s"
proof (induction w rule: split_dunder.induct)
  case (3 c d cs)
  then show ?case by (auto split: list.splits if_splits)
qed auto

text \<open>Parts without \<open>__\<close> in them that do not end in an underscore are found again.\<close>

definition plain_part :: "string \<Rightarrow> bool" where
  "plain_part w = (w \<noteq> [] \<and> last w \<noteq> CHR ''_'' \<and> split_dunder w = [w])"

lemma split_join: "list_all plain_part ws \<Longrightarrow> ws \<noteq> [] \<Longrightarrow> split_dunder (join_dunder ws) = ws"
proof (induction ws)
  case (Cons w ws)
  show ?case
  proof (cases ws)
    case Nil
    with Cons.prems show ?thesis by (simp add: plain_part_def join_dunder_def)
  next
    case (Cons v vs)
    then have j: "join_dunder (w # ws) = w @ ''__'' @ join_dunder ws" by (simp add: join_dunder_def)
    have "split_dunder (w @ ''__'' @ join_dunder ws) = w # split_dunder (join_dunder ws)"
      by (rule prefix_dunder) (use Cons.prems in \<open>simp_all add: plain_part_def\<close>)
    with Cons.IH Cons.prems Cons show ?thesis unfolding j by simp
  qed
qed simp

definition op_classes :: "string list" where
  "op_classes = [''gemm'', ''conv'', ''reduction'', ''elementwise'', ''data_movement'', ''attention'', ''scan'', ''recurrent'', ''other'']"

lemma op_classes_memb: "set (map fst op_table) \<subseteq> set op_classes" "''other'' \<in> set op_classes"
  "''elementwise'' \<in> set op_classes" "''recurrent'' \<in> set op_classes" "''gemm'' \<in> set op_classes"
  "''attention'' \<in> set op_classes"
  by code_simp+

lemma by_op_class: "by_op k = Some c \<Longrightarrow> c \<in> set op_classes"
proof -
  assume b: "by_op k = Some c"
  have "c = ''elementwise'' \<or> c \<in> set (map fst op_table)"
    using b by (force simp: by_op_def split: if_splits dest!: map_of_SomeD)
  with op_classes_memb(1,3) show ?thesis by blast
qed

lemma class_range: "op_class r k \<in> set op_classes"
proof -
  have "base_class k \<in> set op_classes"
    unfolding base_class_def using by_op_class [of "base_kind k"] op_classes_memb(2) by (cases "by_op (base_kind k)") simp_all
  then show ?thesis
    unfolding op_class_def region_class_def Let_def using op_classes_memb(2,4,5,6) by (simp only: split: if_split) blast
qed

lemma class_demo:
  "op_class False ''relu_f16'' = ''elementwise''" "op_class True ''gru_seq_f16'' = ''recurrent''"
  by code_simp+

end
