(* ===== verification/Kernel_Abi.thy ===== *)
theory Kernel_Abi
  imports Graph_IR
begin

text \<open>
  \<^verbatim>\<open>pipeline/kernel_abi.py\<close>: the parameters of a kernel's C signature and the binding of an op
  to them by name. Values are JSON text; an op's own keys are those of \<open>extra\<close> (a parameter is not named like a
  structural key such as \<open>inputs\<close>).
\<close>

section \<open>Signatures\<close>

record param =
  pm_type :: string
  pm_name :: string

definition is_ptr :: "param \<Rightarrow> bool" where
  "is_ptr p = (CHR ''*'' \<in> set (pm_type p))"

definition is_const_ptr :: "param \<Rightarrow> bool" where
  "is_const_ptr p = (is_ptr p \<and> contains (pm_type p) ''const'')"

definition is_word :: "char \<Rightarrow> bool" where
  "is_word c = (is_digit c \<or> c = CHR ''_'' \<or> (65 \<le> (of_char c :: nat) \<and> (of_char c :: nat) \<le> 90) \<or>
                (97 \<le> (of_char c :: nat) \<and> (of_char c :: nat) \<le> 122))"

lemma is_word_code [code]:
  "is_word c \<longleftrightarrow> c \<in> set ''abcdefghijklmnopqrstuvwxyz_0123456789ABCDEFGHIJKLMNOPQRSTUVWXYZ''"
proof -
  have m: "map char_of [65..<91::nat] = ''ABCDEFGHIJKLMNOPQRSTUVWXYZ''"
    "map char_of [97..<123::nat] = ''abcdefghijklmnopqrstuvwxyz''" by code_simp+
  have r: "n \<le> 90 \<longleftrightarrow> n < 91" "n \<le> 122 \<longleftrightarrow> n < 123" for n :: nat by auto
  have u: "c \<in> set ''_'' \<longleftrightarrow> c = CHR ''_''" by simp
  have lo: "97 \<le> (of_char c :: nat) \<and> (of_char c :: nat) < 123 \<longleftrightarrow> c \<in> set ''abcdefghijklmnopqrstuvwxyz''"
    and up: "65 \<le> (of_char c :: nat) \<and> (of_char c :: nat) < 91 \<longleftrightarrow> c \<in> set ''ABCDEFGHIJKLMNOPQRSTUVWXYZ''"
    using char_range [of 91 65 c] char_range [of 123 97 c] unfolding m by (simp_all only: numeral_le_iff semiring_norm)
  have "is_word c \<longleftrightarrow> c \<in> set (''abcdefghijklmnopqrstuvwxyz'' @ ''_'' @ ''0123456789'' @ ''ABCDEFGHIJKLMNOPQRSTUVWXYZ'')"
    by (simp only: is_word_def is_digit_code r lo up u set_append Un_iff disj_ac)
  then show ?thesis by (simp only: append.simps)
qed

text \<open>\<open>" ".join(s.split())\<close>, and every \<open>" *"\<close> replaced by \<open>"*"\<close>.\<close>

definition squeeze :: "string \<Rightarrow> string" where
  "squeeze s = join '' '' (filter (\<lambda>w. w \<noteq> []) (split_on (CHR '' '') (map (\<lambda>c. if is_space c then CHR '' '' else c) s)))"

fun tight_stars :: "string \<Rightarrow> string" where
  "tight_stars (c # d # cs) =
     (if c = CHR '' '' \<and> d = CHR ''*'' then d # tight_stars cs else c # tight_stars (d # cs))"
| "tight_stars cs = cs"

text \<open>The last word of a parameter is its name; the rest, which ends in a space or a star, its type.\<close>

definition parse_param :: "string \<Rightarrow> param option" where
  "parse_param raw =
     (let nm = rev (takeWhile is_word (rev raw)); pre = take (length raw - length nm) raw in
      if nm = [] \<or> pre = [] \<or> \<not> (is_space (last pre) \<or> last pre = CHR ''*'') then None
      else Some \<lparr>pm_type = strip (tight_stars pre), pm_name = nm\<rparr>)"

definition arguments :: "string \<Rightarrow> string option" where
  "arguments rest =
     (let r = dropWhile is_space (rev rest);
          r = (case r of c # cs \<Rightarrow> if c = CHR '';'' then dropWhile is_space cs else r | [] \<Rightarrow> [])
      in case r of c # cs \<Rightarrow> if c = CHR '')'' then Some (rev cs) else None | [] \<Rightarrow> None)"

definition param_or_fail :: "string \<Rightarrow> unit + param" where
  "param_or_fail raw = (case parse_param raw of None \<Rightarrow> Inl () | Some p \<Rightarrow> Inr p)"

definition is_param_text :: "string \<Rightarrow> bool" where
  "is_param_text raw = (raw \<noteq> [] \<and> raw \<noteq> ''void'')"

definition parse_params :: "string \<Rightarrow> param list option" where
  "parse_params args =
     (case map_res param_or_fail (filter is_param_text (map squeeze (split_on (CHR '','') args))) of
        Inl _ \<Rightarrow> None
      | Inr ps \<Rightarrow> Some ps)"

text \<open>After the name: the opening parenthesis, the arguments, the closing one.\<close>

definition named_params :: "string \<Rightarrow> string \<Rightarrow> (string \<times> param list) option" where
  "named_params nm s =
     (case s of
        [] \<Rightarrow> None
      | c # rest \<Rightarrow>
          (if c \<noteq> CHR ''('' then None
           else case Option.bind (arguments rest) parse_params of None \<Rightarrow> None | Some ps \<Rightarrow> Some (nm, ps)))"

definition after_void :: "string \<Rightarrow> (string \<times> param list) option" where
  "after_void s =
     (if takeWhile is_word s = [] then None
      else named_params (takeWhile is_word s) (dropWhile is_space (dropWhile is_word s)))"

definition parse_signature :: "string \<Rightarrow> (string \<times> param list) option" where
  "parse_signature sig =
     (let s = dropWhile is_space sig in
      if \<not> prefix ''void'' s \<or> drop 4 s = dropWhile is_space (drop 4 s) then None
      else after_void (dropWhile is_space (drop 4 s)))"

section \<open>Binding\<close>

definition weight_roles :: "(string, string) dict" where
  "weight_roles = [(''weight'', ''weight''), (''scale'', ''weight''), (''bias'', ''bias''), (''gamma'', ''gamma_key''),
                   (''beta'', ''beta_key'')]"

definition abi_defaults :: "(string, string) dict" where
  "abi_defaults = [(''DH'', ''1''), (''DW'', ''1''), (''alpha'', ''1.0'')]"

definition op_defaults :: "string \<Rightarrow> (string, string) dict" where
  "op_defaults k =
     (if k = ''softmax_f16'' then [(''input_scale'', ''1.0'')]
      else if k = ''adaptive_avg_pool2d_f16'' then [(''OH'', ''1''), (''OW'', ''1'')] else [])"

datatype arg_kind = A_Out | A_In | A_Weight | A_Null | A_Scalar | A_Scratch

record arg =
  ar_kind :: arg_kind
  ar_value :: "string option"
  ar_param :: param

datatype bind_error =
    No_Output_Left string
  | No_Input_Left string
  | No_Value string
  | Bad_Input_Index string
  | Unbound_Tensors "string list" "string list"

text \<open>A JSON text that Python takes for false.\<close>

definition falsy :: "string \<Rightarrow> bool" where
  "falsy s = (s \<in> {''null'', ''false'', ''0'', ''0.0'', [CHR 0x22, CHR 0x22], ''[]'', [CHR 0x7B, CHR 0x7D]})"

definition op_shape :: "op \<Rightarrow> (string, int) dict" where
  "op_shape x = (case shape (flds x) of None \<Rightarrow> [] | Some sh \<Rightarrow> sh)"

definition c_index :: "string \<Rightarrow> nat option" where
  "c_index n =
     (if length n = 2 \<and> hd n = CHR ''c'' \<and> is_digit (n ! 1) then Some (digits_val [n ! 1])
      else map_of [(''Ca'', 0), (''Cb'', 1)] n)"

definition scalar_value :: "op \<Rightarrow> string \<Rightarrow> bind_error + string" where
  "scalar_value x n =
     (let ex = extra (flds x) in
      case map_of (op_shape x) n of
        Some v \<Rightarrow> Inr (str_int v)
      | None \<Rightarrow> (case map_of ex n of
          Some v \<Rightarrow> Inr v
        | None \<Rightarrow> (case (if n = ''s'' then map_of ex ''scalar'' else None) of
            Some v \<Rightarrow> Inr v
          | None \<Rightarrow> (case (c_index n, c_inputs (flds x)) of
              (Some i, Some cs) \<Rightarrow> (if i < length cs then Inr (str_int (cs ! i)) else Inl (Bad_Input_Index n))
            | _ \<Rightarrow> (case map_of abi_defaults n of
                Some v \<Rightarrow> Inr v
              | None \<Rightarrow> (case map_of (op_defaults (o_kind x)) n of Some v \<Rightarrow> Inr v | None \<Rightarrow> Inl (No_Value n)))))))"

text \<open>One parameter: its argument and the inputs and outputs left.\<close>

definition bind_param ::
  "op \<Rightarrow> param \<Rightarrow> string list \<Rightarrow> string list \<Rightarrow> bind_error + arg \<times> string list \<times> string list" where
  "bind_param x p ins outs =
     (if is_ptr p \<and> \<not> is_const_ptr p then
        (case outs of
           [] \<Rightarrow> Inl (No_Output_Left (pm_name p))
         | t # rest \<Rightarrow> Inr (\<lparr>ar_kind = A_Out, ar_value = Some t, ar_param = p\<rparr>, ins, rest))
      else if is_ptr p then
        (case (case map_of weight_roles (pm_name p) of None \<Rightarrow> None | Some role \<Rightarrow> map_of (extra (flds x)) role) of
           Some key \<Rightarrow>
             Inr (if falsy key then \<lparr>ar_kind = A_Null, ar_value = None, ar_param = p\<rparr>
                  else \<lparr>ar_kind = A_Weight, ar_value = Some key, ar_param = p\<rparr>, ins, outs)
         | None \<Rightarrow>
             (case ins of
                t # rest \<Rightarrow> Inr (\<lparr>ar_kind = A_In, ar_value = Some t, ar_param = p\<rparr>, rest, outs)
              | [] \<Rightarrow>
                  (if prefix ''in'' (pm_name p) \<and> isdigit (drop 2 (pm_name p))
                   then Inr (\<lparr>ar_kind = A_Null, ar_value = None, ar_param = p\<rparr>, ins, outs)
                   else Inl (No_Input_Left (pm_name p)))))
      else case scalar_value x (pm_name p) of
        Inl e \<Rightarrow> Inl e
      | Inr v \<Rightarrow> Inr (\<lparr>ar_kind = A_Scalar, ar_value = Some v, ar_param = p\<rparr>, ins, outs))"

fun bind_params ::
  "op \<Rightarrow> param list \<Rightarrow> string list \<Rightarrow> string list \<Rightarrow> bind_error + arg list \<times> string list \<times> string list" where
  "bind_params x [] ins outs = Inr ([], ins, outs)"
| "bind_params x (p # ps) ins outs =
     (case bind_param x p ins outs of
        Inl e \<Rightarrow> Inl e
      | Inr (a, ins', outs') \<Rightarrow>
          (case bind_params x ps ins' outs' of Inl e \<Rightarrow> Inl e | Inr (as, r) \<Rightarrow> Inr (a # as, r)))"

definition bind :: "op \<Rightarrow> param list \<Rightarrow> bind_error + arg list" where
  "bind x ps =
     (case bind_params x ps (o_ins x) (o_outs x) of
        Inl e \<Rightarrow> Inl e
      | Inr (as, ins, outs) \<Rightarrow> (if ins \<noteq> [] \<or> outs \<noteq> [] then Inl (Unbound_Tensors ins outs) else Inr as))"

section \<open>Every tensor is bound once\<close>

definition values_of :: "arg_kind \<Rightarrow> arg list \<Rightarrow> string list" where
  "values_of k as = List.map_filter ar_value (filter (\<lambda>a. ar_kind a = k) as)"

lemma bind_param_facts:
  assumes "bind_param x p ins outs = Inr (a, ins', outs')"
  shows "ar_param a = p \<and> ins = values_of A_In [a] @ ins' \<and> outs = values_of A_Out [a] @ outs' \<and>
         (ar_kind a = A_Out \<longleftrightarrow> is_ptr p \<and> \<not> is_const_ptr p) \<and> (ar_kind a = A_Scalar \<longleftrightarrow> \<not> is_ptr p)"
  using assms
  by (auto simp: bind_param_def values_of_def List.map_filter_def is_const_ptr_def split: if_splits list.splits option.splits sum.splits)

lemma bind_params_facts:
  assumes "bind_params x ps ins outs = Inr (as, ins', outs')"
  shows "map ar_param as = ps \<and> ins = values_of A_In as @ ins' \<and> outs = values_of A_Out as @ outs' \<and>
         list_all (\<lambda>a. (ar_kind a = A_Out \<longleftrightarrow> is_ptr (ar_param a) \<and> \<not> is_const_ptr (ar_param a)) \<and>
                       (ar_kind a = A_Scalar \<longleftrightarrow> \<not> is_ptr (ar_param a))) as"
  using assms
proof (induction x ps ins outs arbitrary: as rule: bind_params.induct)
  case (1 x ins outs)
  then show ?case by (simp add: values_of_def List.map_filter_def)
next
  case (2 x p ps ins outs)
  then obtain a i1 o1 bs where b: "bind_param x p ins outs = Inr (a, i1, o1)"
    "bind_params x ps i1 o1 = Inr (bs, ins', outs')" "as = a # bs"
    by (auto split: sum.splits prod.splits)
  have "values_of k (a # bs) = values_of k [a] @ values_of k bs" for k by (simp add: values_of_def List.map_filter_def)
  with bind_param_facts [OF b(1)] "2.IH" [OF b(1) refl refl b(2)] b(3) show ?case by simp
qed

lemma bind_args:
  "bind x ps = Inr as \<Longrightarrow> map ar_param as = ps \<and> values_of A_In as = o_ins x \<and> values_of A_Out as = o_outs x"
  using bind_params_facts [of x ps "o_ins x" "o_outs x"] by (auto simp: bind_def split: sum.splits if_splits)

text \<open>
  C23. A binding gives every parameter one argument, in order; the output pointers take exactly the op's output
  tensors and the input arguments exactly its input tensors, each once and in order.
\<close>
theorem bind_uses_every_tensor:
  assumes "bind x ps = Inr as"
  shows "map ar_param as = ps \<and> values_of A_In as = o_ins x \<and> values_of A_Out as = o_outs x \<and>
         list_all (\<lambda>a. (ar_kind a = A_Out \<longleftrightarrow> is_ptr (ar_param a) \<and> \<not> is_const_ptr (ar_param a)) \<and>
                       (ar_kind a = A_Scalar \<longleftrightarrow> \<not> is_ptr (ar_param a))) as"
  using assms bind_params_facts [of x ps "o_ins x" "o_outs x"]
  by (auto simp: bind_def split: sum.splits if_splits)

section \<open>A concrete kernel\<close>

definition add_signature :: string where
  "add_signature = ''void kernel_linear(const float *input, const float* weight, const float *bias, float *out, int M, int K);''"

definition add_params :: "param list" where
  "add_params = (case parse_signature add_signature of Some (n, ps) \<Rightarrow> ps | None \<Rightarrow> [])"

definition linear_op :: op where
  "linear_op = upd (\<lambda>f. f\<lparr>shape := Some [(''M'', 4), (''K'', 8)], extra := [(''weight'', ''w0''), (''bias'', ''null'')]\<rparr>)
     (mk_op ''l'' ''linear'' (Some 0) [] [''x''] [''y''])"

definition linear_args :: "arg list" where
  "linear_args = (case bind linear_op add_params of Inr as \<Rightarrow> as | Inl e \<Rightarrow> [])"

lemma linear_bind: "bind linear_op add_params = Inr linear_args"
  "map (\<lambda>a. (ar_kind a, ar_value a, pm_type (ar_param a))) linear_args =
     [(A_In, Some ''x'', ''const float*''), (A_Weight, Some ''w0'', ''const float*''), (A_Null, None, ''const float*''),
      (A_Out, Some ''y'', ''float*''), (A_Scalar, Some ''4'', ''int''), (A_Scalar, Some ''8'', ''int'')]"
  by code_simp+

theorem bind_uses_every_tensor_witness: "values_of A_In linear_args = [''x''] \<and> values_of A_Out linear_args = [''y'']"
  using bind_uses_every_tensor [OF linear_bind(1)] by (simp add: linear_op_def)

end
