(* ===== verification/Fused_Kind.thy ===== *)
theory Fused_Kind
  imports Op_Class Kernel_Abi
begin

text \<open>
  The names and specifications of fused kernels, \<^verbatim>\<open>pipeline/kb_proposals.py\<close>: the kind
  \<open>fused__<k0>__<k1>[__<p1>]__...\<close> of a chain, its parser, and the specification (signature, semantics,
  reference) built from those of the stages. Shown: parser and printer are inverse to each other, so the
  assertion of \<open>spec_from_kind\<close> never fails.
\<close>

datatype fuse_error =
    Key_Error string
  | Index_Error
  | Stop_Iteration
  | Unparseable string
  | Bind_Failed bind_error
  | Not_Fused string
  | Unknown_Sibling string
  | Unknown_Stage string
  | Needs_Param string
  | Dunder_Kind string
  | Assertion_Error string
  | Refused string

text \<open>\<open>except (ValueError, StopIteration, KeyError)\<close>: a \<open>BindError\<close> or an \<open>IndexError\<close> is neither.\<close>

fun caught :: "fuse_error \<Rightarrow> bool" where
  "caught Index_Error = False"
| "caught (Bind_Failed e) = False"
| "caught (Assertion_Error s) = False"
| "caught _ = True"

section \<open>Specifications\<close>

record kspec =
  ks_op :: string
  ks_signature :: string
  ks_semantics :: string
  ks_reference :: string
  ks_stages :: "string list"
  ks_tparams :: "string option list"
  ks_parallel :: bool

type_synonym specs = "(string, kspec) dict"

definition spec_of :: "specs \<Rightarrow> string \<Rightarrow> fuse_error + kspec" where
  "spec_of specs k = (case map_of specs k of None \<Rightarrow> Inl (Key_Error k) | Some s \<Rightarrow> Inr s)"

definition spec_params :: "specs \<Rightarrow> string \<Rightarrow> fuse_error + param list" where
  "spec_params specs k =
     (case spec_of specs k of
        Inl e \<Rightarrow> Inl e
      | Inr s \<Rightarrow> (case parse_signature (ks_signature s) of None \<Rightarrow> Inl (Unparseable k) | Some (_, ps) \<Rightarrow> Inr ps))"

definition stage_prefix :: "nat \<Rightarrow> fuse_error + string" where
  "stage_prefix i = (if i < 26 then Inr [char_of (97 + i), CHR ''_''] else Inl Index_Error)"

text \<open>The inputs of a kind that are not weights.\<close>

definition act_inputs :: "specs \<Rightarrow> string \<Rightarrow> fuse_error + string list" where
  "act_inputs specs k =
     (case spec_params specs k of
        Inl e \<Rightarrow> Inl e
      | Inr ps \<Rightarrow> Inr (map pm_name (filter (\<lambda>p. is_const_ptr p \<and> \<not> has_key weight_roles (pm_name p)) ps)))"

section \<open>Kinds\<close>

fun kind_parts :: "specs \<Rightarrow> string list \<Rightarrow> string list \<Rightarrow> fuse_error + string list" where
  "kind_parts specs (k # ks) (tp # tps) =
     (if contains k ''__'' then Inl (Dunder_Kind k)
      else case act_inputs specs k of
        Inl e \<Rightarrow> Inl e
      | Inr acts \<Rightarrow>
          (case kind_parts specs ks tps of
             Inl e \<Rightarrow> Inl e
           | Inr rest \<Rightarrow> Inr (k # (if length acts > 1 then tp # rest else rest))))"
| "kind_parts specs _ _ = Inr []"

definition chain_kind :: "specs \<Rightarrow> string list \<Rightarrow> string list \<Rightarrow> fuse_error + string" where
  "chain_kind specs kinds tps =
     (case kinds of
        [] \<Rightarrow> Inl Index_Error
      | k0 # ks \<Rightarrow>
          (case kind_parts specs ks tps of Inl e \<Rightarrow> Inl e | Inr ps \<Rightarrow> Inr (join_dunder (''fused'' # k0 # ps))))"

definition pair_kind :: "specs \<Rightarrow> string \<Rightarrow> string \<Rightarrow> string \<Rightarrow> fuse_error + string" where
  "pair_kind specs a b tp = chain_kind specs [a, b] [tp]"

fun parse_stages :: "specs \<Rightarrow> string list \<Rightarrow> fuse_error + string list \<times> string list" where
  "parse_stages specs [] = Inr ([], [])"
| "parse_stages specs (k # rest) =
     (if \<not> has_key specs k then Inl (Unknown_Stage k)
      else case act_inputs specs k of
        Inl e \<Rightarrow> Inl e
      | Inr acts \<Rightarrow>
          (if length acts > 1 then
             (case rest of
                [] \<Rightarrow> Inl (Needs_Param k)
              | p # rest' \<Rightarrow>
                  (if p \<notin> set acts then Inl (Needs_Param k)
                   else case parse_stages specs rest' of Inl e \<Rightarrow> Inl e | Inr (ks, tps) \<Rightarrow> Inr (k # ks, p # tps)))
           else case acts of
             [] \<Rightarrow> Inl Index_Error
           | a # _ \<Rightarrow> (case parse_stages specs rest of Inl e \<Rightarrow> Inl e | Inr (ks, tps) \<Rightarrow> Inr (k # ks, a # tps))))"

definition parse_kind :: "specs \<Rightarrow> string \<Rightarrow> fuse_error + string list \<times> string list" where
  "parse_kind specs kind =
     (let parts = split_dunder kind in
      if hd parts \<noteq> ''fused'' \<or> length parts < 3 then Inl (Not_Fused kind)
      else if parts ! 1 = ''par'' then
        (if length parts < 4 \<or> list_ex (\<lambda>k. \<not> has_key specs k) (drop 2 parts) then Inl (Unknown_Sibling kind)
         else Inr (drop 2 parts, []))
      else case parse_stages specs (drop 2 parts) of
        Inl e \<Rightarrow> Inl e
      | Inr (ks, tps) \<Rightarrow> Inr (parts ! 1 # ks, tps))"

definition par_kind :: "string list \<Rightarrow> string" where
  "par_kind kinds = join_dunder (''fused'' # ''par'' # kinds)"

section \<open>Building a specification\<close>

definition param_text :: "param \<Rightarrow> string" where
  "param_text p = pm_type p @ '' '' @ pm_name p"

definition signature_text :: "string \<Rightarrow> param list \<Rightarrow> string" where
  "signature_text kind ps = ''void kernel_'' @ kind @ ''('' @ join '', '' (map param_text ps) @ '');''"

text \<open>The parameters of stage \<open>i\<close> with its prefix, without the one that reads the result of the stage before.\<close>

definition stage_params :: "string list \<Rightarrow> nat \<times> param list \<Rightarrow> fuse_error + param list" where
  "stage_params tps ips =
     (let (i, ps) = ips in
      case map_res (\<lambda>p. if i = 0 then Inr [p]
                         else if i - 1 \<ge> length tps then Inl Index_Error
                         else Inr (if pm_name p = tps ! (i - 1) then [] else [p])) ps of
        Inl e \<Rightarrow> Inl e
      | Inr pss \<Rightarrow> map_res (\<lambda>p. case stage_prefix i of Inl e \<Rightarrow> Inl e | Inr pre \<Rightarrow> Inr (p\<lparr>pm_name := pre @ pm_name p\<rparr>))
                     (concat pss))"

definition out_param :: "param list \<Rightarrow> fuse_error + string" where
  "out_param ps =
     (case List.find (\<lambda>p. is_ptr p \<and> \<not> is_const_ptr p) ps of None \<Rightarrow> Inl Stop_Iteration | Some p \<Rightarrow> Inr (pm_name p))"

definition chain_step_text :: "string list \<Rightarrow> string list \<Rightarrow> string list \<Rightarrow> nat \<Rightarrow> fuse_error + string" where
  "chain_step_text kinds tps outs i =
     (case stage_prefix i of
        Inl e \<Rightarrow> Inl e
      | Inr pre \<Rightarrow>
          Inr (kinds ! i @ '' (parameters '' @ pre @ ''*) reading that result as its `'' @ tps ! (i - 1) @ ''`'' @
               (if i + 1 < length kinds then '', into '' @ pre @ outs ! i else [])))"

definition prefixed_outs :: "string list \<Rightarrow> fuse_error + string list" where
  "prefixed_outs outs =
     map_res (\<lambda>(i, o'). case stage_prefix i of Inl e \<Rightarrow> Inl e | Inr pre \<Rightarrow> Inr (pre @ o')) (enumerate 0 (butlast outs))"

definition note_lines :: "specs \<Rightarrow> string list \<Rightarrow> string" where
  "note_lines specs kinds =
     join newline (map (\<lambda>k. ''['' @ k @ ''] '' @ (case map_of specs k of None \<Rightarrow> [] | Some s \<Rightarrow> ks_semantics s)) (ordered_unique kinds))"

definition reference_text :: "specs \<Rightarrow> string list \<Rightarrow> string" where
  "reference_text specs kinds =
     join (newline @ newline) (map (\<lambda>k. case map_of specs k of None \<Rightarrow> [] | Some s \<Rightarrow> ks_reference s) (ordered_unique kinds))"

definition chain_semantics :: "specs \<Rightarrow> string list \<Rightarrow> string list \<Rightarrow> string list \<Rightarrow> fuse_error + string" where
  "chain_semantics specs kinds tps outs =
     (case map_res (chain_step_text kinds tps outs) [1..<length kinds] of
        Inl e \<Rightarrow> Inl e
      | Inr steps \<Rightarrow>
          (case prefixed_outs outs of
             Inl e \<Rightarrow> Inl e
           | Inr scratch \<Rightarrow>
               Inr (join '' followed by '' kinds @ '': computes '' @
                    join ''; then '' ((hd kinds @ '' (parameters a_*) into a_'' @ hd outs) # steps) @
                    ''. Only the '' @ last kinds @ '' output is checked; '' @ join '', '' scratch @ '' '' @
                    (if length kinds = 2 then ''is'' else ''are'') @ '' scratch.'' @ newline @ note_lines specs kinds)))"

definition make_chain_spec :: "specs \<Rightarrow> string list \<Rightarrow> string list \<Rightarrow> fuse_error + kspec" where
  "make_chain_spec specs kinds tps =
     (case chain_kind specs kinds tps of
        Inl e \<Rightarrow> Inl e
      | Inr kind \<Rightarrow> (case map_res (spec_params specs) kinds of
          Inl e \<Rightarrow> Inl e
        | Inr sigs \<Rightarrow> (case map_res (stage_params tps) (enumerate 0 sigs) of
            Inl e \<Rightarrow> Inl e
          | Inr params \<Rightarrow> (case map_res out_param sigs of
              Inl e \<Rightarrow> Inl e
            | Inr outs \<Rightarrow> (case chain_semantics specs kinds tps outs of
                Inl e \<Rightarrow> Inl e
              | Inr sem \<Rightarrow>
                  Inr \<lparr>ks_op = kind, ks_signature = signature_text kind (concat params), ks_semantics = sem,
                       ks_reference = ''/* reference = the '' @ str_nat (length kinds) @ '' reference kernels in sequence */'' @
                                      newline @ reference_text specs kinds @ newline,
                       ks_stages = kinds, ks_tparams = map Some tps, ks_parallel = False\<rparr>)))))"

definition make_fused_spec :: "specs \<Rightarrow> string \<Rightarrow> string \<Rightarrow> string \<Rightarrow> fuse_error + kspec" where
  "make_fused_spec specs a b tp = make_chain_spec specs [a, b] [tp]"

definition par_semantics :: "specs \<Rightarrow> string list \<Rightarrow> fuse_error + string" where
  "par_semantics specs kinds =
     (case map_res (\<lambda>(i, k). case stage_prefix i of Inl e \<Rightarrow> Inl e | Inr pre \<Rightarrow> Inr (k @ '' with parameters '' @ pre @ ''*''))
             (enumerate 0 kinds) of
        Inl e \<Rightarrow> Inl e
      | Inr ts \<Rightarrow>
          Inr (str_nat (length kinds) @ '' independent sibling ops computed by one entry point: '' @ join ''; '' ts @
               ''. They read some inputs in common (the same buffer is passed to each stage's parameter) and write '' @
               ''disjoint outputs; every output is checked. A fused kernel may share work between them (e.g. one GEMM '' @
               ''for both input projections, both recurrence directions in one grid).'' @ newline @ note_lines specs kinds))"

definition make_par_spec :: "specs \<Rightarrow> string list \<Rightarrow> fuse_error + kspec" where
  "make_par_spec specs kinds =
     (case map_res (spec_params specs) kinds of
        Inl e \<Rightarrow> Inl e
      | Inr sigs \<Rightarrow>
          (case map_res (\<lambda>(i, ps). map_res (\<lambda>p. case stage_prefix i of Inl e \<Rightarrow> Inl e
                                                  | Inr pre \<Rightarrow> Inr (p\<lparr>pm_name := pre @ pm_name p\<rparr>)) ps)
                  (enumerate 0 sigs) of
             Inl e \<Rightarrow> Inl e
           | Inr params \<Rightarrow> (case par_semantics specs kinds of
               Inl e \<Rightarrow> Inl e
             | Inr sem \<Rightarrow>
                 Inr \<lparr>ks_op = par_kind kinds, ks_signature = signature_text (par_kind kinds) (concat params),
                      ks_semantics = sem,
                      ks_reference = ''/* reference = the '' @ str_nat (length kinds) @
                                     '' sibling reference kernels, each on its own arguments */'' @ newline @
                                     reference_text specs kinds @ newline,
                      ks_stages = kinds, ks_tparams = replicate (length kinds - 1) None, ks_parallel = True\<rparr>)))"

definition asserted :: "string \<Rightarrow> kspec \<Rightarrow> fuse_error + kspec" where
  "asserted kind s = (if ks_op s = kind then Inr s else Inl (Assertion_Error kind))"

definition spec_from_kind :: "specs \<Rightarrow> string \<Rightarrow> fuse_error + kspec" where
  "spec_from_kind specs kind =
     (case parse_kind specs kind of
        Inl e \<Rightarrow> Inl e
      | Inr (kinds, tps) \<Rightarrow>
          (case (if prefix ''fused__par__'' kind then make_par_spec specs kinds else make_chain_spec specs kinds tps) of
             Inl e \<Rightarrow> Inl e
           | Inr s \<Rightarrow> asserted kind s))"

section \<open>Parser and printer are inverse\<close>

lemma join_split_dunder [simp]: "join_dunder (split_dunder s) = s"
proof (induction s rule: split_dunder.induct)
  case (3 c d cs)
  show ?case
  proof (cases "c = CHR ''_'' \<and> d = CHR ''_''")
    case True
    with 3 obtain w ws where "split_dunder cs = w # ws" by (cases "split_dunder cs") auto
    with True 3 show ?thesis by (simp add: join_dunder_def)
  next
    case False
    with 3 obtain w ws where w: "split_dunder (d # cs) = w # ws" by (cases "split_dunder (d # cs)") auto
    with False 3 show ?thesis by (cases ws) (auto simp: join_dunder_def)
  qed
qed (simp_all add: join_dunder_def)

lemma contains_dunder_Cons:
  "contains (c # s) ''__'' \<longleftrightarrow> (c = CHR ''_'' \<and> s \<noteq> [] \<and> hd s = CHR ''_'') \<or> contains s ''__''"
  by (cases s) (auto simp: contains_def)

lemma contains_dunder_Nil [simp]: "\<not> contains [] ''__''"
  by (simp add: contains_def)

lemma split_dunder_hd: "c \<noteq> CHR ''_'' \<or> d \<noteq> CHR ''_'' \<Longrightarrow> split_dunder (d # s) = w # ws \<Longrightarrow> w \<noteq> [] \<Longrightarrow> hd w = d"
  by (cases s) (auto split: if_splits list.splits)

lemma no_dunder_parts: "w \<in> set (split_dunder s) \<Longrightarrow> \<not> contains w ''__''"
proof (induction s arbitrary: w rule: split_dunder.induct)
  case (2 c)
  then show ?case by (simp add: contains_dunder_Cons)
next
  case (3 c d cs)
  show ?case
  proof (cases "c = CHR ''_'' \<and> d = CHR ''_''")
    case True
    with 3 show ?thesis by auto
  next
    case False
    obtain v ws where v: "split_dunder (d # cs) = v # ws" by (cases "split_dunder (d # cs)") auto
    with False 3(3) consider "w = c # v" | "w \<in> set ws" by auto
    then show ?thesis
    proof cases
      case 1
      have "\<not> contains v ''__''" using 3(2) False v by auto
      moreover have "\<not> (c = CHR ''_'' \<and> v \<noteq> [] \<and> hd v = CHR ''_'')"
        using False split_dunder_hd [OF _ v, of c] by auto
      ultimately show ?thesis by (simp add: 1 contains_dunder_Cons)
    next
      case 2
      with 3(2) False v show ?thesis by auto
    qed
  qed
qed simp

lemma dunder_part: "\<not> contains w ''__'' \<Longrightarrow> w \<noteq> [] \<Longrightarrow> split_dunder w = [w]"
  by (induction w rule: split_dunder.induct) (auto simp: contains_dunder_Cons split: list.splits)

lemma plain_part_no_dunder: "plain_part w \<Longrightarrow> \<not> contains w ''__''"
  using no_dunder_parts [of w w] by (simp add: plain_part_def)

text \<open>A chain that can be named: its stages are known, and each reads the stage before through one of its inputs.\<close>

definition reads_through :: "specs \<Rightarrow> string \<Rightarrow> string \<Rightarrow> bool" where
  "reads_through specs k tp = (case act_inputs specs k of Inl _ \<Rightarrow> False | Inr acts \<Rightarrow> tp \<in> set acts)"

definition chain_named :: "specs \<Rightarrow> string list \<Rightarrow> string list \<Rightarrow> bool" where
  "chain_named specs kinds tps =
     (tps \<noteq> [] \<and> list_all plain_part (kinds @ tps) \<and> kinds \<noteq> [] \<and> hd kinds \<noteq> ''par'' \<and>
      list_all2 (reads_through specs) (tl kinds) tps)"

lemma act_inputs_known: "act_inputs specs k = Inr acts \<Longrightarrow> has_key specs k"
  by (auto simp: act_inputs_def spec_params_def spec_of_def has_key_def split: option.splits sum.splits)

lemma kind_parts_total:
  "list_all2 (reads_through specs) ks tps \<Longrightarrow> list_all plain_part (ks @ tps) \<Longrightarrow>
   \<exists>ps. kind_parts specs ks tps = Inr ps \<and> parse_stages specs ps = Inr (ks, tps) \<and> list_all plain_part ps \<and>
        length ks \<le> length ps"
proof (induction ks arbitrary: tps)
  case (Cons k ks)
  from Cons.prems obtain tp tps' where t: "tps = tp # tps'" "reads_through specs k tp"
    "list_all2 (reads_through specs) ks tps'" by (auto simp: list_all2_Cons1)
  then obtain acts where a: "act_inputs specs k = Inr acts" "tp \<in> set acts" by (auto simp: reads_through_def split: sum.splits)
  from Cons.IH [OF t(3)] Cons.prems(2) t(1) obtain ps where ps: "kind_parts specs ks tps' = Inr ps"
    "parse_stages specs ps = Inr (ks, tps')" "list_all plain_part ps" "length ks \<le> length ps" by auto
  have k: "\<not> contains k ''__''" using Cons.prems(2) plain_part_no_dunder by auto
  note known = act_inputs_known [OF a(1)]
  show ?case
  proof (cases "length acts > 1")
    case True
    then show ?thesis using t(1) a ps k known Cons.prems(2) by simp
  next
    case False
    with a(2) have "acts = [tp]" by (cases acts) auto
    then show ?thesis using t(1) a ps k known Cons.prems(2) by simp
  qed
qed simp

lemma parse_stages_parts:
  "parse_stages specs ps = Inr (ks, tps) \<Longrightarrow> (\<And>w. w \<in> set ps \<Longrightarrow> \<not> contains w ''__'') \<Longrightarrow>
   kind_parts specs ks tps = Inr ps \<and> length ks = length tps \<and> (ps \<noteq> [] \<longrightarrow> ks \<noteq> [])"
proof (induction specs ps arbitrary: ks tps rule: parse_stages.induct)
  case (2 specs k rest)
  from 2(3) obtain acts where a: "has_key specs k" "act_inputs specs k = Inr acts" by (auto split: if_splits sum.splits)
  show ?case
  proof (cases "length acts > 1")
    case True
    then obtain p rest' where r: "rest = p # rest'" "p \<in> set acts"
      using 2(3) a by (cases rest) (auto split: if_splits)
    with 2(3) a True obtain ks' tps' where k: "parse_stages specs rest' = Inr (ks', tps')" "ks = k # ks'" "tps = p # tps'"
      by (auto split: sum.splits)
    from 2(1) [OF _ a(2) True r(1) _ k(1)] a(1) r(2) 2(4) r(1) have "kind_parts specs ks' tps' = Inr rest'" "length ks' = length tps'"
      by auto
    with k r a True 2(4) show ?thesis by simp
  next
    case False
    then obtain x xs where x: "acts = x # xs" using 2(3) a by (cases acts) auto
    with 2(3) a False obtain ks' tps' where k: "parse_stages specs rest = Inr (ks', tps')" "ks = k # ks'" "tps = x # tps'"
      by (auto split: sum.splits)
    from 2(2) [OF _ a(2) False x k(1)] a(1) 2(4) have "kind_parts specs ks' tps' = Inr rest" "length ks' = length tps'"
      by auto
    with k a x False 2(4) show ?thesis by simp
  qed
qed simp

lemma parse_chain:
  assumes "parse_kind specs kind = Inr (kinds, tps)" "split_dunder kind ! 1 \<noteq> ''par''"
  shows "chain_kind specs kinds tps = Inr kind \<and> length kinds = length tps + 1"
proof -
  obtain parts where parts: "split_dunder kind = parts" by simp
  with assms have h: "hd parts = ''fused''" "length parts \<ge> 3" by (auto simp: parse_kind_def Let_def split: if_splits)
  then obtain k0 rest where p: "parts = ''fused'' # k0 # rest"
    by (cases parts; cases "tl parts") auto
  with assms parts h obtain ks where k: "parse_stages specs rest = Inr (ks, tps)" "kinds = k0 # ks"
    by (auto simp: parse_kind_def Let_def split: if_splits sum.splits)
  have "kind_parts specs ks tps = Inr rest \<and> length ks = length tps"
    using parse_stages_parts [OF k(1)] no_dunder_parts [of _ kind] parts p by auto
  with k(2) p parts show ?thesis using join_split_dunder [of kind] by (simp add: chain_kind_def)
qed

lemma parse_par:
  assumes "parse_kind specs kind = Inr (kinds, tps)" "split_dunder kind ! 1 = ''par''"
  shows "par_kind kinds = kind \<and> tps = []"
proof -
  obtain parts where parts: "split_dunder kind = parts" by simp
  with assms have h: "hd parts = ''fused''" "length parts \<ge> 3" by (auto simp: parse_kind_def Let_def split: if_splits)
  then obtain k0 rest where p: "parts = ''fused'' # k0 # rest"
    by (cases parts; cases "tl parts") auto
  with assms parts h have k: "kinds = rest" "tps = []" "k0 = ''par''"
    by (auto simp: parse_kind_def Let_def split: if_splits)
  with p parts show ?thesis using join_split_dunder [of kind] by (simp add: par_kind_def)
qed

lemma par_prefix:
  assumes "parse_kind specs kind = Inr r"
  shows "prefix ''fused__par__'' kind \<longleftrightarrow> split_dunder kind ! 1 = ''par''"
proof
  assume "prefix ''fused__par__'' kind"
  then obtain s where s: "kind = ''fused__par__'' @ s" by (auto simp: prefix_def)
  show "split_dunder kind ! 1 = ''par''" unfolding s by (cases "split_dunder s") simp_all
next
  assume par: "split_dunder kind ! 1 = ''par''"
  obtain kinds tps where r: "r = (kinds, tps)" by fastforce
  have k: "par_kind kinds = kind" using parse_par [OF assms [unfolded r] par] by simp
  have "kinds \<noteq> []"
    using assms par r by (auto simp: parse_kind_def Let_def split: if_splits)
  then obtain v vs where "kinds = v # vs" by (cases kinds) auto
  then show "prefix ''fused__par__'' kind" by (simp add: k [symmetric] par_kind_def join_dunder_def)
qed

text \<open>
  C25. The name of a fused chain determines it: every chain of known stages has a kind, and that kind is the only
  name the parser reads back as the chain.
\<close>
theorem kind_roundtrip:
  assumes "chain_named specs kinds tps"
  shows "\<exists>kind. chain_kind specs kinds tps = Inr kind \<and> (\<forall>k. parse_kind specs k = Inr (kinds, tps) \<longleftrightarrow> k = kind)"
proof -
  from assms obtain k0 ks where k: "kinds = k0 # ks" "k0 \<noteq> ''par''" "plain_part k0" "list_all plain_part (ks @ tps)"
    "list_all2 (reads_through specs) ks tps" "tps \<noteq> []" by (cases kinds) (auto simp: chain_named_def)
  from kind_parts_total [OF k(5,4)] obtain ps where ps: "kind_parts specs ks tps = Inr ps"
    "parse_stages specs ps = Inr (ks, tps)" "list_all plain_part ps" "length ks \<le> length ps" by blast
  have ne: "ps \<noteq> []" using ps(4) k(5,6) by (auto dest: list_all2_lengthD)
  have "plain_part ''fused''" by code_simp
  with ps(3) k(3) have split: "split_dunder (join_dunder (''fused'' # k0 # ps)) = ''fused'' # k0 # ps"
    by (intro split_join) simp_all
  have kind: "chain_kind specs kinds tps = Inr (join_dunder (''fused'' # k0 # ps))" by (simp add: chain_kind_def k(1) ps(1))
  have "parse_kind specs (join_dunder (''fused'' # k0 # ps)) = Inr (kinds, tps)"
    unfolding parse_kind_def split Let_def using k(1,2) ps(2) ne by (cases ps) simp_all
  moreover have "k = join_dunder (''fused'' # k0 # ps)" if "parse_kind specs k = Inr (kinds, tps)" for k
  proof -
    have "split_dunder k ! 1 \<noteq> ''par''" using parse_par [OF that] k(6) by blast
    from parse_chain [OF that this] kind show ?thesis by simp
  qed
  ultimately show ?thesis using kind by blast
qed

text \<open>The assertion of \<open>spec_from_kind\<close> holds: the specification it rebuilds is named as asked.\<close>

lemma spec_from_kind_named:
  assumes "parse_kind specs kind = Inr (kinds, tps)"
    and "(if prefix ''fused__par__'' kind then make_par_spec specs kinds else make_chain_spec specs kinds tps) = Inr s"
  shows "spec_from_kind specs kind = Inr s"
proof -
  have "ks_op s = kind"
  proof (cases "split_dunder kind ! 1 = ''par''")
    case True
    with assms par_prefix [OF assms(1)] have "make_par_spec specs kinds = Inr s" by simp
    then have "ks_op s = par_kind kinds" by (auto simp: make_par_spec_def split: sum.splits)
    then show ?thesis using parse_par [OF assms(1) True] by simp
  next
    case False
    with assms par_prefix [OF assms(1)] have "make_chain_spec specs kinds tps = Inr s" by simp
    then show ?thesis using parse_chain [OF assms(1) False] by (auto simp: make_chain_spec_def split: sum.splits)
  qed
  with assms show ?thesis by (simp add: spec_from_kind_def asserted_def)
qed

end
