(* ===== verification/Kahn.thy ===== *)
theory Kahn
  imports Prelude
begin

text \<open>
  Kahn's algorithm, which three modules run: the cycle check of \<^verbatim>\<open>ingest_schedule\<close>, the table
  order of \<^verbatim>\<open>ingest_xpurt_schedule\<close> and the stable sort of \<^verbatim>\<open>graph_edit\<close>. They differ in which ready
  node they take next and in how they count what a node still waits for; the locales state both
  contracts, and what the loop computes is proved once.
\<close>

section \<open>The loop\<close>

text \<open>
  \<open>pick\<close> is the position of the next node in the ready list, \<open>release d p\<close> the nodes that become
  ready when \<open>d\<close> is done, with the updated bookkeeping. The fuel bounds the number of nodes taken;
  the second component is what is still ready when it runs out.
\<close>

fun kahn_loop ::
  "('a list \<Rightarrow> nat) \<Rightarrow> ('a \<Rightarrow> 'p \<Rightarrow> 'a list \<times> 'p) \<Rightarrow> nat \<Rightarrow> 'a list \<Rightarrow> 'p \<Rightarrow> 'a list \<Rightarrow> 'a list \<times> 'a list" where
  "kahn_loop pick release 0 ready p order = (order, ready)"
| "kahn_loop pick release (Suc n) ready p order =
     (if ready = [] then (order, [])
      else let i = pick ready; d = ready ! i; r = release d p
           in kahn_loop pick release n (take i ready @ drop (Suc i) ready @ fst r) (snd r) (order @ [d]))"

text \<open>Every node of the list has its predecessors before it.\<close>

definition topo :: "('a \<Rightarrow> 'a set) \<Rightarrow> 'a list \<Rightarrow> bool" where
  "topo preds xs \<longleftrightarrow> (\<forall>pre x post. xs = pre @ x # post \<longrightarrow> preds x \<subseteq> set pre)"

lemma topo_Nil [simp]: "topo preds []"
  by (simp add: topo_def)

lemma topo_snoc: "topo preds (xs @ [x]) \<longleftrightarrow> topo preds xs \<and> preds x \<subseteq> set xs"
proof
  assume t: "topo preds (xs @ [x])"
  have "preds y \<subseteq> set pre" if "xs = pre @ y # post" for pre y post
    using t that unfolding topo_def by (metis append.assoc append_Cons)
  moreover have "preds x \<subseteq> set xs" using t unfolding topo_def by blast
  ultimately show "topo preds xs \<and> preds x \<subseteq> set xs" by (auto simp: topo_def)
next
  assume t: "topo preds xs \<and> preds x \<subseteq> set xs"
  have "preds y \<subseteq> set pre" if "xs @ [x] = pre @ y # post" for pre y post
  proof (cases post rule: rev_cases)
    case Nil
    with that t show ?thesis by auto
  next
    case (snoc zs z)
    with that have "xs = pre @ y # zs" by auto
    with t show ?thesis unfolding topo_def by blast
  qed
  then show "topo preds (xs @ [x])" by (simp add: topo_def)
qed

lemma topo_append: "topo preds (xs @ ys) \<Longrightarrow> topo preds xs"
  by (induction ys rule: rev_induct) (auto simp: topo_snoc simp flip: append_assoc)

lemma topo_upt: "topo preds [0..<n] \<longleftrightarrow> (\<forall>i < n. preds i \<subseteq> {..<i})"
proof (induction n)
  case (Suc n)
  have "topo preds [0..<Suc n] \<longleftrightarrow> topo preds [0..<n] \<and> preds n \<subseteq> {..<n}"
    by (simp add: topo_snoc atLeast0LessThan)
  with Suc show ?case by (auto simp: less_Suc_eq)
qed simp

lemma topo_acyclic:
  assumes "topo preds xs" "distinct xs"
  shows "acyclic {(p, x). x \<in> set xs \<and> p \<in> preds x}"
proof -
  define f where "f x = length (takeWhile (\<lambda>y. y \<noteq> x) xs)" for x
  have "f p < f x" if x: "x \<in> set xs" and p: "p \<in> preds x" for p x
  proof -
    obtain pre post where s: "xs = pre @ x # post" "x \<notin> set pre" using split_list_first [OF x] by blast
    with assms(1) p have "p \<in> set pre" unfolding topo_def by blast
    have "takeWhile (\<lambda>y. y \<noteq> x) (pre @ x # post) = pre"
      using s(2) by (induction pre) auto
    then have "f x = length pre" using s(1) by (simp add: f_def)
    moreover have "takeWhile (\<lambda>y. y \<noteq> p) xs = takeWhile (\<lambda>y. y \<noteq> p) pre"
      unfolding s(1) by (rule takeWhile_append1 [OF \<open>p \<in> set pre\<close>]) simp
    moreover have "length (takeWhile (\<lambda>y. y \<noteq> p) pre) < length pre"
      using \<open>p \<in> set pre\<close> by (induction pre) auto
    ultimately show ?thesis by (simp add: f_def)
  qed
  then show ?thesis by (intro acyclicI_order [where f = "\<lambda>x. - int (f x)"]) auto
qed

lemma remove_nth_facts:
  assumes "i < length xs"
  shows "set (take i xs @ drop (Suc i) xs) \<union> {xs ! i} = set xs"
    and "distinct xs \<Longrightarrow> distinct (take i xs @ drop (Suc i) xs) \<and> xs ! i \<notin> set (take i xs @ drop (Suc i) xs)"
proof -
  have e: "xs = take i xs @ xs ! i # drop (Suc i) xs" using assms by (rule id_take_nth_drop)
  have "set xs = set (take i xs @ xs ! i # drop (Suc i) xs)" by (subst e [symmetric]) simp
  then show "set (take i xs @ drop (Suc i) xs) \<union> {xs ! i} = set xs" by auto
  assume "distinct xs"
  then have "distinct (take i xs @ xs ! i # drop (Suc i) xs)" by (subst e [symmetric])
  then show "distinct (take i xs @ drop (Suc i) xs) \<and> xs ! i \<notin> set (take i xs @ drop (Suc i) xs)" by auto
qed

section \<open>The contract of the bookkeeping\<close>

text \<open>
  \<open>'g\<close> is the graph the loop runs on. \<open>ok g D p\<close> says that the bookkeeping \<open>p\<close> is right after the
  nodes in \<open>D\<close> are done.
\<close>

locale kahn =
  fixes pick :: "'g \<Rightarrow> 'a list \<Rightarrow> nat"
    and nodes :: "'g \<Rightarrow> 'a list"
    and preds :: "'g \<Rightarrow> 'a \<Rightarrow> 'a set"
    and ok :: "'g \<Rightarrow> 'a set \<Rightarrow> 'p \<Rightarrow> bool"
    and release :: "'g \<Rightarrow> 'a \<Rightarrow> 'p \<Rightarrow> 'a list \<times> 'p"
    and wf :: "'g \<Rightarrow> bool"
  assumes pick_lt: "ready \<noteq> [] \<Longrightarrow> pick g ready < length ready"
    and nodes_distinct: "wf g \<Longrightarrow> distinct (nodes g)"
    and preds_nodes: "wf g \<Longrightarrow> x \<in> set (nodes g) \<Longrightarrow> preds g x \<subseteq> set (nodes g)"
    and release_law: "wf g \<Longrightarrow> ok g D p \<Longrightarrow> d \<in> set (nodes g) \<Longrightarrow> d \<notin> D \<Longrightarrow>
      ok g (insert d D) (snd (release g d p)) \<and> distinct (fst (release g d p)) \<and>
      set (fst (release g d p)) = {x \<in> set (nodes g). d \<in> preds g x \<and> preds g x \<subseteq> insert d D}"
begin

definition loop_ok :: "'g \<Rightarrow> 'a list \<Rightarrow> 'p \<Rightarrow> 'a list \<Rightarrow> bool" where
  "loop_ok g ready p order \<longleftrightarrow>
     distinct order \<and> set order \<subseteq> set (nodes g) \<and> topo (preds g) order \<and> ok g (set order) p \<and>
     distinct ready \<and> set ready = {x \<in> set (nodes g). x \<notin> set order \<and> preds g x \<subseteq> set order}"

lemma loop_ok_step:
  assumes wf: "wf g" and ok: "loop_ok g ready p order" and ne: "ready \<noteq> []"
  defines "i \<equiv> pick g ready"
  defines "r \<equiv> release g (ready ! i) p"
  shows "loop_ok g (take i ready @ drop (Suc i) ready @ fst r) (snd r) (order @ [ready ! i])"
proof -
  let ?d = "ready ! i"
  have i: "i < length ready" unfolding i_def by (rule pick_lt [OF ne])
  then have "?d \<in> set ready" by simp
  with ok have d: "?d \<in> set (nodes g)" "?d \<notin> set order" "preds g ?d \<subseteq> set order"
    by (auto simp: loop_ok_def)
  have ok': "ok g (set order) p" "distinct ready" "distinct order" "topo (preds g) order"
    and ready: "set ready = {x \<in> set (nodes g). x \<notin> set order \<and> preds g x \<subseteq> set order}"
    using ok by (simp_all add: loop_ok_def)
  from release_law [OF wf ok'(1) d(1,2)] have r: "ok g (insert ?d (set order)) (snd r)" "distinct (fst r)"
    "set (fst r) = {x \<in> set (nodes g). ?d \<in> preds g x \<and> preds g x \<subseteq> insert ?d (set order)}"
    by (simp_all add: r_def)
  let ?rest = "take i ready @ drop (Suc i) ready"
  have rest: "set ?rest = set ready - {?d}" "distinct ?rest"
    using remove_nth_facts [OF i] ok'(2) by auto
  have disj: "set ?rest \<inter> set (fst r) = {}"
    unfolding rest(1) ready r(3) using d(2) by auto
  have "distinct (take i ready @ drop (Suc i) ready @ fst r)"
    using rest(2) r(2) disj by (simp flip: append_assoc)
  moreover have "set (take i ready @ drop (Suc i) ready @ fst r) =
      {x \<in> set (nodes g). x \<notin> set (order @ [?d]) \<and> preds g x \<subseteq> set (order @ [?d])}"
  proof -
    have "set (take i ready @ drop (Suc i) ready @ fst r) = (set ready - {?d}) \<union> set (fst r)"
      using rest(1) by (simp flip: append_assoc)
    also have "\<dots> = {x \<in> set (nodes g). x \<notin> set (order @ [?d]) \<and> preds g x \<subseteq> set (order @ [?d])}"
    proof (rule set_eqI)
      fix x
      show "x \<in> (set ready - {?d}) \<union> set (fst r) \<longleftrightarrow>
          x \<in> {x \<in> set (nodes g). x \<notin> set (order @ [?d]) \<and> preds g x \<subseteq> set (order @ [?d])}"
      proof (cases "?d \<in> preds g x")
        case True
        have "x \<notin> set (order @ [?d])"
        proof
          assume "x \<in> set (order @ [?d])"
          then consider "x \<in> set order" | "x = ?d" by auto
          then show False
          proof cases
            case 1
            then obtain pre post where "order = pre @ x # post" by (auto simp: in_set_conv_decomp)
            with ok'(4) True have "?d \<in> set pre" "set pre \<subseteq> set order" unfolding topo_def by auto
            with d(2) show False by auto
          next
            case 2
            with True d(2,3) show False by auto
          qed
        qed
        then show ?thesis using True d(2) unfolding ready r(3) by auto
      next
        case False
        then show ?thesis unfolding ready r(3) by auto
      qed
    qed
    finally show ?thesis .
  qed
  moreover have "topo (preds g) (order @ [?d])" using ok'(4) d(3) by (simp add: topo_snoc)
  ultimately show ?thesis using ok'(3) d(1,2) r(1) ok by (auto simp: loop_ok_def)
qed

lemma kahn_loop_ok:
  assumes "wf g" "loop_ok g ready p order"
    "length (nodes g) \<le> n + length order"
  shows "snd (kahn_loop (pick g) (release g) n ready p order) = [] \<and>
         (\<exists>p'. loop_ok g [] p' (fst (kahn_loop (pick g) (release g) n ready p order)))"
  using assms(2,3)
proof (induction n arbitrary: ready p order)
  case 0
  then have d: "distinct order" and s: "set order \<subseteq> set (nodes g)" and le: "length (nodes g) \<le> length order"
    by (auto simp: loop_ok_def)
  have "card (set order) = length order" using d by (rule distinct_card)
  moreover have "card (set (nodes g)) \<le> length (nodes g)" by (rule card_length)
  ultimately have "set order = set (nodes g)"
    using s le card_seteq [OF _ s] by simp
  then have "set ready = {}" using 0 by (auto simp: loop_ok_def)
  then show ?case using 0 by auto
next
  case (Suc n)
  show ?case
  proof (cases "ready = []")
    case True
    then show ?thesis using Suc.prems by auto
  next
    case False
    from loop_ok_step [OF assms(1) Suc.prems(1) False] Suc.IH Suc.prems(2) False
    show ?thesis by (simp add: Let_def)
  qed
qed

text \<open>
  What the loop returns when it starts from the nodes without predecessors: it never runs out of
  fuel, lists nodes after their predecessors, and what it leaves out is stuck on a cycle.
\<close>

definition start_ok :: "'g \<Rightarrow> 'a list \<Rightarrow> 'p \<Rightarrow> bool" where
  "start_ok g ready p \<longleftrightarrow> ok g {} p \<and> distinct ready \<and> set ready = {x \<in> set (nodes g). preds g x = {}}"

lemma kahn_result:
  assumes wf: "wf g" and start: "start_ok g ready p" and fuel: "length (nodes g) \<le> n"
  defines "order \<equiv> fst (kahn_loop (pick g) (release g) n ready p [])"
  shows "distinct order" "set order \<subseteq> set (nodes g)" "topo (preds g) order"
    "snd (kahn_loop (pick g) (release g) n ready p []) = []"
    "\<And>x. x \<in> set (nodes g) \<Longrightarrow> x \<notin> set order \<Longrightarrow> \<exists>y \<in> preds g x. y \<in> set (nodes g) \<and> y \<notin> set order"
proof -
  have "loop_ok g ready p []" using start by (auto simp: loop_ok_def start_ok_def)
  from kahn_loop_ok [OF wf this, of n] fuel obtain p' where
    e: "snd (kahn_loop (pick g) (release g) n ready p []) = []" and ok: "loop_ok g [] p' order"
    by (auto simp: order_def)
  show "distinct order" "set order \<subseteq> set (nodes g)" "topo (preds g) order"
    "snd (kahn_loop (pick g) (release g) n ready p []) = []"
    using e ok by (auto simp: loop_ok_def)
  fix x assume x: "x \<in> set (nodes g)" "x \<notin> set order"
  then have "\<not> preds g x \<subseteq> set order" using ok by (auto simp: loop_ok_def)
  with preds_nodes [OF wf x(1)] show "\<exists>y \<in> preds g x. y \<in> set (nodes g) \<and> y \<notin> set order" by auto
qed

definition dep_graph :: "'g \<Rightarrow> ('a \<times> 'a) set" where
  "dep_graph g = {(y, x). x \<in> set (nodes g) \<and> y \<in> preds g x}"

theorem kahn_complete_iff:
  assumes wf: "wf g" and start: "start_ok g ready p" and fuel: "length (nodes g) \<le> n"
  shows "length (fst (kahn_loop (pick g) (release g) n ready p [])) = length (nodes g) \<longleftrightarrow>
           acyclic (dep_graph g)"
proof -
  let ?order = "fst (kahn_loop (pick g) (release g) n ready p [])"
  note R = kahn_result [OF wf start fuel]
  have len: "length ?order = length (nodes g) \<longleftrightarrow> set ?order = set (nodes g)"
    using R(1,2) nodes_distinct [OF wf] by (metis card_subset_eq distinct_card finite_set)
  show ?thesis
  proof
    assume "length ?order = length (nodes g)"
    then have s: "set ?order = set (nodes g)" by (simp add: len)
    show "acyclic (dep_graph g)"
      using topo_acyclic [OF R(3,1)] unfolding dep_graph_def s .
  next
    assume acyc: "acyclic (dep_graph g)"
    have fin: "finite (dep_graph g)"
    proof (rule finite_subset)
      show "dep_graph g \<subseteq> set (nodes g) \<times> set (nodes g)"
        using preds_nodes [OF wf] by (auto simp: dep_graph_def)
    qed simp
    then have wfr: "Wellfounded.wf (dep_graph g)" using acyc by (rule finite_acyclic_wf)
    have "x \<in> set (nodes g) \<longrightarrow> x \<in> set ?order" for x
      using wfr
    proof (induction x rule: wf_induct_rule)
      case (less x)
      show ?case
      proof (rule impI, rule ccontr)
        assume x: "x \<in> set (nodes g)" "x \<notin> set ?order"
        from R(5) [OF x] obtain y where y: "y \<in> preds g x" "y \<in> set (nodes g)" "y \<notin> set ?order" by blast
        then have "(y, x) \<in> dep_graph g" using x by (simp add: dep_graph_def)
        from less.IH [OF this] y show False by simp
      qed
    qed
    with R(2) show "length ?order = length (nodes g)" unfolding len by auto
  qed
qed

end

section \<open>Counting edges\<close>

text \<open>
  Two modules keep the number of edges a node waits for, decrement it once per edge of the node
  just done and push the node when it reaches 0.
\<close>

fun count_down :: "'a list \<Rightarrow> ('a, int) dict \<Rightarrow> 'a list \<times> ('a, int) dict" where
  "count_down [] indeg = ([], indeg)"
| "count_down (c # cs) indeg =
     (let n = get_or indeg c 0 - 1;
          r = count_down cs (AList.update c n indeg)
      in (if n = 0 then c # fst r else fst r, snd r))"

definition children :: "('a \<times> 'a) list \<Rightarrow> 'a \<Rightarrow> 'a list" where
  "children edges d = map snd (filter (\<lambda>e. fst e = d) edges)"

definition waits :: "('a \<times> 'a) list \<Rightarrow> 'a set \<Rightarrow> 'a \<Rightarrow> nat" where
  "waits edges D c = length (filter (\<lambda>e. snd e = c \<and> fst e \<notin> D) edges)"

lemma count_down_result:
  "snd (count_down cs p) = p' \<Longrightarrow> get_or p' x 0 = get_or p x 0 - int (count_list cs x)"
proof (induction cs arbitrary: p p')
  case (Cons c cs)
  let ?p = "AList.update c (get_or p c 0 - 1) p"
  have "get_or ?p x 0 = (if x = c then get_or p c 0 - 1 else get_or p x 0)" by (simp add: get_or_def)
  moreover have "get_or p' x 0 = get_or ?p x 0 - int (count_list cs x)"
    by (rule Cons.IH) (use Cons.prems in \<open>simp add: Let_def\<close>)
  ultimately show ?case by auto
qed simp

lemma count_down_released:
  "(\<And>x. x \<in> set cs \<Longrightarrow> int (count_list cs x) \<le> get_or p x 0) \<Longrightarrow>
     distinct (fst (count_down cs p)) \<and>
     set (fst (count_down cs p)) = {x \<in> set cs. get_or p x 0 = int (count_list cs x)}"
proof (induction cs arbitrary: p)
  case (Cons c cs)
  let ?n = "get_or p c 0 - 1"
  let ?p = "AList.update c ?n p"
  have get: "get_or ?p x 0 = (if x = c then ?n else get_or p x 0)" for x by (simp add: get_or_def)
  have "int (count_list cs x) \<le> get_or ?p x 0" if "x \<in> set cs" for x
    using Cons.prems [of x] that by (auto simp: get split: if_splits)
  note ih = Cons.IH [OF this]
  define r where "r = count_down cs ?p"
  have step: "fst (count_down (c # cs) p) = (if ?n = 0 then c # fst r else fst r)"
    by (simp add: Let_def r_def)
  have d: "distinct (fst r)" and s: "\<And>x. x \<in> set (fst r) \<longleftrightarrow> x \<in> set cs \<and> get_or ?p x 0 = int (count_list cs x)"
    using ih unfolding r_def by blast+
  show ?case
  proof (cases "?n = 0")
    case True
    then have "count_list cs c = 0" using Cons.prems [of c] by simp
    then have c: "c \<notin> set cs" by (simp add: count_list_0_iff)
    have "x \<in> set (c # fst r) \<longleftrightarrow> x \<in> set (c # cs) \<and> get_or p x 0 = int (count_list (c # cs) x)" for x
    proof (cases "x = c")
      case True
      then show ?thesis using \<open>?n = 0\<close> c by (simp add: count_notin)
    next
      case other: False
      then show ?thesis using s [of x] get [of x] by simp
    qed
    moreover have "distinct (c # fst r)" using d s [of c] c by simp
    ultimately show ?thesis unfolding step using True by (simp only: if_True set_eq_iff) simp
  next
    case False
    have "x \<in> set (fst r) \<longleftrightarrow> x \<in> set (c # cs) \<and> get_or p x 0 = int (count_list (c # cs) x)" for x
    proof (cases "x = c")
      case True
      have "c \<notin> set cs \<Longrightarrow> count_list cs c = 0" by (simp add: count_notin)
      moreover have "c \<in> set (fst r) \<longleftrightarrow> c \<in> set cs \<and> get_or p c 0 - 1 = int (count_list cs c)"
        using s [of c] get [of c] by simp
      ultimately show ?thesis using True False by (cases "c \<in> set cs") auto
    next
      case other: False
      then show ?thesis using s [of x] get [of x] by simp
    qed
    then show ?thesis unfolding step using False d by (simp only: if_False set_eq_iff) simp
  qed
qed simp

locale counters =
  fixes pick :: "'g \<Rightarrow> 'a list \<Rightarrow> nat"
    and nodes :: "'g \<Rightarrow> 'a list"
    and edges :: "'g \<Rightarrow> ('a \<times> 'a) list"
  assumes pick_lt': "ready \<noteq> [] \<Longrightarrow> pick g ready < length ready"
begin

definition counts_ok :: "'g \<Rightarrow> 'a set \<Rightarrow> ('a, int) dict \<Rightarrow> bool" where
  "counts_ok g D p \<longleftrightarrow> (\<forall>x \<in> set (nodes g). get_or p x 0 = int (waits (edges g) D x))"

definition closed_graph :: "'g \<Rightarrow> bool" where
  "closed_graph g \<longleftrightarrow> distinct (nodes g) \<and> fst ` set (edges g) \<subseteq> set (nodes g) \<and>
     snd ` set (edges g) \<subseteq> set (nodes g)"

lemma waits_insert:
  assumes "d \<notin> D"
  shows "waits es D x = count_list (children es d) x + waits es (insert d D) x"
  using assms by (induction es) (auto simp: waits_def children_def)

lemma counts_release:
  assumes wf: "closed_graph g" and ok: "counts_ok g D p" and d: "d \<notin> D"
  shows "counts_ok g (insert d D) (snd (count_down (children (edges g) d) p))"
    and "distinct (fst (count_down (children (edges g) d) p))"
    and "set (fst (count_down (children (edges g) d) p)) =
           {x \<in> set (nodes g). d \<in> {y. (y, x) \<in> set (edges g)} \<and> {y. (y, x) \<in> set (edges g)} \<subseteq> insert d D}"
proof -
  let ?cs = "children (edges g) d"
  have sub: "set ?cs \<subseteq> set (nodes g)" using wf by (auto simp: children_def closed_graph_def)
  have le: "int (count_list ?cs x) \<le> get_or p x 0" if "x \<in> set ?cs" for x
    using ok sub that waits_insert [OF d, of "edges g" x] by (auto simp: counts_ok_def)
  show "counts_ok g (insert d D) (snd (count_down ?cs p))"
    using ok waits_insert [OF d, of "edges g"] by (auto simp: counts_ok_def count_down_result)
  show "distinct (fst (count_down ?cs p))" using count_down_released [OF le] by blast
  have zero: "waits (edges g) (insert d D) x = 0 \<longleftrightarrow> {y. (y, x) \<in> set (edges g)} \<subseteq> insert d D" for x
    by (auto simp: waits_def filter_empty_conv)
  have mem: "x \<in> set ?cs \<longleftrightarrow> (d, x) \<in> set (edges g)" for x by (force simp: children_def)
  have "x \<in> set (fst (count_down ?cs p)) \<longleftrightarrow> x \<in> set (nodes g) \<and> (d, x) \<in> set (edges g) \<and>
      {y. (y, x) \<in> set (edges g)} \<subseteq> insert d D" for x
  proof -
    have "x \<in> set (fst (count_down ?cs p)) \<longleftrightarrow> x \<in> set ?cs \<and> get_or p x 0 = int (count_list ?cs x)"
      using count_down_released [OF le] by blast
    also have "\<dots> \<longleftrightarrow> x \<in> set ?cs \<and> waits (edges g) (insert d D) x = 0"
      using ok sub waits_insert [OF d, of "edges g" x] by (auto simp: counts_ok_def)
    finally show ?thesis using zero sub mem by auto
  qed
  then show "set (fst (count_down ?cs p)) =
      {x \<in> set (nodes g). d \<in> {y. (y, x) \<in> set (edges g)} \<and> {y. (y, x) \<in> set (edges g)} \<subseteq> insert d D}"
    by auto
qed

end

sublocale counters \<subseteq> kahn pick nodes "\<lambda>g x. {y. (y, x) \<in> set (edges g)}" counts_ok
  "\<lambda>g d. count_down (children (edges g) d)" closed_graph
proof
  show "ready \<noteq> [] \<Longrightarrow> pick g ready < length ready" for g ready by (rule pick_lt')
  show "closed_graph g \<Longrightarrow> distinct (nodes g)" for g by (simp add: closed_graph_def)
  show "closed_graph g \<Longrightarrow> x \<in> set (nodes g) \<Longrightarrow> {y. (y, x) \<in> set (edges g)} \<subseteq> set (nodes g)" for g x
    by (force simp: closed_graph_def)
  show "closed_graph g \<Longrightarrow> counts_ok g D p \<Longrightarrow> d \<in> set (nodes g) \<Longrightarrow> d \<notin> D \<Longrightarrow>
      counts_ok g (insert d D) (snd (count_down (children (edges g) d) p)) \<and>
      distinct (fst (count_down (children (edges g) d) p)) \<and>
      set (fst (count_down (children (edges g) d) p)) =
        {x \<in> set (nodes g). d \<in> {y. (y, x) \<in> set (edges g)} \<and> {y. (y, x) \<in> set (edges g)} \<subseteq> insert d D}"
    for g D p d
    using counts_release by blast
qed

section \<open>Taking the smallest\<close>

text \<open>The position \<open>heapq\<close> pops: the smallest key.\<close>

fun min_index :: "('a \<Rightarrow> 'k::linorder) \<Rightarrow> 'a list \<Rightarrow> nat" where
  "min_index key [] = 0"
| "min_index key [x] = 0"
| "min_index key (x # y # zs) =
     (let i = min_index key (y # zs) in if key x \<le> key ((y # zs) ! i) then 0 else Suc i)"

lemma min_index_lt: "xs \<noteq> [] \<Longrightarrow> min_index key xs < length xs"
  by (induction key xs rule: min_index.induct) (auto simp: Let_def)

lemma min_index_le: "x \<in> set xs \<Longrightarrow> key (xs ! min_index key xs) \<le> key x"
proof (induction key xs rule: min_index.induct)
  case (3 key a b zs)
  show ?case
  proof (cases "x \<in> set (b # zs)")
    case True
    with 3 have "key ((b # zs) ! min_index key (b # zs)) \<le> key x" by simp
    then show ?thesis by (auto simp: Let_def)
  next
    case False
    with "3.prems" show ?thesis by (auto simp: Let_def)
  qed
qed simp_all

locale kahn_min = kahn pick nodes preds ok release wf
  for pick :: "'g \<Rightarrow> 'a list \<Rightarrow> nat" and nodes preds and ok :: "'g \<Rightarrow> 'a set \<Rightarrow> 'p \<Rightarrow> bool" and release wf +
  fixes key :: "'g \<Rightarrow> 'a \<Rightarrow> 'k::linorder"
  assumes pick_min: "x \<in> set ready \<Longrightarrow> key g (ready ! pick g ready) \<le> key g x"
begin

text \<open>A list that is already a topological order with increasing keys comes back unchanged.\<close>

lemma stable_loop:
  assumes wf: "wf g" and srt: "sorted_wrt (\<lambda>x y. key g x < key g y) (nodes g)" and topo: "topo (preds g) (nodes g)"
    and ok: "loop_ok g ready p (take k (nodes g))" and k: "k \<le> length (nodes g)"
    and n: "length (nodes g) \<le> n + k"
  shows "fst (kahn_loop (pick g) (release g) n ready p (take k (nodes g))) = nodes g"
  using ok k n
proof (induction n arbitrary: ready p k)
  case 0
  then show ?case by simp
next
  case (Suc n)
  show ?case
  proof (cases "k < length (nodes g)")
    case False
    then have all: "take k (nodes g) = nodes g" by simp
    then have "set ready = {}" using Suc.prems(1) by (auto simp: loop_ok_def)
    then show ?thesis using all by simp
  next
    case True
    let ?x = "nodes g ! k"
    have split: "nodes g = take k (nodes g) @ ?x # drop (Suc k) (nodes g)" by (rule id_take_nth_drop [OF True])
    have dist: "distinct (nodes g)" by (rule nodes_distinct [OF wf])
    have "?x \<notin> set (take k (nodes g))"
      using dist by (subst (asm) split) simp
    moreover have "preds g ?x \<subseteq> set (take k (nodes g))" using topo split unfolding topo_def by blast
    ultimately have x: "?x \<in> set ready" using Suc.prems(1) True by (simp add: loop_ok_def)
    let ?i = "pick g ready"
    have ne: "ready \<noteq> []" using x by auto
    have i: "?i < length ready" by (rule pick_lt [OF ne])
    have "ready ! ?i = ?x"
    proof -
      have "ready ! ?i \<in> set ready" using i by simp
      then have "ready ! ?i \<in> set (nodes g)" "ready ! ?i \<notin> set (take k (nodes g))"
        using Suc.prems(1) by (auto simp: loop_ok_def)
      moreover have "set (nodes g) = set (take k (nodes g)) \<union> {?x} \<union> set (drop (Suc k) (nodes g))"
        by (subst split) auto
      ultimately consider "ready ! ?i = ?x" | "ready ! ?i \<in> set (drop (Suc k) (nodes g))" by blast
      then show ?thesis
      proof cases
        case 2
        have "sorted_wrt (\<lambda>x y. key g x < key g y) (take k (nodes g) @ ?x # drop (Suc k) (nodes g))"
          using srt by (subst (asm) split)
        then have "key g ?x < key g (ready ! ?i)" using 2 by (simp add: sorted_wrt_append)
        with pick_min [OF x, of g] show ?thesis by simp
      qed
    qed
    then have next_order: "take k (nodes g) @ [ready ! ?i] = take (Suc k) (nodes g)"
      using True by (simp add: take_Suc_conv_app_nth)
    from loop_ok_step [OF wf Suc.prems(1) ne] have "loop_ok g
        (take ?i ready @ drop (Suc ?i) ready @ fst (release g (ready ! ?i) p))
        (snd (release g (ready ! ?i) p)) (take (Suc k) (nodes g))" by (simp add: next_order)
    from Suc.IH [OF this] True Suc.prems(3) ne next_order show ?thesis by (simp add: Let_def)
  qed
qed

theorem kahn_stable:
  assumes "wf g" "start_ok g ready p" "length (nodes g) \<le> n"
    and "sorted_wrt (\<lambda>x y. key g x < key g y) (nodes g)" "topo (preds g) (nodes g)"
  shows "fst (kahn_loop (pick g) (release g) n ready p []) = nodes g"
proof -
  have "loop_ok g ready p (take 0 (nodes g))" using assms(2) by (auto simp: loop_ok_def start_ok_def)
  from stable_loop [OF assms(1,4,5) this] assms(3) show ?thesis by simp
qed

end

end
