(* ===== verification/Graph_Edit.thy ===== *)
theory Graph_Edit
  imports Graph_IR Kahn
begin

text \<open>
  \<^verbatim>\<open>pipeline/graph_edit.py\<close> (and \<^verbatim>\<open>graph_hints.unique_names\<close>, which it runs first): the stable
  topological sort, the editor's operations, and the patch an accepted rewrite is stored as. The
  digest of an op, a hash of its canonical JSON text, is the parameter \<open>dig\<close>.
\<close>

section \<open>Errors\<close>

datatype patch_error =
    Produced_Twice string
  | Nothing_Produces string string
  | Op_Cycle
  | Not_A_Patch
  | Op_Gone string
  | Op_Differs string
  | Op_Name_Taken string
  | Tensor_Differs string
  | Derivation_Differs string
  | No_Output_Key

text \<open>\<open>PatchError.code\<close>; a missing output key is a plain \<open>KeyError\<close>.\<close>

fun patch_code :: "patch_error \<Rightarrow> string option" where
  "patch_code (Produced_Twice t) = Some ''invalid''"
| "patch_code (Nothing_Produces n t) = Some ''missing''"
| "patch_code Op_Cycle = Some ''cycle''"
| "patch_code Not_A_Patch = Some ''invalid''"
| "patch_code (Op_Gone n) = Some ''stale''"
| "patch_code (Op_Differs n) = Some ''stale''"
| "patch_code (Op_Name_Taken n) = Some ''exists''"
| "patch_code (Tensor_Differs t) = Some ''exists''"
| "patch_code (Derivation_Differs k) = Some ''exists''"
| "patch_code No_Output_Key = None"

section \<open>Names\<close>

record name_state =
  ns_seen :: "(string, nat) dict"
  ns_taken :: "string list"
  ns_ops :: "op list"

definition numbered :: "string \<Rightarrow> nat \<Rightarrow> string" where
  "numbered n k = n @ ''#'' @ str_nat k"

definition rename :: "string \<Rightarrow> op \<Rightarrow> op" where
  "rename n x = upd (\<lambda>f. f\<lparr>name := n\<rparr>) x"

definition name_step :: "op \<Rightarrow> name_state \<Rightarrow> name_state" where
  "name_step x s =
     (let n = o_name x; k = get_or (ns_seen s) n 0; seen = AList.update n (k + 1) (ns_seen s) in
      if k = 0 then s\<lparr>ns_seen := seen, ns_ops := ns_ops s @ [x]\<rparr>
      else let m = numbered n (fresh_index (numbered n) (ns_taken s) k) in
        \<lparr>ns_seen = seen, ns_taken = m # ns_taken s, ns_ops = ns_ops s @ [rename m x]\<rparr>)"

definition unique_ops :: "op list \<Rightarrow> op list" where
  "unique_ops xs = ns_ops (fold name_step xs \<lparr>ns_seen = [], ns_taken = map o_name xs, ns_ops = []\<rparr>)"

definition unique_names :: "graph \<Rightarrow> graph" where
  "unique_names g = g\<lparr>ops := unique_ops (ops g)\<rparr>"

section \<open>Producers, inputs and outputs\<close>

definition io_inputs :: "graph \<Rightarrow> string list" where
  "io_inputs g = (if packed_inputs g = [] then [input_tensor g] else packed_inputs g)"

definition io_names :: "graph \<Rightarrow> patch_error + string list \<times> string list" where
  "io_names g =
     (if output_tensors g \<noteq> [] then Inr (io_inputs g, output_tensors g)
      else case output_tensor g of None \<Rightarrow> Inl No_Output_Key | Some t \<Rightarrow> Inr (io_inputs g, [t]))"

text \<open>Outputs and internal tensors of an op.\<close>

definition makes :: "op \<Rightarrow> string list" where
  "makes x = o_outs x @ internal (flds x)"

definition produced :: "graph \<Rightarrow> (string, string) dict" where
  "produced g =
     fold (\<lambda>x. fold (\<lambda>t d. if has_key d t then d else AList.update t (o_name x) d)
                 (makes x @ concat (map o_outs (subs x)))) (ops g) []"

section \<open>The digest\<close>

text \<open>The op without its volatile bookkeeping fields; what is hashed.\<close>

definition lasting :: "op_fields \<Rightarrow> op_fields" where
  "lasting f =
     f\<lparr>dispatch_id := None, null_dispatch := False, depends_on := [],
       extra := filter (\<lambda>(k, v). k \<notin> {''hint'', ''slot_variant''}) (extra f)\<rparr>"

definition semantic :: "op \<Rightarrow> op" where
  "semantic x = upd lasting x"

definition op_digest :: "(op \<Rightarrow> 'd) \<Rightarrow> op \<Rightarrow> 'd" where
  "op_digest dig x = dig (semantic x)"

section \<open>The stable topological sort\<close>

definition external :: "graph \<Rightarrow> string set" where
  "external g = set (io_inputs g) \<union> {t \<in> set (keys (tensors g)). case map_of (tensors g) t of None \<Rightarrow> False | Some m \<Rightarrow> t_const m}"

definition index_makes :: "nat \<times> op \<Rightarrow> (string, nat) dict \<Rightarrow> patch_error + (string, nat) dict" where
  "index_makes ix d =
     for_each (\<lambda>t d. if has_key d t then Inl (Produced_Twice t) else Inr (AList.update t (fst ix) d)) (makes (snd ix)) d"

definition op_waits :: "(string, nat) dict \<Rightarrow> string set \<Rightarrow> nat \<times> op \<Rightarrow> patch_error + nat set" where
  "op_waits prd ext ix =
     for_each (\<lambda>t d. case map_of prd t of
          Some p \<Rightarrow> Inr (if p \<noteq> fst ix then insert p d else d)
        | None \<Rightarrow> if t \<in> ext then Inr d else Inl (Nothing_Produces (o_name (snd ix)) t))
       (o_ins (snd ix)) {}"

definition users :: "nat set list \<Rightarrow> nat \<Rightarrow> nat list" where
  "users ds i = filter (\<lambda>j. i \<in> ds ! j) [0..<length ds]"

fun discard_from :: "nat \<Rightarrow> nat list \<Rightarrow> (nat, nat set) dict \<Rightarrow> nat list \<times> (nat, nat set) dict" where
  "discard_from i [] w = ([], w)"
| "discard_from i (j # js) w =
     (let s = get_or w j {} - {i}; r = discard_from i js (AList.update j s w)
      in (if s = {} then j # fst r else fst r, snd r))"

definition initial_waits :: "nat set list \<Rightarrow> (nat, nat set) dict" where
  "initial_waits ds = filter (\<lambda>(i, d). d \<noteq> {}) (enumerate 0 ds)"

definition pop_least :: "nat set list \<Rightarrow> nat list \<Rightarrow> nat" where
  "pop_least ds ready = min_index id ready"

definition topo_order :: "nat set list \<Rightarrow> nat list" where
  "topo_order ds =
     fst (kahn_loop (pop_least ds) (\<lambda>i. discard_from i (users ds i)) (length ds)
            (filter (\<lambda>i. ds ! i = {}) [0..<length ds]) (initial_waits ds) [])"

definition toposort :: "graph \<Rightarrow> patch_error + graph" where
  "toposort g =
     (case io_names g of
        Inl e \<Rightarrow> Inl e
      | Inr _ \<Rightarrow>
          (case for_each index_makes (enumerate 0 (ops g)) [] of
             Inl e \<Rightarrow> Inl e
           | Inr prd \<Rightarrow>
               (case map_res (op_waits prd (external g)) (enumerate 0 (ops g)) of
                  Inl e \<Rightarrow> Inl e
                | Inr ds \<Rightarrow>
                    (if length (topo_order ds) \<noteq> length (ops g) then Inl Op_Cycle
                     else Inr (g\<lparr>ops := map (\<lambda>i. ops g ! i) (topo_order ds)\<rparr>)))))"

section \<open>The editor\<close>

text \<open>
  The methods of \<open>Editor\<close> on its working copy; \<open>None\<close> is the raised \<open>KeyError\<close> or \<open>ValueError\<close>.
\<close>

definition ed_op :: "graph \<Rightarrow> string \<Rightarrow> op option" where
  "ed_op g n = List.find (\<lambda>x. o_name x = n) (ops g)"

definition ed_producer :: "graph \<Rightarrow> string \<Rightarrow> op option" where
  "ed_producer g t = (case map_of (produced g) t of None \<Rightarrow> None | Some n \<Rightarrow> if n = [] then None else ed_op g n)"

definition ed_consumers :: "graph \<Rightarrow> string \<Rightarrow> op list" where
  "ed_consumers g t = filter (\<lambda>x. t \<in> set (o_ins x)) (ops g)"

definition underscored :: "string \<Rightarrow> nat \<Rightarrow> string" where
  "underscored base k = base @ ''_'' @ str_nat k"

definition ed_unique :: "graph \<Rightarrow> string \<Rightarrow> string" where
  "ed_unique g base =
     (let names = map o_name (ops g) @ keys (tensors g) in
      if base \<notin> set names then base else underscored base (fresh_index (underscored base) names 1))"

definition ed_add_tensor :: "graph \<Rightarrow> string \<Rightarrow> int list \<Rightarrow> string \<Rightarrow> graph option" where
  "ed_add_tensor g n sh dt =
     (if has_key (tensors g) n then None
      else Some (g\<lparr>tensors := AList.update n (plain_tensor sh\<lparr>t_dtype := Some dt\<rparr>) (tensors g)\<rparr>))"

definition ed_add_op :: "graph \<Rightarrow> op \<Rightarrow> graph option" where
  "ed_add_op g x =
     (if list_ex (\<lambda>y. o_name y = o_name x) (ops g) then None else Some (g\<lparr>ops := ops g @ [x]\<rparr>))"

definition ed_remove_ops :: "graph \<Rightarrow> string list \<Rightarrow> graph option" where
  "ed_remove_ops g ns =
     (if \<exists>n \<in> set ns. n \<notin> set (map o_name (ops g)) then None
      else Some (g\<lparr>ops := filter (\<lambda>x. o_name x \<notin> set ns) (ops g)\<rparr>))"

definition redirect :: "string \<Rightarrow> string \<Rightarrow> string list \<Rightarrow> string list" where
  "redirect old new ts = map (\<lambda>t. if t = old then new else t) ts"

definition redirect_ins :: "string \<Rightarrow> string \<Rightarrow> op \<Rightarrow> op" where
  "redirect_ins old new x = upd (\<lambda>f. f\<lparr>inputs := redirect old new (inputs f)\<rparr>) x"

definition redirect_op :: "string \<Rightarrow> string \<Rightarrow> op \<Rightarrow> op" where
  "redirect_op old new x =
     (case redirect_ins old new x of Op f ss \<Rightarrow> Op f (map_option (map (redirect_ins old new)) ss))"

definition reads_count :: "string \<Rightarrow> op \<Rightarrow> nat" where
  "reads_count old x = sum_list (map (\<lambda>ts. count_list ts old) (o_ins x # map o_ins (subs x)))"

definition ed_rewire :: "graph \<Rightarrow> string \<Rightarrow> string \<Rightarrow> string list option \<Rightarrow> graph \<times> nat" where
  "ed_rewire g old new only =
     (let sel = (\<lambda>x. case only of None \<Rightarrow> True | Some ns \<Rightarrow> o_name x \<in> set ns) in
      (g\<lparr>ops := map (\<lambda>x. if sel x then redirect_op old new x else x) (ops g)\<rparr>,
       sum_list (map (reads_count old) (filter sel (ops g)))))"

definition ed_result :: "graph \<Rightarrow> patch_error + graph" where
  "ed_result g = toposort g"

section \<open>Patches\<close>

definition patch_format :: string where
  "patch_format = ''modelblaster.graph_rewrite.patch/v1''"

record 'd patch =
  pt_format :: string
  pt_remove_ops :: "string list"
  pt_add_ops :: "op list"
  pt_add_tensors :: "(string, tensor) dict"
  pt_remove_tensors :: "string list"
  pt_changed_tensors :: "string list"
  pt_derivations :: "(string, json) dict"
  pt_dtypes :: "(string, string) dict"
  pt_requires :: "(string, 'd) dict"
  pt_tensor_map :: "(string, string) dict option"

text \<open>\<open>{o["name"]: o for o in ops}\<close>.\<close>

definition ops_by_name :: "graph \<Rightarrow> (string, op) dict" where
  "ops_by_name g = dict_of (map (\<lambda>x. (o_name x, x)) (ops g))"

text \<open>The ops of \<open>a\<close> that \<open>b\<close> does not have, or has with another digest.\<close>

definition not_same :: "(op \<Rightarrow> 'd) \<Rightarrow> (string, op) dict \<Rightarrow> (string, op) dict \<Rightarrow> string list" where
  "not_same dig a b =
     filter (\<lambda>n. case map_of b n of
               None \<Rightarrow> True
             | Some y \<Rightarrow> (case map_of a n of None \<Rightarrow> True | Some x \<Rightarrow> op_digest dig x \<noteq> op_digest dig y)) (keys a)"

definition only_in :: "('k, 'v) dict \<Rightarrow> ('k, 'v) dict \<Rightarrow> ('k, 'v) dict" where
  "only_in a b = filter (\<lambda>(k, v). \<not> has_key b k) a"

definition graph_diff ::
  "(op \<Rightarrow> 'd) \<Rightarrow> graph \<Rightarrow> graph \<Rightarrow> (string, string) dict option \<Rightarrow> 'd patch" where
  "graph_diff dig base edited tmap =
     (let b = unique_names base; e = unique_names edited; bo = ops_by_name b; eo = ops_by_name e;
          removed = not_same dig bo eo; added = not_same dig eo bo in
      \<lparr>pt_format = patch_format, pt_remove_ops = removed,
       pt_add_ops = map semantic (List.map_filter (map_of eo) added),
       pt_add_tensors = only_in (tensors e) (tensors b),
       pt_remove_tensors = filter (\<lambda>t. \<not> has_key (tensors e) t) (keys (tensors b)),
       pt_changed_tensors = filter (\<lambda>t. has_key (tensors b) t \<and> map_of (tensors e) t \<noteq> map_of (tensors b) t) (keys (tensors e)),
       pt_derivations = only_in (weight_derivations e) (weight_derivations b),
       pt_dtypes = only_in (weight_dtypes e) (weight_dtypes b),
       pt_requires = List.map_filter (\<lambda>n. map_option (\<lambda>x. (n, op_digest dig x)) (map_of bo n)) removed,
       pt_tensor_map = tmap\<rparr>)"

definition check_required :: "(op \<Rightarrow> 'd) \<Rightarrow> (string, op) dict \<Rightarrow> (string \<times> 'd) list \<Rightarrow> patch_error + unit" where
  "check_required dig have req =
     for_each (\<lambda>(n, d) _. case map_of have n of
         None \<Rightarrow> Inl (Op_Gone n)
       | Some x \<Rightarrow> if op_digest dig x \<noteq> d then Inl (Op_Differs n) else Inr ()) req ()"

definition add_patch_ops :: "op list \<Rightarrow> op list \<Rightarrow> patch_error + op list" where
  "add_patch_ops xs added =
     for_each (\<lambda>x ys. if o_name x \<in> set (map o_name ys) then Inl (Op_Name_Taken (o_name x)) else Inr (ys @ [x])) added xs"

definition add_patch_tensors :: "(string, tensor) dict \<Rightarrow> (string, tensor) dict \<Rightarrow> patch_error + (string, tensor) dict" where
  "add_patch_tensors ts added =
     for_each (\<lambda>(t, m) ts. if has_key ts t \<and> map_of ts t \<noteq> Some m then Inl (Tensor_Differs t)
                           else Inr (AList.update t m ts)) added ts"

definition drop_unused :: "op list \<Rightarrow> string list \<Rightarrow> (string, tensor) dict \<Rightarrow> (string, tensor) dict" where
  "drop_unused xs gone ts =
     fold (\<lambda>t ts. if list_ex (\<lambda>x. t \<in> set (o_ins x) \<or> t \<in> set (o_outs x)) xs then ts else AList.delete t ts) gone ts"

definition add_patch_derivations :: "(string, json) dict \<Rightarrow> (string, json) dict \<Rightarrow> patch_error + (string, json) dict" where
  "add_patch_derivations ds added =
     for_each (\<lambda>(k, v) ds. if has_key ds k \<and> map_of ds k \<noteq> Some v then Inl (Derivation_Differs k)
                           else Inr (AList.update k v ds)) added ds"

definition merge_dtypes :: "(string, string) dict \<Rightarrow> (string, string) dict \<Rightarrow> (string, string) dict" where
  "merge_dtypes ds added = fold (\<lambda>(k, v). AList.update k v) added ds"

record patch_info =
  pi_removed :: "string set"
  pi_added :: "string list"

text \<open>The patched graph before it is sorted.\<close>

definition patched :: "(op \<Rightarrow> 'd) \<Rightarrow> graph \<Rightarrow> 'd patch \<Rightarrow> patch_error + graph" where
  "patched dig graph p =
     (if pt_format p \<noteq> patch_format then Inl Not_A_Patch
      else let g = unique_names graph in
        case check_required dig (ops_by_name g) (pt_requires p) of
          Inl e \<Rightarrow> Inl e
        | Inr _ \<Rightarrow>
            (case add_patch_ops (filter (\<lambda>x. o_name x \<notin> set (pt_remove_ops p)) (ops g)) (pt_add_ops p) of
               Inl e \<Rightarrow> Inl e
             | Inr xs \<Rightarrow>
                 (case add_patch_tensors (tensors g) (pt_add_tensors p) of
                    Inl e \<Rightarrow> Inl e
                  | Inr ts \<Rightarrow>
                      (let g1 = g\<lparr>ops := xs, tensors := drop_unused xs (pt_remove_tensors p) ts\<rparr> in
                       if pt_derivations p = [] then Inr g1
                       else case add_patch_derivations (weight_derivations g) (pt_derivations p) of
                         Inl e \<Rightarrow> Inl e
                       | Inr ds \<Rightarrow> Inr (g1\<lparr>weight_derivations := ds,
                                         weight_dtypes := merge_dtypes (weight_dtypes g) (pt_dtypes p)\<rparr>)))))"

definition apply_patch :: "(op \<Rightarrow> 'd) \<Rightarrow> graph \<Rightarrow> 'd patch \<Rightarrow> patch_error + graph \<times> patch_info" where
  "apply_patch dig graph p =
     (case patched dig graph p of
        Inl e \<Rightarrow> Inl e
      | Inr g1 \<Rightarrow>
          (case toposort g1 of
             Inl e \<Rightarrow> Inl e
           | Inr g' \<Rightarrow> Inr (g', \<lparr>pi_removed = set (pt_remove_ops p), pi_added = map o_name (pt_add_ops p)\<rparr>)))"

definition new_op_kinds :: "'d patch \<Rightarrow> string set" where
  "new_op_kinds p = set (map o_kind (pt_add_ops p))"

end
