(* ===== verification/View_Fusion.thy ===== *)
theory View_Fusion
  imports Op_Class Graph_Edit "HOL-Library.Char_ord" "HOL-Library.List_Lexorder"
begin

text \<open>
  \<^verbatim>\<open>pipeline/view_fusion.py\<close>: a pure reshape that only flat elementwise ops read can be
  read through, which lets the fusion proposals see the pair behind it. Shown: reading through the views leaves
  every other tensor as it was, for any kernels under which a view copies its elements.
\<close>

datatype view_error = Bad_Switch string | Not_Transparent "string list" | No_Result_Key | View_Without_Tensor string

section \<open>The transparent views\<close>

definition view_enabled :: "string option \<Rightarrow> string option \<Rightarrow> view_error + bool" where
  "view_enabled v env =
     (let s = lower (strip (case v of Some s \<Rightarrow> s | None \<Rightarrow> (case env of None \<Rightarrow> ''off'' | Some s \<Rightarrow> s))) in
      if s \<notin> {''on'', ''off'', ''1'', ''0''} then Inl (Bad_Switch s) else Inr (s \<in> {''on'', ''1''}))"

definition numel :: "graph \<Rightarrow> string \<Rightarrow> int option" where
  "numel g t =
     (case map_of (tensors g) t of
        None \<Rightarrow> None
      | Some d \<Rightarrow> (case t_shape d of None \<Rightarrow> None | Some sh \<Rightarrow> Some (prod_list sh)))"

definition flat_elementwise :: "op \<Rightarrow> bool" where
  "flat_elementwise x =
     (if sub_ops x \<noteq> None \<or> prefix ''fused__'' (o_kind x) then False
      else op_class False (o_kind x) = ''elementwise'' \<and>
           set (keys (case shape (flds x) of None \<Rightarrow> [] | Some sh \<Rightarrow> sh)) = {''n''})"

definition result_names :: "graph \<Rightarrow> view_error + string list" where
  "result_names g =
     (if output_tensors g \<noteq> [] then Inr (output_tensors g)
      else case output_tensor g of None \<Rightarrow> Inl No_Result_Key | Some t \<Rightarrow> Inr [t])"

definition reading :: "op list \<Rightarrow> string \<Rightarrow> op list" where
  "reading xs t = concat (map (\<lambda>x. map (\<lambda>_. x) (filter (\<lambda>s. s = t) (o_ins x))) xs)"

definition view_name :: "graph \<Rightarrow> string list \<Rightarrow> op \<Rightarrow> view_error + string list" where
  "view_name g outs x =
     (if o_kind x \<noteq> ''view'' \<or> offset (flds x) \<noteq> 0 then Inr []
      else case (o_ins x, o_outs x) of
        (src # _, dst # _) \<Rightarrow>
          (if dst \<in> set outs \<or> numel g src = None \<or> numel g src \<noteq> numel g dst then Inr []
           else let r = reading (ops g) dst in
             Inr (if r \<noteq> [] \<and> list_all flat_elementwise r then [o_name x] else []))
      | _ \<Rightarrow> Inl (View_Without_Tensor (o_name x)))"

definition transparent_views :: "graph \<Rightarrow> view_error + string list" where
  "transparent_views g =
     (case result_names g of
        Inl e \<Rightarrow> Inl e
      | Inr outs \<Rightarrow> (case map_res (view_name g outs) (ops g) of Inl e \<Rightarrow> Inl e | Inr ns \<Rightarrow> Inr (concat ns)))"

section \<open>Eliding\<close>

definition reread :: "string \<Rightarrow> string \<Rightarrow> op \<Rightarrow> op" where
  "reread dst src x =
     (if dst \<in> set (o_ins x) then upd (\<lambda>f. f\<lparr>inputs := map (\<lambda>t. if t = dst then src else t) (inputs f)\<rparr>) x else x)"

text \<open>One view, named by its position in the original list: its readers read its base, and it goes.\<close>

definition elide_one :: "nat \<Rightarrow> (nat \<times> op) list \<Rightarrow> view_error + (nat \<times> op) list" where
  "elide_one i xs =
     (case map_of xs i of
        None \<Rightarrow> Inr xs
      | Some v \<Rightarrow>
          (case (o_ins v, o_outs v) of
             (src # _, dst # _) \<Rightarrow>
               Inr (filter (\<lambda>(j, x). j \<noteq> i) (map (\<lambda>(j, x). (j, reread dst src x)) xs))
           | _ \<Rightarrow> Inl (View_Without_Tensor (o_name v))))"

definition elide :: "graph \<Rightarrow> string list option \<Rightarrow> view_error + graph \<times> string list" where
  "elide g names =
     (case transparent_views g of
        Inl e \<Rightarrow> Inl e
      | Inr ok \<Rightarrow>
          (let goal = (case names of None \<Rightarrow> ok | Some ns \<Rightarrow> ns);
               bad = filter (\<lambda>n. n \<notin> set ok) goal in
           if bad \<noteq> [] then Inl (Not_Transparent (sorted_set bad))
           else let hit = filter (\<lambda>(i, x). o_name x \<in> set goal) (enumerate 0 (ops g)) in
             case for_each elide_one (map fst hit) (enumerate 0 (ops g)) of
               Inl e \<Rightarrow> Inl e
             | Inr xs \<Rightarrow> Inr (g\<lparr>ops := map snd xs\<rparr>, map (\<lambda>(i, x). o_name x) hit)))"

section \<open>Proposals\<close>

definition int32_max :: int where
  "int32_max = 2 ^ 31 - 1"

definition fits_int32 :: "op list \<Rightarrow> bool" where
  "fits_int32 xs =
     list_all (\<lambda>x. list_all (\<lambda>(k, v). \<not> abs v > int32_max) (case shape (flds x) of None \<Rightarrow> [] | Some sh \<Rightarrow> sh)) xs"

record chain_hint =
  ch_kind :: string
  ch_chains :: "string list list"

record view_hint =
  vh_id :: string
  vh_kind :: string
  vh_chains :: "string list list"
  vh_views :: "string list"

text \<open>The views between the first and the last op of a chain.\<close>

definition chain_views :: "graph \<Rightarrow> string list \<Rightarrow> op \<Rightarrow> op \<Rightarrow> string list" where
  "chain_views g views a b =
     List.map_filter (\<lambda>t. case map_of (rev (map (\<lambda>v. (hd (o_outs v), v)) (filter (\<lambda>v. o_name v \<in> set views) (ops g)))) t of
         None \<Rightarrow> None
       | Some v \<Rightarrow> if hd (o_ins v) \<in> set (o_outs a) then Some (o_name v) else None) (o_ins b)"

definition pick_chain ::
  "graph \<Rightarrow> string list \<Rightarrow> string list \<Rightarrow> string list list \<times> string list \<Rightarrow> string list list \<times> string list" where
  "pick_chain g views c s =
     (case (map_of (rev (map (\<lambda>x. (o_name x, x)) (ops g))) (hd c), map_of (rev (map (\<lambda>x. (o_name x, x)) (ops g))) (last c)) of
        (Some a, Some b) \<Rightarrow>
          (let vs = chain_views g views a b in
           if vs = [] \<or> \<not> fits_int32 [a, b] then s else (fst s @ [c], snd s @ vs))
      | _ \<Rightarrow> s)"

text \<open>
  The fusion proposals of the elided graph (an argument) whose pair exists only through a view. \<open>done_ids\<close> are
  the decided hints.
\<close>

definition propose_views ::
  "(graph \<Rightarrow> chain_hint list) \<Rightarrow> string list \<Rightarrow> graph \<Rightarrow> view_error + view_hint list" where
  "propose_views from_profile done_ids graph =
     (let g0 = unique_names graph in
      case transparent_views g0 of
        Inl e \<Rightarrow> Inl e
      | Inr views \<Rightarrow>
          (if views = [] then Inr []
           else case elide g0 (Some views) of
             Inl e \<Rightarrow> Inl e
           | Inr (g1, _) \<Rightarrow>
               Inr (List.map_filter (\<lambda>h.
                      let (chains, used) = fold (pick_chain g0 views) (ch_chains h) ([], []); hid = ''fuse_view:'' @ ch_kind h in
                      if chains = [] \<or> hid \<in> set done_ids then None
                      else Some \<lparr>vh_id = hid, vh_kind = ch_kind h, vh_chains = chains, vh_views = sorted_set used\<rparr>)
                    (from_profile g1))))"

section \<open>Reading through a view changes no other tensor\<close>

text \<open>
  What the graphs of the extractor have: every tensor is written once and only read by later ops; views have one
  tensor on each side. \<open>kern\<close> reads values, not names, and a view returns its input.
\<close>

definition single_writes :: "op list \<Rightarrow> bool" where
  "single_writes xs = distinct (concat (map o_outs xs))"

definition reads_back :: "op list \<Rightarrow> bool" where
  "reads_back xs =
     (sorted_wrt (\<lambda>x y. set (o_ins x) \<inter> set (o_outs y) = {}) xs \<and> list_all (\<lambda>x. set (o_ins x) \<inter> set (o_outs x) = {}) xs)"

definition kern_ok :: "(op \<Rightarrow> 'v list \<Rightarrow> 'v list) \<Rightarrow> bool" where
  "kern_ok kern =
     ((\<forall>dst src x vs. kern (reread dst src x) vs = kern x vs) \<and>
      (\<forall>x v. o_kind x = ''view'' \<longrightarrow> offset (flds x) = 0 \<longrightarrow> kern x [v] = [v]))"

lemma reread_sel [simp]: "o_outs (reread d s x) = o_outs x" "o_kind (reread d s x) = o_kind x"
  "offset (flds (reread d s x)) = offset (flds x)" "o_name (reread d s x) = o_name x"
  "o_ins (reread d s x) = map (\<lambda>t. if t = d then s else t) (o_ins x)"
  by (auto simp: reread_def intro!: map_idI [symmetric])

lemma reread_other: "d \<notin> set (o_ins x) \<Longrightarrow> reread d s x = x"
  by (simp add: reread_def)

lemma run_reread:
  assumes "kern_ok kern" "\<And>t. t \<noteq> dst \<Longrightarrow> e1 t = e2 t" "e1 dst = e2 src" "dst \<noteq> src"
    and "dst \<notin> set (o_outs x)" "src \<notin> set (o_outs x)"
  shows "\<And>t. t \<noteq> dst \<Longrightarrow> run_op kern x e1 t = run_op kern (reread dst src x) e2 t"
    and "run_op kern x e1 dst = run_op kern (reread dst src x) e2 src"
proof -
  have vals: "map e1 (o_ins x) = map e2 (o_ins (reread dst src x))" using assms(2,3) by auto
  have k: "kern (reread dst src x) vs = kern x vs" for vs using assms(1) by (simp add: kern_ok_def)
  show "run_op kern x e1 t = run_op kern (reread dst src x) e2 t" if "t \<noteq> dst" for t
    unfolding run_op_def vals k reread_sel(1) assms(2) [OF that] ..
  show "run_op kern x e1 dst = run_op kern (reread dst src x) e2 src"
    using run_op_other [OF assms(5), of kern e1] run_op_other [of src "reread dst src x" kern e2] assms(3,6) by simp
qed

lemma run_rereads:
  assumes "kern_ok kern" "\<And>t. t \<noteq> dst \<Longrightarrow> e1 t = e2 t" "e1 dst = e2 src" "dst \<noteq> src"
    and "\<And>x. x \<in> set xs \<Longrightarrow> dst \<notin> set (o_outs x) \<and> src \<notin> set (o_outs x)"
  shows "t \<noteq> dst \<Longrightarrow> run_ops kern xs e1 t = run_ops kern (map (reread dst src) xs) e2 t"
  using assms(2,3,5)
proof (induction xs arbitrary: e1 e2)
  case (Cons x xs)
  have x: "dst \<notin> set (o_outs x)" "src \<notin> set (o_outs x)" using Cons.prems(4) by auto
  note step = run_reread [OF assms(1) Cons.prems(2,3) assms(4) x]
  show ?case unfolding list.map run_ops.simps
    by (rule Cons.IH [OF Cons.prems(1)]) (use step Cons.prems(4) in auto)
qed simp

lemma without_view:
  assumes k: "kern_ok kern" and v: "o_kind v = ''view''" "offset (flds v) = 0" "o_ins v = [src]" "o_outs v = [dst]"
    and w: "single_writes (pre @ v # post)" "reads_back (pre @ v # post)"
  shows "single_writes (map (reread dst src) (pre @ post)) \<and> reads_back (map (reread dst src) (pre @ post)) \<and>
         (t \<noteq> dst \<longrightarrow> run_ops kern (map (reread dst src) (pre @ post)) env t = run_ops kern (pre @ v # post) env t)"
proof -
  have pre: "map (reread dst src) pre = pre"
    using w(2) v(4) by (intro map_idI reread_other) (auto simp: reads_back_def sorted_wrt_append)
  have post: "dst \<notin> set (o_outs x) \<and> src \<notin> set (o_outs x)" if "x \<in> set post" for x
    using w v(3,4) that by (auto simp: reads_back_def sorted_wrt_append single_writes_def)
  have ne: "dst \<noteq> src" using w(2) v(3,4) by (auto simp: reads_back_def)
  have outs: "map o_outs (map (reread dst src) xs) = map o_outs xs" for xs by simp
  have s: "single_writes (map (reread dst src) (pre @ post))"
    using w(1) unfolding single_writes_def outs by auto
  have "sorted_wrt (\<lambda>x y. set (o_ins x) \<inter> set (o_outs y) = {}) (map (reread dst src) post)"
    unfolding sorted_wrt_map
    by (rule sorted_wrt_mono_rel [of _ "\<lambda>x y. set (o_ins x) \<inter> set (o_outs y) = {}"])
       (use w(2) post in \<open>auto simp: reads_back_def sorted_wrt_append\<close>)
  moreover have "list_all (\<lambda>x. set (o_ins x) \<inter> set (o_outs x) = {}) (map (reread dst src) post)"
  proof -
    have "set (o_ins x) \<inter> set (o_outs x) = {}" if "x \<in> set post" for x
      using w(2) that by (simp add: reads_back_def list_all_iff)
    with post show ?thesis unfolding list_all_iff by (auto simp: disjoint_iff)
  qed
  ultimately have r: "reads_back (map (reread dst src) (pre @ post))"
    unfolding map_append pre using w(2) post by (auto simp: reads_back_def sorted_wrt_append)
  define e where "e = run_ops kern pre env"
  have kv: "kern v [e src] = [e src]" using k v(1,2) by (simp add: kern_ok_def)
  have view: "run_op kern v e = e(dst := e src)" by (auto simp: run_op_def v(3,4) kv fun_eq_iff)
  have "t \<noteq> dst \<Longrightarrow> run_ops kern post (e(dst := e src)) t = run_ops kern (map (reread dst src) post) e t"
    by (rule run_rereads [OF k]) (use ne post in auto)
  then have "t \<noteq> dst \<Longrightarrow> run_ops kern (map (reread dst src) (pre @ post)) env t = run_ops kern (pre @ v # post) env t"
    unfolding map_append pre run_ops_append run_ops.simps view e_def [symmetric] by simp
  with s r show ?thesis by blast
qed

text \<open>The loop over the chosen views.\<close>

definition pure_view :: "op \<Rightarrow> bool" where
  "pure_view v = (o_kind v = ''view'' \<and> offset (flds v) = 0 \<and> length (o_ins v) = 1 \<and> length (o_outs v) = 1)"

definition elide_state :: "nat list \<Rightarrow> (nat \<times> op) list \<Rightarrow> bool" where
  "elide_state left xs =
     (distinct (map fst xs) \<and> single_writes (map snd xs) \<and> reads_back (map snd xs) \<and> distinct left \<and>
      list_all (\<lambda>i. case map_of xs i of None \<Rightarrow> False | Some v \<Rightarrow> pure_view v) left)"

lemma map_of_reread:
  "map_of (filter (\<lambda>(j, x). j \<noteq> i) (map (\<lambda>(j, x). (j, f x)) xs)) k = (if k = i then None else map_option f (map_of xs k))"
  by (induction xs) auto

lemma elide_one_state:
  assumes "elide_state (i # left) xs" "kern_ok kern"
  shows "\<exists>xs' dst. elide_one i xs = Inr xs' \<and> elide_state left xs' \<and> map_option o_outs (map_of xs i) = Some [dst] \<and>
    (\<forall>k. k \<noteq> i \<longrightarrow> map_option o_outs (map_of xs' k) = map_option o_outs (map_of xs k)) \<and>
    (\<forall>t env. t \<noteq> dst \<longrightarrow> run_ops kern (map snd xs') env t = run_ops kern (map snd xs) env t)"
proof -
  from assms(1) obtain v where iv: "map_of xs i = Some v" "pure_view v" by (auto simp: elide_state_def split: option.splits)
  then obtain src dst where v: "o_kind v = ''view''" "offset (flds v) = 0" "o_ins v = [src]" "o_outs v = [dst]"
    by (auto simp: pure_view_def length_Suc_conv)
  from map_of_SomeD [OF iv(1)] obtain a b where xs: "xs = a @ (i, v) # b" by (meson split_list)
  define xs' where "xs' = filter (\<lambda>(j, x). j \<noteq> i) (map (\<lambda>(j, x). (j, reread dst src x)) xs)"
  have run: "elide_one i xs = Inr xs'" by (simp add: elide_one_def iv(1) v(3,4) xs'_def)
  have dist: "distinct (map fst xs)" using assms(1) by (simp add: elide_state_def)
  have keep: "filter (\<lambda>(j, x). j \<noteq> i) (map (\<lambda>(j, x). (j, reread dst src x)) ys) = map (\<lambda>(j, x). (j, reread dst src x)) ys"
    if "i \<notin> fst ` set ys" for ys using that by (induction ys) auto
  have ab: "i \<notin> fst ` set a" "i \<notin> fst ` set b" using dist by (auto simp: xs)
  have snds: "map snd xs' = map (reread dst src) (map snd a @ map snd b)"
    by (simp add: xs'_def xs keep [OF ab(1)] keep [OF ab(2)] comp_def case_prod_beta)
  have orig: "map snd xs = map snd a @ v # map snd b" by (simp add: xs)
  have w: "single_writes (map snd a @ v # map snd b)" "reads_back (map snd a @ v # map snd b)"
    using assms(1) unfolding elide_state_def orig by blast+
  note s = without_view [OF assms(2) v w, folded snds orig]
  have "distinct (map fst xs')" unfolding xs'_def xs using dist
    by (simp add: keep [OF ab(1)] keep [OF ab(2)] comp_def case_prod_beta xs)
  moreover have "list_all (\<lambda>k. case map_of xs' k of None \<Rightarrow> False | Some u \<Rightarrow> pure_view u) left"
    using assms(1) unfolding elide_state_def xs'_def map_of_reread
    by (auto simp: list_all_iff pure_view_def split: option.splits)
  ultimately have "elide_state left xs'" using s assms(1) by (simp add: elide_state_def)
  moreover have "\<forall>k. k \<noteq> i \<longrightarrow> map_option o_outs (map_of xs' k) = map_option o_outs (map_of xs k)"
    unfolding xs'_def map_of_reread by (simp add: option.map_comp comp_def)
  ultimately show ?thesis using run iv(1) v(4) s by (intro exI [of _ xs'] exI [of _ dst]) auto
qed

lemma elide_total:
  assumes "elide_state is xs" "kern_ok kern"
  shows "\<exists>xs'. for_each elide_one is xs = Inr xs'"
  using assms(1)
proof (induction "is" arbitrary: xs)
  case (Cons i left)
  from elide_one_state [OF Cons.prems assms(2)] obtain xs1 where "elide_one i xs = Inr xs1" "elide_state left xs1" by blast
  with Cons.IH show ?case by simp
qed simp

lemma elide_loop:
  assumes "elide_state is xs" "kern_ok kern"
    and "\<And>i. i \<in> set is \<Longrightarrow> map_option o_outs (map_of xs i) \<noteq> Some [t]"
  shows "\<exists>xs'. for_each elide_one is xs = Inr xs' \<and> run_ops kern (map snd xs') env t = run_ops kern (map snd xs) env t"
  using assms(1,3)
proof (induction "is" arbitrary: xs)
  case (Cons i left)
  from elide_one_state [OF Cons.prems(1) assms(2)] obtain xs1 dst where s: "elide_one i xs = Inr xs1"
    "elide_state left xs1" "map_option o_outs (map_of xs i) = Some [dst]"
    "\<And>k. k \<noteq> i \<Longrightarrow> map_option o_outs (map_of xs1 k) = map_option o_outs (map_of xs k)"
    "\<And>t env. t \<noteq> dst \<Longrightarrow> run_ops kern (map snd xs1) env t = run_ops kern (map snd xs) env t" by blast
  have i: "i \<notin> set left" using Cons.prems(1) by (simp add: elide_state_def)
  have "map_option o_outs (map_of xs1 k) \<noteq> Some [t]" if "k \<in> set left" for k
  proof -
    have "k \<noteq> i" using i that by auto
    from s(4) [OF this] Cons.prems(2) [of k] that show ?thesis by simp
  qed
  from Cons.IH [OF s(2) this] s(1) s(5) [of t env] s(3) Cons.prems(2) [of i] show ?case by auto
qed simp

text \<open>A transparent view is a reshape with a tensor on each side.\<close>

definition view_shaped :: "graph \<Rightarrow> bool" where
  "view_shaped g =
     (list_all (\<lambda>x. o_kind x = ''view'' \<longrightarrow> length (o_ins x) = 1 \<and> length (o_outs x) = 1) (ops g) \<and>
      distinct (map o_name (ops g)) \<and> single_writes (ops g) \<and> reads_back (ops g))"

lemma transparent_name:
  assumes "transparent_views g = Inr ns" "n \<in> set ns" "distinct (map o_name (ops g))" "x \<in> set (ops g)" "o_name x = n"
  shows "o_kind x = ''view'' \<and> offset (flds x) = 0"
proof -
  from assms(1) obtain outs nss where r: "map_res (view_name g outs) (ops g) = Inr nss" "ns = concat nss"
    by (auto simp: transparent_views_def split: sum.splits)
  from assms(2) r obtain k where k: "k < length nss" "n \<in> set (nss ! k)" by (auto simp: in_set_conv_nth [of _ nss])
  have len: "length nss = length (ops g)" using r(1) by (rule map_res_length)
  from map_res_nth [OF r(1), of k] k(1) len have v: "view_name g outs (ops g ! k) = Inr (nss ! k)" by simp
  then have "nss ! k = [] \<or> nss ! k = [o_name (ops g ! k)] \<and> o_kind (ops g ! k) = ''view'' \<and> offset (flds (ops g ! k)) = 0"
    by (auto simp: view_name_def Let_def split: if_splits list.splits)
  then have y: "o_name (ops g ! k) = n \<and> o_kind (ops g ! k) = ''view'' \<and> offset (flds (ops g ! k)) = 0"
    using k(2) by auto
  from assms(4) obtain j where j: "j < length (ops g)" "x = ops g ! j" by (auto simp: in_set_conv_nth)
  from assms(3) have "inj_on (\<lambda>i. o_name (ops g ! i)) {..<length (ops g)}"
    by (auto simp: inj_on_def distinct_conv_nth)
  with y j assms(5) k(1) len have "j = k" by (auto simp: inj_on_def)
  with y j show ?thesis by simp
qed


section \<open>A concrete graph\<close>

definition scale_op :: op where
  "scale_op = upd (\<lambda>f. f\<lparr>shape := Some [(''n'', 12)]\<rparr>) (mk_op ''s'' ''ewise_scalar'' (Some 2) [] [''v''] [''y''])"

definition scale_graph :: graph where
  "scale_graph = (plain_graph [mk_op ''b'' ''bmm'' (Some 0) [] [''x''] [''c''], mk_op ''r'' ''view'' (Some 1) [] [''c''] [''v''], scale_op] [''y''])
     \<lparr>tensors := [(''c'', plain_tensor [3, 4]), (''v'', plain_tensor [12])]\<rparr>"

lemma scale_facts: "transparent_views scale_graph = Inr [''r'']" "view_shaped scale_graph"
  "map (\<lambda>x. (o_name x, o_ins x)) (case elide scale_graph None of Inr (g, ns) \<Rightarrow> ops g | Inl e \<Rightarrow> []) =
     [(''b'', [''x'']), (''s'', [''c''])]"
  by code_simp+

definition scale_kern :: "op \<Rightarrow> int list \<Rightarrow> int list" where
  "scale_kern x vs = (if o_kind x = ''view'' then vs else [3 * sum_list vs + 1])"

lemma scale_kern_ok: "kern_ok scale_kern"
  by (simp add: kern_ok_def scale_kern_def)


end
