(* ===== verification/Chain_Fusion.thy ===== *)
theory Chain_Fusion
  imports Fused_Kind View_Fusion
begin

text \<open>
  Fusing a producer with its only reader, \<^verbatim>\<open>pipeline/kb_proposals.py\<close>: \<open>fuse_pair\<close> flattens both sides
  into the stages of one op, \<open>fuse_chain\<close> repeats it along a list of names, \<open>find_chains\<close> finds where a kind
  applies, \<open>bind_fused\<close> binds the kernel of a fused op.
\<close>

section \<open>Storage dtypes of kinds\<close>

text \<open>\<^verbatim>\<open>pipeline/cuda_dtypes.py\<close>: \<open>op_dtype\<close> and \<open>parse_cast\<close>.\<close>

definition suffix_dtype :: "string \<Rightarrow> string" where
  "suffix_dtype n = (if suffix ''_bf16'' n then ''bf16'' else if suffix ''_f16'' n then ''fp16'' else ''fp32'')"

definition remove_prefix :: "string \<Rightarrow> string \<Rightarrow> string" where
  "remove_prefix p s = (if prefix p s then drop (length p) s else s)"

definition op_dtype :: "string \<Rightarrow> string" where
  "op_dtype kind =
     (let base = remove_prefix ''kernel_'' kind in
      if prefix ''fused__'' base
      then (case filter (\<lambda>p. p \<noteq> [] \<and> p \<noteq> ''par'') (tl (split_dunder base)) of [] \<Rightarrow> ''fp32'' | p # _ \<Rightarrow> suffix_dtype p)
      else suffix_dtype base)"

definition c_dtypes :: "string list" where
  "c_dtypes = [''f32'', ''f16'', ''bf16'', ''i64'', ''i32'', ''b8'', ''u8'']"

definition casts :: "(string \<times> string) list" where
  "casts = map (\<lambda>a. (a, ''f32'')) (filter (\<lambda>a. a \<noteq> ''f32'') c_dtypes) @
           map (\<lambda>b. (''f32'', b)) (filter (\<lambda>b. b \<noteq> ''f32'') c_dtypes) @ [(''f16'', ''bf16''), (''bf16'', ''f16'')]"

definition cast_kind :: "string \<Rightarrow> string \<Rightarrow> string" where
  "cast_kind src dst = ''cast_'' @ src @ ''_to_'' @ dst"

definition parse_cast :: "string \<Rightarrow> (string \<times> string) option" where
  "parse_cast kind = List.find (\<lambda>(a, b). remove_prefix ''kernel_'' kind = cast_kind a b) casts"

section \<open>Fusing a pair\<close>

definition stages_of :: "op \<Rightarrow> op list" where
  "stages_of x = (case sub_ops x of None \<Rightarrow> [x] | Some ss \<Rightarrow> ss)"

definition outputs_of :: "graph \<Rightarrow> fuse_error + string list" where
  "outputs_of g = (case result_names g of Inl _ \<Rightarrow> Inl (Key_Error ''tensor'') | Inr ts \<Rightarrow> Inr ts)"

text \<open>The parameter of an op through which it reads a tensor.\<close>

definition t_param :: "specs \<Rightarrow> op \<Rightarrow> string \<Rightarrow> fuse_error + string" where
  "t_param specs b t =
     (case spec_params specs (o_kind b) of
        Inl e \<Rightarrow> Inl e
      | Inr ps \<Rightarrow> (case bind b ps of
          Inl e \<Rightarrow> Inl (Bind_Failed e)
        | Inr as \<Rightarrow> (case List.find (\<lambda>a. ar_kind a = A_In \<and> ar_value a = Some t) as of
            None \<Rightarrow> Inl Stop_Iteration
          | Some a \<Rightarrow> Inr (pm_name (ar_param a)))))"

text \<open>The parameters that read the intermediates, and the shapes by stage letter.\<close>

definition link_params :: "specs \<Rightarrow> op list \<Rightarrow> string list \<Rightarrow> fuse_error + string list" where
  "link_params specs stages internals =
     map_res (\<lambda>i. if i < length internals then t_param specs (stages ! (i + 1)) (internals ! i) else Inl Index_Error)
       [0..<length stages - 1]"

definition letter_shapes :: "op list \<Rightarrow> fuse_error + (string, (string, int) dict) dict" where
  "letter_shapes stages =
     map_res (\<lambda>(i, s). if i < 26 then Inr ([char_of (97 + i)], case shape (flds s) of None \<Rightarrow> [] | Some sh \<Rightarrow> sh)
                        else Inl Index_Error) (enumerate 0 stages)"

definition stages_checked :: "string \<Rightarrow> op list \<Rightarrow> fuse_error + unit" where
  "stages_checked what stages =
     (if list_ex (\<lambda>s. parse_cast (o_kind s) \<noteq> None) stages then Inl (Refused (what @ '': a dtype cast is not fused''))
      else if length (remdups (map (\<lambda>s. op_dtype (o_kind s)) stages)) > 1
      then Inl (Refused (what @ '': stages of different storage dtypes'')) else Inr ())"

text \<open>The op two ops become, and its specification.\<close>

definition fused_pair :: "specs \<Rightarrow> op \<Rightarrow> op \<Rightarrow> string \<Rightarrow> fuse_error + op \<times> kspec" where
  "fused_pair specs A B t =
     (let stages = stages_of A @ stages_of B; internals = internal (flds A) @ [t] @ internal (flds B) in
      case link_params specs stages internals of
        Inl e \<Rightarrow> Inl e
      | Inr tps \<Rightarrow> (case make_chain_spec specs (map o_kind stages) tps of
          Inl e \<Rightarrow> Inl e
        | Inr spec \<Rightarrow> (case letter_shapes stages of
            Inl e \<Rightarrow> Inl e
          | Inr shs \<Rightarrow>
              Inr (Op ((plain_fields (o_name A @ ''+'' @ o_name B) (ks_op spec)
                          (ordered_unique (o_ins A @ filter (\<lambda>x. x \<noteq> t) (o_ins B))) (o_outs B))
                        \<lparr>internal := internals, stage_shapes := shs\<rparr>) (Some stages), spec))))"

definition index_of :: "op list \<Rightarrow> string \<Rightarrow> fuse_error + nat" where
  "index_of xs n =
     (case List.find (\<lambda>i. o_name (xs ! i) = n) [0..<length xs] of None \<Rightarrow> Inl Stop_Iteration | Some i \<Rightarrow> Inr i)"

text \<open>The single output of the producer, read once and by the consumer only.\<close>

definition shared_tensor :: "graph \<Rightarrow> op \<Rightarrow> op \<Rightarrow> fuse_error + string" where
  "shared_tensor g A B =
     (let what = o_name A @ ''->'' @ o_name B in
      case (o_outs A, filter (\<lambda>t. t \<in> set (o_ins B)) (o_outs A)) of
        ([_], [t]) \<Rightarrow>
          (if map o_name (filter (\<lambda>x. t \<in> set (o_ins x)) (ops g)) \<noteq> [o_name B]
           then Inl (Refused (t @ '': not exclusively read by '' @ o_name B))
           else case outputs_of g of
             Inl e \<Rightarrow> Inl e
           | Inr outs \<Rightarrow>
               (if t \<in> set outs \<or> count_list (o_ins B) t \<noteq> 1
                then Inl (Refused (t @ '': not exclusively read by '' @ o_name B))
                else case stages_of B of
                  [] \<Rightarrow> Inl Index_Error
                | s # _ \<Rightarrow>
                    (if t \<notin> set (o_ins s) then Inl (Refused (t @ '': read by a later stage of '' @ o_name B)) else Inr t)))
      | _ \<Rightarrow> Inl (Refused (what @ '': need one producer output read by the consumer'')))"

definition drop_index :: "nat \<Rightarrow> 'a list \<Rightarrow> 'a list" where
  "drop_index i xs = take i xs @ drop (i + 1) xs"

definition fuse_pair :: "specs \<Rightarrow> graph \<Rightarrow> string \<Rightarrow> string \<Rightarrow> fuse_error + graph \<times> kspec" where
  "fuse_pair specs g a b =
     (case index_of (ops g) a of
        Inl e \<Rightarrow> Inl e
      | Inr ia \<Rightarrow> (case index_of (ops g) b of
          Inl e \<Rightarrow> Inl e
        | Inr ib \<Rightarrow>
            (let A = ops g ! ia; B = ops g ! ib in
             case shared_tensor g A B of
               Inl e \<Rightarrow> Inl e
             | Inr t \<Rightarrow> (case stages_checked (a @ ''->'' @ b) (stages_of A @ stages_of B) of
                 Inl e \<Rightarrow> Inl e
               | Inr _ \<Rightarrow> (case fused_pair specs A B t of
                   Inl e \<Rightarrow> Inl e
                 | Inr (f, spec) \<Rightarrow> Inr (g\<lparr>ops := drop_index ia ((ops g)[ib := f])\<rparr>, spec))))))"

section \<open>Chains\<close>

fun fuse_along :: "specs \<Rightarrow> string list \<Rightarrow> graph \<Rightarrow> string \<Rightarrow> kspec option \<Rightarrow> fuse_error + graph \<times> kspec option" where
  "fuse_along specs [] g cur spec = Inr (g, spec)"
| "fuse_along specs (nxt # rest) g cur spec =
     (case fuse_pair specs g cur nxt of
        Inl e \<Rightarrow> Inl e
      | Inr (g', s) \<Rightarrow> fuse_along specs rest g' (cur @ ''+'' @ nxt) (Some s))"

definition fuse_chain :: "specs \<Rightarrow> graph \<Rightarrow> string list \<Rightarrow> fuse_error + graph \<times> kspec" where
  "fuse_chain specs g names =
     (case names of
        [] \<Rightarrow> Inl Index_Error
      | n # rest \<Rightarrow> (case fuse_along specs rest g n None of
          Inl e \<Rightarrow> Inl e
        | Inr (g', None) \<Rightarrow> Inl (Refused ''a fusion chain needs at least two ops'')
        | Inr (g', Some s) \<Rightarrow> Inr (g', s)))"

text \<open>The loop over the stages after the first: \<open>None\<close> is a \<open>break\<close>.\<close>

fun grow_chain ::
  "specs \<Rightarrow> op list \<Rightarrow> string list \<Rightarrow> string list \<Rightarrow> (string \<times> string) list \<Rightarrow> op \<Rightarrow> fuse_error + op list option" where
  "grow_chain specs xs outs used [] cur = Inr (Some [])"
| "grow_chain specs xs outs used ((k, tp) # rest) cur =
     (case o_outs cur of
        [t] \<Rightarrow>
          (case (if t \<in> set outs then [] else reading xs t) of
             [nxt] \<Rightarrow>
               (if o_kind nxt \<noteq> k \<or> sub_ops nxt \<noteq> None \<or> o_name nxt \<in> set used \<or> count_list (o_ins nxt) t \<noteq> 1
                then Inr None
                else case t_param specs nxt t of
                  Inl (Key_Error _) \<Rightarrow> Inr None
                | Inl Stop_Iteration \<Rightarrow> Inr None
                | Inl e \<Rightarrow> Inl e
                | Inr p \<Rightarrow>
                    (if p \<noteq> tp then Inr None
                     else case grow_chain specs xs outs used rest nxt of
                       Inl e \<Rightarrow> Inl e
                     | Inr None \<Rightarrow> Inr None
                     | Inr (Some ys) \<Rightarrow> Inr (Some (nxt # ys))))
           | _ \<Rightarrow> Inr None)
      | _ \<Rightarrow> Inr None)"

definition chain_at ::
  "specs \<Rightarrow> op list \<Rightarrow> string list \<Rightarrow> string list \<Rightarrow> string list \<Rightarrow> op \<Rightarrow> string list list \<times> string list \<Rightarrow>
   fuse_error + string list list \<times> string list" where
  "chain_at specs xs outs kinds tps x s =
     (let (found, used) = s in
      if o_kind x \<noteq> hd kinds \<or> sub_ops x \<noteq> None \<or> o_name x \<in> set used then Inr s
      else case grow_chain specs xs outs used (zip (tl kinds) tps) x of
        Inl e \<Rightarrow> Inl e
      | Inr None \<Rightarrow> Inr s
      | Inr (Some ys) \<Rightarrow>
          (if length (x # ys) = length kinds then Inr (found @ [map o_name (x # ys)], used @ map o_name (x # ys))
           else Inr s))"

definition find_chains :: "specs \<Rightarrow> graph \<Rightarrow> string \<Rightarrow> fuse_error + string list list" where
  "find_chains specs g kind =
     (case parse_kind specs kind of
        Inl e \<Rightarrow> Inl e
      | Inr (kinds, tps) \<Rightarrow> (case outputs_of g of
          Inl e \<Rightarrow> Inl e
        | Inr outs \<Rightarrow> (case for_each (chain_at specs (ops g) outs kinds tps) (ops g) ([], []) of
            Inl e \<Rightarrow> Inl e
          | Inr (found, _) \<Rightarrow> Inr found)))"

section \<open>Binding a fused kernel\<close>

definition mark_scratch :: "string list \<Rightarrow> nat \<Rightarrow> nat \<Rightarrow> arg \<Rightarrow> arg" where
  "mark_scratch internals n i x =
     (if i < length internals \<and> i + 1 < n \<and> ar_kind x = A_Out \<and> ar_value x = Some (internals ! i)
      then x\<lparr>ar_kind := A_Scratch\<rparr> else x)"

definition stage_args :: "specs \<Rightarrow> string list \<Rightarrow> nat \<Rightarrow> nat \<times> op \<Rightarrow> fuse_error + arg list" where
  "stage_args specs internals n is =
     (let (i, s) = is in
      case spec_params specs (o_kind s) of
        Inl e \<Rightarrow> Inl e
      | Inr ps \<Rightarrow> (case bind s ps of
          Inl e \<Rightarrow> Inl (Bind_Failed e)
        | Inr aa \<Rightarrow>
            (let bb = map (mark_scratch internals n i) aa
             in Inr (if i > 0 \<and> i - 1 < length internals
                     then filter (\<lambda>x. \<not> (ar_kind x = A_In \<and> ar_value x = Some (internals ! (i - 1)))) bb else bb))))"

definition bind_fused :: "specs \<Rightarrow> op \<Rightarrow> fuse_error + arg list" where
  "bind_fused specs x =
     (case sub_ops x of
        None \<Rightarrow> Inl (Key_Error ''sub_ops'')
      | Some stages \<Rightarrow>
          (case map_res (stage_args specs (internal (flds x)) (length stages)) (enumerate 0 stages) of
             Inl e \<Rightarrow> Inl e
           | Inr ass \<Rightarrow> Inr (concat ass)))"

end
