(* ===== verification/Chain_Fusion_Facts.thy ===== *)
theory Chain_Fusion_Facts
  imports Chain_Fusion
begin

text \<open>
  What a chain fusion keeps: the values of every tensor that is not internal to a fused op, for any kernels. A
  fused op runs its stages in order on its own copy of the tensors and writes only its outputs.
\<close>

section \<open>Running fused ops\<close>

definition run_staged :: "(op \<Rightarrow> 'v list \<Rightarrow> 'v list) \<Rightarrow> op \<Rightarrow> (string \<Rightarrow> 'v) \<Rightarrow> string \<Rightarrow> 'v" where
  "run_staged kern x env = (\<lambda>t. if t \<in> set (o_outs x) then run_ops kern (stages_of x) env t else env t)"

fun run_graph :: "(op \<Rightarrow> 'v list \<Rightarrow> 'v list) \<Rightarrow> op list \<Rightarrow> (string \<Rightarrow> 'v) \<Rightarrow> string \<Rightarrow> 'v" where
  "run_graph kern [] env = env"
| "run_graph kern (x # xs) env = run_graph kern xs (run_staged kern x env)"

lemma run_graph_append: "run_graph kern (xs @ ys) env = run_graph kern ys (run_graph kern xs env)"
  by (induction xs arbitrary: env) auto

text \<open>A graph without fused ops runs as before.\<close>

lemma run_graph_plain: "list_all (\<lambda>x. sub_ops x = None) xs \<Longrightarrow> run_graph kern xs env = run_ops kern xs env"
proof (induction xs arbitrary: env)
  case (Cons x xs)
  have "run_staged kern x env = run_op kern x env"
    using Cons.prems run_op_other [of _ x kern env] by (auto simp: run_staged_def stages_of_def fun_eq_iff)
  with Cons show ?case by simp
qed simp

definition all_writes :: "op list \<Rightarrow> string list" where
  "all_writes xs = concat (map o_outs xs)"

definition stage_writes :: "op \<Rightarrow> string list" where
  "stage_writes x = all_writes (stages_of x)"

definition hidden :: "op \<Rightarrow> string set" where
  "hidden x = set (stage_writes x) - set (o_outs x)"

definition hiddens :: "op list \<Rightarrow> string set" where
  "hiddens xs = (\<Union>x \<in> set xs. hidden x)"

text \<open>Every stage reads what the op reads or what an earlier stage wrote.\<close>

fun stages_closed :: "string set \<Rightarrow> op list \<Rightarrow> bool" where
  "stages_closed I [] = True"
| "stages_closed I (s # ss) = (set (o_ins s) \<subseteq> I \<and> stages_closed (I \<union> set (o_outs s)) ss)"

definition closed_op :: "op \<Rightarrow> bool" where
  "closed_op x = (stages_closed (set (o_ins x)) (stages_of x) \<and> set (o_outs x) \<subseteq> set (stage_writes x))"

definition flow_ok :: "op list \<Rightarrow> bool" where
  "flow_ok xs =
     (distinct (concat (map stage_writes xs)) \<and> reads_back xs \<and> list_all closed_op xs \<and>
      list_all (\<lambda>x. list_all (\<lambda>t. t \<notin> hiddens xs) (o_ins x)) xs)"

text \<open>A kernel writes every output.\<close>

definition kern_full :: "(op \<Rightarrow> 'v list \<Rightarrow> 'v list) \<Rightarrow> bool" where
  "kern_full kern = (\<forall>x vs. length (kern x vs) = length (o_outs x))"

lemma all_writes_simps [simp]: "all_writes [] = []" "all_writes (x # xs) = o_outs x @ all_writes xs"
  "all_writes (xs @ ys) = all_writes xs @ all_writes ys"
  by (simp_all add: all_writes_def)

lemma run_ops_other: "t \<notin> set (all_writes xs) \<Longrightarrow> run_ops kern xs env t = env t"
  by (induction xs arbitrary: env) (auto simp: run_op_other)

lemma run_op_full:
  assumes "kern_full kern" "\<And>t. t \<in> set (o_ins x) \<Longrightarrow> e1 t = e2 t" "t \<in> set (o_outs x) \<or> e1 t = e2 t"
  shows "run_op kern x e1 t = run_op kern x e2 t"
proof -
  have v: "map e1 (o_ins x) = map e2 (o_ins x)" using assms(2) by simp
  have full: "map_of (zip (o_outs x) (kern x vs)) t \<noteq> None" if "t \<in> set (o_outs x)" for vs
    using assms(1) that by (simp add: kern_full_def)
  with assms(3) show ?thesis unfolding run_op_def v
    using full [of "map e2 (o_ins x)"]
    by (cases "map_of (zip (o_outs x) (kern x (map e2 (o_ins x)))) t") auto
qed

lemma run_ops_closed:
  assumes "kern_full kern" "stages_closed I ss" "\<And>t. t \<in> I \<Longrightarrow> e1 t = e2 t" "t \<in> I \<union> set (all_writes ss)"
  shows "run_ops kern ss e1 t = run_ops kern ss e2 t"
  using assms(2-4)
proof (induction ss arbitrary: I e1 e2)
  case (Cons s ss)
  have "run_op kern s e1 u = run_op kern s e2 u" if "u \<in> I \<union> set (o_outs s)" for u
    by (rule run_op_full [OF assms(1)]) (use Cons.prems(1,2) that in auto)
  from Cons.IH [of "I \<union> set (o_outs s)", OF _ this] Cons.prems(1,3) show ?case by auto
qed simp

lemma run_staged_other: "t \<notin> set (o_outs x) \<Longrightarrow> run_staged kern x env t = env t"
  by (simp add: run_staged_def)

lemma run_staged_cong:
  assumes "kern_full kern" "closed_op x" "\<And>t. t \<in> set (o_ins x) \<Longrightarrow> e1 t = e2 t" "t \<in> set (o_outs x) \<or> e1 t = e2 t"
  shows "run_staged kern x e1 t = run_staged kern x e2 t"
proof (cases "t \<in> set (o_outs x)")
  case True
  have "run_ops kern (stages_of x) e1 t = run_ops kern (stages_of x) e2 t"
    by (rule run_ops_closed [OF assms(1) _ assms(3)]) (use assms(2) True in \<open>auto simp: closed_op_def stage_writes_def\<close>)
  with True show ?thesis by (simp add: run_staged_def)
qed (use assms(4) in \<open>simp add: run_staged_other\<close>)

text \<open>Ops that neither read nor write a tensor do not see its value.\<close>

lemma run_graph_apart:
  assumes "kern_full kern" "list_all closed_op xs" "\<And>u. u \<noteq> t \<Longrightarrow> e1 u = e2 u"
    and "list_all (\<lambda>x. t \<notin> set (o_ins x)) xs" "u \<noteq> t"
  shows "run_graph kern xs e1 u = run_graph kern xs e2 u"
  using assms(2-4)
proof (induction xs arbitrary: e1 e2)
  case Nil
  with assms(5) show ?case by simp
next
  case (Cons x xs)
  have x: "closed_op x" "t \<notin> set (o_ins x)" "list_all closed_op xs" "list_all (\<lambda>x. t \<notin> set (o_ins x)) xs"
    using Cons.prems(1,3) by simp_all
  have "run_staged kern x e1 v = run_staged kern x e2 v" if "v \<noteq> t" for v
  proof (rule run_staged_cong [OF assms(1) x(1)])
    fix w assume "w \<in> set (o_ins x)"
    with x(2) have "w \<noteq> t" by blast
    then show "e1 w = e2 w" by (rule Cons.prems(2))
  next
    show "v \<in> set (o_outs x) \<or> e1 v = e2 v" using Cons.prems(2) [OF that] ..
  qed
  from Cons.IH [OF x(3) this x(4)] show ?case by simp
qed

lemma run_graph_other: "t \<notin> set (all_writes xs) \<Longrightarrow> run_graph kern xs env t = env t"
  by (induction xs arbitrary: env) (auto simp: run_staged_other)

lemma stages_closed_mono: "stages_closed I ss \<Longrightarrow> I \<subseteq> J \<Longrightarrow> stages_closed J ss"
  by (induction ss arbitrary: I J) (auto, blast)

lemma stages_closed_append:
  "stages_closed I (xs @ ys) \<longleftrightarrow> stages_closed I xs \<and> stages_closed (I \<union> set (all_writes xs)) ys"
  by (induction xs arbitrary: I) (auto simp: Un_assoc)

section \<open>One fusion\<close>

text \<open>The op \<open>F\<close> that replaces \<open>A\<close> and \<open>B\<close>, linked by the tensor \<open>t\<close>.\<close>

definition fuses_to :: "op \<Rightarrow> op \<Rightarrow> string \<Rightarrow> op \<Rightarrow> bool" where
  "fuses_to A B t F =
     (o_outs A = [t] \<and> stages_of F = stages_of A @ stages_of B \<and> o_outs F = o_outs B \<and>
      set (o_ins F) = set (o_ins A) \<union> (set (o_ins B) - {t}) \<and> t \<in> set (o_ins B))"

lemma writes_fused: "fuses_to A B t F \<Longrightarrow> stage_writes F = stage_writes A @ stage_writes B"
  by (simp add: fuses_to_def stage_writes_def)

lemma hidden_fused:
  assumes "fuses_to A B t F" "closed_op A" "set (stage_writes A) \<inter> set (stage_writes B) = {}" "closed_op B"
  shows "hidden F = insert t (hidden A) \<union> hidden B"
  using assms by (auto simp: hidden_def writes_fused fuses_to_def closed_op_def)

lemma fused_values:
  assumes k: "kern_full kern" and f: "flow_ok (p @ A # m @ B # q)" "fuses_to A B t F"
    and only: "\<And>x. x \<in> set (p @ m @ q) \<Longrightarrow> t \<notin> set (o_ins x)" and u: "u \<noteq> t"
  shows "run_graph kern (p @ m @ F # q) env u = run_graph kern (p @ A # m @ B # q) env u"
proof -
  define e0 where "e0 = run_graph kern p env"
  define e1 where "e1 = run_staged kern A e0"
  define f1 where "f1 = run_graph kern m e1"
  define f2 where "f2 = run_graph kern m e0"
  define h where "h = run_ops kern (stages_of A) f2"
  have cl: "closed_op A" "closed_op B" "list_all closed_op m" "list_all closed_op q" using f(1) by (simp_all add: flow_ok_def)
  have a: "o_outs A = [t]" and tB: "t \<in> set (o_ins B)" and oF: "o_outs F = o_outs B"
    and sF: "stages_of F = stages_of A @ stages_of B" using f(2) by (simp_all add: fuses_to_def)
  have e1: "e1 v = e0 v" if "v \<noteq> t" for v using that by (simp add: e1_def run_staged_other a)
  have f12: "f1 v = f2 v" if "v \<noteq> t" for v
    unfolding f1_def f2_def by (rule run_graph_apart [OF k cl(3) e1 _ that]) (use only in \<open>auto simp: list_all_iff\<close>)
  have "set (o_outs x) \<subseteq> set (stage_writes x)" if "x \<in> set (p @ A # m @ B # q)" for x
    using f(1) that by (auto simp: flow_ok_def list_all_iff closed_op_def)
  then have sub: "set (all_writes m) \<subseteq> set (concat (map stage_writes m))" by (force simp: all_writes_def)
  have tA: "t \<in> set (stage_writes A)" using cl(1) a by (simp add: closed_op_def)
  have tm: "t \<notin> set (all_writes m)" using f(1) sub tA by (auto simp: flow_ok_def)
  have f1t: "f1 t = run_ops kern (stages_of A) e0 t"
    unfolding f1_def run_graph_other [OF tm] by (simp add: e1_def run_staged_def a)
  have f2A: "f2 v = e0 v" if "v \<in> set (o_ins A)" for v
    unfolding f2_def using f(1) that
    by (intro run_graph_other) (auto simp: flow_ok_def reads_back_def sorted_wrt_append all_writes_def)
  have ht: "h t = f1 t"
    unfolding h_def f1t by (rule run_ops_closed [OF k _ f2A]) (use cl(1) tA in \<open>auto simp: closed_op_def stage_writes_def\<close>)
  have h: "h r = f1 r" if "r \<in> set (o_ins B)" for r
  proof (cases "r = t")
    case False
    have "r \<notin> hidden A" using f(1) that by (auto simp: flow_ok_def hiddens_def list_all_iff)
    then have "r \<notin> set (all_writes (stages_of A))" using a False by (simp add: hidden_def stage_writes_def)
    with f12 [OF False] show ?thesis by (simp add: h_def run_ops_other)
  qed (simp add: ht)
  have B: "run_staged kern F f2 v = run_staged kern B f1 v" if "v \<noteq> t" for v
  proof (cases "v \<in> set (o_outs B)")
    case True
    have "run_ops kern (stages_of B) h v = run_ops kern (stages_of B) f1 v"
      by (rule run_ops_closed [OF k _ h]) (use cl(2) True in \<open>auto simp: closed_op_def stage_writes_def\<close>)
    with True show ?thesis by (simp add: run_staged_def oF sF run_ops_append h_def)
  qed (simp add: run_staged_other oF f12 [OF that])
  have "run_graph kern q (run_staged kern F f2) u = run_graph kern q (run_staged kern B f1) u"
    by (rule run_graph_apart [OF k cl(4) B _ u]) (use only in \<open>auto simp: list_all_iff\<close>)
  then show ?thesis by (simp add: run_graph_append e0_def e1_def f1_def f2_def)
qed

lemma fused_flow:
  assumes f: "flow_ok (p @ A # m @ B # q)" "fuses_to A B t F"
    and only: "\<And>x. x \<in> set (p @ m @ q) \<Longrightarrow> t \<notin> set (o_ins x)"
  shows "flow_ok (p @ m @ F # q) \<and> hiddens (p @ m @ F # q) = insert t (hiddens (p @ A # m @ B # q))"
proof -
  have cl: "closed_op A" "closed_op B" using f(1) by (simp_all add: flow_ok_def)
  note F = f(2) [unfolded fuses_to_def]
  have disj: "set (stage_writes A) \<inter> set (stage_writes B) = {}" using f(1) by (auto simp: flow_ok_def)
  have hF: "hidden F = insert t (hidden A) \<union> hidden B" by (rule hidden_fused [OF f(2) cl(1) disj cl(2)])
  have hs: "hiddens (p @ m @ F # q) = insert t (hiddens (p @ A # m @ B # q))" by (auto simp: hiddens_def hF)
  have "distinct (concat (map stage_writes (p @ m @ F # q)))"
    using f(1) writes_fused [OF f(2)] by (auto simp: flow_ok_def)
  moreover have "reads_back (p @ m @ F # q)"
    using f(1) F by (auto simp: flow_ok_def reads_back_def sorted_wrt_append)
  moreover have "closed_op F"
  proof -
    have "stages_closed (set (o_ins F)) (stages_of A)"
      using cl(1) F by (auto simp: closed_op_def intro: stages_closed_mono)
    moreover have "stages_closed (set (o_ins F) \<union> set (stage_writes A)) (stages_of B)"
      by (rule stages_closed_mono [of "set (o_ins B)"]) (use cl F in \<open>auto simp: closed_op_def\<close>)
    ultimately show ?thesis using F cl(2) by (auto simp: closed_op_def stage_writes_def stages_closed_append)
  qed
  moreover have "list_all (\<lambda>x. list_all (\<lambda>v. v \<notin> hiddens (p @ m @ F # q)) (o_ins x)) (p @ m @ F # q)"
  proof -
    have old: "v \<notin> hiddens (p @ A # m @ B # q)" if "x \<in> set (p @ A # m @ B # q)" "v \<in> set (o_ins x)" for x v
      using f(1) that by (auto simp: flow_ok_def list_all_iff)
    have tA: "t \<notin> set (o_ins A)" using f(1) F by (auto simp: flow_ok_def reads_back_def)
    show ?thesis unfolding hs list_all_iff
    proof (intro ballI)
      fix x v assume x: "x \<in> set (p @ m @ F # q)" and v: "v \<in> set (o_ins x)"
      show "v \<notin> insert t (hiddens (p @ A # m @ B # q))"
      proof (cases "x = F")
        case True
        with v F tA consider "v \<in> set (o_ins A)" | "v \<in> set (o_ins B)" "v \<noteq> t" by auto
        then show ?thesis using old [of A v] old [of B v] tA by cases auto
      next
        case False
        with x have "x \<in> set (p @ m @ q)" by auto
        with only [OF this] old [of x v] v show ?thesis by auto
      qed
    qed
  qed
  ultimately show ?thesis using f(1) hs by (simp add: flow_ok_def)
qed

section \<open>The pass\<close>

lemma index_of_bound: "index_of xs n = Inr i \<Longrightarrow> i < length xs \<and> o_name (xs ! i) = n"
  by (auto simp: index_of_def find_Some_iff split: option.splits)

lemma shared_tensorD:
  assumes "shared_tensor g A B = Inr t"
  shows "o_outs A = [t] \<and> t \<in> set (o_ins B) \<and> map o_name (filter (\<lambda>x. t \<in> set (o_ins x)) (ops g)) = [o_name B] \<and>
         (\<exists>outs. outputs_of g = Inr outs \<and> t \<notin> set outs)"
proof -
  from assms obtain u v where uv: "o_outs A = [u]" "filter (\<lambda>t. t \<in> set (o_ins B)) (o_outs A) = [v]"
    by (auto simp: shared_tensor_def Let_def split: list.splits)
  then have e: "u = v" "v \<in> set (o_ins B)" by (auto split: if_splits)
  from assms uv e show ?thesis
    by (auto simp: shared_tensor_def Let_def split: if_splits list.splits sum.splits)
qed

lemma fused_pairD: "fused_pair specs A B t = Inr (F, spec) \<Longrightarrow> o_outs A = [t] \<Longrightarrow> t \<in> set (o_ins B) \<Longrightarrow> fuses_to A B t F"
  by (auto simp: fused_pair_def fuses_to_def Let_def plain_fields_def stages_of_def split: sum.splits)

lemma two_positions:
  assumes "i < j" "j < length xs"
  shows "\<exists>p m q. xs = p @ xs ! i # m @ xs ! j # q \<and> drop_index i (xs[j := f]) = p @ m @ f # q"
proof -
  let ?p = "take i xs" and ?m = "take (j - i - 1) (drop (i + 1) xs)" and ?q = "drop (j + 1) xs"
  have xs: "xs = ?p @ xs ! i # drop (i + 1) xs" using assms by (simp add: id_take_nth_drop)
  have "drop (i + 1) xs = ?m @ xs ! j # drop (j - i) (drop (i + 1) xs)"
    using id_take_nth_drop [of "j - i - 1" "drop (i + 1) xs"] assms by (simp add: Suc_diff_Suc)
  moreover have "drop (j - i) (drop (i + 1) xs) = ?q" using assms by simp
  ultimately have split: "xs = ?p @ xs ! i # ?m @ xs ! j # ?q" using xs by simp
  have "take i (xs[j := f]) = ?p" using assms by (simp add: take_update_cancel)
  moreover have "drop (i + 1) (xs[j := f]) = (drop (i + 1) xs)[j - i - 1 := f]" using assms by (simp add: drop_update_swap)
  moreover have "(drop (i + 1) xs)[j - i - 1 := f] = ?m @ f # ?q"
    using upd_conv_take_nth_drop [of "j - i - 1" "drop (i + 1) xs" f] assms by (simp add: Suc_diff_Suc)
  ultimately show ?thesis using split by (auto simp: drop_index_def)
qed

lemma fuse_pair_decompose:
  assumes "fuse_pair specs g a b = Inr (g', spec)" "flow_ok (ops g)"
  shows "\<exists>p A m B q t F outs. ops g = p @ A # m @ B # q \<and> g' = g\<lparr>ops := p @ m @ F # q\<rparr> \<and> fuses_to A B t F \<and>
    (\<forall>x \<in> set (p @ m @ q). t \<notin> set (o_ins x)) \<and> outputs_of g = Inr outs \<and> t \<notin> set outs"
proof -
  from assms(1) obtain ia ib t F where r: "index_of (ops g) a = Inr ia" "index_of (ops g) b = Inr ib"
    "shared_tensor g (ops g ! ia) (ops g ! ib) = Inr t" "fused_pair specs (ops g ! ia) (ops g ! ib) t = Inr (F, spec)"
    "g' = g\<lparr>ops := drop_index ia ((ops g)[ib := F])\<rparr>"
    by (auto simp: fuse_pair_def Let_def split: sum.splits)
  define A where "A = ops g ! ia"
  define B where "B = ops g ! ib"
  note i = index_of_bound [OF r(1)] index_of_bound [OF r(2)]
  from shared_tensorD [OF r(3), folded A_def B_def] obtain outs where s: "o_outs A = [t]" "t \<in> set (o_ins B)"
    "map o_name (filter (\<lambda>x. t \<in> set (o_ins x)) (ops g)) = [o_name B]" "outputs_of g = Inr outs" "t \<notin> set outs"
    by (elim conjE exE) (rule that)
  have rback: "reads_back (ops g)" using assms(2) by (simp add: flow_ok_def)
  have "ia < ib"
  proof (rule ccontr)
    assume "\<not> ia < ib"
    then consider "ib < ia" | "ib = ia" by linarith
    then show False
    proof cases
      case 1
      then have "set (o_ins B) \<inter> set (o_outs A) = {}"
        using rback i by (auto simp: reads_back_def sorted_wrt_iff_nth_less A_def B_def)
      with s show False by simp
    next
      case 2
      then have "set (o_ins B) \<inter> set (o_outs B) = {}" using rback i by (auto simp: reads_back_def list_all_length B_def)
      with s 2 show False by (simp add: A_def B_def)
    qed
  qed
  from two_positions [OF this, of "ops g" F] i obtain p m q where d: "ops g = p @ A # m @ B # q"
    "drop_index ia ((ops g)[ib := F]) = p @ m @ F # q" by (auto simp: A_def B_def)
  have f: "fuses_to A B t F" using fused_pairD [OF r(4)] s(1,2) by (simp add: A_def B_def)
  have "length (filter (\<lambda>x. t \<in> set (o_ins x)) (ops g)) = 1" using s(3) by (metis length_map One_nat_def length_Cons list.size(3))
  then have "filter (\<lambda>x. t \<in> set (o_ins x)) (p @ m @ q) = []" using s(2) by (auto simp: d(1) split: if_splits)
  then have only: "\<forall>x \<in> set (p @ m @ q). t \<notin> set (o_ins x)" by (simp add: filter_empty_conv ball_Un)
  have g': "g' = g\<lparr>ops := p @ m @ F # q\<rparr>" using r(5) d(2) by simp
  show ?thesis by (intro exI conjI) (fact d(1) g' f only s(4) s(5))+
qed

lemma fuse_pair_values:
  assumes "fuse_pair specs g a b = Inr (g', spec)" "flow_ok (ops g)" "kern_full kern"
    and "outputs_of g = Inr outs" "set outs \<inter> hiddens (ops g) = {}"
  shows "flow_ok (ops g') \<and> outputs_of g' = Inr outs \<and> set outs \<inter> hiddens (ops g') = {} \<and>
         hiddens (ops g) \<subseteq> hiddens (ops g') \<and>
         (\<forall>u. u \<notin> hiddens (ops g') \<longrightarrow> run_graph kern (ops g') env u = run_graph kern (ops g) env u)"
proof -
  from fuse_pair_decompose [OF assms(1,2)] obtain p A m B q t F where d: "ops g = p @ A # m @ B # q"
    "g' = g\<lparr>ops := p @ m @ F # q\<rparr>" "fuses_to A B t F" "\<forall>x \<in> set (p @ m @ q). t \<notin> set (o_ins x)" "t \<notin> set outs"
    using assms(4) by auto
  have f: "flow_ok (p @ A # m @ B # q)" using assms(2) d(1) by simp
  have only: "\<And>x. x \<in> set (p @ m @ q) \<Longrightarrow> t \<notin> set (o_ins x)" using d(4) by blast
  note flow = fused_flow [OF f d(3) only]
  note vals = fused_values [OF assms(3) f d(3) only]
  have "outputs_of g' = outputs_of g" by (simp add: d(2) outputs_of_def result_names_def)
  then show ?thesis using flow vals assms(4,5) d(5) by (auto simp: d(1,2))
qed

lemma fuse_along_values:
  assumes "kern_full kern" "fuse_along specs rest g cur sp = Inr (g', sp')" "flow_ok (ops g)"
    and "outputs_of g = Inr outs" "set outs \<inter> hiddens (ops g) = {}"
  shows "flow_ok (ops g') \<and> set outs \<inter> hiddens (ops g') = {} \<and> hiddens (ops g) \<subseteq> hiddens (ops g') \<and>
         (\<forall>u. u \<notin> hiddens (ops g') \<longrightarrow> run_graph kern (ops g') env u = run_graph kern (ops g) env u)"
  using assms(2-5)
proof (induction rest arbitrary: g cur sp)
  case (Cons n rest)
  from Cons.prems(1) obtain g1 s1 where p: "fuse_pair specs g cur n = Inr (g1, s1)"
    "fuse_along specs rest g1 (cur @ ''+'' @ n) (Some s1) = Inr (g', sp')" by (auto split: sum.splits)
  note step = fuse_pair_values [OF p(1) Cons.prems(2) assms(1) Cons.prems(3,4), of env]
  from Cons.IH [OF p(2)] step show ?case by auto
qed simp

text \<open>
  C24. Fusing a chain of ops changes no value that can be seen: in the rewritten graph every tensor that is not
  internal to a fused op, and so every graph output, has the value it had, whatever the kernels compute.
\<close>
theorem fuse_chain_keeps_values:
  assumes "fuse_chain specs g names = Inr (g', spec)" "flow_ok (ops g)" "kern_full kern"
    and "outputs_of g = Inr outs" "set outs \<inter> hiddens (ops g) = {}"
  shows "flow_ok (ops g') \<and> set outs \<inter> hiddens (ops g') = {} \<and>
         (u \<in> set outs \<or> u \<notin> hiddens (ops g') \<longrightarrow> run_graph kern (ops g') env u = run_graph kern (ops g) env u)"
proof -
  from assms(1) obtain n rest s where r: "fuse_along specs rest g n None = Inr (g', s)"
    by (auto simp: fuse_chain_def split: list.splits sum.splits option.splits prod.splits)
  from fuse_along_values [OF assms(3) r assms(2,4,5), of env] show ?thesis by auto
qed

end
