(* ===== verification/Fused_Binding.thy ===== *)
theory Fused_Binding
  imports Chain_Fusion_Facts
begin

text \<open>
  The kernel of a fused op is called with the arguments \<open>bind_fused\<close> computes and declared with the signature
  \<open>make_chain_spec\<close> writes: they agree, argument by argument, when every stage reads the result of the stage
  before exactly once. A fused consumer can break that (\<open>doubled_read_mismatch\<close>, \<open>scratch_is_read\<close>).
\<close>

lemma map_res_values:
  "map_res f xs = Inr ys \<Longrightarrow> (\<And>x y. x \<in> set xs \<Longrightarrow> f x = Inr y \<Longrightarrow> y = h x) \<Longrightarrow> ys = map h xs"
  by (induction xs arbitrary: ys) (auto split: sum.splits)

lemma concat_all2: "list_all2 (list_all2 P) xss yss \<Longrightarrow> list_all2 P (concat xss) (concat yss)"
  by (induction rule: list_all2_induct) (auto intro: list_all2_appendI)

section \<open>The signature\<close>

definition prefixed :: "nat \<Rightarrow> param \<Rightarrow> param" where
  "prefixed i p = p\<lparr>pm_name := [char_of (97 + i), CHR ''_''] @ pm_name p\<rparr>"

definition kept_params :: "string list \<Rightarrow> nat \<times> param list \<Rightarrow> param list" where
  "kept_params tps ips = filter (\<lambda>p. fst ips = 0 \<or> pm_name p \<noteq> tps ! (fst ips - 1)) (snd ips)"

lemma stage_params_eq:
  assumes "stage_params tps (i, ps) = Inr qs"
  shows "qs = map (prefixed i) (kept_params tps (i, ps)) \<and> (qs \<noteq> [] \<longrightarrow> i < 26)"
proof -
  from assms obtain pss where r: "map_res (\<lambda>p. if i = 0 then Inr [p] else if i - 1 \<ge> length tps then Inl Index_Error
        else Inr (if pm_name p = tps ! (i - 1) then [] else [p])) ps = Inr pss"
    "map_res (\<lambda>p. case stage_prefix i of Inl e \<Rightarrow> Inl e | Inr pre \<Rightarrow> Inr (p\<lparr>pm_name := pre @ pm_name p\<rparr>)) (concat pss) = Inr qs"
    by (auto simp: stage_params_def split: sum.splits)
  have "pss = map (\<lambda>p. if i = 0 \<or> pm_name p \<noteq> tps ! (i - 1) then [p] else []) ps"
    by (rule map_res_values [OF r(1)]) (auto split: if_splits)
  then have c: "concat pss = kept_params tps (i, ps)" by (induction ps arbitrary: pss) (auto simp: kept_params_def)
  have "qs = map (prefixed i) (concat pss)"
    by (rule map_res_values [OF r(2)]) (auto simp: stage_prefix_def prefixed_def split: if_splits)
  moreover have "i < 26" if "qs \<noteq> []"
  proof -
    from that r(2) obtain p where "p \<in> set (concat pss)" by (cases "concat pss") auto
    with r(2) show ?thesis by (cases "concat pss") (auto simp: stage_prefix_def split: if_splits)
  qed
  ultimately show ?thesis using c by simp
qed

section \<open>The arguments\<close>

lemma in_args_count: "length (filter (\<lambda>a. ar_kind a = A_In \<and> ar_value a = Some t) as) = count_list (values_of A_In as) t"
  by (induction as) (auto simp: values_of_def List.map_filter_def split: option.splits)

text \<open>Dropping the argument that reads the intermediate drops the parameter named in the kind.\<close>

lemma linked_params:
  assumes "spec_params specs (o_kind s) = Inr ps" "bind s ps = Inr aa" "t_param specs s t = Inr tp"
    and "count_list (o_ins s) t = 1" "distinct (map pm_name ps)"
  shows "map ar_param (filter (\<lambda>x. \<not> (ar_kind x = A_In \<and> ar_value x = Some t)) aa) = filter (\<lambda>p. pm_name p \<noteq> tp) ps"
proof -
  let ?Q = "\<lambda>a. ar_kind a = A_In \<and> ar_value a = Some t"
  from assms(1,2,3) obtain b where b: "List.find ?Q aa = Some b" "pm_name (ar_param b) = tp"
    by (auto simp: t_param_def split: option.splits)
  have ps: "map ar_param aa = ps" and ins: "values_of A_In aa = o_ins s"
    using bind_args [OF assms(2)] by simp_all
  have bQ: "b \<in> set (filter ?Q aa)" using b(1) by (auto simp: find_Some_iff)
  have "length (filter ?Q aa) = 1" by (simp add: in_args_count ins assms(4))
  with bQ have one: "filter ?Q aa = [b]" by (cases "filter ?Q aa") auto
  have "distinct (map (\<lambda>a. pm_name (ar_param a)) aa)" using assms(5) unfolding ps [symmetric] by (simp add: comp_def)
  then have inj: "a = b" if "a \<in> set aa" "pm_name (ar_param a) = tp" for a
    using that b bQ by (auto simp: distinct_map inj_on_def)
  have "?Q a \<longleftrightarrow> pm_name (ar_param a) = tp" if "a \<in> set aa" for a
  proof
    assume "?Q a"
    with that have "a \<in> set (filter ?Q aa)" by simp
    with one b(2) show "pm_name (ar_param a) = tp" by simp
  next
    assume "pm_name (ar_param a) = tp"
    from inj [OF that this] bQ show "?Q a" by simp
  qed
  then have "filter (\<lambda>x. \<not> ?Q x) aa = filter (\<lambda>a. pm_name (ar_param a) \<noteq> tp) aa" by (intro filter_cong) auto
  then show ?thesis by (simp add: ps [symmetric] filter_map comp_def)
qed

lemma mark_scratch_sel [simp]:
  "ar_param (mark_scratch internals n i x) = ar_param x"
  "ar_value (mark_scratch internals n i x) = ar_value x" "ar_kind (mark_scratch internals n i x) = A_In \<longleftrightarrow> ar_kind x = A_In"
  by (auto simp: mark_scratch_def)

lemma stage_args_params:
  assumes "stage_args specs internals n (i, s) = Inr aa" "spec_params specs (o_kind s) = Inr ps"
    and "i > 0 \<Longrightarrow> i - 1 < length internals \<and> t_param specs s (internals ! (i - 1)) = Inr (tps ! (i - 1)) \<and>
                   count_list (o_ins s) (internals ! (i - 1)) = 1"
    and "distinct (map pm_name ps)"
  shows "map ar_param aa = kept_params tps (i, ps)"
proof -
  let ?mark = "mark_scratch internals n i"
  from assms(1,2) obtain bb where bb: "bind s ps = Inr bb"
    "aa = (if i > 0 \<and> i - 1 < length internals
           then filter (\<lambda>x. \<not> (ar_kind x = A_In \<and> ar_value x = Some (internals ! (i - 1)))) (map ?mark bb) else map ?mark bb)"
    by (auto simp: stage_args_def Let_def split: sum.splits)
  have all: "map ar_param bb = ps" using bind_args [OF bb(1)] by simp
  show ?thesis
  proof (cases "i = 0")
    case True
    with bb(2) all show ?thesis by (simp add: kept_params_def comp_def)
  next
    case False
    then have l: "i - 1 < length internals" "t_param specs s (internals ! (i - 1)) = Inr (tps ! (i - 1))"
      "count_list (o_ins s) (internals ! (i - 1)) = 1" using assms(3) by simp_all
    have "map ar_param aa = map ar_param (filter (\<lambda>x. \<not> (ar_kind x = A_In \<and> ar_value x = Some (internals ! (i - 1)))) bb)"
      using False l(1) by (simp add: bb(2) filter_map comp_def)
    also have "\<dots> = filter (\<lambda>p. pm_name p \<noteq> tps ! (i - 1)) ps"
      by (rule linked_params [OF assms(2) bb(1) l(2,3) assms(4)])
    finally show ?thesis using False by (simp add: kept_params_def)
  qed
qed

section \<open>Arguments and parameters agree\<close>

text \<open>Every stage reads the result of the stage before once; the names in a signature differ.\<close>

definition linked_once :: "op list \<Rightarrow> string list \<Rightarrow> bool" where
  "linked_once stages internals =
     (length internals + 1 = length stages \<and>
      list_all (\<lambda>i. count_list (o_ins (stages ! (i + 1))) (internals ! i) = 1) [0..<length internals])"

definition named_apart :: "specs \<Rightarrow> op \<Rightarrow> bool" where
  "named_apart specs s = (case spec_params specs (o_kind s) of Inl _ \<Rightarrow> False | Inr ps \<Rightarrow> distinct (map pm_name ps))"

text \<open>An argument meets a parameter: the parameter of its stage, under the stage's prefix.\<close>

definition meets :: "arg \<Rightarrow> param \<Rightarrow> bool" where
  "meets a p = list_ex (\<lambda>i. p = prefixed i (ar_param a)) [0..<26]"


section \<open>Concrete chains\<close>

definition demo_spec :: "string \<Rightarrow> string \<Rightarrow> string \<times> kspec" where
  "demo_spec k args =
     (k, \<lparr>ks_op = k, ks_signature = ''void k('' @ args @ '');'', ks_semantics = k, ks_reference = k,
          ks_stages = [], ks_tparams = [], ks_parallel = False\<rparr>)"

definition demo_specs :: specs where
  "demo_specs =
     [demo_spec ''linear'' ''const f *i, const f *weight, f *o'',
      demo_spec ''relu'' ''const f *i, f *o, int n'',
      demo_spec ''add'' ''const f *a, const f *b, f *o'']"

definition demo_op :: "string \<Rightarrow> string \<Rightarrow> string list \<Rightarrow> string list \<Rightarrow> op" where
  "demo_op nm k is os = upd (\<lambda>f. f\<lparr>shape := Some [(''n'', 4)], extra := [(''weight'', ''w0'')]\<rparr>) (mk_op nm k None [] is os)"

definition chain_stages :: "op list" where
  "chain_stages =
     [demo_op ''lin'' ''linear'' [''x''] [''t''], demo_op ''rl'' ''relu'' [''t''] [''u''], demo_op ''ad'' ''add'' [''u'', ''z''] [''y'']]"

definition chain_graph :: graph where
  "chain_graph = plain_graph chain_stages [''y'']"

definition chain_op :: op where
  "chain_op =
     Op ((plain_fields ''lin+rl+ad'' ''fused__linear__relu__add__a'' [''x'', ''z''] [''y''])
           \<lparr>internal := [''t'', ''u''],
            stage_shapes := [(''a'', [(''n'', 4)]), (''b'', [(''n'', 4)]), (''c'', [(''n'', 4)])]\<rparr>) (Some chain_stages)"

definition chain_signature :: string where
  "chain_signature =
     ''void kernel_fused__linear__relu__add__a(const f* a_i, const f* a_weight, f* a_o, f* b_o, int b_n, '' @
     ''const f* c_b, f* c_o);''"

lemma chain_fuses:
  "(case fuse_chain demo_specs chain_graph [''lin'', ''rl'', ''ad''] of
      Inl e \<Rightarrow> False | Inr (g, s) \<Rightarrow> ops g = [chain_op] \<and> ks_signature s = chain_signature)"
  by code_simp

lemma chain_run:
  "\<exists>g s. fuse_chain demo_specs chain_graph [''lin'', ''rl'', ''ad''] = Inr (g, s) \<and> ops g = [chain_op]"
  using chain_fuses by (auto split: sum.splits)

lemma chain_flow: "flow_ok (ops chain_graph)" "outputs_of chain_graph = Inr [''y'']"
  "set [''y''] \<inter> hiddens (ops chain_graph) = {}"
  by code_simp+

definition plus_one :: "op \<Rightarrow> int list \<Rightarrow> int list" where
  "plus_one x vs = map (\<lambda>_. sum_list vs + 1) (o_outs x)"

lemma plus_one_full: "kern_full plus_one"
  by (simp add: kern_full_def plus_one_def)

theorem fuse_chain_keeps_values_witness:
  "run_graph plus_one [chain_op] (\<lambda>_. 5) ''y'' = run_graph plus_one (ops chain_graph) (\<lambda>_. 5) ''y''"
proof -
  from chain_run obtain g s where r: "fuse_chain demo_specs chain_graph [''lin'', ''rl'', ''ad''] = Inr (g, s)" "ops g = [chain_op]"
    by blast
  from fuse_chain_keeps_values [OF r(1) chain_flow(1) plus_one_full chain_flow(2,3), of "''y''" "\<lambda>_. 5"] r(2) show ?thesis by simp
qed

lemma chain_named_demo: "chain_named demo_specs [''linear'', ''relu'', ''add''] [''i'', ''a'']"
  by code_simp

theorem kind_roundtrip_witness:
  "\<exists>kind. chain_kind demo_specs [''linear'', ''relu'', ''add''] [''i'', ''a''] = Inr kind \<and>
          parse_kind demo_specs kind = Inr ([''linear'', ''relu'', ''add''], [''i'', ''a''])"
  using kind_roundtrip [OF chain_named_demo] by blast

lemma chain_binds: "(case bind_fused demo_specs chain_op of Inl e \<Rightarrow> [] | Inr as \<Rightarrow> map (\<lambda>a. (ar_kind a, ar_value a)) as) =
  [(A_In, Some ''x''), (A_Weight, Some ''w0''), (A_Scratch, Some ''t''), (A_Scratch, Some ''u''), (A_Scalar, Some ''4''),
   (A_In, Some ''z''), (A_Out, Some ''y'')]"
  by code_simp

lemma chain_links: "link_params demo_specs chain_stages [''t'', ''u''] = Inr [''i'', ''a'']"
  by code_simp

lemma chain_spec: "(case make_chain_spec demo_specs (map o_kind chain_stages) [''i'', ''a''] of Inl e \<Rightarrow> False | Inr s \<Rightarrow> True)"
  by code_simp

lemma chain_once: "linked_once chain_stages [''t'', ''u'']" "list_all (named_apart demo_specs) chain_stages"
  by code_simp+


text \<open>
  A consumer that was fused before lists a tensor once that its first stage reads twice: the signature keeps one of
  the two parameters, the binding drops both arguments.
\<close>

definition square_graph :: graph where
  "square_graph =
     plain_graph [demo_op ''lin'' ''linear'' [''x''] [''t''], demo_op ''sq'' ''add'' [''t'', ''t''] [''u''],
                  demo_op ''rl'' ''relu'' [''u''] [''y'']] [''y'']"

lemma doubled_read_mismatch:
  "(case fuse_pair demo_specs square_graph ''sq'' ''rl'' of
      Inl e \<Rightarrow> False
    | Inr (g, s) \<Rightarrow> (case fuse_pair demo_specs g ''lin'' ''sq+rl'' of
        Inl e \<Rightarrow> False
      | Inr (h, s) \<Rightarrow> (case bind_fused demo_specs (hd (ops h)) of
          Inl e \<Rightarrow> False
        | Inr args \<Rightarrow>
            ks_signature s = ''void kernel_fused__linear__add__a__relu(const f* a_i, const f* a_weight, f* a_o, '' @
                             ''const f* b_b, f* b_o, f* c_o, int c_n);'' \<and>
            map (pm_name \<circ> ar_param) args = [''i'', ''weight'', ''o'', ''o'', ''o'', ''n''])))"
  by code_simp

text \<open>
  A later stage of a fused consumer reads the intermediate too (here a residual): the kernel takes it as an input
  and, as the scratch result of the first stage, need not write it.
\<close>

definition residual_graph :: graph where
  "residual_graph =
     plain_graph [demo_op ''lin'' ''linear'' [''x''] [''t''], demo_op ''rl'' ''relu'' [''t''] [''u''],
                  demo_op ''ad'' ''add'' [''u'', ''t''] [''y'']] [''y'']"

lemma scratch_is_read:
  "(case fuse_pair demo_specs residual_graph ''rl'' ''ad'' of
      Inl e \<Rightarrow> False
    | Inr (g, s) \<Rightarrow> (case fuse_pair demo_specs g ''lin'' ''rl+ad'' of
        Inl e \<Rightarrow> False
      | Inr (h, s) \<Rightarrow> (case bind_fused demo_specs (hd (ops h)) of
          Inl e \<Rightarrow> False
        | Inr args \<Rightarrow>
            map (\<lambda>a. (ar_kind a, ar_value a)) (filter (\<lambda>a. ar_value a = Some ''t'') args) =
              [(A_Scratch, Some ''t''), (A_In, Some ''t'')] \<and>
            o_ins (hd (ops h)) = [''x''])))"
  by code_simp

end
