(* ===== verification/Prune.thy ===== *)
theory Prune
  imports Graph_IR
begin

text \<open>
  \<^verbatim>\<open>pipeline/graph_prune.py\<close>: ops whose outputs reach no graph output are left out of the exported
  partition. Shown: dropping them does not change any output, and the dead ops are exactly those
  from which no chain of later reads leads to an output.
\<close>

section \<open>The analysis\<close>

text \<open>\<open>kb_concurrency.SERIAL_KINDS\<close>.\<close>

definition serial_kinds :: "string set" where
  "serial_kinds = {}"

definition graph_outputs :: "graph \<Rightarrow> string list" where
  "graph_outputs g =
     (if output_tensors g \<noteq> [] then output_tensors g
      else case output_tensor g of None \<Rightarrow> [] | Some t \<Rightarrow> if t = [] then [] else [t])"

definition known_outputs :: "graph \<Rightarrow> string list option \<Rightarrow> string list" where
  "known_outputs g outs = (case outs of None \<Rightarrow> graph_outputs g | Some ts \<Rightarrow> ts)"

definition kept :: "op \<Rightarrow> string set \<Rightarrow> bool" where
  "kept x live = (o_outs x = [] \<or> o_kind x \<in> serial_kinds \<or> list_ex (\<lambda>t. t \<in> live) (o_outs x))"

definition prune_step :: "nat \<times> op \<Rightarrow> nat set \<times> string set \<Rightarrow> nat set \<times> string set" where
  "prune_step ix r =
     (if kept (snd ix) (snd r) then (fst r, snd r \<union> set (o_ins (snd ix)))
      else (insert (fst ix) (fst r), snd r))"

definition analyse :: "graph \<Rightarrow> string list option \<Rightarrow> nat set \<times> string set" where
  "analyse g outs =
     (if known_outputs g outs = [] then ({}, {})
      else foldr prune_step (enumerate 0 (ops g)) ({}, set (known_outputs g outs)))"

definition live_tensors :: "graph \<Rightarrow> string list option \<Rightarrow> string set" where
  "live_tensors g outs = snd (analyse g outs)"

definition dead_ops :: "graph \<Rightarrow> string list option \<Rightarrow> nat list" where
  "dead_ops g outs = sorted_list_of_set (fst (analyse g outs))"

section \<open>The switch and the selection\<close>

datatype switch = From_Env | Flag bool | Text string

definition prune_enabled :: "switch \<Rightarrow> string option \<Rightarrow> string + bool" where
  "prune_enabled v env =
     (case v of
        Flag b \<Rightarrow> Inr b
      | _ \<Rightarrow>
          (let s = lower (strip (case v of Text s \<Rightarrow> s | _ \<Rightarrow> (case env of None \<Rightarrow> ''1'' | Some s \<Rightarrow> s))) in
           if s \<in> {''1'', ''on'', ''true'', ''yes'', ''''} then Inr True
           else if s \<in> {''0'', ''off'', ''false'', ''no''} then Inr False
           else Inl s))"

definition prune_selection ::
  "graph \<Rightarrow> nat list \<Rightarrow> string list option \<Rightarrow> switch \<Rightarrow> string option \<Rightarrow> string + nat list \<times> nat list" where
  "prune_selection g sel outs v env =
     (case prune_enabled v env of
        Inl e \<Rightarrow> Inl e
      | Inr on \<Rightarrow>
          (if \<not> on then Inr (sel, [])
           else let dead = dead_ops g outs; keep = filter (\<lambda>i. i \<notin> set dead) sel in
             if dead = [] then Inr (sel, [])
             else if keep = [] then Inr (sel, [])
             else Inr (keep, dead)))"

record prune_report =
  pr_n_ops :: nat
  pr_dead :: "string list"
  pr_dead_kinds :: "string set"

definition report :: "graph \<Rightarrow> string list option \<Rightarrow> prune_report" where
  "report g outs =
     \<lparr>pr_n_ops = length (ops g), pr_dead = map (\<lambda>i. o_name (ops g ! i)) (dead_ops g outs),
      pr_dead_kinds = set (map (\<lambda>i. o_kind (ops g ! i)) (dead_ops g outs))\<rparr>"

section \<open>Dropping dead ops keeps every output\<close>

definition keep_from :: "nat set \<Rightarrow> nat \<Rightarrow> op list \<Rightarrow> op list" where
  "keep_from dead k xs = map snd (filter (\<lambda>(i, x). i \<notin> dead) (enumerate k xs))"

definition analyse_from :: "nat \<Rightarrow> op list \<Rightarrow> string set \<Rightarrow> nat set \<times> string set" where
  "analyse_from k xs L = foldr prune_step (enumerate k xs) ({}, L)"

lemma analyse_from_Nil [simp]: "analyse_from k [] L = ({}, L)"
  by (simp add: analyse_from_def)

lemma analyse_from_Cons:
  "analyse_from k (x # xs) L = prune_step (k, x) (analyse_from (Suc k) xs L)"
  by (simp add: analyse_from_def)

lemma dead_range: "fst (analyse_from k xs L) \<subseteq> {k ..< k + length xs}"
proof (induction xs arbitrary: k)
  case (Cons x xs)
  from Cons [of "Suc k"] show ?case unfolding analyse_from_Cons by (auto simp: prune_step_def)
qed simp

lemma finite_dead [simp]: "finite (fst (analyse_from k xs L))"
  by (rule finite_subset [OF dead_range]) simp

lemma keep_from_Cons:
  "keep_from dead k (x # xs) = (if k \<in> dead then keep_from dead (Suc k) xs else x # keep_from dead (Suc k) xs)"
  by (simp add: keep_from_def)

lemma keep_from_insert: "k < j \<Longrightarrow> keep_from (insert k dead) j xs = keep_from dead j xs"
proof -
  assume "k < j"
  then have "filter (\<lambda>(i, x). i \<notin> insert k dead) (enumerate j xs) = filter (\<lambda>(i, x). i \<notin> dead) (enumerate j xs)"
    by (intro filter_cong) (auto simp: in_set_enumerate_eq)
  then show ?thesis by (simp add: keep_from_def)
qed

lemma pruned_run:
  assumes "\<forall>t \<in> snd (analyse_from k xs L). env1 t = env2 t" "t \<in> L"
  shows "run_ops kern (keep_from (fst (analyse_from k xs L)) k xs) env1 t = run_ops kern xs env2 t"
  using assms(1)
proof (induction xs arbitrary: k env1 env2)
  case Nil
  with assms(2) show ?case by (simp add: keep_from_def)
next
  case (Cons x xs)
  define r where "r = analyse_from (Suc k) xs L"
  have rec: "analyse_from k (x # xs) L = prune_step (k, x) r" unfolding r_def by (rule analyse_from_Cons)
  have k: "k \<notin> fst r" using dead_range [of "Suc k" xs L] unfolding r_def by auto
  have IH: "run_ops kern (keep_from (fst r) (Suc k) xs) e1 t = run_ops kern xs e2 t"
    if "\<forall>t \<in> snd r. e1 t = e2 t" for e1 e2
    using Cons.IH [of "Suc k" e1 e2] that unfolding r_def .
  show ?case
  proof (cases "kept x (snd r)")
    case True
    have agree: "\<forall>t \<in> snd r \<union> set (o_ins x). env1 t = env2 t"
      using Cons.prems True unfolding rec by (simp add: prune_step_def)
    have "\<forall>t \<in> snd r. run_op kern x env1 t = run_op kern x env2 t"
      using agree by (intro ballI run_op_cong) auto
    then show ?thesis using k True by (simp add: rec prune_step_def keep_from_Cons IH)
  next
    case False
    have agree: "\<forall>t \<in> snd r. env1 t = env2 t" using Cons.prems False unfolding rec by (simp add: prune_step_def)
    have "\<forall>t \<in> snd r. t \<notin> set (o_outs x)" using False by (auto simp: kept_def list_ex_iff)
    then have "\<forall>t \<in> snd r. env1 t = run_op kern x env2 t" using agree by (simp add: run_op_other)
    then show ?thesis using False by (simp add: rec prune_step_def keep_from_Cons keep_from_insert IH)
  qed
qed

text \<open>The ops the export keeps.\<close>

definition live_ops :: "graph \<Rightarrow> string list option \<Rightarrow> op list" where
  "live_ops g outs = keep_from (set (dead_ops g outs)) 0 (ops g)"

lemma analyse_known:
  "known_outputs g outs \<noteq> [] \<Longrightarrow> analyse g outs = analyse_from 0 (ops g) (set (known_outputs g outs))"
  by (simp add: analyse_def analyse_from_def)

lemma set_dead_ops: "set (dead_ops g outs) = fst (analyse g outs)"
  by (cases "known_outputs g outs = []") (simp_all add: dead_ops_def analyse_known, simp add: analyse_def)

text \<open>
  C11. Whatever the kernels compute from their inputs and whatever the buffers hold at the start, running
  only the ops that are not dead leaves the same value in every output tensor as running all of them.
\<close>
theorem pruning_keeps_outputs:
  "t \<in> set (known_outputs g outs) \<Longrightarrow>
     run_ops kern (live_ops g outs) env t = run_ops kern (ops g) env t"
proof -
  assume t: "t \<in> set (known_outputs g outs)"
  then have "known_outputs g outs \<noteq> []" by auto
  from analyse_known [OF this] t show ?thesis
    unfolding live_ops_def set_dead_ops by (simp add: pruned_run)
qed

definition prune_demo :: graph where
  "prune_demo = plain_graph
     [mk_op ''l'' ''linear'' (Some 0) [] [''x''] [''y''], mk_op ''d'' ''catn'' (Some 1) [0] [''y''] [''h''],
      mk_op ''e'' ''catn'' (Some 2) [1] [''h''] [''k''], mk_op ''r'' ''relu'' (Some 3) [0] [''y''] [''z'']] [''z'']"

theorem pruning_keeps_outputs_witness:
  "run_ops (\<lambda>x vs. [sum_list vs + int (length (o_name x))])
     [mk_op ''l'' ''linear'' (Some 0) [] [''x''] [''y''], mk_op ''r'' ''relu'' (Some 3) [0] [''y''] [''z'']]
     (\<lambda>_. 0) ''z'' =
   run_ops (\<lambda>x vs. [sum_list vs + int (length (o_name x))]) (ops prune_demo) (\<lambda>_. 0) ''z''"
proof -
  have live: "live_ops prune_demo None =
      [mk_op ''l'' ''linear'' (Some 0) [] [''x''] [''y''], mk_op ''r'' ''relu'' (Some 3) [0] [''y''] [''z'']]"
    by code_simp
  have "''z'' \<in> set (known_outputs prune_demo None)" by code_simp
  from pruning_keeps_outputs [OF this, of "\<lambda>x vs. [sum_list vs + int (length (o_name x))]" "\<lambda>_. 0", unfolded live]
  show ?thesis .
qed

section \<open>Exactly the ops no output needs\<close>

text \<open>
  \<open>needed\<close>: an op that must run for its own sake or writes an output, or writes a tensor a later needed
  op reads.
\<close>

inductive needed :: "op list \<Rightarrow> string set \<Rightarrow> nat \<Rightarrow> bool" for xs L where
  root: "i < length xs \<Longrightarrow> kept (xs ! i) L \<Longrightarrow> needed xs L i"
| read: "needed xs L j \<Longrightarrow> i < j \<Longrightarrow> t \<in> set (o_outs (xs ! i)) \<Longrightarrow> t \<in> set (o_ins (xs ! j)) \<Longrightarrow> needed xs L i"

lemma needed_lt: "needed xs L i \<Longrightarrow> i < length xs"
  by (induction rule: needed.induct) auto

lemma needed_Suc: "needed (x # xs) L (Suc i) \<longleftrightarrow> needed xs L i"
proof
  have "i = Suc k \<Longrightarrow> needed xs L k" if "needed (x # xs) L i" for i k
    using that
  proof (induction arbitrary: k rule: needed.induct)
    case (root i)
    then show ?case by (auto intro: needed.root)
  next
    case (read j i t)
    then obtain j' where "j = Suc j'" by (cases j) auto
    with read show ?case by (auto intro: needed.read)
  qed
  then show "needed (x # xs) L (Suc i) \<Longrightarrow> needed xs L i" by blast
  show "needed xs L i \<Longrightarrow> needed (x # xs) L (Suc i)"
  proof (induction rule: needed.induct)
    case (root i)
    then show ?case by (intro needed.root) auto
  next
    case (read j i t)
    then show ?case by (intro needed.read [of "x # xs" L "Suc j" "Suc i" t]) auto
  qed
qed

lemma needed_0:
  "needed (x # xs) L 0 \<longleftrightarrow>
     kept x L \<or> (\<exists>j t. needed xs L j \<and> t \<in> set (o_outs x) \<and> t \<in> set (o_ins (xs ! j)))"
proof
  assume "needed (x # xs) L 0"
  then show "kept x L \<or> (\<exists>j t. needed xs L j \<and> t \<in> set (o_outs x) \<and> t \<in> set (o_ins (xs ! j)))"
  proof (cases rule: needed.cases)
    case (read j t)
    then obtain j' where "j = Suc j'" by (cases j) auto
    with read show ?thesis by (auto simp: needed_Suc)
  qed simp
next
  assume "kept x L \<or> (\<exists>j t. needed xs L j \<and> t \<in> set (o_outs x) \<and> t \<in> set (o_ins (xs ! j)))"
  then show "needed (x # xs) L 0"
  proof (elim disjE exE conjE)
    fix j t assume "needed xs L j" "t \<in> set (o_outs x)" "t \<in> set (o_ins (xs ! j))"
    then show ?thesis by (intro needed.read [of "x # xs" L "Suc j" 0 t]) (auto simp: needed_Suc)
  qed (auto intro: needed.root)
qed

lemma live_iff:
  "snd (analyse_from k xs L) = L \<union> {t. \<exists>j. needed xs L j \<and> t \<in> set (o_ins (xs ! j))} \<and>
   fst (analyse_from k xs L) = {k + i |i. i < length xs \<and> \<not> needed xs L i}"
proof (induction xs arbitrary: k)
  case Nil
  then show ?case by (auto dest: needed_lt)
next
  case (Cons x xs)
  define r where "r = analyse_from (Suc k) xs L"
  define D where "D = {Suc k + i |i. i < length xs \<and> \<not> needed xs L i}"
  define R where "R = {t. \<exists>j. needed xs L j \<and> t \<in> set (o_ins (xs ! j))}"
  have r: "snd r = L \<union> R" "fst r = D" using Cons [of "Suc k"] by (simp_all add: r_def R_def D_def)
  have rec: "analyse_from k (x # xs) L = prune_step (k, x) r" unfolding r_def by (rule analyse_from_Cons)
  have k: "kept x (snd r) \<longleftrightarrow> needed (x # xs) L 0"
    unfolding needed_0 r(1) by (auto simp: kept_def list_ex_iff R_def)
  have reads: "{t. \<exists>j. needed (x # xs) L j \<and> t \<in> set (o_ins ((x # xs) ! j))} =
      R \<union> (if needed (x # xs) L 0 then set (o_ins x) else {})"
  proof -
    have "(\<exists>j. needed (x # xs) L j \<and> t \<in> set (o_ins ((x # xs) ! j))) \<longleftrightarrow>
        needed (x # xs) L 0 \<and> t \<in> set (o_ins x) \<or> (\<exists>j. needed xs L j \<and> t \<in> set (o_ins (xs ! j)))" for t
      by (subst ex_nat_split) (simp add: needed_Suc)
    then show ?thesis by (auto simp: R_def)
  qed
  have deads: "{k + i |i. i < length (x # xs) \<and> \<not> needed (x # xs) L i} =
      D \<union> (if needed (x # xs) L 0 then {} else {k})"
  proof -
    have "(\<exists>i. d = k + i \<and> i < length (x # xs) \<and> \<not> needed (x # xs) L i) \<longleftrightarrow>
        (d = k \<and> \<not> needed (x # xs) L 0) \<or> (\<exists>i. d = Suc k + i \<and> i < length xs \<and> \<not> needed xs L i)" for d
      by (subst ex_nat_split) (simp add: needed_Suc)
    then show ?thesis by (auto simp: D_def)
  qed
  show ?case unfolding reads deads rec using k by (simp add: prune_step_def r Un_assoc)
qed

text \<open>
  When the graph has outputs, the dead ops, in increasing position, are exactly those from which no
  chain of reads by later ops leads to an output or to an op without outputs.
\<close>
theorem dead_ops_exact:
  "known_outputs g outs \<noteq> [] \<Longrightarrow>
     dead_ops g outs = filter (\<lambda>i. \<not> needed (ops g) (set (known_outputs g outs)) i) [0..<length (ops g)]"
proof -
  assume "known_outputs g outs \<noteq> []"
  from analyse_known [OF this]
  have "fst (analyse g outs) = {i. i < length (ops g) \<and> \<not> needed (ops g) (set (known_outputs g outs)) i}"
    using live_iff [of 0 "ops g" "set (known_outputs g outs)"] by simp
  also have "\<dots> = set (filter (\<lambda>i. \<not> needed (ops g) (set (known_outputs g outs)) i) [0..<length (ops g)])" by auto
  finally show ?thesis
    unfolding dead_ops_def by (simp only: sorted_list_of_set.idem_if_sorted_distinct sorted_filter sorted_upt
        distinct_filter distinct_upt sorted_wrt_filter)
qed

theorem dead_ops_exact_witness:
  "\<not> needed (ops prune_demo) {''z''} 1 \<and> \<not> needed (ops prune_demo) {''z''} 2 \<and> needed (ops prune_demo) {''z''} 0"
proof -
  have o: "known_outputs prune_demo None = [''z'']" "dead_ops prune_demo None = [1, 2]" by code_simp+
  have l: "length (ops prune_demo) = 4" by code_simp
  have "known_outputs prune_demo None \<noteq> []" using o by simp
  from dead_ops_exact [OF this, unfolded o l] have
    "set [1, 2] = set (filter (\<lambda>i. \<not> needed (ops prune_demo) (set [''z'']) i) [0..<4])" by (rule arg_cong)
  then have *: "i \<in> {1, 2} \<longleftrightarrow> i < 4 \<and> \<not> needed (ops prune_demo) {''z''} i" for i by auto
  show ?thesis using * [of 0] * [of 1] * [of 2] by simp
qed

end
