(* ===== verification/Bitmask.thy ===== *)
theory Bitmask
  imports Prelude "HOL-Library.Word"
begin

unbundle bit_operations_syntax

text \<open>
  Python integers used as sets of small numbers (\<open>kb_concurrency._bits\<close> and the masks around it):
  bit \<open>j\<close> of the mask says that \<open>j\<close> is in the set. The generator that peels off the lowest set bit
  enumerates the set in increasing order.
\<close>

section \<open>Adding and enumerating bits\<close>

definition set_mask :: "nat \<Rightarrow> int" where
  "set_mask j = push_bit j 1"

lemma bit_set_mask [simp]: "bit (set_mask j) i \<longleftrightarrow> i = j"
  by (auto simp: set_mask_def push_bit_of_1 bit_exp_iff)

lemma set_mask_power: "set_mask j = 2 ^ j"
  by (simp add: set_mask_def push_bit_eq_mult)

lemma set_mask_nonneg [simp]: "0 \<le> set_mask j"
  by (simp add: set_mask_power)

text \<open>\<open>n.bit_length()\<close>.\<close>

fun bit_length_nat :: "nat \<Rightarrow> nat" where
  "bit_length_nat n = (if n = 0 then 0 else Suc (bit_length_nat (n div 2)))"

declare bit_length_nat.simps [simp del]

definition bit_length :: "int \<Rightarrow> nat" where
  "bit_length m = bit_length_nat (nat \<bar>m\<bar>)"

lemma bit_length_power: "bit_length (2 ^ k) = Suc k"
proof -
  have "bit_length_nat (2 ^ k) = Suc k"
  proof (induction k)
    case (Suc k)
    then show ?case by (subst bit_length_nat.simps) simp
  qed (simp add: bit_length_nat.simps)
  then show ?thesis by (simp add: bit_length_def nat_power_eq)
qed

lemma odd_lowest: "odd (q :: int) \<Longrightarrow> q AND (- q) = 1"
proof -
  assume "odd q"
  then obtain r where q: "q = 1 + 2 * r" by (metis oddE add.commute)
  have m: "- q = 1 + 2 * (NOT r)" by (simp add: q not_int_def)
  show ?thesis
  proof (rule bit_eqI)
    fix n
    show "bit (q AND - q) n = bit (1 :: int) n"
    proof (cases n)
      case 0
      then show ?thesis using \<open>odd q\<close> by (simp add: bit_0 even_and_iff)
    next
      case (Suc k)
      have "bit q (Suc k) = bit r k" by (simp add: q bit_Suc)
      moreover have "bit (- q) (Suc k) = bit (NOT r) k" unfolding m by (simp add: bit_Suc)
      ultimately show ?thesis using Suc by (simp add: bit_and_iff bit_not_iff bit_1_iff)
    qed
  qed
qed

lemma lowest_power:
  "0 < (m :: int) \<Longrightarrow> \<exists>k. m AND (- m) = 2 ^ k \<and> bit m k \<and> (\<forall>j < k. \<not> bit m j)"
proof (induction "nat m" arbitrary: m rule: less_induct)
  case less
  show ?case
  proof (cases "odd m")
    case True
    then show ?thesis by (intro exI [of _ 0]) (simp add: odd_lowest bit_0)
  next
    case False
    then have "even m" by simp
    then obtain r where m: "m = 2 * r" by (rule evenE)
    with less have "0 < r" "nat r < nat m" by auto
    from less(1) [OF this(2,1)] obtain k
      where k: "r AND (- r) = 2 ^ k" "bit r k" "\<forall>j < k. \<not> bit r j" by blast
    have "(2 * r) AND (2 * (- r)) = 2 * (r AND (- r))"
    proof (rule bit_eqI)
      fix n
      show "bit ((2 * r) AND (2 * (- r))) n = bit (2 * (r AND (- r))) n"
        by (cases n) (simp_all only: bit_and_iff bit_double_iff, simp_all add: bit_and_iff)
    qed
    then have "m AND (- m) = 2 ^ Suc k" using k(1) m by simp
    moreover have "bit m (Suc k)" using k(2) m by (simp add: bit_Suc)
    moreover have "\<not> bit m j" if "j < Suc k" for j
      using that k(3) m by (cases j) (simp_all add: bit_0 bit_Suc)
    ultimately show ?thesis by blast
  qed
qed

lemma flip_set_bit:
  assumes "0 < (m :: int)" "bit m k"
  shows "0 \<le> m XOR 2 ^ k" "m XOR 2 ^ k < m" "bit (m XOR 2 ^ k) j \<longleftrightarrow> bit m j \<and> j \<noteq> k"
proof -
  have e: "m XOR 2 ^ k = unset_bit k m"
  proof (rule bit_eqI)
    fix n
    show "bit (m XOR 2 ^ k) n = bit (unset_bit k m) n"
      using assms(2) by (auto simp: bit_xor_iff bit_unset_bit_iff bit_exp_iff)
  qed
  show b: "bit (m XOR 2 ^ k) j \<longleftrightarrow> bit m j \<and> j \<noteq> k" for j
    unfolding e by (auto simp: bit_unset_bit_iff)
  show "0 \<le> m XOR 2 ^ k" unfolding e using assms(1) by simp
  have "m XOR 2 ^ k \<noteq> m" using b [of k] assms(2) by auto
  moreover have "m XOR 2 ^ k \<le> m" unfolding e by (rule unset_bit_less_eq)
  ultimately show "m XOR 2 ^ k < m" by simp
qed

function bits_of :: "int \<Rightarrow> nat list" where
  "bits_of m = (if m \<le> 0 then [] else let lo = m AND (- m) in (bit_length lo - 1) # bits_of (m XOR lo))"
  by pat_completeness auto
termination
proof (relation "measure nat")
  fix m lo :: int
  assume "\<not> m \<le> 0" "lo = m AND (- m)"
  moreover from this lowest_power [of m] obtain k where "m AND (- m) = 2 ^ k" "bit m k" by auto
  ultimately show "(m XOR lo, m) \<in> measure nat" using flip_set_bit [of m k] by simp
qed simp

declare bits_of.simps [simp del]

lemma bits_of_step:
  assumes "0 < m"
  obtains k where "bits_of m = k # bits_of (m XOR 2 ^ k)" "bit m k" "\<forall>j < k. \<not> bit m j"
proof -
  from lowest_power [OF assms] obtain k where k: "m AND (- m) = 2 ^ k" "bit m k" "\<forall>j < k. \<not> bit m j" by blast
  have "bits_of m = k # bits_of (m XOR 2 ^ k)"
    using assms by (subst bits_of.simps) (simp add: k(1) bit_length_power)
  with k that show ?thesis by blast
qed

text \<open>The generator yields the positions of the set bits, each once, in increasing order.\<close>

lemma bits_of_sound:
  "0 \<le> m \<Longrightarrow> set (bits_of m) = {j. bit m j} \<and> sorted_wrt (<) (bits_of m)"
proof (induction "nat m" arbitrary: m rule: less_induct)
  case less
  show ?case
  proof (cases "m = 0")
    case True
    then show ?thesis by (subst (1 2) bits_of.simps) simp
  next
    case False
    with less have pos: "0 < m" by simp
    from bits_of_step [OF pos] obtain k
      where k: "bits_of m = k # bits_of (m XOR 2 ^ k)" "bit m k" "\<forall>j < k. \<not> bit m j" .
    note F = flip_set_bit [OF pos k(2)]
    have IH: "set (bits_of (m XOR 2 ^ k)) = {j. bit (m XOR 2 ^ k) j} \<and> sorted_wrt (<) (bits_of (m XOR 2 ^ k))"
      by (rule less(1)) (use F pos in auto)
    moreover have "k < j" if "bit (m XOR 2 ^ k) j" for j
      using that k(3) by (metis F(3) linorder_neqE_nat)
    ultimately show ?thesis using k(2) unfolding k(1) by (auto simp: F(3))
  qed
qed

lemma set_bits_of [simp]: "0 \<le> m \<Longrightarrow> set (bits_of m) = {j. bit m j}"
  by (simp add: bits_of_sound)

lemma sorted_bits_of: "0 \<le> m \<Longrightarrow> sorted_wrt (<) (bits_of m)"
  by (simp add: bits_of_sound)

text \<open>Uniting masks in a loop.\<close>

lemma fold_or_bit:
  "bit (fold (\<lambda>x m. m OR f x) xs m) i \<longleftrightarrow> bit m i \<or> (\<exists>x \<in> set xs. bit (f x :: int) i)"
  by (induction xs arbitrary: m) (auto simp: bit_or_iff)

lemma fold_or_nonneg:
  "0 \<le> m \<Longrightarrow> (\<And>x. x \<in> set xs \<Longrightarrow> 0 \<le> f x) \<Longrightarrow> 0 \<le> fold (\<lambda>x m. m OR f x) xs (m :: int)"
  by (induction xs arbitrary: m) auto

end
