(* ===== verification/Concurrency.thy ===== *)
theory Concurrency
  imports Prune Bitmask
begin

text \<open>
  \<^verbatim>\<open>pipeline/kb_concurrency.py\<close>: which ops of an exported partition may run at the same time in a CUDA
  graph. Definitions: the dependency DAG with the buffer hazards, its direct predecessors, the lanes
  of the slots, the widths, and the report and slot annotations made from them.
\<close>

section \<open>The switches\<close>

datatype conc_error = Bad_Mode string | Bad_Policy string | Index_Error

text \<open>\<open>a or os.environ.get(...) or default\<close>, then \<open>.strip().lower()\<close>.\<close>

definition first_text :: "string option \<Rightarrow> string option \<Rightarrow> string \<Rightarrow> string" where
  "first_text a env dflt =
     (case a of Some (c # cs) \<Rightarrow> c # cs | _ \<Rightarrow> (case env of Some (c # cs) \<Rightarrow> c # cs | _ \<Rightarrow> dflt))"

definition resolve ::
  "string option \<Rightarrow> string option \<Rightarrow> string option \<Rightarrow> string option \<Rightarrow> conc_error + string option" where
  "resolve concurrency policy env_c env_p =
     (let c = lower (strip (first_text concurrency env_c ''off'')) in
      if c \<notin> {''off'', ''on''} then Inl (Bad_Mode c)
      else if c = ''off'' then Inr None
      else let p = lower (strip (first_text policy env_p ''split'')) in
        if p \<notin> {''split'', ''none'', ''strict''} then Inl (Bad_Policy p) else Inr (Some p))"

text \<open>\<open>res\<close>: the log and the errors of a run.\<close>

definition deadlocked :: "(string option \<times> string list) option \<Rightarrow> bool" where
  "deadlocked res =
     (case res of
        None \<Rightarrow> False
      | Some (log, errors) \<Rightarrow>
          contains ((case log of None \<Rightarrow> [] | Some s \<Rightarrow> s) @ join '' '' errors) ''MB_CONC_DEADLOCK'')"

section \<open>Ops, buffers and what they touch\<close>

record conc_buf =
  cb_numel :: int
  cb_alias :: "(nat \<times> int) option"

record op_rec =
  or_name :: string
  or_op :: string
  or_ins :: "nat list"
  or_outs :: "nat list"

record conc_op =
  co_full :: nat
  co_slot :: string
  co_stmt :: string
  co_scratch :: "nat list"

definition ranges :: "conc_buf list \<Rightarrow> nat list \<Rightarrow> (nat \<times> int \<times> int) list" where
  "ranges bufs ids =
     map (\<lambda>b. let (base, off) = (case cb_alias (bufs ! b) of None \<Rightarrow> (b, 0) | Some a \<Rightarrow> a)
              in (base, off, off + max (cb_numel (bufs ! b)) 1)) ids"

definition overlap :: "(nat \<times> int \<times> int) list \<Rightarrow> (nat \<times> int \<times> int) list \<Rightarrow> bool" where
  "overlap xs ys =
     list_ex (\<lambda>(b0, lo0, hi0). list_ex (\<lambda>(b1, lo1, hi1). b0 = b1 \<and> lo0 < hi1 \<and> lo1 < hi0) ys) xs"

section \<open>Ancestors in the whole graph\<close>

definition ancestor_step :: "nat \<times> op \<Rightarrow> (string, nat) dict \<times> int list \<Rightarrow> (string, nat) dict \<times> int list" where
  "ancestor_step ix s =
     (let a = fold (\<lambda>t a. case map_of (fst s) t of None \<Rightarrow> a | Some p \<Rightarrow> a OR (set_mask p OR snd s ! p))
                (o_ins (snd ix)) 0
      in (fold (\<lambda>t. AList.update t (fst ix)) (o_outs (snd ix) @ internal (flds (snd ix))) (fst s), snd s @ [a]))"

definition ancestors :: "op list \<Rightarrow> int list" where
  "ancestors xs = snd (fold ancestor_step (enumerate 0 xs) ([], []))"

text \<open>The ancestors of the op at \<open>fi\<close> that are in the partition, as positions in it.\<close>

definition project :: "(nat, nat) dict \<Rightarrow> int \<Rightarrow> int" where
  "project pos m =
     fold (\<lambda>j a. a OR (case map_of pos j of None \<Rightarrow> 0 | Some k \<Rightarrow> set_mask k)) (bits_of m) 0"

section \<open>Hazards and closure\<close>

definition conflict :: "op_rec list \<Rightarrow> (nat \<times> int \<times> int) list list \<Rightarrow> (nat \<times> int \<times> int) list list \<Rightarrow> nat \<Rightarrow> nat \<Rightarrow> bool" where
  "conflict recs rd wr j k =
     (or_op (recs ! j) \<in> serial_kinds \<or> or_op (recs ! k) \<in> serial_kinds \<or>
      overlap (wr ! j) (rd ! k @ wr ! k) \<or> overlap (rd ! j) (wr ! k))"

definition hazard_row :: "(nat \<Rightarrow> bool) \<Rightarrow> nat \<Rightarrow> int \<times> nat \<Rightarrow> int \<times> nat" where
  "hazard_row confl k mh =
     fold (\<lambda>j (m, h). if bit m j then (m, h) else if confl j then (m OR set_mask j, h + 1) else (m, h))
       [0..<k] mh"

definition close_row :: "int list \<Rightarrow> int \<Rightarrow> int" where
  "close_row A m = fold (\<lambda>j a. a OR A ! j) (bits_of m) m"

definition hazard_step :: "(nat \<Rightarrow> nat \<Rightarrow> bool) \<Rightarrow> nat \<Rightarrow> int list \<times> nat \<Rightarrow> int list \<times> nat" where
  "hazard_step confl k s =
     (let (m, h) = hazard_row (\<lambda>j. confl j k) k (fst s ! k, snd s);
          A = (fst s)[k := m]
      in (A[k := close_row A m], h))"

section \<open>Descendants, direct predecessors, lanes, widths\<close>

definition descendants :: "int list \<Rightarrow> int list" where
  "descendants A =
     fold (\<lambda>k D. fold (\<lambda>j D. D[j := D ! j OR set_mask k]) (bits_of (A ! k)) D) [0..<length A]
       (replicate (length A) 0)"

definition conc_masks :: "int list \<Rightarrow> int list" where
  "conc_masks A =
     (let D = descendants A; allm = set_mask (length A) - 1 in
      map (\<lambda>k. allm AND NOT (A ! k) AND NOT (D ! k) AND NOT (set_mask k)) [0..<length A])"

definition direct_preds :: "int list \<Rightarrow> nat list list" where
  "direct_preds A =
     map (\<lambda>k. let cover = fold (\<lambda>j c. c OR A ! j) (bits_of (A ! k)) 0 in sort (bits_of (A ! k AND NOT cover)))
       [0..<length A]"

record lane_state =
  ls_lane :: "nat list"
  ls_lanes :: "(string, nat) dict"
  ls_by_slot :: "(string, nat list) dict"

definition first_free :: "nat \<Rightarrow> nat list \<Rightarrow> nat" where
  "first_free n taken = (case List.find (\<lambda>x. x \<notin> set taken) [0..<n + 1] of None \<Rightarrow> 0 | Some x \<Rightarrow> x)"

definition lane_step :: "string list \<Rightarrow> int list \<Rightarrow> nat \<Rightarrow> lane_state \<Rightarrow> lane_state" where
  "lane_step slots conc k s =
     (let sid = slots ! k;
          taken = map (\<lambda>j. ls_lane s ! j) (filter (\<lambda>j. bit (conc ! k) j) (get_or (ls_by_slot s) sid []));
          ln = first_free (length slots) taken
      in \<lparr>ls_lane = (ls_lane s)[k := ln],
          ls_lanes = AList.update sid (max (get_or (ls_lanes s) sid 1) (ln + 1)) (ls_lanes s),
          ls_by_slot = append_to sid k (ls_by_slot s)\<rparr>)"

definition assign_lanes :: "string list \<Rightarrow> int list \<Rightarrow> lane_state" where
  "assign_lanes slots conc =
     fold (lane_step slots conc) [0..<length slots]
       \<lparr>ls_lane = replicate (length slots) 0, ls_lanes = [], ls_by_slot = []\<rparr>"

record chain_state =
  cs_of :: "nat list"
  cs_last :: "nat list"
  cs_mask :: "int list"

definition chain_step :: "int list \<Rightarrow> nat \<Rightarrow> chain_state \<Rightarrow> chain_state" where
  "chain_step A k s =
     (case List.find (\<lambda>c. bit (A ! k) (cs_last s ! c)) (rev [0..<length (cs_last s)]) of
        Some c \<Rightarrow> \<lparr>cs_of = (cs_of s)[k := c], cs_last = (cs_last s)[c := k],
                   cs_mask = (cs_mask s)[c := cs_mask s ! c OR set_mask k]\<rparr>
      | None \<Rightarrow> \<lparr>cs_of = (cs_of s)[k := length (cs_last s)], cs_last = cs_last s @ [k],
                 cs_mask = cs_mask s @ [set_mask k]\<rparr>)"

definition chains :: "int list \<Rightarrow> chain_state" where
  "chains A =
     fold (chain_step A) [0..<length A] \<lparr>cs_of = replicate (length A) 0, cs_last = [], cs_mask = []\<rparr>"

definition widths :: "int list \<Rightarrow> int list \<Rightarrow> nat list" where
  "widths A conc =
     (let s = chains A in
      map (\<lambda>k. 1 + length (filter (\<lambda>c. c \<noteq> cs_of s ! k \<and> (cs_mask s ! c) AND (conc ! k) \<noteq> 0)
                             [0..<length (cs_mask s)])) [0..<length A])"

section \<open>The plan\<close>

record conc_plan =
  cp_n :: nat
  cp_preds :: "nat list list"
  cp_lane :: "nat list"
  cp_lanes :: "(string, nat) dict"
  cp_width :: "nat list"
  cp_concurrent :: bool
  cp_hazards :: nat
  cp_max_width :: nat
  cp_policy :: string
  cp_stmts :: "string list"
  cp_slots :: "string list"
  cp_names :: "string list"

definition reads_of :: "op_rec list \<Rightarrow> conc_buf list \<Rightarrow> (nat \<times> int \<times> int) list list" where
  "reads_of recs bufs = map (\<lambda>r. ranges bufs (or_ins r)) recs"

definition writes_of :: "op_rec list \<Rightarrow> conc_op list \<Rightarrow> conc_buf list \<Rightarrow> (nat \<times> int \<times> int) list list" where
  "writes_of recs cos bufs = map (\<lambda>(r, c). ranges bufs (or_outs r @ co_scratch c)) (zip recs cos)"

definition dep_masks :: "op list \<Rightarrow> op_rec list \<Rightarrow> conc_op list \<Rightarrow> conc_buf list \<Rightarrow> int list \<times> nat" where
  "dep_masks xs recs cos bufs =
     (let full = map co_full cos;
          pos = dict_of (zip full [0..<length full]);
          A = map (\<lambda>fi. project pos (ancestors xs ! fi)) full
      in fold (hazard_step (conflict recs (reads_of recs bufs) (writes_of recs cos bufs))) [0..<length recs] (A, 0))"

text \<open>Every list access of the source is in range.\<close>

definition in_range :: "op list \<Rightarrow> op_rec list \<Rightarrow> conc_op list \<Rightarrow> conc_buf list \<Rightarrow> bool" where
  "in_range xs recs cos bufs =
     (length cos = length recs \<and> list_all (\<lambda>c. co_full c < length xs) cos \<and>
      list_all (\<lambda>r. list_all (\<lambda>b. b < length bufs) (or_ins r @ or_outs r)) recs \<and>
      list_all (\<lambda>c. list_all (\<lambda>b. b < length bufs) (co_scratch c)) cos)"

definition plan_schedule ::
  "op list \<Rightarrow> op_rec list \<Rightarrow> conc_op list \<Rightarrow> conc_buf list \<Rightarrow> string \<Rightarrow> conc_error + conc_plan" where
  "plan_schedule xs recs cos bufs policy =
     (if \<not> in_range xs recs cos bufs then Inl Index_Error
      else let (A, hazards) = dep_masks xs recs cos bufs;
               conc = conc_masks A;
               lanes = assign_lanes (map co_slot cos) conc;
               width = widths A conc
        in Inr \<lparr>cp_n = length recs, cp_preds = direct_preds A, cp_lane = ls_lane lanes,
                cp_lanes = filter (\<lambda>(s, v). v > 1) (ls_lanes lanes), cp_width = map (\<lambda>w. min w 32) width,
                cp_concurrent = list_ex (\<lambda>m. m \<noteq> 0) conc, cp_hazards = hazards,
                cp_max_width = (if width = [] then 1 else Max (set width)), cp_policy = policy,
                cp_stmts = map co_stmt cos, cp_slots = map co_slot cos, cp_names = map or_name recs\<rparr>)"

section \<open>Reports\<close>

record conc_summary =
  su_policy :: string
  su_concurrent :: bool
  su_details :: "(nat \<times> nat \<times> (string, nat) dict \<times> (string, nat) dict) option"

text \<open>The details: the maximal width, the hazard edges, the lanes and the branches.\<close>

definition summary :: "conc_plan option \<Rightarrow> string \<Rightarrow> conc_summary" where
  "summary sched policy =
     (case sched of
        None \<Rightarrow> \<lparr>su_policy = policy, su_concurrent = False, su_details = None\<rparr>
      | Some p \<Rightarrow>
          \<lparr>su_policy = policy, su_concurrent = cp_concurrent p,
           su_details = Some (cp_max_width p, cp_hazards p, cp_lanes p,
             dict_of (map (\<lambda>k. (cp_names p ! k, cp_width p ! k))
                        (filter (\<lambda>k. cp_width p ! k > 1) [0..<cp_n p])))\<rparr>)"

record slot_rec =
  sl_id :: string
  sl_semantics :: "string option"
  sl_width :: "nat option"

definition slot_note :: "nat \<Rightarrow> nat \<Rightarrow> string" where
  "slot_note w peers =
     newline @
     ''[concurrency] In the deployed model this op runs as one branch of a CUDA graph, '' @
     ''concurrently with up to '' @
     str_nat peers @
     '' independent sibling op(s) (often another instance of this same slot). It may get only '' @
     ''about 1/'' @
     str_nat w @
     '' of the SMs. Size any persistent, cooperative or spin-waiting grid with `mb_sm_budget()` '' @
     ''(declared in the harness: the SMs this op should plan for; all SMs when it runs alone) '' @
     ''instead of the device'' @
     [CHR 0x27] @
     ''s SM count, and never let blocks wait for blocks that are not '' @
     ''guaranteed to be resident (a kernel that needs all its blocks resident must launch at most '' @
     ''mb_sm_budget() x its blocks-per-SM). Keep static scratch per call site safe for two '' @
     ''instances running at once (the harness gives each concurrent instance its own copy of this '' @
     ''slot'' @
     [CHR 0x27] @
     ''s statics).''"

definition slot_widths :: "conc_plan \<Rightarrow> (string, nat) dict" where
  "slot_widths p =
     fold (\<lambda>k w. AList.update (cp_slots p ! k) (max (get_or w (cp_slots p ! k) 1) (cp_width p ! k)) w)
       [0..<cp_n p] []"

definition annotate_slots :: "slot_rec list \<Rightarrow> conc_plan \<Rightarrow> slot_rec list" where
  "annotate_slots slots p =
     map (\<lambda>s. let w = get_or (slot_widths p) (sl_id s) 1 in
              if w > 1
              then s\<lparr>sl_semantics := Some ((case sl_semantics s of None \<Rightarrow> [] | Some t \<Rightarrow> t) @ slot_note w (w - 1)),
                     sl_width := Some w\<rparr>
              else s) slots"

end
