(* ===== verification/Concurrency_Facts.thy ===== *)
theory Concurrency_Facts
  imports Concurrency
begin

text \<open>
  The plan of \<^verbatim>\<open>kb_concurrency.schedule\<close> is the transitive reduction of the order that data flow and
  buffer conflicts generate; ops it leaves unordered touch disjoint bytes and, when they share a
  slot, get different lanes.
\<close>

section \<open>Order relations on small numbers\<close>

lemma trancl_last: "(i, k) \<in> r\<^sup>+ \<longleftrightarrow> (i, k) \<in> r \<or> (\<exists>j. (i, j) \<in> r\<^sup>+ \<and> (j, k) \<in> r)"
  by (metis r_into_trancl trancl.trancl_into_trancl tranclE)

lemma trancl_less:
  assumes "(i, j) \<in> r\<^sup>+" "r \<subseteq> {(i, j). i < (j :: nat)}"
  shows "i < j"
  using assms by (induction rule: trancl_induct) auto

text \<open>The pairs with nothing in between generate a transitive relation.\<close>

definition covers :: "(nat \<times> nat) set \<Rightarrow> (nat \<times> nat) set" where
  "covers S = {(j, k). (j, k) \<in> S \<and> \<not> (\<exists>m. (j, m) \<in> S \<and> (m, k) \<in> S)}"

lemma covers_generate:
  assumes "trans S" "S \<subseteq> {(i, j). i < j}"
  shows "(covers S)\<^sup>+ = S"
proof
  have "covers S \<subseteq> S" by (auto simp: covers_def)
  then have "(covers S)\<^sup>+ \<subseteq> S\<^sup>+" by (rule trancl_mono_subset)
  then show "(covers S)\<^sup>+ \<subseteq> S" using assms(1) by (simp add: trancl_id)
  have "(j, k) \<in> S \<Longrightarrow> (j, k) \<in> (covers S)\<^sup>+" for j k
  proof (induction "k - j" arbitrary: j k rule: less_induct)
    case less
    show ?case
    proof (cases "(j, k) \<in> covers S")
      case False
      with less.prems obtain m where m: "(j, m) \<in> S" "(m, k) \<in> S" by (auto simp: covers_def)
      with assms(2) have lt: "j < m" "m < k" by auto
      have "(j, m) \<in> (covers S)\<^sup>+" by (rule less.hyps) (use lt m in auto)
      moreover have "(m, k) \<in> (covers S)\<^sup>+" by (rule less.hyps) (use lt m in auto)
      ultimately show ?thesis by (rule trancl_trans)
    qed auto
  qed
  then show "S \<subseteq> (covers S)\<^sup>+" by auto
qed

section \<open>Data flow in the whole graph\<close>

definition writes :: "op \<Rightarrow> string set" where
  "writes x = set (o_outs x) \<union> set (internal (flds x))"

primrec last_writer :: "op list \<Rightarrow> nat \<Rightarrow> string \<Rightarrow> nat option" where
  "last_writer xs 0 t = None"
| "last_writer xs (Suc k) t = (if t \<in> writes (xs ! k) then Some k else last_writer xs k t)"

text \<open>\<open>(p, j)\<close>: op \<open>j\<close> reads a tensor that op \<open>p\<close> wrote last.\<close>

definition flow :: "op list \<Rightarrow> (nat \<times> nat) set" where
  "flow xs = {(p, j). j < length xs \<and> (\<exists>t \<in> set (o_ins (xs ! j)). last_writer xs j t = Some p)}"

lemma last_writer_lt: "last_writer xs k t = Some p \<Longrightarrow> p < k"
  by (induction k) (auto split: if_splits)

lemma flow_lt: "flow xs \<subseteq> {(p, j). p < j}"
  by (auto simp: flow_def dest: last_writer_lt)

lemma ancestors_inv:
  fixes xs :: "op list"
  defines "P \<equiv> \<lambda>pre (s :: (string, nat) dict \<times> int list).
     (\<forall>t. map_of (fst s) t = last_writer xs (length pre) t) \<and> length (snd s) = length pre \<and>
     (\<forall>j < length pre. 0 \<le> snd s ! j \<and> (\<forall>i. bit (snd s ! j) i \<longleftrightarrow> (i, j) \<in> (flow xs)\<^sup>+))"
  shows "P (enumerate 0 xs) (fold ancestor_step (enumerate 0 xs) ([], []))"
proof (rule fold_prefix_inv)
  show "P [] ([], [])" by (simp add: P_def)
  fix pre ix post and s :: "(string, nat) dict \<times> int list"
  assume split: "enumerate 0 xs = pre @ ix # post" and I: "P pre s"
  let ?k = "length pre"
  have k: "?k < length xs" using arg_cong [OF split, of length] by simp
  have ix: "ix = (?k, xs ! ?k)" using arg_cong [OF split, of "\<lambda>l. l ! ?k"] k by (simp add: nth_enumerate_eq)
  define f where "f = (\<lambda>t. case map_of (fst s) t of None \<Rightarrow> 0 | Some p \<Rightarrow> set_mask p OR snd s ! p)"
  define a where "a = fold (\<lambda>t a. a OR f t) (o_ins (xs ! ?k)) 0"
  have lw: "map_of (fst s) t = last_writer xs ?k t" for t using I by (simp add: P_def)
  have anc: "0 \<le> snd s ! p \<and> (\<forall>i. bit (snd s ! p) i \<longleftrightarrow> (i, p) \<in> (flow xs)\<^sup>+)" if "p < ?k" for p
    using I that by (simp add: P_def)
  have "(\<lambda>t a. case map_of (fst s) t of None \<Rightarrow> a | Some p \<Rightarrow> a OR (set_mask p OR snd s ! p)) = (\<lambda>t a. a OR f t)"
    by (auto simp: f_def fun_eq_iff split: option.splits)
  then have step: "ancestor_step ix s =
      (fold (\<lambda>t. AList.update t ?k) (o_outs (xs ! ?k) @ internal (flds (xs ! ?k))) (fst s), snd s @ [a])"
    unfolding ancestor_step_def ix by (simp add: a_def Let_def)
  have f_nonneg: "0 \<le> f t" for t
    using anc lw last_writer_lt by (auto simp: f_def split: option.splits)
  have bit_f: "bit (f t) i \<longleftrightarrow> (\<exists>p. last_writer xs ?k t = Some p \<and> (i = p \<or> (i, p) \<in> (flow xs)\<^sup>+))" for t i
    using anc last_writer_lt by (auto simp: f_def lw bit_or_iff split: option.splits)
  have "bit a i \<longleftrightarrow> (i, ?k) \<in> (flow xs)\<^sup>+" for i
  proof -
    have "bit a i \<longleftrightarrow> (\<exists>p. (p, ?k) \<in> flow xs \<and> (i = p \<or> (i, p) \<in> (flow xs)\<^sup>+))"
      unfolding a_def fold_or_bit bit_f using k by (auto simp: flow_def)
    then show ?thesis unfolding trancl_last [of i ?k] by blast
  qed
  moreover have "0 \<le> a" unfolding a_def by (rule fold_or_nonneg) (simp_all add: f_nonneg)
  moreover have "map_of (fst (ancestor_step ix s)) t = last_writer xs (Suc ?k) t" for t
    unfolding step by (simp add: map_of_fold_same lw writes_def)
  ultimately show "P (pre @ [ix]) (ancestor_step ix s)"
    using I unfolding P_def step by (auto simp: nth_append less_Suc_eq)
qed

lemma ancestors_flow:
  "length (ancestors xs) = length xs \<and>
   (\<forall>j < length xs. 0 \<le> ancestors xs ! j \<and> (\<forall>i. bit (ancestors xs ! j) i \<longleftrightarrow> (i, j) \<in> (flow xs)\<^sup>+))"
  using ancestors_inv [of xs] by (simp add: ancestors_def)

section \<open>Projection to the partition\<close>

lemma map_of_positions:
  assumes "distinct full"
  shows "map_of (dict_of (zip full [0..<length full])) x = Some k \<longleftrightarrow> k < length full \<and> full ! k = x"
proof -
  have d: "distinct (map fst (zip full [0..<length full]))" using assms by simp
  then show ?thesis by (auto simp: dict_of_distinct in_set_zip)
qed

lemma project_bit:
  assumes "distinct full" "0 \<le> m"
  shows "bit (project (dict_of (zip full [0..<length full])) m) k \<longleftrightarrow> k < length full \<and> bit m (full ! k)"
    and "0 \<le> project (dict_of (zip full [0..<length full])) m"
proof -
  let ?pos = "dict_of (zip full [0..<length full])"
  have "bit (case map_of ?pos j of None \<Rightarrow> 0 | Some k \<Rightarrow> set_mask k) k \<longleftrightarrow> map_of ?pos j = Some k" for j
    by (auto split: option.splits)
  then show "bit (project ?pos m) k \<longleftrightarrow> k < length full \<and> bit m (full ! k)"
    using assms by (auto simp: project_def fold_or_bit map_of_positions)
  show "0 \<le> project ?pos m"
    unfolding project_def by (rule fold_or_nonneg) (auto split: option.splits)
qed

section \<open>The closed order\<close>

lemma hazard_row_bit:
  "bit (fst (hazard_row confl k mh)) i \<longleftrightarrow> bit (fst mh) i \<or> i < k \<and> confl i"
  "0 \<le> fst mh \<Longrightarrow> 0 \<le> fst (hazard_row confl k mh)"
proof -
  let ?f = "\<lambda>j (m, h). if bit m j then (m, h) else if confl j then (m OR set_mask j, h + 1) else (m, h :: nat)"
  have "(bit (fst (fold ?f [0..<k] mh)) i \<longleftrightarrow> bit (fst mh) i \<or> i < k \<and> confl i) \<and>
      (0 \<le> fst mh \<longrightarrow> 0 \<le> fst (fold ?f [0..<k] mh))" for i
  proof (induction k)
    case (Suc k)
    obtain m h where mh: "fold ?f [0..<k] mh = (m, h)" by fastforce
    from Suc show ?case unfolding upt_Suc_append [OF le0] fold_append comp_def mh
      by (auto simp: bit_or_iff less_Suc_eq)
  qed simp
  then show "bit (fst (hazard_row confl k mh)) i \<longleftrightarrow> bit (fst mh) i \<or> i < k \<and> confl i"
    and "0 \<le> fst mh \<Longrightarrow> 0 \<le> fst (hazard_row confl k mh)"
    by (simp_all add: hazard_row_def)
qed

lemma close_row_bit:
  "0 \<le> m \<Longrightarrow> bit (close_row A m) i \<longleftrightarrow> bit m i \<or> (\<exists>j. bit m j \<and> bit (A ! j) i)"
  by (simp add: close_row_def fold_or_bit)

text \<open>
  One step per op: when row \<open>k\<close> starts with pairs of \<open>base\<close>, it ends as the predecessors of \<open>k\<close> in the
  transitive closure of \<open>base\<close> and the conflicts.
\<close>

lemma closed_rows:
  fixes h :: nat and base :: "(nat \<times> nat) set" and A0 :: "int list" and confl :: "nat \<Rightarrow> nat \<Rightarrow> bool"
  assumes base: "base \<subseteq> {(j, k). j < k}" "\<forall>k < length A0. 0 \<le> A0 ! k \<and> (\<forall>j. bit (A0 ! k) j \<longleftrightarrow> (j, k) \<in> base)"
  defines "R \<equiv> base \<union> {(j, k). j < k \<and> confl j k}"
  defines "A \<equiv> fst (fold (hazard_step confl) [0..<length A0] (A0, h))"
  shows "length A = length A0 \<and> (\<forall>k < length A0. 0 \<le> A ! k \<and> (\<forall>j. bit (A ! k) j \<longleftrightarrow> (j, k) \<in> R\<^sup>+))"
proof -
  have less: "R \<subseteq> {(j, k). j < k}" using base(1) by (auto simp: R_def)
  define P where "P k (s :: int list \<times> nat) \<longleftrightarrow> length (fst s) = length A0 \<and>
     (\<forall>i < length A0. 0 \<le> fst s ! i) \<and> (\<forall>i. k \<le> i \<longrightarrow> i < length A0 \<longrightarrow> fst s ! i = A0 ! i) \<and>
     (\<forall>i < k. \<forall>j. bit (fst s ! i) j \<longleftrightarrow> (j, i) \<in> R\<^sup>+)" for k s
  have "n \<le> length A0 \<Longrightarrow> P n (fold (hazard_step confl) [0..<n] (A0, h))" for n
  proof (induction n)
    case 0
    show ?case using base(2) by (simp add: P_def)
  next
    case (Suc k)
    define s where "s = fold (hazard_step confl) [0..<k] (A0, h)"
    have I: "P k s" and k: "k < length A0" using Suc by (simp_all add: s_def)
    obtain m h' where m: "hazard_row (\<lambda>j. confl j k) k (fst s ! k, snd s) = (m, h')" by fastforce
    have row: "fst s ! k = A0 ! k" "0 \<le> A0 ! k" using I k base(2) by (auto simp: P_def)
    have bit_m: "bit m j \<longleftrightarrow> (j, k) \<in> R" for j
      using hazard_row_bit(1) [of "\<lambda>j. confl j k" k "(fst s ! k, snd s)" j] m row base(2) k by (simp add: R_def)
    have m0: "0 \<le> m" using hazard_row_bit(2) [of "(fst s ! k, snd s)" "\<lambda>j. confl j k" k] m row by simp
    define A' where "A' = (fst s)[k := m]"
    have len: "length A' = length A0" using I by (simp add: A'_def P_def)
    have step: "hazard_step confl k s = (A'[k := close_row A' m], h')"
      by (simp add: hazard_step_def m A'_def)
    have old: "A' ! j = fst s ! j" if "j < k" for j using that by (simp add: A'_def)
    have row_i: "bit (A' ! i) j \<longleftrightarrow> (j, i) \<in> R\<^sup>+" if "(i, k) \<in> R" for i j
    proof -
      have "i < k" using less that by auto
      then show ?thesis using old I unfolding P_def by simp
    qed
    have "bit (close_row A' m) j \<longleftrightarrow> (j, k) \<in> R\<^sup>+" for j
    proof -
      have "bit (close_row A' m) j \<longleftrightarrow> (j, k) \<in> R \<or> (\<exists>i. (i, k) \<in> R \<and> bit (A' ! i) j)"
        by (simp add: close_row_bit [OF m0] bit_m)
      also have "\<dots> \<longleftrightarrow> (j, k) \<in> R \<or> (\<exists>i. (i, k) \<in> R \<and> (j, i) \<in> R\<^sup>+)"
        using row_i by blast
      finally show ?thesis unfolding trancl_last [of j k] by blast
    qed
    moreover have "0 \<le> close_row A' m"
      unfolding close_row_def
    proof (rule fold_or_nonneg [OF m0])
      fix j assume "j \<in> set (bits_of m)"
      then have "j < k" using less m0 by (auto simp: bit_m)
      then show "0 \<le> A' ! j" using old I k by (simp add: P_def)
    qed
    moreover note I k len
    ultimately have "P (Suc k) (hazard_step confl k s)"
      unfolding P_def step by (auto simp: A'_def nth_list_update less_Suc_eq)
    then show ?case by (simp add: s_def)
  qed
  from this [of "length A0"] show ?thesis by (simp add: P_def A_def)
qed

section \<open>Descendants and concurrency\<close>

lemma add_column:
  "\<forall>j \<in> set js. j < length D \<Longrightarrow>
   length (fold (\<lambda>j D. D[j := D ! j OR set_mask k]) js D) = length D \<and>
   (\<forall>i < length D. bit (fold (\<lambda>j D. D[j := D ! j OR set_mask k]) js D ! i) q \<longleftrightarrow>
      bit (D ! i) q \<or> i \<in> set js \<and> q = k)"
  by (induction js arbitrary: D) (auto simp: nth_list_update bit_or_iff)

lemma descendants_bit:
  assumes "\<forall>k < length A. 0 \<le> A ! k \<and> (\<forall>j. bit (A ! k) j \<longrightarrow> j < length A)"
  shows "length (descendants A) = length A \<and>
         (\<forall>i < length A. \<forall>q. bit (descendants A ! i) q \<longleftrightarrow> q < length A \<and> bit (A ! q) i)"
proof -
  let ?f = "\<lambda>k D. fold (\<lambda>j D. D[j := D ! j OR set_mask k]) (bits_of (A ! k)) D"
  have "n \<le> length A \<Longrightarrow> length (fold ?f [0..<n] (replicate (length A) 0)) = length A \<and>
     (\<forall>i < length A. \<forall>q. bit (fold ?f [0..<n] (replicate (length A) 0) ! i) q \<longleftrightarrow> q < n \<and> bit (A ! q) i)" for n
  proof (induction n)
    case (Suc n)
    define D where "D = fold ?f [0..<n] (replicate (length A) 0)"
    have D: "length D = length A" "\<forall>i < length A. \<forall>q. bit (D ! i) q \<longleftrightarrow> q < n \<and> bit (A ! q) i"
      using Suc by (simp_all add: D_def)
    have n: "n < length A" using Suc.prems by simp
    have js: "\<forall>j \<in> set (bits_of (A ! n)). j < length D" using assms n D(1) by simp
    have "fold ?f [0..<Suc n] (replicate (length A) 0) = ?f n D" by (simp add: D_def)
    with add_column [OF js, of n] D n assms show ?case by (auto simp: less_Suc_eq)
  qed simp
  from this [of "length A"] show ?thesis by (simp add: descendants_def)
qed

lemma conc_bit:
  assumes "\<forall>k < length A. 0 \<le> A ! k \<and> (\<forall>j. bit (A ! k) j \<longrightarrow> j < length A)" "k < length A"
  shows "length (conc_masks A) = length A"
    and "0 \<le> conc_masks A ! k"
    and "bit (conc_masks A ! k) j \<longleftrightarrow> j < length A \<and> j \<noteq> k \<and> \<not> bit (A ! k) j \<and> \<not> bit (A ! j) k"
proof -
  have all: "bit (set_mask (length A) - 1) j \<longleftrightarrow> j < length A" for j
    by (simp add: set_mask_power bit_mask_iff flip: mask_eq_exp_minus_1)
  have "0 \<le> set_mask (length A) - 1" by (simp add: set_mask_power)
  then show "0 \<le> conc_masks A ! k" using assms(2) by (simp add: conc_masks_def Let_def)
  show "length (conc_masks A) = length A" by (simp add: conc_masks_def)
  show "bit (conc_masks A ! k) j \<longleftrightarrow> j < length A \<and> j \<noteq> k \<and> \<not> bit (A ! k) j \<and> \<not> bit (A ! j) k"
    using assms(2) descendants_bit [OF assms(1)]
    by (auto simp: conc_masks_def Let_def bit_and_iff bit_not_iff all)
qed

section \<open>Direct predecessors\<close>

lemma direct_preds_covers:
  assumes "k < length A" "\<forall>k < length A. 0 \<le> A ! k \<and> (\<forall>j. bit (A ! k) j \<longleftrightarrow> (j, k) \<in> S)"
    and "S \<subseteq> {(i, j). i < j}"
  shows "length (direct_preds A) = length A" "set (direct_preds A ! k) = {j. (j, k) \<in> covers S}"
proof -
  define cover where "cover = fold (\<lambda>j c. c OR A ! j) (bits_of (A ! k)) 0"
  have lt: "j < length A" if "(j, k) \<in> S" for j using that assms(1,3) by auto
  have "bit cover i \<longleftrightarrow> (\<exists>m. (m, k) \<in> S \<and> (i, m) \<in> S)" for i
    using assms(1,2) lt by (auto simp: cover_def fold_or_bit)
  moreover have "0 \<le> A ! k AND NOT cover" using assms(1,2) by simp
  ultimately show "set (direct_preds A ! k) = {j. (j, k) \<in> covers S}"
    using assms(1,2) by (auto simp: direct_preds_def Let_def bit_and_iff bit_not_iff covers_def simp flip: cover_def)
  show "length (direct_preds A) = length A" by (simp add: direct_preds_def)
qed

section \<open>Lanes\<close>

lemma first_free_fresh:
  assumes "length taken \<le> n"
  shows "first_free n taken \<notin> set taken \<and> first_free n taken \<le> n"
proof -
  have "\<not> set [0..<n + 1] \<subseteq> set taken"
  proof
    assume "set [0..<n + 1] \<subseteq> set taken"
    then have "card (set [0..<n + 1]) \<le> card (set taken)" by (rule card_mono [OF finite_set])
    with card_length [of taken] assms show False by simp
  qed
  then obtain x where x: "List.find (\<lambda>x. x \<notin> set taken) [0..<n + 1] = Some x"
    by (cases "List.find (\<lambda>x. x \<notin> set taken) [0..<n + 1]") (auto simp: find_None_iff simp del: upt_Suc)
  then have "x \<notin> set taken \<and> x \<le> n" by (auto simp: find_Some_iff simp del: upt_Suc)
  then show ?thesis unfolding first_free_def x by simp
qed

definition lanes_ok :: "string list \<Rightarrow> int list \<Rightarrow> nat \<Rightarrow> lane_state \<Rightarrow> bool" where
  "lanes_ok slots conc k s \<longleftrightarrow>
     length (ls_lane s) = length slots \<and> distinct (keys (ls_lanes s)) \<and>
     (\<forall>sid. get_or (ls_by_slot s) sid [] = filter (\<lambda>j. slots ! j = sid) [0..<k]) \<and>
     (\<forall>j < k. ls_lane s ! j < get_or (ls_lanes s) (slots ! j) 1) \<and>
     (\<forall>j < k. \<forall>i < j. slots ! i = slots ! j \<longrightarrow> bit (conc ! j) i \<longrightarrow> ls_lane s ! i \<noteq> ls_lane s ! j)"

lemma lane_step_ok:
  assumes I: "lanes_ok slots conc k s" and k: "k < length slots"
  shows "lanes_ok slots conc (Suc k) (lane_step slots conc k s)"
proof -
  let ?sid = "slots ! k"
  let ?taken = "map (\<lambda>j. ls_lane s ! j) (filter (\<lambda>j. bit (conc ! k) j) (filter (\<lambda>j. slots ! j = ?sid) [0..<k]))"
  define ln where "ln = first_free (length slots) ?taken"
  have by_slot: "get_or (ls_by_slot s) sid [] = filter (\<lambda>j. slots ! j = sid) [0..<k]" for sid
    using I by (simp add: lanes_ok_def)
  have len: "length (ls_lane s) = length slots" using I by (simp add: lanes_ok_def)
  have "length ?taken \<le> length [0..<k]" unfolding length_map by (rule order_trans [OF length_filter_le length_filter_le])
  with k have fresh: "ln \<notin> set ?taken" unfolding ln_def by (intro conjunct1 [OF first_free_fresh]) simp
  define s' where "s' = lane_step slots conc k s"
  have lane': "ls_lane s' = (ls_lane s)[k := ln]" unfolding s'_def
    by (simp add: lane_step_def Let_def by_slot ln_def)
  have lanes': "ls_lanes s' = AList.update ?sid (max (get_or (ls_lanes s) ?sid 1) (ln + 1)) (ls_lanes s)"
    unfolding s'_def by (simp add: lane_step_def Let_def by_slot ln_def)
  have slot': "get_or (ls_by_slot s') sid [] = filter (\<lambda>j. slots ! j = sid) [0..<Suc k]" for sid
    using by_slot [of sid] by_slot [of ?sid] unfolding s'_def by (simp add: lane_step_def Let_def get_or_append_to)
  have count: "ls_lane s' ! j < get_or (ls_lanes s') (slots ! j) 1" if "j < Suc k" for j
  proof (cases "j = k")
    case True
    then show ?thesis using k len by (simp add: lane' lanes' get_or_def)
  next
    case False
    then have "ls_lane s ! j < get_or (ls_lanes s) (slots ! j) 1" using that I by (simp add: lanes_ok_def)
    then show ?thesis using False by (auto simp: lane' lanes' get_or_def split: option.splits)
  qed
  have diff: "ls_lane s' ! i \<noteq> ls_lane s' ! j"
    if "j < Suc k" "i < j" "slots ! i = slots ! j" "bit (conc ! j) i" for i j
  proof (cases "j = k")
    case True
    with that have "ls_lane s ! i \<in> set ?taken" by auto
    with fresh True that k len show ?thesis by (auto simp: lane')
  next
    case False
    with that I show ?thesis by (auto simp: lane' lanes_ok_def)
  qed
  have "distinct (keys (ls_lanes s'))" using I unfolding lanes' by (intro distinct_keys_update) (simp add: lanes_ok_def)
  then show ?thesis using len slot' count diff unfolding lanes_ok_def s'_def [symmetric] by (simp add: lane')
qed

lemma assign_lanes_ok: "lanes_ok slots conc (length slots) (assign_lanes slots conc)"
proof -
  have "n \<le> length slots \<Longrightarrow> lanes_ok slots conc n (fold (lane_step slots conc) [0..<n]
      \<lparr>ls_lane = replicate (length slots) 0, ls_lanes = [], ls_by_slot = []\<rparr>)" for n
  proof (induction n)
    case 0
    show ?case by (simp add: lanes_ok_def get_or_def keys_def)
  next
    case (Suc n)
    then show ?case by (simp add: lane_step_ok)
  qed
  then show ?thesis by (simp add: assign_lanes_def)
qed

text \<open>Dropping the slots with one lane keeps the bound.\<close>

lemma get_or_filter_above:
  assumes "(l :: nat) < get_or d s 1" "distinct (keys d)"
  shows "l < get_or (filter (\<lambda>(s, v). v > 1) d) s 1"
proof (cases "map_of d s")
  case None
  then have "map_of (filter (\<lambda>(s, v). v > 1) d) s = None" by (auto simp: map_of_eq_None_iff)
  with assms(1) None show ?thesis by (simp add: get_or_def)
next
  case (Some v)
  have d: "distinct (map fst (filter (\<lambda>(s, v). v > 1) d))" using assms(2) by (simp add: keys_def distinct_map_filter)
  show ?thesis
  proof (cases "v > 1")
    case True
    with Some have "(s, v) \<in> set (filter (\<lambda>(s, v). v > 1) d)" by (auto dest: map_of_SomeD)
    with d have "map_of (filter (\<lambda>(s, v). v > 1) d) s = Some v" by simp
    with assms(1) Some show ?thesis by (simp add: get_or_def)
  next
    case False
    with assms(1) Some show ?thesis by (auto simp: get_or_def split: option.splits dest!: map_of_SomeD)
  qed
qed

section \<open>What a plan guarantees\<close>

text \<open>The bytes a list of buffers occupies, on the base buffers.\<close>

definition bytes_of :: "conc_buf list \<Rightarrow> nat list \<Rightarrow> (nat \<times> int) set" where
  "bytes_of bufs ids =
     (\<Union>b \<in> set ids. case cb_alias (bufs ! b) of
        None \<Rightarrow> {b} \<times> {0 ..< max (cb_numel (bufs ! b)) 1}
      | Some (base, off) \<Rightarrow> {base} \<times> {off ..< off + max (cb_numel (bufs ! b)) 1})"

lemma overlap_bytes:
  "overlap (ranges bufs xs) (ranges bufs ys) \<longleftrightarrow> bytes_of bufs xs \<inter> bytes_of bufs ys \<noteq> {}"
proof -
  define lo where "lo b = (case cb_alias (bufs ! b) of None \<Rightarrow> 0 | Some a \<Rightarrow> snd a)" for b
  define base where "base b = (case cb_alias (bufs ! b) of None \<Rightarrow> b | Some a \<Rightarrow> fst a)" for b
  define n where "n b = max (cb_numel (bufs ! b)) 1" for b
  have r: "ranges bufs ids = map (\<lambda>b. (base b, lo b, lo b + n b)) ids" for ids
    by (auto simp: ranges_def base_def lo_def n_def split: option.splits)
  have b: "bytes_of bufs ids = (\<Union>b \<in> set ids. {base b} \<times> {lo b ..< lo b + n b})" for ids
    unfolding bytes_of_def
    by (intro SUP_cong refl) (auto simp: base_def lo_def n_def split: option.splits)
  have pos: "0 < n b" for b by (simp add: n_def)
  have meet: "({base x} \<times> {lo x ..< lo x + n x}) \<inter> ({base y} \<times> {lo y ..< lo y + n y}) \<noteq> {} \<longleftrightarrow>
      base x = base y \<and> lo x < lo y + n y \<and> lo y < lo x + n x" for x y
  proof
    assume "base x = base y \<and> lo x < lo y + n y \<and> lo y < lo x + n x"
    with pos [of x] pos [of y] have "(base x, max (lo x) (lo y)) \<in>
        ({base x} \<times> {lo x ..< lo x + n x}) \<inter> ({base y} \<times> {lo y ..< lo y + n y})" by auto
    then show "({base x} \<times> {lo x ..< lo x + n x}) \<inter> ({base y} \<times> {lo y ..< lo y + n y}) \<noteq> {}" by blast
  qed auto
  have "overlap (ranges bufs xs) (ranges bufs ys) \<longleftrightarrow>
      (\<exists>x \<in> set xs. \<exists>y \<in> set ys. base x = base y \<and> lo x < lo y + n y \<and> lo y < lo x + n x)"
    by (simp add: overlap_def r list_ex_iff)
  also have "\<dots> \<longleftrightarrow> bytes_of bufs xs \<inter> bytes_of bufs ys \<noteq> {}"
    unfolding b meet [symmetric] by blast
  finally show ?thesis .
qed

text \<open>
  The pairs that must stay ordered: data flows from one to the other through the whole graph, or the
  later one writes bytes the earlier one touches, or reads bytes the earlier one writes.
\<close>

definition must_order :: "op list \<Rightarrow> op_rec list \<Rightarrow> conc_op list \<Rightarrow> conc_buf list \<Rightarrow> (nat \<times> nat) set" where
  "must_order xs recs cos bufs =
     {(j, k). j < k \<and> k < length recs \<and>
        ((co_full (cos ! j), co_full (cos ! k)) \<in> (flow xs)\<^sup>+ \<or>
         or_op (recs ! j) \<in> serial_kinds \<or> or_op (recs ! k) \<in> serial_kinds \<or>
         bytes_of bufs (or_outs (recs ! j) @ co_scratch (cos ! j)) \<inter>
           bytes_of bufs (or_ins (recs ! k) @ or_outs (recs ! k) @ co_scratch (cos ! k)) \<noteq> {} \<or>
         bytes_of bufs (or_ins (recs ! j)) \<inter> bytes_of bufs (or_outs (recs ! k) @ co_scratch (cos ! k)) \<noteq> {})}"

lemma bytes_of_append: "bytes_of bufs (xs @ ys) = bytes_of bufs xs \<union> bytes_of bufs ys"
  by (auto simp: bytes_of_def)

lemma conflict_bytes:
  assumes "length cos = length recs" "j < length recs" "k < length recs"
  shows "conflict recs (reads_of recs bufs) (writes_of recs cos bufs) j k \<longleftrightarrow>
     or_op (recs ! j) \<in> serial_kinds \<or> or_op (recs ! k) \<in> serial_kinds \<or>
     bytes_of bufs (or_outs (recs ! j) @ co_scratch (cos ! j)) \<inter>
       bytes_of bufs (or_ins (recs ! k) @ or_outs (recs ! k) @ co_scratch (cos ! k)) \<noteq> {} \<or>
     bytes_of bufs (or_ins (recs ! j)) \<inter> bytes_of bufs (or_outs (recs ! k) @ co_scratch (cos ! k)) \<noteq> {}"
proof -
  have rd: "reads_of recs bufs ! i = ranges bufs (or_ins (recs ! i))" if "i < length recs" for i
    using that by (simp add: reads_of_def)
  have wr: "writes_of recs cos bufs ! i = ranges bufs (or_outs (recs ! i) @ co_scratch (cos ! i))"
    if "i < length recs" for i
    using that assms(1) by (simp add: writes_of_def)
  have rw: "overlap w (ranges bufs a @ ranges bufs b) \<longleftrightarrow> overlap w (ranges bufs (a @ b))" for w a b
    by (simp add: ranges_def)
  show ?thesis
    unfolding conflict_def rd [OF assms(2)] rd [OF assms(3)] wr [OF assms(2)] wr [OF assms(3)] rw overlap_bytes ..
qed

text \<open>The masks a plan is made from are the generated order.\<close>

lemma dep_masks_order:
  assumes "in_range xs recs cos bufs" "sorted_wrt (<) (map co_full cos)"
  defines "A \<equiv> fst (dep_masks xs recs cos bufs)" and "S \<equiv> (must_order xs recs cos bufs)\<^sup>+"
  shows "length A = length recs \<and> (\<forall>k < length recs. 0 \<le> A ! k \<and> (\<forall>j. bit (A ! k) j \<longleftrightarrow> (j, k) \<in> S))"
proof -
  let ?n = "length recs"
  let ?confl = "conflict recs (reads_of recs bufs) (writes_of recs cos bufs)"
  define full where "full = map co_full cos"
  define A0 where "A0 = map (\<lambda>fi. project (dict_of (zip full [0..<length full])) (ancestors xs ! fi)) full"
  define base where "base = {(j, k). j < k \<and> k < ?n \<and> (full ! j, full ! k) \<in> (flow xs)\<^sup>+}"
  have len: "length full = ?n" "length cos = ?n" using assms(1) by (simp_all add: full_def in_range_def)
  have dist: "distinct full" using assms(2) unfolding full_def [symmetric] by (simp add: strict_sorted_iff)
  have lt: "full ! k < length xs" if "k < ?n" for k
    using assms(1) that len by (simp add: full_def in_range_def list_all_length)
  have before: "j < k" if "(full ! j, full ! k) \<in> (flow xs)\<^sup>+" "j < ?n" "k < ?n" for j k
  proof (rule ccontr)
    assume "\<not> j < k"
    then have "full ! k \<le> full ! j"
      using assms(2) that len by (metis full_def le_neq_implies_less less_imp_le_nat not_less order_refl sorted_wrt_nth_less)
    with trancl_less [OF that(1) flow_lt] show False by simp
  qed
  have rows: "0 \<le> A0 ! k \<and> (\<forall>j. bit (A0 ! k) j \<longleftrightarrow> (j, k) \<in> base)" if k: "k < length A0" for k
  proof -
    have kn: "k < ?n" using k len by (simp add: A0_def)
    have row: "A0 ! k = project (dict_of (zip full [0..<length full])) (ancestors xs ! (full ! k))"
      using kn len by (simp add: A0_def)
    have anc: "0 \<le> ancestors xs ! (full ! k)" "bit (ancestors xs ! (full ! k)) i \<longleftrightarrow> (i, full ! k) \<in> (flow xs)\<^sup>+" for i
      using ancestors_flow [of xs] lt [OF kn] by auto
    show ?thesis
      unfolding row project_bit(1) [OF dist anc(1)] anc(2) using project_bit(2) [OF dist anc(1)] before kn len
      by (auto simp: base_def)
  qed
  have less: "base \<subseteq> {(j, k). j < k}" by (auto simp: base_def)
  have A: "A = fst (fold (hazard_step ?confl) [0..<length A0] (A0, 0))"
    using len by (simp add: A_def dep_masks_def Let_def A0_def full_def)
  have C: "length A = ?n \<and> (\<forall>k < ?n. 0 \<le> A ! k \<and>
      (\<forall>j. bit (A ! k) j \<longleftrightarrow> (j, k) \<in> (base \<union> {(j, k). j < k \<and> ?confl j k})\<^sup>+))"
    using closed_rows [of base A0 ?confl 0] less rows len unfolding A by (simp add: A0_def)
  let ?R = "base \<union> {(j, k). j < k \<and> ?confl j k}"
  have up: "(j, k) \<in> ?R\<^sup>+ \<longleftrightarrow> (j, k) \<in> S" if "k < ?n" for j k
  proof -
    have same: "(a, b) \<in> ?R \<longleftrightarrow> (a, b) \<in> must_order xs recs cos bufs" if "b < ?n" for a b
      using that len conflict_bytes [of cos recs a b bufs] by (auto simp: base_def must_order_def full_def)
    have lt: "a < b" if "(a, b) \<in> ?R" for a b using that by (auto simp: base_def)
    have "(j, b) \<in> ?R\<^sup>+ \<Longrightarrow> b < ?n \<Longrightarrow> (j, b) \<in> S" for b
    proof (induction rule: trancl_induct)
      case (base y)
      then show ?case unfolding S_def using same [OF base.prems] by blast
    next
      case (step y z)
      with lt [OF step.hyps(2)] same show ?case unfolding S_def by (meson less_trans trancl.trancl_into_trancl)
    qed
    moreover have "(j, b) \<in> S \<Longrightarrow> b < ?n \<Longrightarrow> (j, b) \<in> ?R\<^sup>+" for b
      unfolding S_def
    proof (induction rule: trancl_induct)
      case (step y z)
      have "y < z" using step.hyps(2) by (auto simp: must_order_def)
      with step same show ?case by (meson less_trans trancl.trancl_into_trancl)
    qed (use same in blast)
    ultimately show ?thesis using that by blast
  qed
  show ?thesis using C up by simp
qed

text \<open>The order a launch of the plan keeps: along the direct predecessors.\<close>

definition plan_edges :: "conc_plan \<Rightarrow> (nat \<times> nat) set" where
  "plan_edges p = {(j, k). k < cp_n p \<and> j \<in> set (cp_preds p ! k)}"

lemma must_order_range: "(must_order xs recs cos bufs)\<^sup>+ \<subseteq> {(j, k). j < k \<and> k < length recs}"
proof clarify
  fix j k assume *: "(j, k) \<in> (must_order xs recs cos bufs)\<^sup>+"
  have "must_order xs recs cos bufs \<subseteq> {(i, j). i < j}" by (auto simp: must_order_def)
  from trancl_less [OF * this] have "j < k" .
  moreover have "k < length recs" using * by (cases rule: tranclE) (auto simp: must_order_def)
  ultimately show "j < k \<and> k < length recs" ..
qed

lemma plan_parts:
  assumes "plan_schedule xs recs cos bufs policy = Inr p"
  defines "A \<equiv> fst (dep_masks xs recs cos bufs)"
  shows "in_range xs recs cos bufs" "cp_n p = length recs" "cp_preds p = direct_preds A"
    "cp_slots p = map co_slot cos" "cp_lane p = ls_lane (assign_lanes (map co_slot cos) (conc_masks A))"
    "cp_lanes p = filter (\<lambda>(s, v). v > 1) (ls_lanes (assign_lanes (map co_slot cos) (conc_masks A)))"
  using assms(1) by (auto simp: plan_schedule_def Let_def A_def split: prod.splits if_splits)

lemma plan_edges_covers:
  assumes "plan_schedule xs recs cos bufs policy = Inr p" "sorted_wrt (<) (map co_full cos)"
  shows "plan_edges p = covers ((must_order xs recs cos bufs)\<^sup>+)"
    and "(plan_edges p)\<^sup>+ = (must_order xs recs cos bufs)\<^sup>+"
proof -
  let ?S = "(must_order xs recs cos bufs)\<^sup>+"
  let ?A = "fst (dep_masks xs recs cos bufs)"
  note P = plan_parts [OF assms(1)]
  note D = dep_masks_order [OF P(1) assms(2)]
  have less: "?S \<subseteq> {(i, j). i < j}" using must_order_range [of xs recs cos bufs] by auto
  have len: "length ?A = length recs" using D by blast
  have masks: "\<forall>k < length ?A. 0 \<le> ?A ! k \<and> (\<forall>j. bit (?A ! k) j \<longleftrightarrow> (j, k) \<in> ?S)" unfolding len using D by blast
  have row: "set (cp_preds p ! k) = {j. (j, k) \<in> covers ?S}" if "k < length recs" for k
    unfolding P(3) using that len by (intro direct_preds_covers(2) [OF _ masks less]) simp
  show e: "plan_edges p = covers ?S"
  proof (intro set_eqI)
    fix x :: "nat \<times> nat"
    obtain j k where x: "x = (j, k)" by fastforce
    have "(j, k) \<in> covers ?S \<Longrightarrow> k < length recs" using must_order_range [of xs recs cos bufs] by (auto simp: covers_def)
    then show "x \<in> plan_edges p \<longleftrightarrow> x \<in> covers ?S" using row unfolding x plan_edges_def P(2) by auto
  qed
  show "(plan_edges p)\<^sup>+ = ?S" unfolding e by (rule covers_generate [OF trans_trancl less])
qed

text \<open>
  C12. For a partition listed in IR order, the direct predecessors of a concurrency plan generate exactly
  the order that data flow (through the whole graph) and buffer conflicts demand, and none of them is
  implied by the others: the plan is the transitive reduction of that order.
\<close>
theorem plan_is_reduction:
  assumes "plan_schedule xs recs cos bufs policy = Inr p" "sorted_wrt (<) (map co_full cos)"
  shows "(plan_edges p)\<^sup>+ = (must_order xs recs cos bufs)\<^sup>+ \<and>
         (\<forall>j k. (j, k) \<in> plan_edges p \<longrightarrow> \<not> (\<exists>m. (j, m) \<in> (plan_edges p)\<^sup>+ \<and> (m, k) \<in> (plan_edges p)\<^sup>+))"
  using plan_edges_covers [OF assms] by (auto simp: covers_def)

definition conc_demo :: "(op list \<times> op_rec list) \<times> conc_op list \<times> conc_buf list" where
  "conc_demo =
     (([mk_op ''a'' ''gru_seq'' (Some 0) [] [''x''] [''f''], mk_op ''b'' ''gru_seq'' (Some 1) [] [''x''] [''r''],
        mk_op ''c'' ''catn'' (Some 2) [0, 1] [''f'', ''r''] [''y'']],
       [\<lparr>or_name = ''a'', or_op = ''gru_seq'', or_ins = [0], or_outs = [1]\<rparr>,
        \<lparr>or_name = ''b'', or_op = ''gru_seq'', or_ins = [0], or_outs = [2]\<rparr>,
        \<lparr>or_name = ''c'', or_op = ''catn'', or_ins = [1, 2], or_outs = [3]\<rparr>]),
      [\<lparr>co_full = 0, co_slot = ''g'', co_stmt = ''g(0)'', co_scratch = []\<rparr>,
       \<lparr>co_full = 1, co_slot = ''g'', co_stmt = ''g(1)'', co_scratch = []\<rparr>,
       \<lparr>co_full = 2, co_slot = ''k'', co_stmt = ''k(2)'', co_scratch = []\<rparr>],
      [\<lparr>cb_numel = 4, cb_alias = None\<rparr>, \<lparr>cb_numel = 4, cb_alias = None\<rparr>,
       \<lparr>cb_numel = 4, cb_alias = None\<rparr>, \<lparr>cb_numel = 8, cb_alias = None\<rparr>])"

definition demo_plan :: conc_plan where
  "demo_plan = \<lparr>cp_n = 3, cp_preds = [[], [], [0, 1]], cp_lane = [0, 1, 0], cp_lanes = [(''g'', 2)],
     cp_width = [2, 2, 1], cp_concurrent = True, cp_hazards = 0, cp_max_width = 2, cp_policy = ''split'',
     cp_stmts = [''g(0)'', ''g(1)'', ''k(2)''], cp_slots = [''g'', ''g'', ''k''], cp_names = [''a'', ''b'', ''c'']\<rparr>"

lemma demo_plan_run:
  "plan_schedule (fst (fst conc_demo)) (snd (fst conc_demo)) (fst (snd conc_demo)) (snd (snd conc_demo)) ''split'' =
     Inr demo_plan"
  by code_simp

lemma demo_plan_sorted: "sorted_wrt (<) (map co_full (fst (snd conc_demo)))"
  by code_simp

lemma demo_plan_edges: "(j, k) \<in> (plan_edges demo_plan)\<^sup>+ \<longleftrightarrow> k = 2 \<and> (j = 0 \<or> j = 1)"
proof
  have e: "(a, b) \<in> plan_edges demo_plan \<longleftrightarrow> b = 2 \<and> (a = 0 \<or> a = 1)" for a b
  proof -
    have "b < 3 \<longleftrightarrow> b = 0 \<or> b = 1 \<or> b = 2" by arith
    then show ?thesis by (auto simp: plan_edges_def demo_plan_def)
  qed
  show "(j, k) \<in> (plan_edges demo_plan)\<^sup>+ \<Longrightarrow> k = 2 \<and> (j = 0 \<or> j = 1)"
    by (induction rule: trancl_induct) (auto simp: e)
  show "k = 2 \<and> (j = 0 \<or> j = 1) \<Longrightarrow> (j, k) \<in> (plan_edges demo_plan)\<^sup>+" using e by blast
qed

theorem plan_is_reduction_witness:
  "(0, 2) \<in> (must_order (fst (fst conc_demo)) (snd (fst conc_demo)) (fst (snd conc_demo)) (snd (snd conc_demo)))\<^sup>+"
  using conjunct1 [OF plan_is_reduction [OF demo_plan_run demo_plan_sorted]] demo_plan_edges [of 0 2] by simp



text \<open>
  Instances of one slot that a plan leaves unordered get different lanes, so they never share static
  state, and every lane in use is below the slot's lane count, the number of copies that are compiled.
\<close>
theorem concurrent_lanes_differ:
  assumes "plan_schedule xs recs cos bufs policy = Inr p" "sorted_wrt (<) (map co_full cos)"
  shows "\<forall>k < cp_n p. cp_lane p ! k < get_or (cp_lanes p) (cp_slots p ! k) 1 \<and>
           (\<forall>j < k. cp_slots p ! j = cp_slots p ! k \<longrightarrow> (j, k) \<notin> (plan_edges p)\<^sup>+ \<longrightarrow> cp_lane p ! j \<noteq> cp_lane p ! k)"
proof (intro allI impI conjI)
  let ?A = "fst (dep_masks xs recs cos bufs)"
  let ?S = "(must_order xs recs cos bufs)\<^sup>+"
  let ?conc = "conc_masks ?A"
  let ?s = "assign_lanes (map co_slot cos) ?conc"
  note P = plan_parts [OF assms(1)]
  note D = dep_masks_order [OF P(1) assms(2)]
  have n: "length cos = length recs" "length ?A = length recs" using P(1) D by (auto simp: in_range_def)
  have L: "lanes_ok (cp_slots p) ?conc (length recs) ?s"
    using assign_lanes_ok [of "map co_slot cos" ?conc] n P(4) by simp
  fix k assume k: "k < cp_n p"
  have "ls_lane ?s ! k < get_or (ls_lanes ?s) (cp_slots p ! k) 1" "distinct (keys (ls_lanes ?s))"
    using L k P(2) by (simp_all add: lanes_ok_def)
  then show "cp_lane p ! k < get_or (cp_lanes p) (cp_slots p ! k) 1"
    unfolding P(5,6) by (rule get_or_filter_above)
  fix j assume j: "j < k" "cp_slots p ! j = cp_slots p ! k" "(j, k) \<notin> (plan_edges p)\<^sup>+"
  have bits: "bit (?A ! k) j \<longleftrightarrow> (j, k) \<in> ?S" "bit (?A ! j) k \<longleftrightarrow> (k, j) \<in> ?S" using D k j(1) P(2) by auto
  have "bit (?conc ! k) j"
    using D must_order_range [of xs recs cos bufs] k j(1,3) P(2) n
    unfolding plan_edges_covers(2) [OF assms] by (subst conc_bit(3)) (auto simp: bits)
  with L j k P(2) show "cp_lane p ! j \<noteq> cp_lane p ! k" unfolding P(5) by (simp add: lanes_ok_def)
qed

theorem concurrent_lanes_differ_witness:
  "cp_lane demo_plan ! 0 \<noteq> cp_lane demo_plan ! 1 \<and> cp_lane demo_plan ! 1 < get_or (cp_lanes demo_plan) ''g'' 1"
proof -
  have g: "cp_slots demo_plan ! 0 = ''g''" "cp_slots demo_plan ! 1 = ''g''" "1 < cp_n demo_plan"
    by (simp_all add: demo_plan_def)
  have "(0, 1) \<notin> (plan_edges demo_plan)\<^sup>+" by (simp add: demo_plan_edges)
  with concurrent_lanes_differ [OF demo_plan_run demo_plan_sorted, rule_format, OF g(3)] g show ?thesis by auto
qed

end
