(* ===== verification/Siblings.thy ===== *)
theory Siblings
  imports Fused_Binding Concurrency_Facts
begin

text \<open>
  Horizontal fusion, \<^verbatim>\<open>pipeline/kb_proposals.py\<close>: ops of one kind that read one tensor and do not depend
  on each other become one \<open>fused__par__\<close> op at the position of the last of them. Shown: what is found is
  independent, and the fusion keeps the value of every tensor.
\<close>

section \<open>Finding siblings\<close>

definition sibling_kinds :: "string list" where
  "sibling_kinds = [''gru_seq'', ''lstm_seq'', ''gru_seq_f16'', ''lstm_seq_f16'', ''linear'', ''linear_f16'']"

text \<open>The tensor an op reads through its first activation input; \<open>None\<close> is a \<open>continue\<close>.\<close>

definition first_read :: "specs \<Rightarrow> op \<Rightarrow> fuse_error + string option" where
  "first_read specs x =
     (case act_inputs specs (o_kind x) of
        Inl e \<Rightarrow> Inl e
      | Inr acts \<Rightarrow> (case spec_params specs (o_kind x) of
          Inl e \<Rightarrow> Inl e
        | Inr ps \<Rightarrow> (case bind x ps of
            Inl (Bad_Input_Index _) \<Rightarrow> Inr None
          | Inl e \<Rightarrow> Inl (Bind_Failed e)
          | Inr as \<Rightarrow>
              Inr (case acts of
                     [] \<Rightarrow> None
                   | a0 # _ \<Rightarrow> (case List.find (\<lambda>a. ar_kind a = A_In \<and> pm_name (ar_param a) = a0) as of
                       None \<Rightarrow> None | Some a \<Rightarrow> ar_value a)))))"

definition group_step ::
  "specs \<Rightarrow> string list \<Rightarrow> nat \<times> op \<Rightarrow> (string \<times> string, nat list) dict \<Rightarrow> fuse_error + (string \<times> string, nat list) dict" where
  "group_step specs kinds ix d =
     (let (i, x) = ix in
      if o_kind x \<notin> set kinds \<or> sub_ops x \<noteq> None \<or> \<not> has_key specs (o_kind x) \<or> o_ins x = [] then Inr d
      else case first_read specs x of
        Inl e \<Rightarrow> Inl e
      | Inr None \<Rightarrow> Inr d
      | Inr (Some t) \<Rightarrow> Inr (append_to (o_kind x, t) i d))"

definition independent :: "int list \<Rightarrow> nat \<Rightarrow> nat \<Rightarrow> bool" where
  "independent anc i j = (\<not> bit (anc ! i) j \<and> \<not> bit (anc ! j) i)"

fun pick_independent :: "int list \<Rightarrow> nat \<Rightarrow> nat list \<Rightarrow> nat list \<Rightarrow> nat list" where
  "pick_independent anc max_group cur [] = cur"
| "pick_independent anc max_group cur (i # is) =
     (let cur' = (if list_all (independent anc i) cur then cur @ [i] else cur) in
      if length cur' = max_group then cur' else pick_independent anc max_group cur' is)"

definition find_siblings :: "specs \<Rightarrow> graph \<Rightarrow> string list \<Rightarrow> nat \<Rightarrow> fuse_error + string list list" where
  "find_siblings specs g kinds max_group =
     (case for_each (group_step specs kinds) (enumerate 0 (ops g)) [] of
        Inl e \<Rightarrow> Inl e
      | Inr groups \<Rightarrow>
          Inr (map (map (\<lambda>i. o_name (ops g ! i)))
                 (sort (filter (\<lambda>c. 2 \<le> length c) (map (\<lambda>(_, is). pick_independent (ancestors (ops g)) max_group [] is) groups)))))"

section \<open>Fusing siblings\<close>

definition strip_stage :: "op \<Rightarrow> op" where
  "strip_stage x =
     upd (\<lambda>f. f\<lparr>dispatch_id := None, null_dispatch := False, depends_on := [],
               extra := filter (\<lambda>(k, v). k \<notin> {''slot_variant'', ''hint''}) (extra f)\<rparr>) x"

definition par_op :: "string \<Rightarrow> string \<Rightarrow> op list \<Rightarrow> (string, (string, int) dict) dict \<Rightarrow> op" where
  "par_op nm kind sel shs =
     Op ((plain_fields nm kind (ordered_unique (concat (map o_ins sel))) (concat (map o_outs sel)))
           \<lparr>stage_shapes := shs, extra := [(''parallel'', ''true'')]\<rparr>) (Some (map strip_stage sel))"

definition fuse_siblings :: "specs \<Rightarrow> graph \<Rightarrow> string list \<Rightarrow> fuse_error + graph \<times> kspec" where
  "fuse_siblings specs g names =
     (case map_res (index_of (ops g)) names of
        Inl e \<Rightarrow> Inl e
      | Inr is0 \<Rightarrow>
          (let is = sort is0; sel = map (\<lambda>i. ops g ! i) is; anc = ancestors (ops g);
               outs = set (concat (map o_outs sel)) in
           if \<not> distinct is0 \<or> length is0 < 2 then Inl (Refused ''need >= 2 distinct ops'')
           else if list_ex (\<lambda>x. sub_ops x \<noteq> None) sel then Inl (Refused ''already fused'')
           else if list_ex (\<lambda>a. list_ex (\<lambda>b. a \<noteq> b \<and> bit (anc ! b) a) is) is then Inl (Refused ''not independent'')
           else if list_ex (\<lambda>j. j \<notin> set is \<and> outs \<inter> set (o_ins (ops g ! j)) \<noteq> {}) [hd is + 1..<last is]
           then Inl (Refused ''reads a sibling's output before the last sibling'')
           else case make_par_spec specs (map o_kind sel) of
             Inl e \<Rightarrow> Inl e
           | Inr spec \<Rightarrow> (case letter_shapes sel of
               Inl e \<Rightarrow> Inl e
             | Inr shs \<Rightarrow>
                 Inr (g\<lparr>ops := concat (map (\<lambda>(i, x). if i = last is then [par_op (join ''+'' (map o_name sel)) (ks_op spec) sel shs]
                                                     else if i \<in> set is then [] else [x]) (enumerate 0 (ops g)))\<rparr>, spec))))"

section \<open>Found siblings are independent\<close>

lemma pick_independent_inv:
  "sorted_wrt (\<lambda>j i. independent anc i j) cur \<Longrightarrow> sorted_wrt (\<lambda>j i. independent anc i j) (pick_independent anc n cur is)"
proof (induction anc n cur "is" rule: pick_independent.induct)
  case (2 anc n cur i "is")
  define c where "c = (if list_all (independent anc i) cur then cur @ [i] else cur)"
  have s: "sorted_wrt (\<lambda>j i. independent anc i j) c" using 2(2) by (auto simp: c_def sorted_wrt_append list_all_iff)
  have "pick_independent anc n cur (i # is) = (if length c = n then c else pick_independent anc n c is)"
    by (simp add: c_def Let_def)
  then show ?case using s 2(1) [OF c_def] by auto
qed simp

lemma pick_independent_sub: "set (pick_independent anc n cur is) \<subseteq> set cur \<union> set is"
proof (induction anc n cur "is" rule: pick_independent.induct)
  case (2 anc n cur i "is")
  then show ?case by (auto simp: Let_def split: if_splits)
qed simp

lemma pick_independent_length: "length cur < n \<Longrightarrow> length (pick_independent anc n cur is) \<le> n"
  by (induction anc n cur "is" rule: pick_independent.induct) (auto simp: Let_def)

text \<open>Producers are unique and every op reads only what comes before it.\<close>

definition single_flow :: "op list \<Rightarrow> bool" where
  "single_flow xs = (distinct (concat (map makes xs)) \<and> reads_back xs \<and> list_all closed_op xs)"

lemma makes_apart:
  assumes "distinct (concat (map makes xs))" "i < length xs" "j < length xs" "t \<in> set (makes (xs ! i))" "t \<in> set (makes (xs ! j))"
  shows "i = j"
proof -
  have "a = b" if "a < b" "b < length ys" "t \<in> set (makes (ys ! a))" "t \<in> set (makes (ys ! b))" "distinct (concat (map makes ys))"
    for a b and ys :: "op list"
  proof -
    have "ys = take b ys @ ys ! b # drop (Suc b) ys" using that(2) by (rule id_take_nth_drop)
    with that(5) have "distinct (concat (map makes (take b ys @ ys ! b # drop (Suc b) ys)))" by simp
    moreover have "ys ! a \<in> set (take b ys)" using that(1,2) by (auto simp: in_set_conv_nth intro!: exI [of _ a])
    ultimately show ?thesis using that(3,4) by auto
  qed
  with assms show ?thesis by (metis linorder_neqE_nat)
qed

lemma last_writer_single:
  assumes "distinct (concat (map makes xs))" "a < b" "b \<le> length xs" "t \<in> set (makes (xs ! a))"
  shows "last_writer xs b t = Some a"
  using assms(2,3)
proof (induction b)
  case (Suc b)
  show ?case
  proof (cases "a = b")
    case True
    with assms(4) show ?thesis by (simp add: writes_def makes_def)
  next
    case False
    then have "t \<notin> writes (xs ! b)"
      using makes_apart [OF assms(1), of a b t] assms(4) Suc.prems by (auto simp: writes_def makes_def)
    with False Suc show ?thesis by simp
  qed
qed simp

lemma not_ancestor_no_read:
  assumes "distinct (concat (map makes xs))" "a < b" "b < length xs" "\<not> bit (ancestors xs ! b) a"
  shows "set (o_outs (xs ! a)) \<inter> set (o_ins (xs ! b)) = {}"
proof (rule ccontr)
  assume "\<not> ?thesis"
  then obtain t where t: "t \<in> set (o_outs (xs ! a))" "t \<in> set (o_ins (xs ! b))" by blast
  have "last_writer xs b t = Some a"
    by (rule last_writer_single [OF assms(1,2)]) (use assms(3) t(1) in \<open>auto simp: makes_def\<close>)
  with t(2) assms(3) have "(a, b) \<in> flow xs" by (auto simp: flow_def)
  with ancestors_flow [of xs] assms(3,4) show False by auto
qed

section \<open>Moving ops past ops they are not linked to\<close>

lemma run_staged_swap:
  assumes "kern_full kern" "closed_op x" "closed_op y"
    and "set (o_outs x) \<inter> set (o_ins y) = {}" "set (o_outs y) \<inter> set (o_ins x) = {}" "set (o_outs x) \<inter> set (o_outs y) = {}"
  shows "run_staged kern y (run_staged kern x env) = run_staged kern x (run_staged kern y env)"
proof
  fix t
  consider (x) "t \<in> set (o_outs x)" | (y) "t \<in> set (o_outs y)" | (n) "t \<notin> set (o_outs x)" "t \<notin> set (o_outs y)" by blast
  then show "run_staged kern y (run_staged kern x env) t = run_staged kern x (run_staged kern y env) t"
  proof cases
    case x
    then have ny: "t \<notin> set (o_outs y)" using assms(6) by blast
    have "run_staged kern x (run_staged kern y env) t = run_staged kern x env t"
      by (rule run_staged_cong [OF assms(1,2)]) (use assms(5) x in \<open>auto simp: disjoint_iff intro!: run_staged_other\<close>)
    with ny show ?thesis by (simp add: run_staged_other)
  next
    case y
    then have nx: "t \<notin> set (o_outs x)" using assms(6) by blast
    have "run_staged kern y (run_staged kern x env) t = run_staged kern y env t"
      by (rule run_staged_cong [OF assms(1,3)]) (use assms(4) y in \<open>auto simp: disjoint_iff intro!: run_staged_other\<close>)
    with nx show ?thesis by (simp add: run_staged_other)
  qed (simp_all add: run_staged_other)
qed

definition unlinked :: "op \<Rightarrow> op \<Rightarrow> bool" where
  "unlinked x y = (closed_op x \<and> closed_op y \<and> set (o_outs x) \<inter> set (o_ins y) = {} \<and>
                   set (o_outs y) \<inter> set (o_ins x) = {} \<and> set (o_outs x) \<inter> set (o_outs y) = {})"

lemma run_graph_delay:
  assumes "kern_full kern" "list_all (unlinked x) ys"
  shows "run_graph kern ys (run_staged kern x env) = run_staged kern x (run_graph kern ys env)"
  using assms(2)
proof (induction ys arbitrary: env)
  case (Cons y ys)
  then have "run_staged kern y (run_staged kern x env) = run_staged kern x (run_staged kern y env)"
    by (intro run_staged_swap [OF assms(1)]) (auto simp: unlinked_def)
  with Cons show ?case by simp
qed simp

lemma run_graph_gather:
  assumes "kern_full kern"
    and "sorted_wrt (\<lambda>x y. fst x \<in> S \<longrightarrow> fst y \<notin> S \<longrightarrow> unlinked (snd x) (snd y)) ixs"
  shows "run_graph kern (map snd ixs) env =
         run_graph kern (map snd (filter (\<lambda>x. fst x \<notin> S) ixs) @ map snd (filter (\<lambda>x. fst x \<in> S) ixs)) env"
  using assms(2)
proof (induction ixs arbitrary: env)
  case (Cons x ixs)
  show ?case
  proof (cases "fst x \<in> S")
    case True
    let ?ns = "map snd (filter (\<lambda>x. fst x \<notin> S) ixs)" and ?ss = "map snd (filter (\<lambda>x. fst x \<in> S) ixs)"
    have "list_all (unlinked (snd x)) ?ns" using Cons.prems True by (auto simp: list_all_iff)
    from run_graph_delay [OF assms(1) this, of env] Cons True show ?thesis by (simp add: run_graph_append)
  next
    case False
    with Cons show ?thesis by simp
  qed
qed simp

text \<open>A group of plain stages runs like its members, one after the other.\<close>

definition kern_lasting :: "(op \<Rightarrow> 'v list \<Rightarrow> 'v list) \<Rightarrow> bool" where
  "kern_lasting kern = (\<forall>x vs. kern (strip_stage x) vs = kern x vs)"

lemma run_strip: "kern_lasting kern \<Longrightarrow> run_ops kern (map strip_stage xs) env = run_ops kern xs env"
proof (induction xs arbitrary: env)
  case (Cons x xs)
  have "run_op kern (strip_stage x) env = run_op kern x env"
    using Cons.prems by (simp add: run_op_def kern_lasting_def strip_stage_def)
  with Cons show ?case by simp
qed simp

lemma run_par_op:
  assumes "kern_lasting kern" "list_all (\<lambda>x. sub_ops x = None) sel"
  shows "run_staged kern (par_op nm kind sel shs) env = run_graph kern sel env"
proof
  fix t
  have "run_ops kern (stages_of (par_op nm kind sel shs)) env = run_graph kern sel env"
    unfolding run_graph_plain [OF assms(2)] by (simp add: par_op_def stages_of_def run_strip [OF assms(1)])
  moreover have "run_graph kern sel env t = env t" if "t \<notin> set (concat (map o_outs sel))"
    by (rule run_graph_other) (use that in \<open>simp add: all_writes_def\<close>)
  ultimately show "run_staged kern (par_op nm kind sel shs) env t = run_graph kern sel env t"
    by (auto simp: run_staged_def par_op_def plain_fields_def)
qed

section \<open>The fusion keeps every value\<close>

lemma enumerate_upt: "enumerate 0 xs = map (\<lambda>i. (i, xs ! i)) [0..<length xs]"
  by (rule nth_equalityI) (simp_all add: nth_enumerate_eq)

lemma concat_if_nil: "concat (map (\<lambda>i. if P i then [] else [f i]) is) = map f (filter (\<lambda>i. \<not> P i) is)"
  by (induction "is") auto

text \<open>The op list after the fusion, for sorted positions \<open>is\<close>.\<close>

lemma gathered_ops:
  assumes "sorted is" "distinct is" "is \<noteq> []" "set is \<subseteq> {..<length xs}"
  shows "concat (map (\<lambda>(i, x). if i = last is then [F] else if i \<in> set is then [] else [x]) (enumerate 0 xs)) =
         map (\<lambda>i. xs ! i) (filter (\<lambda>i. i \<notin> set is) [0..<Suc (last is)]) @ F # drop (Suc (last is)) xs" (is "?L = _")
    and "filter (\<lambda>i. i \<in> set is) [0..<Suc (last is)] = is"
proof -
  let ?l = "last is"
  have l: "?l \<in> set is" "?l < length xs" using last_in_set [OF assms(3)] assms(4) by auto
  have le: "i \<le> ?l" if "i \<in> set is" for i
  proof -
    have "is = butlast is @ [?l]" using assms(3) by simp
    with assms(1) have "sorted (butlast is @ [?l])" by simp
    moreover from \<open>is = butlast is @ [?l]\<close> that have "i \<in> set (butlast is) \<or> i = ?l" by (metis Un_iff empty_iff insert_iff list.set set_append)
    ultimately show ?thesis by (auto simp: sorted_append)
  qed
  have up: "[0..<length xs] = [0..<?l] @ ?l # [Suc ?l..<length xs]"
    using l(2) by (metis upt_add_eq_append upt_conv_Cons le0 le_add_diff_inverse less_imp_le_nat)
  define h where "h i = (if i = ?l then [F] else if i \<in> set is then [] else [xs ! i])" for i
  have "?L = concat (map h [0..<length xs])" by (simp add: enumerate_upt comp_def h_def [abs_def])
  also have "\<dots> = concat (map h [0..<?l]) @ F # concat (map h [Suc ?l..<length xs])" by (simp add: up h_def)
  also have "concat (map h [0..<?l]) = concat (map (\<lambda>i. if i \<in> set is then [] else [xs ! i]) [0..<?l])"
    by (intro arg_cong [of _ _ concat] map_cong) (auto simp: h_def)
  also have "\<dots> = map (\<lambda>i. xs ! i) (filter (\<lambda>i. i \<notin> set is) [0..<Suc ?l])" using l(1) by (simp add: concat_if_nil)
  also have "concat (map h [Suc ?l..<length xs]) = concat (map (\<lambda>i. [xs ! i]) [Suc ?l..<length xs])"
    by (intro arg_cong [of _ _ concat] map_cong) (auto simp: h_def dest: le)
  also have "\<dots> = drop (Suc ?l) xs" by (simp add: concat_map_singleton) (rule nth_equalityI; simp)
  finally show "?L = map (\<lambda>i. xs ! i) (filter (\<lambda>i. i \<notin> set is) [0..<Suc ?l]) @ F # drop (Suc ?l) xs" .
  show "filter (\<lambda>i. i \<in> set is) [0..<Suc ?l] = is"
    by (rule sorted_distinct_set_unique) (use assms(1,2) le in \<open>auto simp: sorted_wrt_filter less_Suc_eq_le simp del: upt_Suc\<close>)
qed

text \<open>The members of an accepted group are not linked to each other, nor to the ops they are moved past.\<close>

definition movable :: "op list \<Rightarrow> nat list \<Rightarrow> bool" where
  "movable xs is =
     (sorted is \<and> distinct is \<and> is \<noteq> [] \<and> set is \<subseteq> {..<length xs} \<and>
      (\<forall>a \<in> set is. \<forall>b \<in> set is. a \<noteq> b \<longrightarrow> \<not> bit (ancestors xs ! b) a) \<and>
      (\<forall>a \<in> set is. \<forall>j. hd is < j \<longrightarrow> j < last is \<longrightarrow> j \<notin> set is \<longrightarrow> set (o_outs (xs ! a)) \<inter> set (o_ins (xs ! j)) = {}))"

lemma fuse_siblingsD:
  assumes "fuse_siblings specs g names = Inr (g', spec)"
  shows "\<exists>is nm shs. movable (ops g) is \<and> list_all (\<lambda>i. sub_ops (ops g ! i) = None) is \<and>
    ops g' = map (\<lambda>i. ops g ! i) (filter (\<lambda>i. i \<notin> set is) [0..<Suc (last is)]) @
             par_op nm (ks_op spec) (map (\<lambda>i. ops g ! i) is) shs # drop (Suc (last is)) (ops g)"
proof -
  from assms obtain is0 where i0: "map_res (index_of (ops g)) names = Inr is0" by (auto simp: fuse_siblings_def split: sum.splits)
  define iss where "iss = sort is0"
  define sel where "sel = map (\<lambda>i. ops g ! i) iss"
  from assms i0 obtain shs where r: "distinct is0" "\<not> length is0 < 2" "\<not> list_ex (\<lambda>x. sub_ops x \<noteq> None) sel"
    "\<not> list_ex (\<lambda>a. list_ex (\<lambda>b. a \<noteq> b \<and> bit (ancestors (ops g) ! b) a) iss) iss"
    "\<not> list_ex (\<lambda>j. j \<notin> set iss \<and> set (concat (map o_outs sel)) \<inter> set (o_ins (ops g ! j)) \<noteq> {}) [hd iss + 1..<last iss]"
    "ops g' = concat (map (\<lambda>(i, x). if i = last iss then [par_op (join ''+'' (map o_name sel)) (ks_op spec) sel shs]
                                   else if i \<in> set iss then [] else [x]) (enumerate 0 (ops g)))"
    unfolding fuse_siblings_def by (auto simp only: i0 sum.case Let_def iss_def [symmetric] sel_def [symmetric] prod.inject sum.inject sum.distinct
        select_convs update_convs split: sum.splits if_splits) auto
  have "length iss = length is0" by (simp add: iss_def)
  with r(1,2) have iss: "sorted iss" "distinct iss" "iss \<noteq> []" by (auto simp: iss_def [symmetric]) (simp_all add: iss_def)
  have sub: "set iss \<subseteq> {..<length (ops g)}"
    using map_res_set [OF i0] index_of_bound by (fastforce simp: iss_def)
  note g' = gathered_ops(1) [OF iss sub, of "par_op (join ''+'' (map o_name sel)) (ks_op spec) sel shs", folded r(6), unfolded sel_def]
  have "list_all (\<lambda>i. sub_ops (ops g ! i) = None) iss" using r(3) by (simp add: sel_def list_ex_iff list_all_iff)
  moreover have "\<forall>a \<in> set iss. \<forall>b \<in> set iss. a \<noteq> b \<longrightarrow> \<not> bit (ancestors (ops g) ! b) a" using r(4) unfolding list_ex_iff by blast
  moreover have "\<forall>a \<in> set iss. \<forall>j. hd iss < j \<longrightarrow> j < last iss \<longrightarrow> j \<notin> set iss \<longrightarrow> set (o_outs (ops g ! a)) \<inter> set (o_ins (ops g ! j)) = {}"
  proof (intro ballI allI impI)
    fix a j assume "a \<in> set iss" "hd iss < j" "j < last iss" "j \<notin> set iss"
    moreover from this have "j \<in> set [hd iss + 1..<last iss]" by simp
    ultimately have "set (concat (map o_outs sel)) \<inter> set (o_ins (ops g ! j)) = {}" using r(5) unfolding list_ex_iff by blast
    with \<open>a \<in> set iss\<close> show "set (o_outs (ops g ! a)) \<inter> set (o_ins (ops g ! j)) = {}" by (auto simp: sel_def)
  qed
  ultimately show ?thesis using iss sub g' unfolding movable_def by blast
qed

lemma single_flow_apart:
  assumes "single_flow xs" "a < b" "b < length xs"
  shows "closed_op (xs ! a)" "closed_op (xs ! b)" "set (o_outs (xs ! b)) \<inter> set (o_ins (xs ! a)) = {}"
    "set (o_outs (xs ! a)) \<inter> set (o_outs (xs ! b)) = {}"
proof -
  have one: "distinct (concat (map makes xs))" and bk: "reads_back xs" and cl: "list_all closed_op xs"
    using assms(1) by (simp_all add: single_flow_def)
  show "closed_op (xs ! a)" "closed_op (xs ! b)" using cl assms(2,3) by (simp_all add: list_all_length)
  show "set (o_outs (xs ! b)) \<inter> set (o_ins (xs ! a)) = {}"
    using bk assms(2,3) by (auto simp: reads_back_def sorted_wrt_iff_nth_less)
  show "set (o_outs (xs ! a)) \<inter> set (o_outs (xs ! b)) = {}"
    using makes_apart [OF one, of a b] assms(2,3) by (fastforce simp: makes_def)
qed

lemma movable_unlinked:
  assumes "movable xs is" "single_flow xs" "a < b" "b \<le> last is" "a \<in> set is"
  shows "unlinked (xs ! a) (xs ! b)"
proof -
  note m = assms(1) [unfolded movable_def]
  have "last is \<in> {..<length xs}" using m last_in_set by blast
  then have b: "b < length xs" using assms(4) by simp
  note ap = single_flow_apart [OF assms(2,3) b]
  have "set (o_outs (xs ! a)) \<inter> set (o_ins (xs ! b)) = {}"
  proof (cases "b \<in> set is")
    case True
    then have "\<not> bit (ancestors xs ! b) a" using m assms(3,5) by auto
    with not_ancestor_no_read [of xs a b] assms(2,3) b show ?thesis by (simp add: single_flow_def)
  next
    case False
    have "hd is \<le> a" using m assms(5) by (cases "is") auto
    moreover have "b \<noteq> last is" using False m last_in_set by blast
    ultimately show ?thesis using m assms(3,4,5) False by auto
  qed
  with ap show ?thesis by (simp add: unlinked_def)
qed

lemma moved_values:
  assumes "movable xs is" "single_flow xs" "kern_full kern" "kern_lasting kern" "list_all (\<lambda>i. sub_ops (xs ! i) = None) is"
  shows "run_graph kern (map (\<lambda>i. xs ! i) (filter (\<lambda>i. i \<notin> set is) [0..<Suc (last is)]) @
           par_op nm k (map (\<lambda>i. xs ! i) is) shs # drop (Suc (last is)) xs) env = run_graph kern xs env"
proof -
  define l where "l = last is"
  define sel where "sel = map (\<lambda>i. xs ! i) is"
  define ys where "ys = map (\<lambda>i. (i, xs ! i)) [0..<Suc l]"
  note i = assms(1) [unfolded movable_def]
  have i4: "sorted is" "distinct is" "is \<noteq> []" "set is \<subseteq> {..<length xs}" using i by simp_all
  have l: "l < length xs" using last_in_set [OF i4(3)] i4(4) by (auto simp: l_def)
  have "sorted_wrt (\<lambda>x y. fst x \<in> set is \<longrightarrow> fst y \<notin> set is \<longrightarrow> unlinked (snd x) (snd y)) ys"
    using movable_unlinked [OF assms(1,2)] by (auto simp: ys_def sorted_wrt_iff_nth_less less_Suc_eq_le l_def simp del: upt_Suc)
  from run_graph_gather [OF assms(3) this, of env]
  have ys: "run_graph kern (map snd ys) env = run_graph kern (map (\<lambda>i. xs ! i) (filter (\<lambda>i. i \<notin> set is) [0..<Suc l]) @ sel) env"
    by (simp add: ys_def filter_map comp_def sel_def gathered_ops(2) [OF i4, folded l_def] del: upt_Suc)
  have "map snd ys = take (Suc l) xs" using l by (intro nth_equalityI) (simp_all add: ys_def del: upt_Suc)
  then have xs: "map snd ys @ drop (Suc l) xs = xs" by simp
  have sp: "list_all (\<lambda>x. sub_ops x = None) sel" using assms(5) by (simp add: sel_def list_all_iff)
  have "run_graph kern (drop (Suc l) xs) (run_graph kern (map snd ys) env) = run_graph kern (map snd ys @ drop (Suc l) xs) env"
    by (simp only: run_graph_append)
  then show ?thesis
    unfolding l_def [symmetric] sel_def [symmetric] xs ys by (simp add: run_graph_append run_par_op [OF assms(4) sp] del: upt_Suc)
qed

lemma moved_unlinked:
  assumes "movable xs is" "single_flow xs" "list_all (\<lambda>i. sub_ops (xs ! i) = None) is"
  shows "sorted_wrt unlinked (stages_of (par_op nm k (map (\<lambda>i. xs ! i) is) shs))"
proof -
  let ?sel = "map (\<lambda>i. xs ! i) is"
  have sw: "sorted_wrt (<) is" using assms(1) by (simp add: movable_def strict_sorted_iff)
  have "b \<le> last is" if "b \<in> set is" for b
  proof -
    have "b \<in> set (filter (\<lambda>i. i \<in> set is) [0..<Suc (last is)])"
      using gathered_ops(2) [of "is" xs] assms(1) that by (simp add: movable_def del: upt_Suc)
    then show ?thesis by (simp add: less_Suc_eq_le del: upt_Suc)
  qed
  then have "sorted_wrt unlinked ?sel"
    unfolding sorted_wrt_map by (rule_tac sorted_wrt_mono_rel [OF _ sw]) (auto intro: movable_unlinked [OF assms(1,2)])
  moreover have "unlinked (strip_stage x) (strip_stage y)" if "x \<in> set ?sel" "y \<in> set ?sel" "unlinked x y" for x y
    using that assms(3) by (auto simp: unlinked_def strip_stage_def closed_op_def stages_of_def stage_writes_def list_all_iff)
  ultimately have "sorted_wrt unlinked (map strip_stage ?sel)"
    unfolding sorted_wrt_map [of _ strip_stage] by (rule_tac sorted_wrt_mono_rel [of ?sel unlinked]) auto
  then show ?thesis by (simp add: par_op_def stages_of_def)
qed

text \<open>
  C27. A sibling fusion keeps the value of every tensor, for any kernels that do not read bookkeeping fields, and
  no stage of the new op touches what another one writes, so the stages may run at the same time.
\<close>
theorem sibling_fusion_keeps_values:
  assumes "fuse_siblings specs g names = Inr (g', spec)" "single_flow (ops g)" "kern_full kern" "kern_lasting kern"
  shows "run_graph kern (ops g') env = run_graph kern (ops g) env \<and>
         (\<exists>F \<in> set (ops g'). o_kind F = ks_op spec \<and> sub_ops F \<noteq> None \<and> sorted_wrt unlinked (stages_of F))"
proof -
  from fuse_siblingsD [OF assms(1)] obtain "is" nm shs where m: "movable (ops g) is"
    and plain: "list_all (\<lambda>i. sub_ops (ops g ! i) = None) is"
    and g': "ops g' = map (\<lambda>i. ops g ! i) (filter (\<lambda>i. i \<notin> set is) [0..<Suc (last is)]) @
             par_op nm (ks_op spec) (map (\<lambda>i. ops g ! i) is) shs # drop (Suc (last is)) (ops g)"
    by blast
  let ?F = "par_op nm (ks_op spec) (map (\<lambda>i. ops g ! i) is) shs"
  have "?F \<in> set (ops g')" "o_kind ?F = ks_op spec" "sub_ops ?F \<noteq> None" by (simp_all add: g') (simp_all add: par_op_def plain_fields_def)
  with moved_values [OF m assms(2-4) plain] moved_unlinked [OF m assms(2) plain] show ?thesis unfolding g' by blast
qed

section \<open>Concrete siblings\<close>

definition sibling_ops :: "op list" where
  "sibling_ops =
     [demo_op ''la'' ''linear'' [''x''] [''s''], demo_op ''rl'' ''relu'' [''z''] [''u''],
      demo_op ''lb'' ''linear'' [''x''] [''t''], demo_op ''ad'' ''add'' [''s'', ''t''] [''y'']]"

lemma siblings_found: "find_siblings demo_specs (plain_graph sibling_ops [''y'']) sibling_kinds 4 = Inr [[''la'', ''lb'']]"
  by code_simp

lemma siblings_fuse:
  "(case fuse_siblings demo_specs (plain_graph sibling_ops [''y'']) [''la'', ''lb''] of
      Inl e \<Rightarrow> False | Inr (g, s) \<Rightarrow> map o_name (ops g) = [''rl'', ''la+lb'', ''ad''])"
  by code_simp

lemma sibling_flow: "single_flow (ops (plain_graph sibling_ops [''y'']))"
  by code_simp

lemma plus_one_lasting: "kern_lasting plus_one"
  by (simp add: kern_lasting_def plus_one_def strip_stage_def)

theorem sibling_fusion_keeps_values_witness:
  "\<exists>g' spec. fuse_siblings demo_specs (plain_graph sibling_ops [''y'']) [''la'', ''lb''] = Inr (g', spec) \<and>
     map o_name (ops g') = [''rl'', ''la+lb'', ''ad''] \<and>
     run_graph plus_one (ops g') (\<lambda>_. 5) = run_graph plus_one (ops (plain_graph sibling_ops [''y''])) (\<lambda>_. 5)"
proof -
  from siblings_fuse obtain g' spec where
    r: "fuse_siblings demo_specs (plain_graph sibling_ops [''y'']) [''la'', ''lb''] = Inr (g', spec)"
    and n: "map o_name (ops g') = [''rl'', ''la+lb'', ''ad'']" by (auto split: sum.splits prod.splits)
  show ?thesis
    by (intro exI conjI, rule r, rule n)
      (rule sibling_fusion_keeps_values [OF r sibling_flow plus_one_full plus_one_lasting, THEN conjunct1])
qed

end
