(* ===== verification/Renumber.thy ===== *)
theory Renumber
  imports Graph_IR
begin

text \<open>
  The contract the one-to-many rewriters share: a walk over the ops that hands out the next ids to
  whatever it emits for a dispatch and records them under the dispatch's old id. The locale states
  the contract of one step; its consequences for the whole walk are proved once.
\<close>

definition new_block :: "int \<Rightarrow> nat \<Rightarrow> int list" where
  "new_block n k = map (\<lambda>i. n + int i) [0..<k]"

lemma new_block_append: "map int [0..<n] @ new_block (int n) k = map int [0..<n + k]"
  by (rule nth_equalityI) (auto simp: nth_append new_block_def)

lemma set_new_block: "set (new_block n k) = {n ..< n + int k}"
proof
  show "{n ..< n + int k} \<subseteq> set (new_block n k)"
  proof
    fix x assume "x \<in> {n ..< n + int k}"
    then show "x \<in> set (new_block n k)"
      by (auto simp: new_block_def intro!: image_eqI [of _ _ "nat (x - n)"])
  qed
qed (auto simp: new_block_def)

lemma new_block_eq_Nil [simp]: "new_block n k = [] \<longleftrightarrow> k = 0"
  by (simp add: new_block_def)

lemma length_new_block [simp]: "length (new_block n k) = k"
  by (simp add: new_block_def)

definition ids_of :: "(int, int list) dict \<Rightarrow> int \<Rightarrow> int list" where
  "ids_of m d = get_or m d []"

text \<open>
  \<open>count x\<close> is how many ids the walk spends on a dispatch \<open>x\<close>; \<open>made_from x y\<close> is what the
  client wants to remember about an op \<open>y\<close> emitted for \<open>x\<close>.
\<close>

locale renumbering =
  fixes step :: "op \<Rightarrow> 's \<Rightarrow> 'e + 's"
    and out :: "'s \<Rightarrow> op list"
    and nxt :: "'s \<Rightarrow> int"
    and remap :: "'s \<Rightarrow> (int, int list) dict"
    and count :: "op \<Rightarrow> nat"
    and made_from :: "op \<Rightarrow> op \<Rightarrow> bool"
  assumes view_step: "o_did x = None \<Longrightarrow> step x s = Inr s' \<Longrightarrow>
      out s' = out s @ [x] \<and> nxt s' = nxt s \<and> remap s' = remap s"
    and dispatch_step: "o_did x = Some d \<Longrightarrow> step x s = Inr s' \<Longrightarrow>
      \<exists>ys. out s' = out s @ ys \<and> dids ys = new_block (nxt s) (count x) \<and>
           (\<forall>y \<in> set ys. made_from x y) \<and> nxt s' = nxt s + int (count x) \<and>
           remap s' = AList.update d (new_block (nxt s) (count x)) (remap s)"
begin

definition walk_ok :: "op list \<Rightarrow> 's \<Rightarrow> bool" where
  "walk_ok pre s \<longleftrightarrow>
     (\<exists>n. nxt s = int n \<and> dids (out s) = map int [0..<n]) \<and>
     set (keys (remap s)) = set (dids pre) \<and>
     (distinct (dids pre) \<longrightarrow>
        concat (map (ids_of (remap s)) (dids pre)) = dids (out s) \<and>
        (\<forall>x \<in> set pre. \<forall>d. o_did x = Some d \<longrightarrow> length (ids_of (remap s) d) = count x) \<and>
        (\<forall>y \<in> set (out s). \<forall>m. o_did y = Some m \<longrightarrow>
           (\<exists>x \<in> set pre. \<exists>d. o_did x = Some d \<and> m \<in> set (ids_of (remap s) d) \<and> made_from x y)))"

lemma walk_okD:
  assumes "walk_ok pre s" "distinct (dids pre)"
  shows "concat (map (ids_of (remap s)) (dids pre)) = dids (out s)"
    and "x \<in> set pre \<Longrightarrow> o_did x = Some d \<Longrightarrow> length (ids_of (remap s) d) = count x"
    and "y \<in> set (out s) \<Longrightarrow> o_did y = Some m \<Longrightarrow>
           \<exists>x \<in> set pre. \<exists>d. o_did x = Some d \<and> m \<in> set (ids_of (remap s) d) \<and> made_from x y"
  using assms unfolding walk_ok_def by blast+

lemma walk_ok_view:
  assumes "o_did x = None" "walk_ok pre s" and s': "step x s = Inr s'"
  shows "walk_ok (pre @ [x]) s'"
proof -
  have v: "out s' = out s @ [x]" "nxt s' = nxt s" "remap s' = remap s"
    using view_step [OF assms(1) s'] by simp_all
  have "dids (pre @ [x]) = dids pre" "dids (out s') = dids (out s)" using assms(1) v by simp_all
  moreover have "\<exists>x' \<in> set (pre @ [x]). \<exists>d. o_did x' = Some d \<and> m \<in> set (ids_of (remap s') d) \<and> made_from x' y"
    if "distinct (dids pre)" "y \<in> set (out s')" "o_did y = Some m" for y m
  proof -
    have "y \<in> set (out s)" using that(2,3) v(1) assms(1) by auto
    from walk_okD(3) [OF assms(2) that(1) this that(3)] v(3) show ?thesis by auto
  qed
  ultimately show ?thesis using assms(1,2) v unfolding walk_ok_def by auto
qed

lemma walk_ok_dispatch:
  assumes d: "o_did x = Some d" and ok: "walk_ok pre s" and s': "step x s = Inr s'"
  shows "walk_ok (pre @ [x]) s'"
proof -
  let ?blk = "new_block (nxt s) (count x)"
  from dispatch_step [OF d s'] obtain ys where k: "out s' = out s @ ys" "dids ys = ?blk"
    "nxt s' = nxt s + int (count x)" "remap s' = AList.update d ?blk (remap s)"
    and rel: "\<And>y. y \<in> set ys \<Longrightarrow> made_from x y" by blast
  from ok obtain n where n: "nxt s = int n" "dids (out s) = map int [0..<n]"
    by (auto simp: walk_ok_def)
  have a: "nxt s' = int (n + count x) \<and> dids (out s') = map int [0..<n + count x]"
    using k n new_block_append by simp
  have b: "set (keys (remap s')) = set (dids (pre @ [x]))"
    using ok k(4) d by (auto simp: walk_ok_def keys_update)
  have new: "ids_of (remap s') d = ?blk" using k(4) by (simp add: ids_of_def get_or_def)
  have old: "ids_of (remap s') e = ids_of (remap s) e" if "e \<noteq> d" for e
    using that k(4) by (simp add: ids_of_def get_or_def)
  have c: "concat (map (ids_of (remap s')) (dids (pre @ [x]))) = dids (out s') \<and>
      (\<forall>z \<in> set (pre @ [x]). \<forall>e. o_did z = Some e \<longrightarrow> length (ids_of (remap s') e) = count z) \<and>
      (\<forall>y \<in> set (out s'). \<forall>m. o_did y = Some m \<longrightarrow>
         (\<exists>z \<in> set (pre @ [x]). \<exists>e. o_did z = Some e \<and> m \<in> set (ids_of (remap s') e) \<and> made_from z y))"
    if "distinct (dids (pre @ [x]))"
  proof (intro conjI ballI allI impI)
    from that d have fresh: "d \<notin> set (dids pre)" and dp: "distinct (dids pre)" by auto
    note W = walk_okD [OF ok dp]
    have eq: "map (ids_of (remap s')) (dids pre) = map (ids_of (remap s)) (dids pre)"
      using fresh old by (intro map_cong refl) metis
    have "concat (map (ids_of (remap s')) (dids pre)) = dids (out s)" unfolding eq by (rule W(1))
    with new d k(1,2) show "concat (map (ids_of (remap s')) (dids (pre @ [x]))) = dids (out s')" by simp
    fix z e assume z: "z \<in> set (pre @ [x])" "o_did z = Some e"
    show "length (ids_of (remap s') e) = count z"
    proof (cases "z \<in> set pre")
      case True
      with z(2) fresh have "e \<noteq> d" by (auto simp: in_dids_iff)
      then show ?thesis using W(2) [OF True z(2)] old by simp
    next
      case False
      with z d new show ?thesis by simp
    qed
  next
    fix y m assume y: "y \<in> set (out s')" "o_did y = Some m"
    from that d have fresh: "d \<notin> set (dids pre)" and dp: "distinct (dids pre)" by auto
    show "\<exists>z \<in> set (pre @ [x]). \<exists>e. o_did z = Some e \<and> m \<in> set (ids_of (remap s') e) \<and> made_from z y"
    proof (cases "y \<in> set (out s)")
      case True
      from walk_okD(3) [OF ok dp True y(2)] obtain z e where
        z: "z \<in> set pre" "o_did z = Some e" "m \<in> set (ids_of (remap s) e)" "made_from z y" by blast
      with fresh have "e \<noteq> d" by (auto simp: in_dids_iff)
      then have "m \<in> set (ids_of (remap s') e)" using z(3) old by metis
      with z(1,2,4) show ?thesis by auto
    next
      case False
      then have "y \<in> set ys" using y(1) k(1) by simp
      then have "m \<in> set (dids ys)" using y(2) by (auto simp: in_dids_iff)
      then have "m \<in> set ?blk" by (simp add: k(2))
      then show ?thesis using new d rel [OF \<open>y \<in> set ys\<close>] by auto
    qed
  qed
  show ?thesis unfolding walk_ok_def using a b c by blast
qed

lemma walk_ok_run:
  assumes "for_each step xs s = Inr s'" "out s = []" "nxt s = 0" "remap s = []"
  shows "walk_ok xs s'"
proof (rule for_each_prefix_inv [OF assms(1), where P = walk_ok])
  show "walk_ok [] s"
    using assms(2-4) by (auto simp: walk_ok_def keys_def)
next
  fix pre x post s s' assume "walk_ok pre s" "step x s = Inr s'"
  then show "walk_ok (pre @ [x]) s'"
    by (cases "o_did x") (auto intro: walk_ok_view walk_ok_dispatch)
qed

lemma contiguous:
  assumes "for_each step xs s = Inr s'" "out s = []" "nxt s = 0" "remap s = []"
  shows "dids (out s') = map int [0..<length (dids (out s'))]"
  using walk_ok_run [OF assms] by (auto simp: walk_ok_def)

lemma remap_keys:
  assumes "for_each step xs s = Inr s'" "out s = []" "nxt s = 0" "remap s = []"
  shows "set (keys (remap s')) = set (dids xs)"
  using walk_ok_run [OF assms] by (simp add: walk_ok_def)

lemma remap_count:
  assumes "for_each step xs s = Inr s'" "out s = []" "nxt s = 0" "remap s = []" "distinct (dids xs)"
    "x \<in> set xs" "o_did x = Some d"
  shows "length (ids_of (remap s') d) = count x"
  using walk_okD(2) [OF walk_ok_run [OF assms(1-4)] assms(5-7)] .

lemma origin:
  assumes "for_each step xs s = Inr s'" "out s = []" "nxt s = 0" "remap s = []" "distinct (dids xs)"
    "y \<in> set (out s')" "o_did y = Some m"
  obtains x d where "x \<in> set xs" "o_did x = Some d" "m \<in> set (ids_of (remap s') d)" "made_from x y"
  using walk_okD(3) [OF walk_ok_run [OF assms(1-4)] assms(5-7)] that by blast

lemma remap_concat:
  assumes "for_each step xs s = Inr s'" "out s = []" "nxt s = 0" "remap s = []" "distinct (dids xs)"
  shows "concat (map (ids_of (remap s')) (dids xs)) = dids (out s')"
  using walk_okD(1) [OF walk_ok_run [OF assms(1-4)] assms(5)] .

text \<open>The blocks of different dispatches are disjoint and keep the order of the dispatches.\<close>

lemma remap_ordered:
  assumes "for_each step xs s = Inr s'" "out s = []" "nxt s = 0" "remap s = []" "distinct (dids xs)"
    and split: "dids xs = pre @ d # mid @ e # post"
    and a: "a \<in> set (ids_of (remap s') d)" and b: "b \<in> set (ids_of (remap s') e)"
  shows "a < b"
proof -
  have c: "concat (map (ids_of (remap s')) (dids xs)) = dids (out s')" by (rule remap_concat [OF assms(1-5)])
  have srt: "sorted_wrt (<) (concat (map (ids_of (remap s')) (dids xs)))"
    unfolding c by (subst contiguous [OF assms(1-4)]) (simp add: sorted_wrt_map)
  show ?thesis using srt a b unfolding split by (auto simp: sorted_wrt_append)
qed

lemma remap_inj:
  assumes "for_each step xs s = Inr s'" "out s = []" "nxt s = 0" "remap s = []" "distinct (dids xs)"
    and d: "d \<in> set (dids xs)" and e: "e \<in> set (dids xs)"
    and a: "a \<in> set (ids_of (remap s') d)" "a \<in> set (ids_of (remap s') e)"
  shows "d = e"
proof (rule ccontr)
  assume ne: "d \<noteq> e"
  from d obtain p q where pq: "dids xs = p @ d # q" by (auto simp: in_set_conv_decomp)
  with e ne consider "e \<in> set p" | "e \<in> set q" by auto
  then show False
  proof cases
    case 1
    then obtain u v where "p = u @ e # v" by (auto simp: in_set_conv_decomp)
    with remap_ordered [OF assms(1-5), of u e v d q a a] pq a show False by simp
  next
    case 2
    then obtain u v where "q = u @ e # v" by (auto simp: in_set_conv_decomp)
    with remap_ordered [OF assms(1-5), of p d u e v a a] pq a show False by simp
  qed
qed

end

end
