(* ===== verification/Split.thy ===== *)
theory Split
  imports Renumber
begin

text \<open>
  \<^verbatim>\<open>pipeline/apply_split_hint.py\<close>: cut one dispatch into tiles along its output features (\<open>N\<close>) or
  output channels (\<open>OC\<close>), register the tiles' tensors, renumber and rewire.
\<close>

section \<open>Errors\<close>

datatype split_error =
    Not_Divisible int int
  | No_Conv_Sub_Op "int option"
  | Split_Unknown_Id int
  | Not_Splittable string
  | Too_Few_Tiles int
  | Split_Missing_Key string
  | Split_No_Output
  | Split_Zero_Division
  | Split_Bad_Contract "string option"

definition shape_key :: "op \<Rightarrow> string \<Rightarrow> split_error + int" where
  "shape_key x k =
     (case shape (flds x) of
        None \<Rightarrow> Inl (Split_Missing_Key ''shape'')
      | Some sh \<Rightarrow> (case map_of sh k of None \<Rightarrow> Inl (Split_Missing_Key k) | Some v \<Rightarrow> Inr v))"

definition first_output :: "op \<Rightarrow> split_error + string" where
  "first_output x = (case o_outs x of [] \<Rightarrow> Inl Split_No_Output | t # _ \<Rightarrow> Inr t)"

definition tile_suffix :: "nat \<Rightarrow> string" where
  "tile_suffix t = ''.tile_'' @ str_nat t"

definition the_id :: "op \<Rightarrow> int" where
  "the_id x = (case o_did x of None \<Rightarrow> -1 | Some d \<Rightarrow> d)"

definition set_shape_key :: "string \<Rightarrow> int \<Rightarrow> op \<Rightarrow> op" where
  "set_shape_key k v x = upd (\<lambda>f. f\<lparr>shape := map_option (AList.update k v) (shape f)\<rparr>) x"

section \<open>The splitters\<close>

definition linear_tile :: "op \<Rightarrow> string \<Rightarrow> int \<Rightarrow> int \<Rightarrow> nat \<Rightarrow> op" where
  "linear_tile x out_tensor n_splits tile_n t =
     upd (\<lambda>f. f\<lparr>outputs := [out_tensor @ tile_suffix t], name := name f @ tile_suffix t,
                split_from := Some (Tile_N (the_id x) (int t) n_splits tile_n (int t * tile_n))\<rparr>)
       (set_shape_key ''N'' tile_n x)"

definition split_linear_s8 :: "op \<Rightarrow> int \<Rightarrow> split_error + op list" where
  "split_linear_s8 x n_splits =
     (case shape_key x ''N'' of
        Inl e \<Rightarrow> Inl e
      | Inr n \<Rightarrow>
          (if n mod n_splits \<noteq> 0 then Inl (Not_Divisible n n_splits)
           else (case first_output x of
                   Inl e \<Rightarrow> Inl e
                 | Inr t \<Rightarrow> Inr (map (linear_tile x t n_splits (n div n_splits)) [0..<nat n_splits]))))"

definition conv_tile :: "op \<Rightarrow> string \<Rightarrow> int \<Rightarrow> int \<Rightarrow> nat \<Rightarrow> op" where
  "conv_tile x out_tensor n_splits tile_oc t =
     upd (\<lambda>f. f\<lparr>outputs := [out_tensor @ tile_suffix t], name := name f @ tile_suffix t,
                split_from := Some (Tile_OC (the_id x) (int t) n_splits tile_oc (int t * tile_oc))\<rparr>)
       (set_shape_key ''OC'' tile_oc x)"

definition split_conv2d_s8 :: "op \<Rightarrow> int \<Rightarrow> split_error + op list" where
  "split_conv2d_s8 x n_splits =
     (case shape_key x ''OC'' of
        Inl e \<Rightarrow> Inl e
      | Inr oc \<Rightarrow>
          (if oc mod n_splits \<noteq> 0 then Inl (Not_Divisible oc n_splits)
           else (case first_output x of
                   Inl e \<Rightarrow> Inl e
                 | Inr t \<Rightarrow> Inr (map (conv_tile x t n_splits (oc div n_splits)) [0..<nat n_splits]))))"

text \<open>\<open>_narrow_sub_shape\<close>: the first channel key that reads the full width, else a divisible count.\<close>

definition narrow_sub_shape :: "op \<Rightarrow> int \<Rightarrow> int \<Rightarrow> split_error + op" where
  "narrow_sub_shape sub full_oc tile_oc =
     (case shape (flds sub) of
        None \<Rightarrow> Inr sub
      | Some sh \<Rightarrow>
          (if get_or sh ''OC'' (-1) = full_oc then Inr (set_shape_key ''OC'' tile_oc sub)
           else if get_or sh ''C'' (-1) = full_oc then Inr (set_shape_key ''C'' tile_oc sub)
           else (case map_of sh ''n'' of
                   None \<Rightarrow> Inr sub
                 | Some n \<Rightarrow>
                     (if n > 0 then
                        if full_oc = 0 then Inl Split_Zero_Division
                        else if n mod full_oc = 0
                        then Inr (set_shape_key ''n'' (n div full_oc * tile_oc) sub)
                        else Inr sub
                      else Inr sub))))"

definition rename_internal :: "string list \<Rightarrow> string \<Rightarrow> op \<Rightarrow> op" where
  "rename_internal inner sfx sub =
     upd (\<lambda>f. f\<lparr>inputs := map (\<lambda>nm. if nm \<in> set inner then nm @ sfx else nm) (inputs f),
                outputs := map (\<lambda>nm. if nm \<in> set inner then nm @ sfx else nm) (outputs f)\<rparr>) sub"

definition fused_tile ::
  "op \<Rightarrow> string list \<Rightarrow> string \<Rightarrow> int \<Rightarrow> int \<Rightarrow> int \<Rightarrow> nat \<Rightarrow> split_error + op" where
  "fused_tile x inner out_tensor n_splits full_oc tile_oc t =
     (case map_res (\<lambda>sub. narrow_sub_shape (rename_internal inner (tile_suffix t) sub) full_oc tile_oc)
             (subs x) of
        Inl e \<Rightarrow> Inl e
      | Inr subs' \<Rightarrow>
          Inr (Op ((flds x)\<lparr>outputs := [out_tensor @ tile_suffix t],
                            name := o_name x @ tile_suffix t,
                            split_from := Some (Tile_OC (the_id x) (int t) n_splits tile_oc
                                                  (int t * tile_oc))\<rparr>)
                 (Some subs')))"

definition is_conv_sub :: "op \<Rightarrow> bool" where
  "is_conv_sub s = (prefix ''conv2d'' (o_kind s) \<and> shape (flds s) \<noteq> None \<and> shape (flds s) \<noteq> Some [])"

definition split_fused_conv_s8 :: "op \<Rightarrow> int \<Rightarrow> split_error + op list" where
  "split_fused_conv_s8 x n_splits =
     (case List.find is_conv_sub (subs x) of
        None \<Rightarrow> Inl (No_Conv_Sub_Op (o_did x))
      | Some conv \<Rightarrow>
          (case shape_key conv ''OC'' of
             Inl e \<Rightarrow> Inl e
           | Inr full_oc \<Rightarrow>
               (if full_oc mod n_splits \<noteq> 0 then Inl (Not_Divisible full_oc n_splits)
                else (case first_output x of
                        Inl e \<Rightarrow> Inl e
                      | Inr t \<Rightarrow>
                          map_res (fused_tile x (concat (map o_outs (subs x))) t n_splits full_oc
                                     (full_oc div n_splits))
                            [0..<nat n_splits]))))"

definition splittable :: "string \<Rightarrow> (op \<Rightarrow> int \<Rightarrow> split_error + op list) option" where
  "splittable kind =
     (if kind = ''linear_s8'' then Some split_linear_s8
      else if kind = ''conv2d_s8'' then Some split_conv2d_s8
      else if kind \<in> {''conv2d_batchnorm2d_s8'', ''conv2d_batchnorm2d_silu_s8''}
      then Some split_fused_conv_s8
      else None)"

section \<open>Tensors of the tiles\<close>

definition tile_axis :: "split_tag \<Rightarrow> string" where
  "tile_axis tag = (case tag of Tile_N _ _ _ _ _ \<Rightarrow> ''N'' | Tile_OC _ _ _ _ _ \<Rightarrow> ''OC'')"

definition tile_shape :: "string \<Rightarrow> int \<Rightarrow> int list \<Rightarrow> int list" where
  "tile_shape axis tile_n sh =
     (if axis = ''OC'' \<and> length sh \<ge> 4 then sh[1 := tile_n] else sh[length sh - 1 := tile_n])"

definition tile_tensor :: "string \<Rightarrow> tensor \<Rightarrow> int list \<Rightarrow> int \<Rightarrow> nat \<Rightarrow> tensor" where
  "tile_tensor out_name parent sh n_splits t =
     \<lparr>t_shape = Some sh,
      t_dtype = Some (case t_dtype parent of None \<Rightarrow> ''i8'' | Some d \<Rightarrow> d),
      t_quant = t_quant parent, t_const = False,
      t_split_from = Some (out_name, t, n_splits), t_unfused_from = None\<rparr>"

definition register_tile_tensors ::
  "(string, tensor) dict \<Rightarrow> string \<Rightarrow> int \<Rightarrow> int \<Rightarrow> string \<Rightarrow> (string, tensor) dict" where
  "register_tile_tensors ts out_name n_splits tile_n axis =
     (case map_of ts out_name of
        None \<Rightarrow> ts
      | Some parent \<Rightarrow>
          (case t_shape parent of
             None \<Rightarrow> ts
           | Some [] \<Rightarrow> ts
           | Some (d # ds) \<Rightarrow>
               fold (\<lambda>t ts'. let nm = out_name @ tile_suffix t in
                       if has_key ts' nm then ts'
                       else AList.update nm (tile_tensor out_name parent (tile_shape axis tile_n (d # ds)) n_splits t) ts')
                 [0..<nat n_splits] ts))"

section \<open>The rewrite\<close>

record split_spec =
  sp_op :: int
  sp_n_splits :: "int option"

definition n_splits_of :: "split_spec \<Rightarrow> int" where
  "n_splits_of sp = (case sp_n_splits sp of None \<Rightarrow> 2 | Some n \<Rightarrow> n)"

definition check_split_spec :: "(int, op) dict \<Rightarrow> split_spec \<Rightarrow> split_error + unit" where
  "check_split_spec by_id sp =
     (case map_of by_id (sp_op sp) of
        None \<Rightarrow> Inl (Split_Unknown_Id (sp_op sp))
      | Some x \<Rightarrow>
          (if splittable (o_kind x) = None then Inl (Not_Splittable (o_kind x))
           else if n_splits_of sp < 2 then Inl (Too_Few_Tiles (n_splits_of sp))
           else Inr ()))"

record split_state =
  ss_ops :: "op list"
  ss_remap :: "(int, int list) dict"
  ss_next :: int
  ss_tensors :: "(string, tensor) dict"

definition assign_ids :: "int \<Rightarrow> op list \<Rightarrow> op list" where
  "assign_ids n xs = map (\<lambda>(i, x). upd (\<lambda>f. f\<lparr>dispatch_id := Some (n + int i)\<rparr>) x) (enumerate 0 xs)"

definition register_tiles :: "op \<Rightarrow> op list \<Rightarrow> int \<Rightarrow> (string, tensor) dict \<Rightarrow> (string, tensor) dict" where
  "register_tiles x tiles n ts =
     (case tiles of
        [] \<Rightarrow> ts
      | tile # _ \<Rightarrow>
          (case (split_from (flds tile), o_outs x) of
             (Some tag, out_name # _) \<Rightarrow>
               if tag_width tag > 0
               then register_tile_tensors ts out_name n (tag_width tag) (tile_axis tag) else ts
           | _ \<Rightarrow> ts))"

definition split_step :: "(int, int) dict \<Rightarrow> op \<Rightarrow> split_state \<Rightarrow> split_error + split_state" where
  "split_step target_ids x s =
     (case o_did x of
        None \<Rightarrow> Inr (s\<lparr>ss_ops := ss_ops s @ [x]\<rparr>)
      | Some d \<Rightarrow>
          (case map_of target_ids d of
             None \<Rightarrow>
               Inr (s\<lparr>ss_ops := ss_ops s @ assign_ids (ss_next s) [x],
                      ss_remap := AList.update d [ss_next s] (ss_remap s),
                      ss_next := ss_next s + 1\<rparr>)
           | Some n \<Rightarrow>
               (case splittable (o_kind x) of
                  None \<Rightarrow> Inl (Not_Splittable (o_kind x))
                | Some splitter \<Rightarrow>
                    (case splitter x n of
                       Inl e \<Rightarrow> Inl e
                     | Inr tiles \<Rightarrow>
                         Inr (s\<lparr>ss_ops := ss_ops s @ assign_ids (ss_next s) tiles,
                                ss_remap := AList.update d (new_block (ss_next s) (length tiles)) (ss_remap s),
                                ss_next := ss_next s + int (length tiles),
                                ss_tensors := register_tiles x tiles n (ss_tensors s)\<rparr>)))))"

definition expand_deps :: "(int, int list) dict \<Rightarrow> int list \<Rightarrow> int list" where
  "expand_deps remap ds = ordered_unique (concat (map (ids_of remap) ds))"

definition rewire_split :: "(int, int list) dict \<Rightarrow> op \<Rightarrow> op" where
  "rewire_split remap x =
     (case o_did x of
        None \<Rightarrow> x
      | Some _ \<Rightarrow> upd (\<lambda>f. f\<lparr>depends_on := expand_deps remap (depends_on f)\<rparr>) x)"

definition publish_many :: "(int, int list) dict \<Rightarrow> (int, remap) dict" where
  "publish_many remap = map (\<lambda>(d, ids). (d, To_Many ids)) (sort_key fst remap)"

definition refresh_ids :: "op list \<Rightarrow> int list option \<Rightarrow> int list option" where
  "refresh_ids new_ops old = map_option (\<lambda>_. dids new_ops) old"

definition split_targets :: "split_spec list \<Rightarrow> (int, int) dict" where
  "split_targets specs = dict_of (map (\<lambda>sp. (sp_op sp, n_splits_of sp)) specs)"

definition split_start :: "graph \<Rightarrow> split_state" where
  "split_start g = \<lparr>ss_ops = [], ss_remap = [], ss_next = 0, ss_tensors = tensors g\<rparr>"

definition apply_split_hint :: "graph \<Rightarrow> split_spec list \<Rightarrow> split_error + graph" where
  "apply_split_hint g specs =
     (if specs = [] then Inr g
      else case for_each (\<lambda>sp _. check_split_spec (ops_by_id (ops g)) sp) specs () of
        Inl e \<Rightarrow> Inl e
      | Inr _ \<Rightarrow>
          (case for_each (split_step (split_targets specs)) (ops g) (split_start g) of
             Inl e \<Rightarrow> Inl e
           | Inr s \<Rightarrow>
               (let new_ops = map (rewire_split (ss_remap s)) (ss_ops s) in
                Inr (g\<lparr>ops := new_ops, tensors := ss_tensors s,
                       dispatches := refresh_ids new_ops (dispatches g),
                       id_remap := Some (publish_many (ss_remap s))\<rparr>))))"

section \<open>The hint document and the driver\<close>

definition split_contract :: string where
  "split_contract = ''modelblaster.split_hints/v1''"

record split_hint =
  sh_contract :: "string option"
  sh_networks :: "(string \<times> split_spec list) list"

definition load_split_hint :: "split_hint \<Rightarrow> split_error + split_hint" where
  "load_split_hint h =
     (if sh_contract h \<noteq> Some split_contract then Inl (Split_Bad_Contract (sh_contract h)) else Inr h)"

definition split_main :: "split_hint \<Rightarrow> string \<Rightarrow> graph \<Rightarrow> split_error + graph" where
  "split_main h model g =
     (case load_split_hint h of
        Inl e \<Rightarrow> Inl e
      | Inr h' \<Rightarrow>
          apply_split_hint (g\<lparr>g_name := Some model\<rparr>)
            (case List.find (\<lambda>e. fst e = model) (sh_networks h') of None \<Rightarrow> [] | Some e \<Rightarrow> snd e))"

end
