(* ===== verification/Unfuse.thy ===== *)
theory Unfuse
  imports Renumber
begin

text \<open>
  \<^verbatim>\<open>pipeline/apply_unfuse_hint.py\<close>: put the ops a fused op was made from back into the graph,
  register the tensors between them, renumber and derive every \<open>depends_on\<close> anew.
\<close>

section \<open>Errors and validation\<close>

datatype unfuse_error =
    Unknown_Op "int option"
  | Listed_Twice int
  | Not_Fused int nat
  | Not_A_Chain int nat
  | Output_Renamed int
  | Sub_No_Shape int nat
  | Sub_No_Quant int nat
  | No_Dtype string
  | No_Scale int string
  | No_Shape_Rule int string
  | Unfuse_Missing_Key string
  | Shape_Conflict int string
  | Unfuse_Bad_Contract "string option"

definition shape_preserving :: "string list" where
  "shape_preserving = [''batchnorm2d_s8'', ''silu_s8'', ''relu_s8'', ''elu_s8'', ''sigmoid_s8'',
                       ''leaky_relu_s8'', ''gelu_s8'']"

definition dtype_for :: "string \<Rightarrow> unfuse_error + string" where
  "dtype_for kind =
     (if suffix ''_s8'' kind then Inr ''i8''
      else if suffix ''_f16'' kind then Inr ''f16''
      else if suffix ''_f32'' kind then Inr ''f32''
      else Inl (No_Dtype kind))"

text \<open>The first position whose output the next sub-op does not read.\<close>

fun chain_break :: "nat \<Rightarrow> op list \<Rightarrow> nat option" where
  "chain_break i (x # y # zs) =
     (case o_outs x of
        [] \<Rightarrow> Some i
      | t # _ \<Rightarrow> if t \<in> set (o_ins y) then chain_break (Suc i) (y # zs) else Some i)"
| "chain_break i xs = None"

definition has_items :: "('k, 'v) dict option \<Rightarrow> bool" where
  "has_items d = (case d of None \<Rightarrow> False | Some xs \<Rightarrow> xs \<noteq> [])"

fun bare_sub :: "int \<Rightarrow> nat \<Rightarrow> op list \<Rightarrow> unfuse_error option" where
  "bare_sub oid i [] = None"
| "bare_sub oid i (x # xs) =
     (if \<not> has_items (shape (flds x)) then Some (Sub_No_Shape oid i)
      else if \<not> has_items (quant (flds x)) then Some (Sub_No_Quant oid i)
      else bare_sub oid (Suc i) xs)"

definition validate_unfuse :: "op \<Rightarrow> int \<Rightarrow> unfuse_error + op list" where
  "validate_unfuse x oid =
     (if length (subs x) < 2 then Inl (Not_Fused oid (length (subs x)))
      else (case chain_break 0 (subs x) of
              Some i \<Rightarrow> Inl (Not_A_Chain oid i)
            | None \<Rightarrow>
                (if o_outs (last (subs x)) \<noteq> o_outs x then Inl (Output_Renamed oid)
                 else (case bare_sub oid 0 (subs x) of
                         Some e \<Rightarrow> Inl e | None \<Rightarrow> Inr (subs x)))))"

section \<open>Tensors that lived inside the fused kernel\<close>

fun lookup_all :: "(string, int) dict \<Rightarrow> string list \<Rightarrow> unfuse_error + int list" where
  "lookup_all sh [] = Inr []"
| "lookup_all sh (k # ks) =
     (case map_of sh k of
        None \<Rightarrow> Inl (Unfuse_Missing_Key k)
      | Some v \<Rightarrow> (case lookup_all sh ks of Inl e \<Rightarrow> Inl e | Inr vs \<Rightarrow> Inr (v # vs)))"

definition shape_from_op :: "op \<Rightarrow> int \<Rightarrow> unfuse_error + int list" where
  "shape_from_op sub oid =
     (let sh = (case shape (flds sub) of None \<Rightarrow> [] | Some d \<Rightarrow> d) in
      if prefix ''conv2d'' (o_kind sub) then lookup_all sh [''N'', ''OC'', ''OH'', ''OW'']
      else if prefix ''linear'' (o_kind sub) then lookup_all sh [''M'', ''N'']
      else Inl (No_Shape_Rule oid (o_kind sub)))"

definition quant_key :: "op \<Rightarrow> string \<Rightarrow> string option" where
  "quant_key x k = (case quant (flds x) of None \<Rightarrow> None | Some q \<Rightarrow> map_of q k)"

definition internal_tensor ::
  "op \<Rightarrow> op \<Rightarrow> int list option \<Rightarrow> int \<Rightarrow> unfuse_error + tensor" where
  "internal_tensor sub consumer fused_shape oid =
     (case (if o_kind sub \<in> set shape_preserving
            then Inr (case fused_shape of None \<Rightarrow> [] | Some sh \<Rightarrow> sh)
            else shape_from_op sub oid) of
        Inl e \<Rightarrow> Inl e
      | Inr sh \<Rightarrow>
          (case (case quant_key consumer ''scale_in'' of
                   Some sc \<Rightarrow> Some sc | None \<Rightarrow> quant_key sub ''scale_out'') of
             None \<Rightarrow> Inl (No_Scale oid (o_kind sub))
           | Some sc \<Rightarrow>
               (case dtype_for (o_kind sub) of
                  Inl e \<Rightarrow> Inl e
                | Inr dt \<Rightarrow>
                    Inr \<lparr>t_shape = Some sh, t_dtype = Some dt,
                         t_quant = Some [(''scale'', sc), (''zero_point'', ''0'')], t_const = False,
                         t_split_from = None, t_unfused_from = None\<rparr>)))"

section \<open>The rewrite\<close>

record unfuse_state =
  us_ops :: "op list"
  us_remap :: "(int, int list) dict"
  us_next :: int
  us_tensors :: "(string, tensor) dict"

definition restored :: "op \<Rightarrow> int \<Rightarrow> nat \<Rightarrow> nat \<Rightarrow> int \<Rightarrow> op \<Rightarrow> op" where
  "restored fused d n_pieces j nid sub =
     upd (\<lambda>f. f\<lparr>depends_on := [], dispatch_id := Some nid,
                hardware_target := (case hardware_target f of
                   Some t \<Rightarrow> Some t
                 | None \<Rightarrow> Some (case o_target fused of None \<Rightarrow> ''any'' | Some t \<Rightarrow> t)),
                unfused_from := Some \<lparr>un_op_id = d, un_piece = j, un_n_pieces = n_pieces,
                                      un_fused_op = o_kind fused\<rparr>\<rparr>) sub"

definition register_internal ::
  "(string, tensor) dict \<Rightarrow> op \<Rightarrow> op \<Rightarrow> int list option \<Rightarrow> int \<Rightarrow> unfuse_error + (string, tensor) dict" where
  "register_internal ts sub consumer fused_shape d =
     (case internal_tensor sub consumer fused_shape d of
        Inl e \<Rightarrow> Inl e
      | Inr meta \<Rightarrow>
          (case o_outs sub of
             [] \<Rightarrow> Inl (Not_A_Chain d 0)
           | nm # _ \<Rightarrow>
               (case map_of ts nm of
                  Some have_meta \<Rightarrow>
                    (if t_shape have_meta \<notin> {None, Some [], t_shape meta}
                     then Inl (Shape_Conflict d nm) else Inr ts)
                | None \<Rightarrow>
                    Inr (AList.update nm (meta\<lparr>t_unfused_from := Some (d, o_name sub)\<rparr>) ts))))"

text \<open>The loop over the sub-ops, \<open>j\<close> being the position of the head of the list.\<close>

fun restore_subs ::
  "op \<Rightarrow> int \<Rightarrow> nat \<Rightarrow> int list option \<Rightarrow> nat \<Rightarrow> op list \<Rightarrow> unfuse_state \<Rightarrow> unfuse_error + unfuse_state" where
  "restore_subs fused d n fshape j [] s = Inr s"
| "restore_subs fused d n fshape j (sub # rest) s =
     (let s1 = s\<lparr>us_ops := us_ops s @ [restored fused d n j (us_next s) sub],
                 us_next := us_next s + 1\<rparr> in
      case rest of
        [] \<Rightarrow> Inr s1
      | consumer # _ \<Rightarrow>
          (case register_internal (us_tensors s1) sub consumer fshape d of
             Inl e \<Rightarrow> Inl e
           | Inr ts \<Rightarrow> restore_subs fused d n fshape (Suc j) rest (s1\<lparr>us_tensors := ts\<rparr>)))"

definition fused_shape_of :: "(string, tensor) dict \<Rightarrow> op \<Rightarrow> int list option" where
  "fused_shape_of ts x =
     (case o_outs x of
        [] \<Rightarrow> None
      | t # _ \<Rightarrow> (case map_of ts t of None \<Rightarrow> None | Some m \<Rightarrow> t_shape m))"

definition unfuse_step :: "(int, op list) dict \<Rightarrow> op \<Rightarrow> unfuse_state \<Rightarrow> unfuse_error + unfuse_state" where
  "unfuse_step pieces x s =
     (case o_did x of
        None \<Rightarrow> Inr (s\<lparr>us_ops := us_ops s @ [x]\<rparr>)
      | Some d \<Rightarrow>
          (case map_of pieces d of
             None \<Rightarrow>
               Inr (s\<lparr>us_ops := us_ops s @ [upd (\<lambda>f. f\<lparr>dispatch_id := Some (us_next s)\<rparr>) x],
                      us_remap := AList.update d [us_next s] (us_remap s),
                      us_next := us_next s + 1\<rparr>)
           | Some parts \<Rightarrow>
               (case restore_subs x d (length parts) (fused_shape_of (us_tensors s) x) 0 parts s of
                  Inl e \<Rightarrow> Inl e
                | Inr s' \<Rightarrow>
                    Inr (s'\<lparr>us_remap := AList.update d (new_block (us_next s) (length parts)) (us_remap s')\<rparr>))))"

definition derived_deps :: "(string, int) dict \<Rightarrow> op \<Rightarrow> int list" where
  "derived_deps owners x =
     sorted_set (filter (\<lambda>d. Some d \<noteq> o_did x) (List.map_filter (map_of owners) (o_ins x)))"

definition output_owners :: "op list \<Rightarrow> (string, int) dict" where
  "output_owners xs =
     fold (\<lambda>x out. case o_did x of None \<Rightarrow> out
                   | Some d \<Rightarrow> fold (\<lambda>t. AList.update t d) (o_outs x) out) xs []"

definition rederive :: "op list \<Rightarrow> op list" where
  "rederive xs =
     map (\<lambda>x. if o_did x = None then x
               else upd (\<lambda>f. f\<lparr>depends_on := derived_deps (output_owners xs) x\<rparr>) x) xs"

fun collect_targets ::
  "(int, op) dict \<Rightarrow> int option list \<Rightarrow> (int, op list) dict \<Rightarrow> unfuse_error + (int, op list) dict" where
  "collect_targets by_id [] acc = Inr acc"
| "collect_targets by_id (oid # rest) acc =
     (case oid of
        None \<Rightarrow> Inl (Unknown_Op None)
      | Some d \<Rightarrow>
          (case map_of by_id d of
             None \<Rightarrow> Inl (Unknown_Op (Some d))
           | Some x \<Rightarrow>
               (if has_key acc d then Inl (Listed_Twice d)
                else (case validate_unfuse x d of
                        Inl e \<Rightarrow> Inl e
                      | Inr parts \<Rightarrow> collect_targets by_id rest (AList.update d parts acc)))))"

definition publish_pieces :: "(int, int list) dict \<Rightarrow> (int, remap) dict" where
  "publish_pieces remap = map (\<lambda>(d, ids). (d, To_Many ids)) (sort_key fst remap)"

definition unfuse_start :: "graph \<Rightarrow> unfuse_state" where
  "unfuse_start g = \<lparr>us_ops = [], us_remap = [], us_next = 0, us_tensors = tensors g\<rparr>"

definition apply_unfuse_hint :: "graph \<Rightarrow> int option list \<Rightarrow> string option \<Rightarrow> unfuse_error + graph" where
  "apply_unfuse_hint g unfuse_ops model =
     (if unfuse_ops = [] then Inr g
      else case collect_targets (ops_by_id (ops g)) unfuse_ops [] of
        Inl e \<Rightarrow> Inl e
      | Inr parts \<Rightarrow>
          (case for_each (unfuse_step parts) (ops g) (unfuse_start g) of
             Inl e \<Rightarrow> Inl e
           | Inr s \<Rightarrow>
               (let new_ops = rederive (us_ops s) in
                Inr (g\<lparr>ops := new_ops, tensors := us_tensors s,
                       id_remap := Some (publish_pieces (us_remap s)),
                       dispatches := map_option (\<lambda>_. dids new_ops) (dispatches g),
                       g_name := (case model of None \<Rightarrow> g_name g
                                  | Some m \<Rightarrow> if m = [] then g_name g else Some m)\<rparr>))))"

section \<open>The hint document and the driver\<close>

definition unfuse_contract :: string where
  "unfuse_contract = ''modelblaster.unfuse_hints/v1''"

record unfuse_hint =
  uh_contract :: "string option"
  uh_networks :: "(string \<times> int option list) list"

definition unfuse_main :: "unfuse_hint \<Rightarrow> string \<Rightarrow> graph \<Rightarrow> unfuse_error + graph" where
  "unfuse_main h model g =
     (if uh_contract h \<noteq> Some unfuse_contract then Inl (Unfuse_Bad_Contract (uh_contract h))
      else (case List.find (\<lambda>e. fst e = model) (uh_networks h) of
              None \<Rightarrow> Inr g
            | Some e \<Rightarrow> if snd e = [] then Inr g else apply_unfuse_hint g (snd e) (Some model)))"

end
