(* ===== verification/Shards.thy ===== *)
theory Shards
  imports Graph_IR
begin

text \<open>
  Intra-op sharding: \<^verbatim>\<open>pipeline/apply_shard_hint.py\<close> writes a \<open>shard_factor\<close> a hint asks for, and
  \<^verbatim>\<open>pipeline/schedule_shards.py\<close> writes the width a schedule reserved. Neither changes the ops'
  ids, order or dependencies.
\<close>

datatype shard_error =
    Not_Sharded int
  | No_Such_Dispatch "int option"
  | No_Sharded_Emitter "int option" string
  | Already_A_Tile "int option"
  | Shard_Not_Divisible int int
  | Shard_Bad_Contract "string option"
  | No_Network string
  | Varying_Widths "(int \<times> nat list) list"
  | Width_Not_Divisible int string int nat
  | Explicit_Conflict int int nat

section \<open>Shard hints\<close>

definition shardable_ops :: "string list" where
  "shardable_ops = [''conv2d_s8'', ''conv2d_batchnorm2d_s8'', ''conv2d_batchnorm2d_silu_s8'',
                    ''conv2d_silu_s8'', ''linear_s8'', ''matmul_s8'']"

definition oc_of :: "op \<Rightarrow> int" where
  "oc_of x =
     (let sh = (case shape (flds x) of None \<Rightarrow> [] | Some d \<Rightarrow> d) in
      case map_of sh ''OC'' of
        Some v \<Rightarrow> v
      | None \<Rightarrow> (case map_of sh ''N'' of Some v \<Rightarrow> v | None \<Rightarrow> 0))"

record shard_spec =
  shs_op :: "int option"
  shs_n :: "int option"

definition n_shards_of :: "shard_spec \<Rightarrow> int" where
  "n_shards_of e = (case shs_n e of None \<Rightarrow> 1 | Some n \<Rightarrow> n)"

text \<open>\<open>{op.get("dispatch_id"): op}\<close>: the last op with an id, the key \<open>None\<close> included.\<close>

definition shard_index :: "op list \<Rightarrow> (int option, nat) dict" where
  "shard_index xs = dict_of (map (\<lambda>(i, x). (o_did x, i)) (enumerate 0 xs))"

record shard_state =
  sd_ops :: "op list"
  sd_applied :: "shard_record list"

definition set_shard :: "int \<Rightarrow> op \<Rightarrow> op" where
  "set_shard n x = upd (\<lambda>f. f\<lparr>shard_factor := Some n\<rparr>) x"

definition shard_entry :: "(int option, nat) dict \<Rightarrow> shard_spec \<Rightarrow> shard_state \<Rightarrow> shard_error + shard_state" where
  "shard_entry idx e s =
     (let n = n_shards_of e in
      if n \<le> 1 then Inl (Not_Sharded n)
      else case map_of idx (shs_op e) of
        None \<Rightarrow> Inl (No_Such_Dispatch (shs_op e))
      | Some i \<Rightarrow>
          (let x = sd_ops s ! i; oc = oc_of x in
           if o_kind x \<notin> set shardable_ops then Inl (No_Sharded_Emitter (shs_op e) (o_kind x))
           else if split_from (flds x) \<noteq> None then Inl (Already_A_Tile (shs_op e))
           else if oc \<le> 0 \<or> oc mod n \<noteq> 0 then Inl (Shard_Not_Divisible oc n)
           else Inr (s\<lparr>sd_ops := (sd_ops s)[i := set_shard n x],
                       sd_applied := sd_applied s @
                         [\<lparr>sr_dispatch_id = (case shs_op e of None \<Rightarrow> -1 | Some d \<Rightarrow> d),
                           sr_op = o_kind x, sr_oc = oc, sr_n_shards = n\<rparr>]\<rparr>)))"

definition apply_shard_hint :: "graph \<Rightarrow> shard_spec list \<Rightarrow> shard_error + graph" where
  "apply_shard_hint g entries =
     (case for_each (shard_entry (shard_index (ops g))) entries \<lparr>sd_ops = ops g, sd_applied = []\<rparr> of
        Inl e \<Rightarrow> Inl e
      | Inr s \<Rightarrow> Inr (g\<lparr>ops := sd_ops s, rewrite_shard := rewrite_shard g @ sd_applied s\<rparr>))"

definition shard_contract :: string where
  "shard_contract = ''modelblaster.shard_hints/v1''"

record shard_hint =
  sdh_contract :: "string option"
  sdh_networks :: "(string \<times> shard_spec list) list"

definition shard_main :: "shard_hint \<Rightarrow> string \<Rightarrow> graph \<Rightarrow> shard_error + graph" where
  "shard_main h network g =
     (if sdh_contract h \<noteq> Some shard_contract then Inl (Shard_Bad_Contract (sdh_contract h))
      else case map_of (dict_of (sdh_networks h)) network of
        None \<Rightarrow> Inl (No_Network network)
      | Some entries \<Rightarrow> apply_shard_hint g entries)"

section \<open>Shards from a schedule\<close>

definition packed_weight_ops :: "string list" where
  "packed_weight_ops = [''conv2d_s8'', ''conv2d_batchnorm2d_s8'', ''conv2d_batchnorm2d_silu_s8'',
                        ''conv2d_silu_s8'']"

definition is_instance :: "string \<Rightarrow> string \<Rightarrow> bool" where
  "is_instance job network =
     (job = network \<or> (prefix network job \<and> isdigit (drop (length network) job)))"

definition output_channels :: "op \<Rightarrow> int" where
  "output_channels x =
     (let sh = (case shape (flds x) of None \<Rightarrow> [] | Some d \<Rightarrow> d) in
      case map_of sh ''OC'' of
        Some v \<Rightarrow> v
      | None \<Rightarrow>
          (case List.find (\<lambda>s. prefix ''conv2d'' (o_kind s)) (subs x) of
             None \<Rightarrow> 0
           | Some s \<Rightarrow> (case shape (flds s) of None \<Rightarrow> 0 | Some d \<Rightarrow> get_or d ''OC'' 0)))"

text \<open>A schedule's dispatch: its job, its id and the target text split at \<open>+\<close>, blank parts dropped.\<close>

record sched_dispatch =
  sc_job :: string
  sc_id :: int
  sc_target :: string

definition target_width :: "string \<Rightarrow> nat" where
  "target_width tgt = length (filter (\<lambda>p. \<not> list_all is_space p) (split_on CHR ''+'' tgt))"

definition scheduled_widths :: "sched_dispatch list \<Rightarrow> string \<Rightarrow> (int, nat list) dict" where
  "scheduled_widths entries network =
     fold (\<lambda>e ws. if is_instance (sc_job e) network
                  then AList.update (sc_id e)
                         (List.insert (target_width (sc_target e)) (get_or ws (sc_id e) [])) ws
                  else ws) entries []"

definition clear_marker :: "op \<Rightarrow> op" where
  "clear_marker x =
     (if schedule_marker (flds x)
      then upd (\<lambda>f. f\<lparr>schedule_marker := False, shard_factor := None\<rparr>) x else x)"

definition mark_shard :: "nat \<Rightarrow> op \<Rightarrow> op" where
  "mark_shard width x = upd (\<lambda>f. f\<lparr>shard_factor := Some (int width), schedule_marker := True\<rparr>) x"

definition schedule_width :: "(int, nat list) dict \<Rightarrow> int \<Rightarrow> nat" where
  "schedule_width widths d = (case get_or widths d [1] of [] \<Rightarrow> 1 | w # _ \<Rightarrow> w)"

definition shard_one :: "(int, nat list) dict \<Rightarrow> op \<Rightarrow> shard_error + op \<times> shard_record list" where
  "shard_one widths x0 =
     (let x = clear_marker x0 in
      case o_did x of
        None \<Rightarrow> Inr (x, [])
      | Some d \<Rightarrow>
          (let width = schedule_width widths d; oc = output_channels x in
           if o_kind x \<notin> set packed_weight_ops \<or> width \<le> 1 then Inr (x, [])
           else if oc \<le> 0 \<or> oc mod int width \<noteq> 0 then Inl (Width_Not_Divisible d (o_kind x) oc width)
           else case shard_factor (flds x) of
             Some ex \<Rightarrow>
               (if ex \<noteq> int width then Inl (Explicit_Conflict d ex width)
                else Inr (mark_shard width x,
                          [\<lparr>sr_dispatch_id = d, sr_op = o_kind x, sr_oc = oc, sr_n_shards = int width\<rparr>]))
           | None \<Rightarrow>
               Inr (mark_shard width x,
                    [\<lparr>sr_dispatch_id = d, sr_op = o_kind x, sr_oc = oc, sr_n_shards = int width\<rparr>])))"

definition apply_schedule_shards ::
  "graph \<Rightarrow> sched_dispatch list \<Rightarrow> string \<Rightarrow> shard_error + graph \<times> shard_record list" where
  "apply_schedule_shards g entries network =
     (let widths = scheduled_widths entries network;
          varying = filter (\<lambda>(d, ws). length ws \<noteq> 1) widths in
      if varying \<noteq> [] then Inl (Varying_Widths (map (\<lambda>(d, ws). (d, sort ws)) varying))
      else case map_res (shard_one widths) (ops g) of
        Inl e \<Rightarrow> Inl e
      | Inr rs \<Rightarrow>
          (let applied = concat (map snd rs) in
           Inr (g\<lparr>ops := map fst rs, rewrite_schedule := Some (network, applied)\<rparr>, applied)))"

end
