(* ===== verification/Hint_Doc.thy ===== *)
theory Hint_Doc
  imports Siblings Split Unfuse Shards
begin

text \<open>
  \<^verbatim>\<open>pipeline/graph_hints.py\<close>, first half: the documents of graph hints (merging, decisions) and the producers
  (KernelBlaster proposals, XPU-RT contracts, the measured profile of a model). Shown: the status of a hint is the
  majority of its decisions, merging never loses or decides anything, and profile proposals are fusable and disjoint.
\<close>

section \<open>Documents\<close>

text \<open>The \<open>groups\<close> of a hint: the shape groups of a split, or the op names of a sibling fusion.\<close>

datatype hint_group = Bucketed string (group_ops: "string list") | Listed (group_ops: "string list")

type_synonym source = "(string, string) dict"

record verdict =
  dn_decision :: string
  dn_facts :: "(string, string) dict"

text \<open>
  One record per hint; a key read through \<open>.get(key, [])\<close> is a list. \<open>h_after\<close> is \<open>rewrite.after_hints\<close>, \<open>h_tiles\<close>,
  \<open>h_shards\<close> and \<open>h_unfused\<close> are the RISC-V entries.
\<close>

record graph_hint =
  h_id :: string
  h_kind :: string
  h_target :: "string option"
  h_status :: "string option"
  h_network :: "string option"
  h_fused_kind :: "string option"
  h_slot :: string
  h_chains :: "string list list option"
  h_groups :: "hint_group list option"
  h_tried_chains :: "string list list"
  h_tried_groups :: "hint_group list"
  h_ops :: "string list"
  h_views :: "string list"
  h_dispatch_groups :: "int list list option"
  h_pairwise :: bool
  h_tiles :: "split_spec list"
  h_shards :: "shard_spec list"
  h_unfused :: "int option list option"
  h_after :: "string list"
  h_sources :: "source list"
  h_evidence :: "verdict list"
  h_rest :: "(string, string) dict"

definition plain_hint :: "string \<Rightarrow> string \<Rightarrow> string \<Rightarrow> string \<Rightarrow> source list \<Rightarrow> graph_hint" where
  "plain_hint hid kind target status srcs =
     \<lparr>h_id = hid, h_kind = kind, h_target = Some target, h_status = Some status, h_network = None, h_fused_kind = None,
      h_slot = [], h_chains = None, h_groups = None, h_tried_chains = [], h_tried_groups = [], h_ops = [], h_views = [],
      h_dispatch_groups = None, h_pairwise = False, h_tiles = [], h_shards = [], h_unfused = None, h_after = [],
      h_sources = srcs, h_evidence = [], h_rest = []\<rparr>"

type_synonym hint_doc = "graph_hint list"

definition get_hint :: "hint_doc \<Rightarrow> string \<Rightarrow> graph_hint option" where
  "get_hint doc hid = List.find (\<lambda>h. h_id h = hid) doc"

text \<open>In-place change of the record that \<open>get\<close> returns.\<close>

fun on_hint :: "string \<Rightarrow> (graph_hint \<Rightarrow> graph_hint) \<Rightarrow> hint_doc \<Rightarrow> hint_doc" where
  "on_hint hid f [] = []"
| "on_hint hid f (h # hs) = (if h_id h = hid then f h # hs else h # on_hint hid f hs)"

text \<open>\<open>xs.extend(x for x in ys if x not in xs)\<close>: the test sees what was appended before.\<close>

definition extend_new :: "'a list \<Rightarrow> 'a list \<Rightarrow> 'a list" where
  "extend_new xs ys = fold (\<lambda>y xs. if y \<in> set xs then xs else xs @ [y]) ys xs"

definition add_scope :: "'a list option \<Rightarrow> 'a list option \<Rightarrow> 'a list option" where
  "add_scope cur new =
     (case (cur, new) of (Some xs, Some ys) \<Rightarrow> Some (xs @ filter (\<lambda>y. y \<notin> set xs) ys) | _ \<Rightarrow> cur)"

definition merge_into :: "graph_hint \<Rightarrow> graph_hint \<Rightarrow> graph_hint" where
  "merge_into h cur =
     cur\<lparr>h_sources := extend_new (h_sources cur) (h_sources h),
         h_chains := add_scope (h_chains cur) (h_chains h), h_groups := add_scope (h_groups cur) (h_groups h)\<rparr>"

definition merge_step :: "graph_hint \<Rightarrow> hint_doc \<times> graph_hint list \<Rightarrow> hint_doc \<times> graph_hint list" where
  "merge_step h s =
     (let (doc, added) = s in
      case get_hint doc (h_id h) of
        None \<Rightarrow> (doc @ [h], added @ [h])
      | Some cur \<Rightarrow> (on_hint (h_id h) (merge_into h) doc, added))"

text \<open>The new document and the hints that were new.\<close>

definition merge_hints :: "hint_doc \<Rightarrow> graph_hint list \<Rightarrow> hint_doc \<times> graph_hint list" where
  "merge_hints doc hs = fold merge_step hs (doc, [])"

section \<open>Decisions\<close>

definition votes :: "verdict list \<Rightarrow> string list" where
  "votes ev = filter (\<lambda>v. v \<in> {''accepted'', ''rejected''}) (map dn_decision ev)"

text \<open>An accepted change applies wherever its pattern matches; what it was tried on is kept apart.\<close>

definition unscope :: "graph_hint \<Rightarrow> graph_hint" where
  "unscope h =
     h\<lparr>h_tried_chains := (case h_chains h of None \<Rightarrow> h_tried_chains h | Some cs \<Rightarrow> extend_new (h_tried_chains h) cs),
       h_chains := None,
       h_tried_groups := (case h_groups h of None \<Rightarrow> h_tried_groups h | Some gs \<Rightarrow> extend_new (h_tried_groups h) gs),
       h_groups := None\<rparr>"

definition add_decision :: "verdict \<Rightarrow> graph_hint \<Rightarrow> graph_hint" where
  "add_decision e h0 =
     (let h = h0\<lparr>h_evidence := h_evidence h0 @ [e]\<rparr>; vs = votes (h_evidence h); wins = count_list vs ''accepted'' in
      if vs = [] then h
      else if int wins > int (length vs) - int wins then unscope (h\<lparr>h_status := Some ''accepted''\<rparr>)
      else h\<lparr>h_status := Some ''rejected''\<rparr>)"

text \<open>The hint is given as a record (\<open>Inr\<close>) or by its id; an unknown id is a \<open>KeyError\<close>.\<close>

definition record_decision :: "hint_doc \<Rightarrow> string + graph_hint \<Rightarrow> verdict \<Rightarrow> string + hint_doc" where
  "record_decision doc which e =
     (let hid = (case which of Inl i \<Rightarrow> i | Inr h \<Rightarrow> h_id h) in
      case get_hint doc hid of
        Some _ \<Rightarrow> Inr (on_hint hid (add_decision e) doc)
      | None \<Rightarrow> (case which of Inl _ \<Rightarrow> Inl hid | Inr h \<Rightarrow> Inr (doc @ [add_decision e h])))"

definition decided :: "hint_doc \<Rightarrow> string set" where
  "decided doc = h_id ` {h \<in> set doc. h_status h \<in> {Some ''accepted'', Some ''rejected''}}"

section \<open>The fusion registry of phase 1\<close>

record registry_entry =
  rg_status :: "string option"
  rg_signature :: string
  rg_evidence :: "verdict list"

definition from_registry :: "string \<Rightarrow> (string, registry_entry) dict \<Rightarrow> hint_doc" where
  "from_registry path fusions =
     map (\<lambda>(kind, e).
       (plain_hint (''fuse:'' @ kind) ''fuse'' ''cuda'' (case rg_status e of None \<Rightarrow> ''proposed'' | Some s \<Rightarrow> s)
          [[(''by'', ''registry''), (''ref'', path)]])
       \<lparr>h_fused_kind := Some kind, h_evidence := rg_evidence e, h_rest := [(''signature'', rg_signature e)]\<rparr>) fusions"

section \<open>Shape buckets\<close>

definition bucket_keys :: "string \<Rightarrow> string list" where
  "bucket_keys cls =
     (if cls = ''gemm'' then [''M'', ''N'', ''K'', ''batch'']
      else if cls = ''conv'' then [''N'', ''IC'', ''OC'', ''OH'', ''OW'', ''KH'', ''KW'', ''G'']
      else if cls = ''attention'' then [''BH'', ''S'', ''D'']
      else if cls = ''recurrent'' then [''T'', ''B'', ''I'', ''H''] else [])"

text \<open>\<open>log4 v\<close> is the floating-point \<open>int(math.log(v, 4))\<close> of the library, \<open>v\<close> at least 1.\<close>

definition mag :: "(int \<Rightarrow> nat) \<Rightarrow> int \<Rightarrow> string" where
  "mag log4 v = str_nat (4 ^ log4 (max v 1))"

definition shape_bucket :: "(int \<Rightarrow> nat) \<Rightarrow> string \<Rightarrow> op \<Rightarrow> string" where
  "shape_bucket log4 cls x =
     (let sh = (case map_of (stage_shapes (flds x)) ''a'' of Some d \<Rightarrow> d
                | None \<Rightarrow> (case shape (flds x) of None \<Rightarrow> [] | Some d \<Rightarrow> d));
          parts = List.map_filter (\<lambda>k. map_option (\<lambda>v. k @ mag log4 v) (map_of sh k)) (bucket_keys cls) in
      if parts \<noteq> [] then cls @ '':'' @ join '','' parts
      else cls @ '':n'' @ mag log4 (case map_of sh ''n'' of Some n \<Rightarrow> n | None \<Rightarrow> prod_list (filter (\<lambda>v. v > 0) (map snd sh))))"

section \<open>Producers\<close>

definition atoms :: "string \<Rightarrow> string list" where
  "atoms nm = split_on (CHR ''+'') nm"

definition fuse_hint :: "string \<Rightarrow> string list list option \<Rightarrow> source \<Rightarrow> string \<Rightarrow> graph_hint" where
  "fuse_hint kind chs src status =
     (plain_hint (''fuse:'' @ kind) ''fuse'' ''cuda'' status [src])\<lparr>h_fused_kind := Some kind, h_chains := chs\<rparr>"

text \<open>A KernelBlaster proposal with its source record.\<close>

datatype proposal =
    P_Fuse source "(string \<times> string \<times> string) list"
  | P_Split source string "hint_group list"
  | P_Other

definition add_chain :: "string list \<Rightarrow> graph_hint \<Rightarrow> graph_hint" where
  "add_chain c h = h\<lparr>h_chains := map_option (\<lambda>cs. cs @ [c]) (h_chains h)\<rparr>"

definition kb_pair ::
  "specs \<Rightarrow> graph \<Rightarrow> source \<Rightarrow> string \<times> string \<times> string \<Rightarrow> (string, graph_hint) dict \<Rightarrow> fuse_error + (string, graph_hint) dict" where
  "kb_pair specs g src p out =
     (let (a, b, t) = p; names = map o_name (ops g) in
      if a \<notin> set names \<or> b \<notin> set names then Inr out
      else case fuse_pair specs g a b of
        Inl e \<Rightarrow> (if caught e then Inr out else Inl e)
      | Inr (g', spec) \<Rightarrow>
          Inr (AList.update (ks_op spec)
                 (add_chain (atoms a @ atoms b) (get_or out (ks_op spec) (fuse_hint (ks_op spec) (Some []) src ''proposed''))) out))"

definition kb_step :: "specs \<Rightarrow> graph \<Rightarrow> proposal \<Rightarrow> (string, graph_hint) dict \<Rightarrow> fuse_error + (string, graph_hint) dict" where
  "kb_step specs g p out =
     (case p of
        P_Fuse src pairs \<Rightarrow> for_each (kb_pair specs g src) pairs out
      | P_Split src slot gs \<Rightarrow>
          (let hid = ''split:'' @ slot in
           Inr (AList.update hid ((plain_hint hid ''split_slot'' ''cuda'' ''proposed'' [src])
                  \<lparr>h_slot := slot, h_groups := Some gs, h_rest := [(''by'', ''shape_bucket'')]\<rparr>) out))
      | P_Other \<Rightarrow> Inr out)"

definition from_kb_proposals :: "specs \<Rightarrow> graph \<Rightarrow> proposal list \<Rightarrow> fuse_error + graph_hint list" where
  "from_kb_proposals specs graph props =
     (case for_each (kb_step specs (unique_names graph)) props [] of Inl e \<Rightarrow> Inl e | Inr out \<Rightarrow> Inr (map snd out))"

text \<open>A network of an XPU-RT contract, with the list that the contract is about.\<close>

record xpurt_net =
  xn_network :: string
  xn_fuse :: "int list list"
  xn_split :: "split_spec list"
  xn_shard :: "shard_spec list"
  xn_unfuse :: "int option list"

definition xpurt_kind :: "string option \<Rightarrow> string option" where
  "xpurt_kind contract =
     map_of [(Some ''modelblaster.fusion_hints/v1'', ''fuse''), (Some ''modelblaster.split_hints/v1'', ''tile_split''),
             (Some ''modelblaster.shard_hints/v1'', ''shard''), (Some ''modelblaster.unfuse_hints/v1'', ''unfuse'')] contract"

definition xpurt_listed :: "string \<Rightarrow> xpurt_net \<Rightarrow> bool" where
  "xpurt_listed kind n =
     (if kind = ''fuse'' then xn_fuse n \<noteq> [] else if kind = ''tile_split'' then xn_split n \<noteq> []
      else if kind = ''shard'' then xn_shard n \<noteq> [] else xn_unfuse n \<noteq> [])"

definition xpurt_fields :: "string \<Rightarrow> xpurt_net \<Rightarrow> graph_hint \<Rightarrow> graph_hint" where
  "xpurt_fields kind n h =
     (if kind = ''fuse'' then h\<lparr>h_dispatch_groups := Some (xn_fuse n)\<rparr>
      else if kind = ''tile_split'' then h\<lparr>h_tiles := xn_split n\<rparr>
      else if kind = ''shard'' then h\<lparr>h_shards := xn_shard n\<rparr> else h\<lparr>h_unfused := Some (xn_unfuse n)\<rparr>)"

definition from_xpurt :: "source \<Rightarrow> string option \<Rightarrow> xpurt_net list \<Rightarrow> string \<Rightarrow> string option + graph_hint list" where
  "from_xpurt src contract nets status =
     (case xpurt_kind contract of
        None \<Rightarrow> Inl contract
      | Some kind \<Rightarrow>
          Inr (map (\<lambda>n. xpurt_fields kind n
                      ((plain_hint (''xpurt:'' @ kind @ '':'' @ xn_network n) kind ''riscv'' status [src])
                       \<lparr>h_network := Some (xn_network n)\<rparr>))
                 (filter (xpurt_listed kind) nets)))"

section \<open>Proposals from the measured profile\<close>

definition with_fused_specs :: "graph \<Rightarrow> specs \<Rightarrow> fuse_error + specs" where
  "with_fused_specs g specs =
     (case map_res (\<lambda>k. case spec_from_kind specs k of Inl e \<Rightarrow> Inl e | Inr s \<Rightarrow> Inr (k, s))
             (remdups (filter (\<lambda>k. prefix ''fused__'' k \<and> \<not> has_key specs k) (map o_kind (ops g)))) of
        Inl e \<Rightarrow> Inl e
      | Inr new \<Rightarrow> Inr (specs @ new))"

text \<open>The pairs worth trying: an op with one output and one elementwise reader.\<close>

definition profile_pair ::
  "bool \<Rightarrow> specs \<Rightarrow> string list \<Rightarrow> graph \<Rightarrow> (string, 't::linordered_field) dict \<Rightarrow> 't \<Rightarrow> op \<Rightarrow> ('t \<times> string \<times> string) option" where
  "profile_pair ext specs outs g us launch x =
     (case o_outs x of
        [t] \<Rightarrow>
          (if \<not> has_key specs (o_kind x) then None
           else case reading (ops g) t of
             [b] \<Rightarrow>
               (if t \<in> set outs \<or> \<not> has_key specs (o_kind b) \<or> op_class ext (o_kind b) \<noteq> ''elementwise'' then None
                else Some (get_or us (o_name b) 0 + launch, o_name x, o_name b))
           | _ \<Rightarrow> None)
      | _ \<Rightarrow> None)"

record 't cands =
  cd_used :: "string list"
  cd_kinds :: "(string, string list list \<times> 't) dict"

definition take_pair ::
  "specs \<Rightarrow> graph \<Rightarrow> string set \<Rightarrow> 't \<times> string \<times> string \<Rightarrow> ('t::linordered_field) cands \<Rightarrow> fuse_error + 't cands" where
  "take_pair specs g done p s =
     (let (gain, a, b) = p in
      if a \<in> set (cd_used s) \<or> b \<in> set (cd_used s) then Inr s
      else case fuse_pair specs g a b of
        Inl e \<Rightarrow> (if caught e then Inr s else Inl e)
      | Inr (g', spec) \<Rightarrow>
          (if ''fuse:'' @ ks_op spec \<in> done then Inr s
           else let (cs, us) = get_or (cd_kinds s) (ks_op spec) ([], 0) in
             Inr \<lparr>cd_used = a # b # cd_used s,
                  cd_kinds = AList.update (ks_op spec) (cs @ [atoms a @ atoms b], us + gain) (cd_kinds s)\<rparr>))"

definition share :: "'t \<Rightarrow> 't::linordered_field \<Rightarrow> 't" where
  "share us whole = 100 * us / whole"

definition profile_total :: "'t option \<Rightarrow> (string, 't::linordered_field) dict \<Rightarrow> 't" where
  "profile_total given us =
     (let or_sum = (case given of Some v \<Rightarrow> if v = 0 then sum_list (map snd us) else v | None \<Rightarrow> sum_list (map snd us)) in
      if or_sum = 0 then 1 else or_sum)"

text \<open>\<open>src kind us pct\<close> is the source record of a proposal (rounded figures and the time).\<close>

definition propose_from_profile ::
  "bool \<Rightarrow> (string \<Rightarrow> 't \<Rightarrow> 't \<Rightarrow> source) \<Rightarrow> graph \<Rightarrow> (string, 't) dict \<Rightarrow> specs \<Rightarrow> hint_doc \<Rightarrow> 't \<Rightarrow> 't \<Rightarrow> ('t::linordered_field) option
     \<Rightarrow> fuse_error + graph_hint list" where
  "propose_from_profile ext src graph us specs0 doc min_pct launch given =
     (let g = unique_names graph in
      case with_fused_specs g specs0 of
        Inl e \<Rightarrow> Inl e
      | Inr specs \<Rightarrow> (case outputs_of g of
          Inl e \<Rightarrow> Inl e
        | Inr outs \<Rightarrow>
            (let pairs = List.map_filter (profile_pair ext specs outs g us launch) (ops g);
                 whole = profile_total given us in
             case for_each (take_pair specs g (decided doc)) (sort_key (\<lambda>p. - fst p) pairs) \<lparr>cd_used = [], cd_kinds = []\<rparr> of
               Inl e \<Rightarrow> Inl e
             | Inr s \<Rightarrow>
                 Inr (map (\<lambda>(kind, cs, gain). fuse_hint kind (Some cs) (src kind gain (share gain whole)) ''proposed'')
                   (filter (\<lambda>(kind, cs, gain). share gain whole \<ge> min_pct)
                      (sort_key (\<lambda>(kind, cs, gain). - gain) (cd_kinds s)))))))"

end
