(* ===== verification/Hint_Doc_Facts.thy ===== *)
theory Hint_Doc_Facts
  imports Complex_Main Hint_Doc
begin

text \<open>What the hint documents guarantee: majority of the decisions, lossless and idempotent merging, sound proposals.\<close>

section \<open>Lookup and update\<close>

lemma get_hint_simps [simp]:
  "get_hint [] i = None" "get_hint (h # hs) i = (if h_id h = i then Some h else get_hint hs i)"
  by (simp_all add: get_hint_def)

lemma get_hint_append: "get_hint (d @ e) i = (case get_hint d i of None \<Rightarrow> get_hint e i | Some h \<Rightarrow> Some h)"
  by (induction d) auto

lemma get_hint_id: "get_hint doc i = Some h \<Longrightarrow> h_id h = i"
  by (induction doc) (auto split: if_splits)

lemma get_hint_mem: "get_hint doc i = Some h \<Longrightarrow> h \<in> set doc"
  by (induction doc) (auto split: if_splits)

definition id_kept :: "(graph_hint \<Rightarrow> graph_hint) \<Rightarrow> bool" where
  "id_kept f = (\<forall>h. h_id (f h) = h_id h)"

lemma get_on_hint:
  "id_kept f \<Longrightarrow> get_hint (on_hint hid f doc) i = (if i = hid then map_option f (get_hint doc i) else get_hint doc i)"
  by (induction doc) (auto simp: id_kept_def)

lemma on_hint_same: "get_hint doc hid = Some h \<Longrightarrow> f h = h \<Longrightarrow> on_hint hid f doc = doc"
  by (induction doc) (auto split: if_splits)

lemma merge_into_id [simp]: "id_kept (merge_into h)" "id_kept (add_decision e)"
  by (simp_all add: id_kept_def merge_into_def add_decision_def unscope_def Let_def)

section \<open>The status is the majority of the decisions\<close>

text \<open>\<open>undecided\<close> results do not vote; a tie rejects.\<close>

definition majority :: "verdict list \<Rightarrow> string" where
  "majority ev =
     (if length (filter (\<lambda>d. dn_decision d = ''rejected'') ev) < length (filter (\<lambda>d. dn_decision d = ''accepted'') ev)
      then ''accepted'' else ''rejected'')"

lemma votes_count:
  "count_list (votes ev) ''accepted'' = length (filter (\<lambda>d. dn_decision d = ''accepted'') ev)"
  "length (votes ev) = length (filter (\<lambda>d. dn_decision d = ''accepted'') ev) + length (filter (\<lambda>d. dn_decision d = ''rejected'') ev)"
  by (induction ev) (auto simp: votes_def)

lemma votes_append: "votes (xs @ ys) = votes xs @ votes ys"
  by (simp add: votes_def)

lemma add_decision_status:
  "h_evidence (add_decision e h) = h_evidence h @ [e]"
  "votes (h_evidence h @ [e]) = [] \<Longrightarrow> add_decision e h = h\<lparr>h_evidence := h_evidence h @ [e]\<rparr>"
  "votes (h_evidence h @ [e]) \<noteq> [] \<Longrightarrow> h_status (add_decision e h) = Some (majority (h_evidence h @ [e]))"
  "h_status (add_decision e h) = Some ''accepted'' \<Longrightarrow> votes (h_evidence h @ [e]) \<noteq> [] \<Longrightarrow>
     h_chains (add_decision e h) = None \<and> h_groups (add_decision e h) = None"
  by (auto simp: add_decision_def unscope_def Let_def votes_count majority_def)

definition decide_all :: "string \<Rightarrow> verdict list \<Rightarrow> hint_doc \<Rightarrow> string + hint_doc" where
  "decide_all hid es doc = for_each (\<lambda>e d. record_decision d (Inl hid) e) es doc"

lemma decide_all_eq:
  "get_hint doc hid = Some h \<Longrightarrow>
     decide_all hid es doc = Inr (fold (\<lambda>e. on_hint hid (add_decision e)) es doc) \<and>
     get_hint (fold (\<lambda>e. on_hint hid (add_decision e)) es doc) hid = Some (fold add_decision es h) \<and>
     (\<forall>i. i \<noteq> hid \<longrightarrow> get_hint (fold (\<lambda>e. on_hint hid (add_decision e)) es doc) i = get_hint doc i)"
proof (induction es arbitrary: doc h)
  case (Cons e es)
  have g: "get_hint (on_hint hid (add_decision e) doc) hid = Some (add_decision e h)" using Cons.prems by (simp add: get_on_hint)
  from Cons.IH [OF g] show ?case
    using Cons.prems by (simp add: decide_all_def record_decision_def get_on_hint)
qed (simp add: decide_all_def)

lemma decisions_fold:
  "h_evidence (fold add_decision es h) = h_evidence h @ es"
  "votes (h_evidence h @ es) = [] \<Longrightarrow> h_status (fold add_decision es h) = h_status h \<and> h_chains (fold add_decision es h) = h_chains h"
proof (induction es arbitrary: h)
  case (Cons e es)
  { case 1 then show ?case by (simp add: Cons add_decision_status) }
  { case 2
    then have v: "votes (h_evidence h @ [e]) = []" "votes ((h_evidence h @ [e]) @ es) = []"
      unfolding votes_append [symmetric] by (simp_all add: votes_def split: if_splits)
    from Cons(2) [of "add_decision e h"] v show ?case by (simp add: add_decision_status(2)) }
qed simp_all

text \<open>
  C28. After any sequence of decisions on a known hint its evidence is the old evidence followed by them, its status
  is the majority of all votes cast (a tie rejects), in whatever order they came, and unchanged when nothing voted;
  an accepted hint is no longer limited to the chains it was tried on; other hints are untouched.
\<close>
theorem decisions_majority:
  assumes "get_hint doc hid = Some h" "es \<noteq> []"
  shows "\<exists>doc' h'. decide_all hid es doc = Inr doc' \<and> get_hint doc' hid = Some h' \<and> h_evidence h' = h_evidence h @ es \<and>
    h_status h' = (if votes (h_evidence h @ es) = [] then h_status h else Some (majority (h_evidence h @ es))) \<and>
    (votes (h_evidence h @ es) \<noteq> [] \<longrightarrow> h_status h' = Some ''accepted'' \<longrightarrow> h_chains h' = None \<and> h_groups h' = None) \<and>
    (\<forall>i. i \<noteq> hid \<longrightarrow> get_hint doc' i = get_hint doc i)"
proof -
  from assms(2) obtain es0 e where es: "es = es0 @ [e]" by (metis rev_exhaust)
  let ?h = "fold add_decision es0 h"
  have h': "fold add_decision es h = add_decision e ?h" by (simp add: es)
  have ev: "h_evidence ?h @ [e] = h_evidence h @ es" by (simp add: decisions_fold es)
  note st = add_decision_status [where e = e and h = ?h, unfolded ev, folded h']
  have "h_status (fold add_decision es h) =
      (if votes (h_evidence h @ es) = [] then h_status h else Some (majority (h_evidence h @ es)))"
    using st(3) decisions_fold(2) [of h es] by auto
  with st decide_all_eq [OF assms(1), of es] show ?thesis by auto
qed

section \<open>Merging\<close>

lemma extend_new_set: "set (extend_new xs ys) = set xs \<union> set ys"
  by (induction ys arbitrary: xs) (auto simp: extend_new_def)

lemma extend_new_same: "set ys \<subseteq> set xs \<Longrightarrow> extend_new xs ys = xs"
  by (induction ys arbitrary: xs) (auto simp: extend_new_def)

definition scope_in :: "'a list option \<Rightarrow> 'a list option \<Rightarrow> bool" where
  "scope_in cur new = (case (cur, new) of (Some xs, Some ys) \<Rightarrow> set ys \<subseteq> set xs | _ \<Rightarrow> True)"

lemma add_scope_in: "scope_in cur new \<Longrightarrow> add_scope cur new = cur" "scope_in (add_scope cur new) new"
  "scope_in cur old \<Longrightarrow> scope_in (add_scope cur new) old" "scope_in cur cur"
  by (auto simp: scope_in_def add_scope_def filter_empty_conv split: option.splits)

definition absorbed :: "graph_hint \<Rightarrow> hint_doc \<Rightarrow> bool" where
  "absorbed h doc =
     (\<exists>cur. get_hint doc (h_id h) = Some cur \<and> set (h_sources h) \<subseteq> set (h_sources cur) \<and>
            scope_in (h_chains cur) (h_chains h) \<and> scope_in (h_groups cur) (h_groups h))"

lemma absorbed_step:
  assumes "absorbed h doc"
  shows "merge_step h (doc, added) = (doc, added)"
proof -
  from assms obtain cur where g: "get_hint doc (h_id h) = Some cur" and m: "set (h_sources h) \<subseteq> set (h_sources cur)"
    "scope_in (h_chains cur) (h_chains h)" "scope_in (h_groups cur) (h_groups h)" by (auto simp: absorbed_def)
  then have "merge_into h cur = cur" by (simp add: merge_into_def extend_new_same add_scope_in)
  with g show ?thesis by (simp add: merge_step_def on_hint_same)
qed

lemma merge_step_absorbs: "absorbed h (fst (merge_step h s))"
  by (cases s) (auto simp: merge_step_def absorbed_def get_hint_append get_on_hint merge_into_def extend_new_set
      add_scope_in split: option.splits)

lemma merge_step_keeps_absorbed: "absorbed h (fst s) \<Longrightarrow> absorbed h (fst (merge_step h' s))"
  by (cases s) (fastforce simp: merge_step_def absorbed_def get_hint_append get_on_hint merge_into_def extend_new_set
      add_scope_in split: option.splits)

lemma fold_absorbs: "h \<in> set hs \<or> absorbed h (fst s) \<Longrightarrow> absorbed h (fst (fold merge_step hs s))"
  
proof (induction hs arbitrary: s)
  case (Cons k hs)
  have "h \<in> set hs \<or> absorbed h (fst (merge_step k s))"
    using Cons.prems merge_step_absorbs [of h s] merge_step_keeps_absorbed [of h s k] by auto
  with Cons.IH show ?case by simp
qed simp

lemma fold_absorbed: "(\<And>h. h \<in> set hs \<Longrightarrow> absorbed h doc) \<Longrightarrow> fold merge_step hs (doc, added) = (doc, added)"
  by (induction hs) (simp_all add: absorbed_step)

text \<open>What a merge leaves of a hint that was there.\<close>

definition still_in :: "graph_hint \<Rightarrow> graph_hint \<Rightarrow> bool" where
  "still_in h h' =
     (h_status h' = h_status h \<and> h_evidence h' = h_evidence h \<and> set (h_sources h) \<subseteq> set (h_sources h') \<and>
      (h_chains h = None \<longrightarrow> h_chains h' = None) \<and> scope_in (h_chains h') (h_chains h) \<and>
      (h_groups h = None \<longrightarrow> h_groups h' = None) \<and> scope_in (h_groups h') (h_groups h))"

lemma kept_trans: "still_in a b \<Longrightarrow> still_in b c \<Longrightarrow> still_in a c"
  by (auto simp: still_in_def scope_in_def split: option.splits)

lemma kept_refl [simp]: "still_in h h"
  by (simp add: still_in_def add_scope_in)

lemma scope_in_add: "scope_in (add_scope c x) c" "add_scope None x = None"
  by (rule add_scope_in(3) [OF add_scope_in(4)]) (simp add: add_scope_def)

lemma kept_merge_into [simp]: "still_in cur (merge_into h cur)"
  by (simp add: still_in_def merge_into_def extend_new_set scope_in_add)

lemma merge_step_kept:
  "get_hint (fst s) i = Some h \<Longrightarrow> \<exists>h'. get_hint (fst (merge_step k s)) i = Some h' \<and> still_in h h'"
  by (cases s) (auto simp: merge_step_def get_hint_append get_on_hint split: option.splits)

lemma fold_merge_kept:
  "get_hint (fst s) i = Some h \<Longrightarrow> \<exists>h'. get_hint (fst (fold merge_step hs s)) i = Some h' \<and> still_in h h'"
proof (induction hs arbitrary: s h)
  case (Cons k hs)
  from merge_step_kept [OF Cons.prems, of k] obtain h1 where "get_hint (fst (merge_step k s)) i = Some h1" "still_in h h1" by blast
  with Cons.IH [of "merge_step k s" h1] show ?case by (auto intro: kept_trans)
qed auto

lemma fold_merge_ids: "get_hint (fst (fold merge_step hs s)) i \<noteq> None \<longleftrightarrow> get_hint (fst s) i \<noteq> None \<or> i \<in> h_id ` set hs"
proof (induction hs arbitrary: s)
  case (Cons k hs)
  have "get_hint (fst (merge_step k s)) i \<noteq> None \<longleftrightarrow> get_hint (fst s) i \<noteq> None \<or> i = h_id k"
    by (cases s) (auto simp: merge_step_def get_hint_append get_on_hint split: option.splits)
  with Cons show ?case by auto
qed simp

text \<open>
  C29. Merging producers' hints into a document keeps every decision: a known hint keeps its status and evidence, its
  sources and scope only grow, and an unlimited (accepted) hint stays unlimited; exactly the merged ids are added;
  merging the same hints again changes nothing and reports nothing new.
\<close>
theorem merge_keeps_decisions:
  "(\<forall>i h. get_hint doc i = Some h \<longrightarrow> (\<exists>h'. get_hint (fst (merge_hints doc hs)) i = Some h' \<and> still_in h h')) \<and>
   (\<forall>i. get_hint (fst (merge_hints doc hs)) i \<noteq> None \<longleftrightarrow> get_hint doc i \<noteq> None \<or> i \<in> h_id ` set hs) \<and>
   merge_hints (fst (merge_hints doc hs)) hs = (fst (merge_hints doc hs), [])"
proof -
  have "merge_hints (fst (merge_hints doc hs)) hs = (fst (merge_hints doc hs), [])"
    unfolding merge_hints_def by (rule fold_absorbed) (simp add: fold_absorbs)
  then show ?thesis using fold_merge_kept [of "(doc, [])" _ _ hs] fold_merge_ids [of hs "(doc, [])"] by (simp add: merge_hints_def)
qed

section \<open>Proposals from the profile\<close>

definition chain_pair :: "string \<times> string \<times> string \<Rightarrow> string list" where
  "chain_pair p = (case p of (k, a, b) \<Rightarrow> atoms a @ atoms b)"

text \<open>What the loop over the pairs has taken: \<open>ps\<close> lists kind, producer and consumer.\<close>

definition took :: "specs \<Rightarrow> graph \<Rightarrow> string set \<Rightarrow> (string \<times> string) set \<Rightarrow> (string \<times> string \<times> string) list \<Rightarrow> 't cands \<Rightarrow> bool" where
  "took specs g done tried ps s =
     (set (cd_used s) = (\<Union>(k, a, b) \<in> set ps. {a, b}) \<and>
      sorted_wrt (\<lambda>p q. {fst (snd p), snd (snd p)} \<inter> {fst (snd q), snd (snd q)} = {}) ps \<and>
      (\<forall>k cs us. map_of (cd_kinds s) k = Some (cs, us) \<longrightarrow> cs = map chain_pair (filter (\<lambda>p. fst p = k) ps)) \<and>
      distinct (keys (cd_kinds s)) \<and> (\<forall>k. has_key (cd_kinds s) k \<longleftrightarrow> k \<in> fst ` set ps) \<and>
      (\<forall>(k, a, b) \<in> set ps. ''fuse:'' @ k \<notin> done \<and> (a, b) \<in> tried \<and>
         (\<exists>g' spec. fuse_pair specs g a b = Inr (g', spec) \<and> ks_op spec = k)))"

lemma took_step:
  assumes "took specs g done tried ps s" "take_pair specs g done (gain, a, b) s = Inr s'" "(a, b) \<in> tried"
  shows "\<exists>ps'. took specs g done tried ps' s'"
proof (cases "s' = s")
  case True
  with assms(1) show ?thesis by blast
next
  case False
  from assms(2) False obtain g' spec cs us where n: "a \<notin> set (cd_used s)" "b \<notin> set (cd_used s)"
    and f: "fuse_pair specs g a b = Inr (g', spec)" and d: "''fuse:'' @ ks_op spec \<notin> done"
    and c: "get_or (cd_kinds s) (ks_op spec) ([], 0) = (cs, us)"
    and s': "s' = \<lparr>cd_used = a # b # cd_used s,
                   cd_kinds = AList.update (ks_op spec) (cs @ [atoms a @ atoms b], us + gain) (cd_kinds s)\<rparr>"
    by (auto simp: take_pair_def Let_def split: if_splits sum.splits prod.splits)
  note t = assms(1) [unfolded took_def]
  let ?p = "(ks_op spec, a, b)"
  have cs: "cs = map chain_pair (filter (\<lambda>p. fst p = ks_op spec) ps)"
  proof (cases "map_of (cd_kinds s) (ks_op spec)")
    case None
    then have "\<not> has_key (cd_kinds s) (ks_op spec)" by (simp add: has_key_def)
    then have "ks_op spec \<notin> fst ` set ps" using t by blast
    then have "filter (\<lambda>p. fst p = ks_op spec) ps = []" by (force simp: filter_empty_conv)
    with None c show ?thesis by (simp add: get_or_def)
  next
    case (Some e)
    with c t show ?thesis by (cases e) (simp add: get_or_def)
  qed
  have "took specs g done tried (ps @ [?p]) s'"
    unfolding took_def
  proof (intro conjI)
    show "set (cd_used s') = (\<Union>(k, a, b) \<in> set (ps @ [?p]). {a, b})" using t by (auto simp: s')
    show "sorted_wrt (\<lambda>p q. {fst (snd p), snd (snd p)} \<inter> {fst (snd q), snd (snd q)} = {}) (ps @ [?p])"
      using t n by (auto simp: sorted_wrt_append split_beta)
    show "\<forall>k cs us. map_of (cd_kinds s') k = Some (cs, us) \<longrightarrow> cs = map chain_pair (filter (\<lambda>p. fst p = k) (ps @ [?p]))"
      using t cs by (auto simp: s' update_conv' chain_pair_def split: if_splits)
    show "distinct (keys (cd_kinds s'))" using t by (simp add: s' distinct_keys_update)
    show "\<forall>k. has_key (cd_kinds s') k \<longleftrightarrow> k \<in> fst ` set (ps @ [?p])" using t by (auto simp: s' has_key_def update_conv')
    show "\<forall>(k, a, b) \<in> set (ps @ [?p]). ''fuse:'' @ k \<notin> done \<and> (a, b) \<in> tried \<and>
         (\<exists>g' spec. fuse_pair specs g a b = Inr (g', spec) \<and> ks_op spec = k)" using t d f assms(3) by auto
  qed
  then show ?thesis by blast
qed

lemma for_each_inv_all:
  "for_each f xs s = Inr s' \<Longrightarrow> P s \<Longrightarrow> (\<And>x s s'. x \<in> set xs \<Longrightarrow> P s \<Longrightarrow> f x s = Inr s' \<Longrightarrow> P s') \<Longrightarrow> P s'"
  by (rule for_each_invariant)

text \<open>A pair worth trying: a tensor of the first op only the second, an elementwise op, reads, and reads once.\<close>

definition worth_trying :: "bool \<Rightarrow> graph \<Rightarrow> string list \<Rightarrow> string \<times> string \<Rightarrow> bool" where
  "worth_trying ext g outs p =
     (\<exists>x \<in> set (ops g). \<exists>b t. fst p = o_name x \<and> snd p = o_name b \<and> o_outs x = [t] \<and> t \<notin> set outs \<and>
        reading (ops g) t = [b] \<and> op_class ext (o_kind b) = ''elementwise'')"

lemma profile_pair_worth:
  "x \<in> set (ops g) \<Longrightarrow> profile_pair ext specs outs g us launch x = Some (gain, a, b) \<Longrightarrow> worth_trying ext g outs (a, b)"
  by (fastforce simp: profile_pair_def worth_trying_def split: list.splits if_splits)

text \<open>
  C30. Every hint the profile proposes is undecided so far, and its chains are pairs whose dry-run fusion gives
  exactly the hint's kind: a producer and the elementwise op that alone reads its result. No op is in two of the
  proposed pairs.
\<close>
theorem profile_proposals_sound:
  assumes "propose_from_profile ext src graph us specs0 doc min_pct launch given = Inr hs"
  shows "\<exists>specs outs ps. with_fused_specs (unique_names graph) specs0 = Inr specs \<and> outputs_of (unique_names graph) = Inr outs \<and>
    sorted_wrt (\<lambda>p q. {fst (snd p), snd (snd p)} \<inter> {fst (snd q), snd (snd q)} = {}) ps \<and>
    (\<forall>h \<in> set hs. \<exists>kind. h_fused_kind h = Some kind \<and> h_id h \<notin> decided doc \<and> h_status h = Some ''proposed'' \<and>
       h_chains h = Some (map chain_pair (filter (\<lambda>p. fst p = kind) ps)) \<and>
       (\<exists>p \<in> set ps. fst p = kind)) \<and>
    (\<forall>(kind, a, b) \<in> set ps. worth_trying ext (unique_names graph) outs (a, b) \<and>
       (\<exists>g' spec. fuse_pair specs (unique_names graph) a b = Inr (g', spec) \<and> ks_op spec = kind))"
proof -
  let ?g = "unique_names graph" and ?done = "decided doc"
  from assms obtain specs outs s where sp: "with_fused_specs ?g specs0 = Inr specs" and o: "outputs_of ?g = Inr outs"
    and run: "for_each (take_pair specs ?g ?done)
                (sort_key (\<lambda>p. - fst p) (List.map_filter (profile_pair ext specs outs ?g us launch) (ops ?g))) \<lparr>cd_used = [], cd_kinds = []\<rparr> = Inr s"
    and hs: "hs = map (\<lambda>(kind, cs, gain). fuse_hint kind (Some cs) (src kind gain (share gain (profile_total given us))) ''proposed'')
                   (filter (\<lambda>(kind, cs, gain). share gain (profile_total given us) \<ge> min_pct)
                      (sort_key (\<lambda>(kind, cs, gain). - gain) (cd_kinds s)))"
    by (auto simp: propose_from_profile_def Let_def split: sum.splits)
  let ?tried = "{p. worth_trying ext ?g outs p}"
  have "\<exists>ps. took specs ?g ?done ?tried ps s"
  proof (rule for_each_inv_all [OF run])
    show "\<exists>ps. took specs ?g ?done ?tried ps \<lparr>cd_used = [], cd_kinds = []\<rparr>"
      by (rule exI [of _ "[]"]) (simp add: took_def has_key_def keys_def)
  next
    fix p s s'
    assume p: "p \<in> set (sort_key (\<lambda>p. - fst p) (List.map_filter (profile_pair ext specs outs ?g us launch) (ops ?g)))"
      and t: "\<exists>ps. took specs ?g ?done ?tried ps s" and st: "take_pair specs ?g ?done p s = Inr s'"
    obtain gain a b where pe: "p = (gain, a, b)" by (cases p)
    from p have "worth_trying ext ?g outs (a, b)" by (auto simp: pe set_map_filter intro: profile_pair_worth)
    with t st show "\<exists>ps. took specs ?g ?done ?tried ps s'" unfolding pe by (auto dest: took_step)
  qed
  then obtain ps where ps: "took specs ?g ?done ?tried ps s" by blast
  have "\<forall>h \<in> set hs. \<exists>kind. h_fused_kind h = Some kind \<and> h_id h \<notin> ?done \<and> h_status h = Some ''proposed'' \<and>
       h_chains h = Some (map chain_pair (filter (\<lambda>p. fst p = kind) ps)) \<and> (\<exists>p \<in> set ps. fst p = kind)"
  proof
    fix h assume "h \<in> set hs"
    then obtain kind cs gain where m: "(kind, cs, gain) \<in> set (cd_kinds s)"
      and h: "h = fuse_hint kind (Some cs) (src kind gain (share gain (profile_total given us))) ''proposed''" by (auto simp: hs)
    have k: "map_of (cd_kinds s) kind = Some (cs, gain)" using m ps by (auto simp: took_def keys_def intro: map_of_is_SomeI)
    then have "cs = map chain_pair (filter (\<lambda>p. fst p = kind) ps)" "kind \<in> fst ` set ps"
      using ps by (auto simp: took_def has_key_def)
    moreover from this(2) obtain a b where "(kind, a, b) \<in> set ps" by auto
    moreover from this have "''fuse:'' @ kind \<notin> ?done" using ps by (auto simp: took_def)
    ultimately show "\<exists>kind. h_fused_kind h = Some kind \<and> h_id h \<notin> ?done \<and> h_status h = Some ''proposed'' \<and>
       h_chains h = Some (map chain_pair (filter (\<lambda>p. fst p = kind) ps)) \<and> (\<exists>p \<in> set ps. fst p = kind)"
      by (intro exI [of _ kind]) (force simp: h fuse_hint_def plain_hint_def)
  qed
  with sp o ps show ?thesis by (intro exI [of _ specs] exI [of _ outs] exI [of _ ps]) (auto simp: took_def)
qed

section \<open>Concrete documents\<close>

definition vote :: "string \<Rightarrow> verdict" where
  "vote v = \<lparr>dn_decision = v, dn_facts = []\<rparr>"

definition demo_doc :: hint_doc where
  "demo_doc = [fuse_hint ''k'' (Some [[''a'', ''b'']]) [(''by'', ''kb'')] ''proposed'', fuse_hint ''m'' None [] ''proposed'']"

lemma demo_doc_get: "get_hint demo_doc ''fuse:k'' = Some (fuse_hint ''k'' (Some [[''a'', ''b'']]) [(''by'', ''kb'')] ''proposed'')"
  by code_simp

lemma demo_votes: "majority [vote ''rejected'', vote ''undecided'', vote ''accepted'', vote ''accepted''] = ''accepted''"
  "votes [vote ''rejected'', vote ''undecided'', vote ''accepted'', vote ''accepted''] \<noteq> []"
  by code_simp+

theorem decisions_majority_witness:
  "\<exists>doc' h'. decide_all ''fuse:k'' [vote ''rejected'', vote ''undecided'', vote ''accepted'', vote ''accepted''] demo_doc = Inr doc' \<and>
     get_hint doc' ''fuse:k'' = Some h' \<and> h_status h' = Some ''accepted'' \<and> h_chains h' = None"
proof -
  let ?es = "[vote ''rejected'', vote ''undecided'', vote ''accepted'', vote ''accepted'']"
  have e: "h_evidence (fuse_hint ''k'' (Some [[''a'', ''b'']]) [(''by'', ''kb'')] ''proposed'') = []"
    by (simp add: fuse_hint_def plain_hint_def)
  from decisions_majority [OF demo_doc_get, of ?es] demo_votes show ?thesis unfolding e append_Nil by auto
qed

definition again :: "graph_hint list" where
  "again = [fuse_hint ''k'' (Some [[''c'', ''d''], [''a'', ''b'']]) [(''by'', ''mb'')] ''proposed'', fuse_hint ''n'' None [] ''proposed'']"

lemma again_merged:
  "map (\<lambda>h. (h_id h, h_chains h)) (fst (merge_hints demo_doc again)) =
     [(''fuse:k'', Some [[''a'', ''b''], [''c'', ''d'']]), (''fuse:m'', None), (''fuse:n'', None)]"
  by code_simp

theorem merge_keeps_decisions_witness:
  "merge_hints (fst (merge_hints demo_doc again)) again = (fst (merge_hints demo_doc again), []) \<and>
   (\<exists>h'. get_hint (fst (merge_hints demo_doc again)) ''fuse:k'' = Some h' \<and>
         still_in (fuse_hint ''k'' (Some [[''a'', ''b'']]) [(''by'', ''kb'')] ''proposed'') h')"
  using merge_keeps_decisions [of demo_doc again] demo_doc_get by blast

definition profile_run :: "fuse_error + graph_hint list" where
  "profile_run =
     propose_from_profile False (\<lambda>k us pct. []) (plain_graph [demo_op ''lin'' ''linear'' [''x''] [''t''], demo_op ''rl'' ''relu'' [''t''] [''y'']] [''y''])
       [(''lin'', 6), (''rl'', 4)] demo_specs [] (2 :: rat) 0 None"

lemma profile_eval: "(case profile_run of Inl e \<Rightarrow> False | Inr hs \<Rightarrow> map (\<lambda>h. (h_id h, h_chains h)) hs = [(''fuse:fused__linear__relu'', Some [[''lin'', ''rl'']])])"
  by code_simp

theorem profile_proposals_sound_witness:
  "\<exists>h. profile_run = Inr [h] \<and> h_id h = ''fuse:fused__linear__relu'' \<and> h_id h \<notin> decided []"
proof -
  from profile_eval obtain h where r: "profile_run = Inr [h]" and i: "h_id h = ''fuse:fused__linear__relu''"
    by (auto split: sum.splits)
  from profile_proposals_sound [OF r [unfolded profile_run_def]] have "h_id h \<notin> decided []" by auto
  with r i show ?thesis by blast
qed

end
