(* ===== verification/Hint_Apply.thy ===== *)
theory Hint_Apply
  imports Hint_Doc View_Fusion Fusion "HOL-Library.Product_Lexorder"
begin

text \<open>
  \<^verbatim>\<open>pipeline/graph_hints.py\<close>, second half: \<open>apply_hints\<close>, the one path by which every accepted hint rewrites a
  graph. Python mutates one provenance record; here it is passed on. The appliers that live in other modules
  (attention, layout folding, regions, sibling convolutions, stored rewrites) are the argument \<open>applier\<close>.
\<close>

section \<open>Provenance\<close>

datatype why = Raised fuse_error | Because string

record skipped =
  sk_id :: string
  sk_ops :: "string list"
  sk_why :: why

record applied =
  ap_id :: string
  ap_kind :: string
  ap_op :: string
  ap_names :: "string list"
  ap_fused :: "string option"
  ap_variants :: "(string \<times> string list) list"
  ap_views :: "string list"

record provenance =
  pv_applied :: "applied list"
  pv_skipped :: "skipped list"
  pv_renamed :: "(string, string) dict"

definition no_provenance :: provenance where
  "no_provenance = \<lparr>pv_applied = [], pv_skipped = [], pv_renamed = []\<rparr>"

definition skip :: "string \<Rightarrow> string list \<Rightarrow> why \<Rightarrow> provenance \<Rightarrow> provenance" where
  "skip hid ns w p = p\<lparr>pv_skipped := pv_skipped p @ [\<lparr>sk_id = hid, sk_ops = ns, sk_why = w\<rparr>]\<rparr>"

definition note_applied :: "applied \<Rightarrow> provenance \<Rightarrow> provenance" where
  "note_applied a p = p\<lparr>pv_applied := pv_applied p @ [a]\<rparr>"

definition rename_to :: "string list \<Rightarrow> string \<Rightarrow> provenance \<Rightarrow> provenance" where
  "rename_to ns new p = p\<lparr>pv_renamed := fold (\<lambda>n. AList.update n new) ns (pv_renamed p)\<rparr>"

definition applied_to :: "string \<Rightarrow> string \<Rightarrow> string \<Rightarrow> string list \<Rightarrow> string option \<Rightarrow> applied" where
  "applied_to hid kind nm ns fk =
     \<lparr>ap_id = hid, ap_kind = kind, ap_op = nm, ap_names = ns, ap_fused = fk, ap_variants = [], ap_views = []\<rparr>"

text \<open>A graph under rewriting: the graph, the specifications it needs besides the given ones, the provenance.\<close>

type_synonym rewriting = "graph \<times> specs \<times> provenance"

section \<open>Locating and marking ops\<close>

definition located :: "op list \<Rightarrow> (string, string) dict" where
  "located xs = dict_of (concat (map (\<lambda>x. map (\<lambda>a. (a, o_name x)) (atoms (o_name x))) xs))"

definition locate :: "graph \<Rightarrow> string list \<Rightarrow> fuse_error + string list" where
  "locate g chain =
     (let w = located (ops g) in
      if list_ex (\<lambda>a. \<not> has_key w a) chain then Inl (Refused ''not in the graph'')
      else Inr (ordered_unique (map (\<lambda>a. get_or w a []) chain)))"

definition set_extra :: "string \<Rightarrow> string \<Rightarrow> op \<Rightarrow> op" where
  "set_extra k v x = upd (\<lambda>f. f\<lparr>extra := AList.update k v (extra f)\<rparr>) x"

text \<open>\<open>next(o for o in ops if o["name"] == new)["hint"] = id\<close>.\<close>

definition mark_hint :: "string \<Rightarrow> string \<Rightarrow> graph \<Rightarrow> fuse_error + graph" where
  "mark_hint hid nm g =
     (case index_of (ops g) nm of
        Inl e \<Rightarrow> Inl e
      | Inr i \<Rightarrow> Inr (g\<lparr>ops := (ops g)[i := set_extra ''hint'' hid (ops g ! i)]\<rparr>))"

section \<open>Fusing\<close>

text \<open>What the two loops over chains and groups share: one group is tried, skipped or recorded.\<close>

definition try_group ::
  "(graph \<Rightarrow> string list \<Rightarrow> fuse_error + graph \<times> kspec) \<Rightarrow> string option \<Rightarrow> graph \<Rightarrow> string list
     \<Rightarrow> fuse_error + string list \<times> graph \<times> kspec" where
  "try_group fuse want g grp =
     (case locate g grp of
        Inl e \<Rightarrow> Inl e
      | Inr cur \<Rightarrow>
          (if length cur < 2 then Inl (Refused ''already one op'')
           else case fuse g cur of
             Inl e \<Rightarrow> Inl e
           | Inr (g', s) \<Rightarrow> (if want \<noteq> None \<and> want \<noteq> Some (ks_op s) then Inl (Refused ''fuses to another kind'') else Inr (cur, g', s))))"

definition group_loop ::
  "(graph \<Rightarrow> string list \<Rightarrow> fuse_error + graph \<times> kspec) \<Rightarrow> string option \<Rightarrow> string \<Rightarrow> string \<Rightarrow> string list
     \<Rightarrow> rewriting \<Rightarrow> fuse_error + rewriting" where
  "group_loop fuse want hid kind grp r =
     (let (g, used, p) = r in
      case try_group fuse want g grp of
        Inl e \<Rightarrow> (if caught e then Inr (g, used, skip hid grp (Raised e) p) else Inl e)
      | Inr (cur, g', s) \<Rightarrow>
          (let new = join ''+'' cur in
           case mark_hint hid new g' of
             Inl e \<Rightarrow> Inl e
           | Inr g2 \<Rightarrow>
               Inr (g2, AList.update (ks_op s) s used,
                    note_applied (applied_to hid kind new cur (Some (ks_op s))) (rename_to (grp @ cur) new p))))"

text \<open>\<open>except (ValueError, KeyError)\<close>, which does not catch a \<open>StopIteration\<close>.\<close>

definition caught_value :: "fuse_error \<Rightarrow> bool" where
  "caught_value e = (caught e \<and> e \<noteq> Stop_Iteration)"

definition nothing_fused :: "graph_hint \<Rightarrow> bool \<Rightarrow> rewriting \<Rightarrow> rewriting" where
  "nothing_fused h limited r =
     (let (g, used, p) = r in
      if used = [] \<and> \<not> limited then (g, used, skip (h_id h) [] (Because ''pattern does not occur'') p) else r)"

definition apply_fuse :: "specs \<Rightarrow> graph_hint \<Rightarrow> graph \<Rightarrow> provenance \<Rightarrow> fuse_error + rewriting" where
  "apply_fuse specs h g p =
     (case h_fused_kind h of
        None \<Rightarrow> Inl (Key_Error ''fused_kind'')
      | Some kind \<Rightarrow> (case spec_from_kind specs kind of
          Inl e \<Rightarrow> (if caught_value e then Inr (g, [], skip (h_id h) [] (Raised e) p) else Inl e)
        | Inr spec \<Rightarrow>
            (case (case h_chains h of Some cs \<Rightarrow> Inr cs | None \<Rightarrow> find_chains specs g kind) of
               Inl e \<Rightarrow> Inl e
             | Inr chs \<Rightarrow> (case for_each (group_loop (fuse_chain specs) (Some kind) (h_id h) ''fuse'') chs (g, [], p) of
                 Inl e \<Rightarrow> Inl e
               | Inr r \<Rightarrow> (let (g', used, p') = nothing_fused h (h_chains h \<noteq> None) r in
                            Inr (g', if used = [] then [] else [(kind, spec)], p'))))))"

definition kinds_of_group :: "graph \<Rightarrow> string list \<Rightarrow> fuse_error + string list" where
  "kinds_of_group g grp =
     map_res (\<lambda>n. case index_of (ops g) n of Inl e \<Rightarrow> Inl e | Inr i \<Rightarrow> Inr (o_kind (ops g ! i))) grp"

text \<open>Without groups, the sibling groups found whose kinds are those the fused kind names.\<close>

definition sibling_groups :: "specs \<Rightarrow> graph \<Rightarrow> string list \<Rightarrow> fuse_error + string list list" where
  "sibling_groups specs g want =
     (case find_siblings specs g sibling_kinds 4 of
        Inl e \<Rightarrow> Inl e
      | Inr gs \<Rightarrow> (case map_res (\<lambda>grp. case kinds_of_group g grp of Inl e \<Rightarrow> Inl e | Inr ks \<Rightarrow> Inr (grp, ks)) gs of
          Inl e \<Rightarrow> Inl e
        | Inr gks \<Rightarrow> Inr (map fst (filter (\<lambda>(grp, ks). ks = want) gks))))"

definition sibling_loop :: "specs \<Rightarrow> graph_hint \<Rightarrow> graph \<Rightarrow> provenance \<Rightarrow> string list list \<Rightarrow> fuse_error + rewriting" where
  "sibling_loop specs h g p gs =
     (case for_each (group_loop (fuse_siblings specs) (if h_fused_kind h = Some [] then None else h_fused_kind h) (h_id h) ''fuse_siblings'') gs (g, [], p) of
        Inl e \<Rightarrow> Inl e
      | Inr r \<Rightarrow> Inr (nothing_fused h (h_groups h \<noteq> None) r))"

text \<open>A hint without kind and groups is an error nothing catches (\<open>None.startswith\<close>).\<close>

definition apply_siblings :: "specs \<Rightarrow> graph_hint \<Rightarrow> graph \<Rightarrow> provenance \<Rightarrow> fuse_error + rewriting" where
  "apply_siblings specs h g p =
     (case h_groups h of
        Some gs \<Rightarrow> sibling_loop specs h g p (map group_ops gs)
      | None \<Rightarrow> (case h_fused_kind h of
          None \<Rightarrow> Inl (Assertion_Error ''no fused kind'')
        | Some kind \<Rightarrow> (case parse_kind specs kind of
            Inl e \<Rightarrow> (if caught_value e then Inr (g, [], skip (h_id h) [] (Raised e) p) else Inl e)
          | Inr (want, _) \<Rightarrow> (case sibling_groups specs g want of
              Inl e \<Rightarrow> Inl e
            | Inr gs \<Rightarrow> sibling_loop specs h g p gs))))"

section \<open>Views\<close>

definition as_view :: "string \<Rightarrow> string list \<Rightarrow> applied \<Rightarrow> applied" where
  "as_view hid vs a = (if ap_id a = hid then a\<lparr>ap_kind := ''fuse_view'', ap_views := vs\<rparr> else a)"

definition apply_view :: "specs \<Rightarrow> graph_hint \<Rightarrow> graph \<Rightarrow> provenance \<Rightarrow> fuse_error + rewriting" where
  "apply_view specs h g p =
     (let vs = filter (\<lambda>v. v \<in> o_name ` set (ops g)) (h_views h) in
      case elide g (Some vs) of
        Inl (Not_Transparent ns) \<Rightarrow> Inr (g, [], skip (h_id h) [] (Because ''not transparent'') p)
      | Inl e \<Rightarrow> Inl (case e of No_Result_Key \<Rightarrow> Key_Error ''tensor'' | _ \<Rightarrow> fuse_error.Index_Error)
      | Inr (g2, _) \<Rightarrow> (case apply_fuse specs h g2 p of
          Inl e \<Rightarrow> Inl e
        | Inr (g3, used, p') \<Rightarrow>
            (if used = [] then Inr (g, [], p')
             else Inr (g3, used, p'\<lparr>pv_applied := map (as_view (h_id h) vs) (pv_applied p')\<rparr>))))"

section \<open>Splitting a slot by shape\<close>

definition slot_text :: "string \<Rightarrow> string" where
  "slot_text s = map (\<lambda>c. if is_word c then c else CHR ''_'') s"

definition base_slot_id :: "specs \<Rightarrow> string \<Rightarrow> fuse_error + string" where
  "base_slot_id specs kind =
     (case map_of specs kind of
        None \<Rightarrow> Inl (Key_Error kind)
      | Some s \<Rightarrow> (case parse_signature (ks_signature s) of
          None \<Rightarrow> Inl (Unparseable (ks_signature s))
        | Some (entry, _) \<Rightarrow> Inr (slot_text (remove_prefix ''kernel_'' entry))))"

text \<open>The positions of the instances of a slot.\<close>

definition slot_instances :: "specs \<Rightarrow> graph \<Rightarrow> string \<Rightarrow> fuse_error + nat list" where
  "slot_instances specs g slot =
     (case map_res (\<lambda>(i, x). if \<not> has_key specs (o_kind x) then Inr (i, False)
                             else case base_slot_id specs (o_kind x) of Inl e \<Rightarrow> Inl e | Inr s \<Rightarrow> Inr (i, s = slot)) (enumerate 0 (ops g)) of
        Inl e \<Rightarrow> Inl e
      | Inr marks \<Rightarrow> Inr (map fst (filter snd marks)))"

definition bucket_groups :: "(int \<Rightarrow> nat) \<Rightarrow> bool \<Rightarrow> graph \<Rightarrow> nat list \<Rightarrow> string list list" where
  "bucket_groups log4 ext g is =
     map snd (fold (\<lambda>i. let x = ops g ! i in append_to (shape_bucket log4 (op_class ext (o_kind x)) x) (o_name x)) is [])"

definition live_groups :: "(string, nat) dict \<Rightarrow> (string, string) dict \<Rightarrow> string list list \<Rightarrow> string list list" where
  "live_groups names renamed groups =
     filter (\<lambda>ns. ns \<noteq> []) (map (\<lambda>ns. filter (has_key names) (ordered_unique (map (\<lambda>n. get_or renamed n n) ns))) groups)"

definition variant_name :: "nat \<Rightarrow> string" where
  "variant_name k = ''v'' @ str_nat k"

definition set_variant :: "(string, nat) dict \<Rightarrow> string \<Rightarrow> nat \<times> string \<Rightarrow> op list \<Rightarrow> op list" where
  "set_variant names hid kn xs =
     (case map_of names (snd kn) of
        None \<Rightarrow> xs
      | Some i \<Rightarrow> xs[i := set_extra ''hint'' hid (set_extra ''slot_variant'' (variant_name (fst kn)) (xs ! i))])"

definition apply_split ::
  "(int \<Rightarrow> nat) \<Rightarrow> bool \<Rightarrow> specs \<Rightarrow> graph_hint \<Rightarrow> graph \<Rightarrow> provenance \<Rightarrow> fuse_error + rewriting" where
  "apply_split log4 ext specs h g p =
     (case slot_instances specs g (h_slot h) of
        Inl e \<Rightarrow> Inl e
      | Inr is \<Rightarrow>
          (let groups = (case h_groups h of Some gs \<Rightarrow> map group_ops gs | None \<Rightarrow> bucket_groups log4 ext g is);
               names = dict_of (map (\<lambda>i. (o_name (ops g ! i), i)) is);
               live = live_groups names (pv_renamed p) groups in
           if length live < 2 then Inr (g, [], skip (h_id h) [] (Because (str_nat (length live) @ '' shape group(s)'')) p)
           else Inr (g\<lparr>ops := fold (set_variant names (h_id h)) (concat (map (\<lambda>(k, ns). map (Pair k) ns) (enumerate 0 live))) (ops g)\<rparr>, [],
                     note_applied ((applied_to (h_id h) ''split_slot'' (h_slot h) [] None)
                       \<lparr>ap_variants := map (\<lambda>(k, ns). (variant_name k, ns)) (enumerate 0 live)\<rparr>) p)))"

section \<open>Unfusing\<close>

definition unfused_stage :: "string \<Rightarrow> op \<Rightarrow> op" where
  "unfused_stage nm s = set_extra ''unfused_from'' nm (upd (\<lambda>f. f\<lparr>depends_on := []\<rparr>) s)"

fun place_of :: "'a \<Rightarrow> 'a list \<Rightarrow> nat" where
  "place_of x [] = 0"
| "place_of x (y # ys) = (if x = y then 0 else Suc (place_of x ys))"

definition unfuse_one :: "graph_hint \<Rightarrow> op \<Rightarrow> graph \<times> provenance \<Rightarrow> graph \<times> provenance" where
  "unfuse_one h t r =
     (let (g, p) = r; missing = filter (\<lambda>x. \<not> has_key (tensors g) x) (internal (flds t)) in
      if missing \<noteq> [] then (g, skip (h_id h) [o_name t] (Because ''internal tensors are not registered'') p)
      else let i = place_of t (ops g); stages = map (unfused_stage (o_name t)) (subs t) in
        (g\<lparr>ops := take i (ops g) @ stages @ drop (i + 1) (ops g)\<rparr>,
         note_applied (applied_to (h_id h) ''unfuse'' (o_name t) (map o_name stages) None)
           (fold (\<lambda>s. rename_to [o_name s] (o_name s)) stages p)))"

definition unfuse_targets :: "graph_hint \<Rightarrow> op list \<Rightarrow> op list" where
  "unfuse_targets h xs = filter (\<lambda>x. sub_ops x \<noteq> None \<and> (o_name x \<in> set (h_ops h) \<or> Some (o_kind x) = h_fused_kind h)) xs"

definition apply_unfuse :: "graph_hint \<Rightarrow> graph \<Rightarrow> provenance \<Rightarrow> rewriting" where
  "apply_unfuse h g p =
     (if unfuse_targets h (ops g) = [] then (g, [], skip (h_id h) [] (Because ''no matching fused op'') p)
      else let (g', p') = fold (unfuse_one h) (unfuse_targets h (ops g)) (g, p) in (g', [], p'))"

section \<open>Renumbering\<close>

text \<open>Fresh ids in op order; a view (a \<open>null\<close> id) keeps none. The ids of every atom are collected.\<close>

definition number_step :: "op \<Rightarrow> op list \<times> int \<times> (string, int list) dict \<Rightarrow> op list \<times> int \<times> (string, int list) dict" where
  "number_step x s =
     (let (xs, nid, of_atom) = s in
      if null_dispatch (flds x) \<and> o_did x = None then (xs @ [x], nid, of_atom)
      else (xs @ [upd (\<lambda>f. f\<lparr>dispatch_id := Some nid\<rparr>) x], nid + 1,
            fold (\<lambda>a. append_to a nid) (atoms (o_name x)) of_atom))"

definition depend_step :: "op \<Rightarrow> op list \<times> (string, int) dict \<Rightarrow> op list \<times> (string, int) dict" where
  "depend_step x s =
     (let (xs, producer) = s in
      case o_did x of
        None \<Rightarrow> (xs @ [x], producer)
      | Some d \<Rightarrow>
          (xs @ [upd (\<lambda>f. f\<lparr>depends_on := sorted_set (filter (\<lambda>i. i \<noteq> d) (List.map_filter (map_of producer) (o_ins x)))\<rparr>) x],
           fold (\<lambda>t. AList.update t d) (o_outs x) producer))"

definition ids_of_name :: "(string, int list) dict \<Rightarrow> string \<Rightarrow> int list" where
  "ids_of_name of_atom nm = sorted_set (concat (map (\<lambda>a. get_or of_atom a []) (atoms nm)))"

text \<open>\<open>setdefault\<close>: a second op with the same old id does not change the entry.\<close>

definition set_remap :: "(string, int list) dict \<Rightarrow> string \<times> int option \<Rightarrow> (int, remap) dict \<Rightarrow> (int, remap) dict" where
  "set_remap of_atom nd m =
     (case snd nd of
        None \<Rightarrow> m
      | Some d \<Rightarrow> if has_key m d then m else AList.update d (To_Many (ids_of_name of_atom (fst nd))) m)"

definition numbered_ops :: "op list \<Rightarrow> op list \<times> int \<times> (string, int list) dict" where
  "numbered_ops xs = fold number_step xs ([], 0, [])"

definition renumber_graph :: "(string, int option) dict \<Rightarrow> graph \<Rightarrow> graph" where
  "renumber_graph before g =
     (if list_all (\<lambda>(n, d). d = None) before then g
      else let (xs, nid, of_atom) = numbered_ops (ops g); ys = fst (fold depend_step xs ([], [])) in
        g\<lparr>ops := ys, id_remap := Some (fold (set_remap of_atom) before []),
          dispatches := (if dispatches g = None then None else Some (List.map_filter o_did ys))\<rparr>)"

section \<open>The order of the hints\<close>

text \<open>The source's sort keys, in tenths.\<close>

definition kind_stage :: "string \<Rightarrow> int" where
  "kind_stage k = get_or [(''fuse'', 0), (''unfuse'', -10), (''merge_sibling_convs'', -5), (''fuse_siblings'', 3),
     (''fuse_attention'', 4), (''fold_layout'', 5), (''split_slot'', 10), (''fuse_region'', 15), (''fuse_view'', 1)] k 20"

definition hint_order :: "specs \<Rightarrow> graph_hint \<Rightarrow> fuse_error + int \<times> int" where
  "hint_order specs h =
     (if h_kind h = ''fuse'' \<and> h_fused_kind h \<noteq> None \<and> h_fused_kind h \<noteq> Some []
      then (case parse_kind specs (the (h_fused_kind h)) of
              Inr (ks, _) \<Rightarrow> Inr (0, - int (length ks))
            | Inl e \<Rightarrow> (if caught_value e then Inr (0, 0) else Inl e))
      else Inr (kind_stage (h_kind h), 0))"

text \<open>A stored rewrite goes right after the last of the hints it was proposed on.\<close>

definition last_of :: "string list \<Rightarrow> graph_hint list \<Rightarrow> nat" where
  "last_of ids hs = (case filter (\<lambda>i. h_id (hs ! i) \<in> set ids) [0..<length hs] of [] \<Rightarrow> 0 | is \<Rightarrow> last is + 1)"

definition insert_rewrite :: "graph_hint \<Rightarrow> graph_hint list \<Rightarrow> graph_hint list" where
  "insert_rewrite h hs = (let i = last_of (h_after h) hs in take i hs @ h # drop i hs)"

definition ordered_hints :: "specs \<Rightarrow> graph_hint list \<Rightarrow> fuse_error + graph_hint list" where
  "ordered_hints specs hs =
     (case map_res (\<lambda>h. case hint_order specs h of Inl e \<Rightarrow> Inl e | Inr k \<Rightarrow> Inr (k, h)) hs of
        Inl e \<Rightarrow> Inl e
      | Inr keyed \<Rightarrow>
          (let sorted_hs = map snd (sort_key fst keyed);
               rest = filter (\<lambda>h. h_kind h \<noteq> ''rewrite'') sorted_hs in
           Inr (fold insert_rewrite (filter (\<lambda>h. h_kind h = ''rewrite'') sorted_hs) rest)))"

section \<open>Applying\<close>

definition slot_targets :: "string list" where
  "slot_targets = [''cuda'', ''opencl'']"

definition cuda_kinds :: "string list" where
  "cuda_kinds = [''fuse'', ''split_slot'', ''unfuse'', ''fold_layout'', ''fuse_attention'', ''fuse_siblings'', ''fuse_region'',
                 ''fuse_view'', ''rewrite'', ''merge_sibling_convs'']"

definition target_of :: "graph_hint \<Rightarrow> string" where
  "target_of h = (case h_target h of None \<Rightarrow> ''cuda'' | Some t \<Rightarrow> t)"

text \<open>XPU-RT groups of dispatch ids as chains of op names; only a \<open>ValueError\<close> of the check is caught.\<close>

definition xpurt_chains :: "graph \<Rightarrow> int list list \<Rightarrow> fusion_error + string list list" where
  "xpurt_chains g grps =
     (let by_id = ops_by_id (ops g) in
      map_res (\<lambda>grp. case validate_fuse_group grp by_id of
          Inl e \<Rightarrow> Inl e
        | Inr _ \<Rightarrow> map_res (\<lambda>d. case map_of by_id d of None \<Rightarrow> Inl (Fusion_Key_Error d) | Some x \<Rightarrow> Inr (o_name x)) grp) grps)"

text \<open>The loop state: the graph, the given and added specifications, the added ones, the provenance.\<close>

record apply_state =
  as_graph :: graph
  as_specs :: specs
  as_added :: specs
  as_prov :: provenance

definition take_over :: "rewriting \<Rightarrow> apply_state \<Rightarrow> apply_state" where
  "take_over r s =
     (let (g, sp, p) = r in
      s\<lparr>as_graph := g, as_specs := fold (\<lambda>(k, v). AList.update k v) sp (as_specs s),
        as_added := fold (\<lambda>(k, v). AList.update k v) sp (as_added s), as_prov := p\<rparr>)"

definition xpurt_chain_step :: "graph_hint \<Rightarrow> string list \<Rightarrow> apply_state \<Rightarrow> fuse_error + apply_state" where
  "xpurt_chain_step h ch s =
     (case fuse_chain (as_specs s) (as_graph s) ch of
        Inl e \<Rightarrow> (if caught e then Inr (s\<lparr>as_prov := skip (h_id h) ch (Raised e) (as_prov s)\<rparr>) else Inl e)
      | Inr (_, sp) \<Rightarrow>
          (case apply_fuse (as_specs s) (h\<lparr>h_fused_kind := Some (ks_op sp), h_chains := Some [ch]\<rparr>) (as_graph s) (as_prov s) of
             Inl e \<Rightarrow> Inl e
           | Inr r \<Rightarrow> Inr (take_over r s)))"

type_synonym applier = "string \<Rightarrow> specs \<Rightarrow> graph_hint \<Rightarrow> graph \<Rightarrow> provenance \<Rightarrow> fuse_error + rewriting"

definition apply_kind ::
  "(int \<Rightarrow> nat) \<Rightarrow> bool \<Rightarrow> applier \<Rightarrow> specs \<Rightarrow> graph_hint \<Rightarrow> graph \<Rightarrow> provenance \<Rightarrow> fuse_error + rewriting" where
  "apply_kind log4 ext applier specs h g p =
     (if h_kind h = ''fuse'' then apply_fuse specs h g p
      else if h_kind h = ''fuse_siblings'' then apply_siblings specs h g p
      else if h_kind h = ''fuse_view'' then apply_view specs h g p
      else if h_kind h \<in> {''fuse_attention'', ''fuse_region'', ''merge_sibling_convs'', ''rewrite'', ''fold_layout''}
      then applier (h_kind h) specs h g p
      else if h_kind h = ''split_slot'' then apply_split log4 ext specs h g p
      else if h_kind h = ''unfuse'' then
        (if h_target h = Some ''riscv'' then Inr (g, [], skip (h_id h) [] (Because ''int8 unfuse needs quant blocks'') p)
         else Inr (apply_unfuse h g p))
      else Inr (g, [], skip (h_id h) [] (Because (''unknown kind '' @ h_kind h)) p))"

definition apply_one ::
  "(int \<Rightarrow> nat) \<Rightarrow> bool \<Rightarrow> applier \<Rightarrow> string \<Rightarrow> graph_hint \<Rightarrow> apply_state \<Rightarrow> (fusion_error + fuse_error) + apply_state" where
  "apply_one log4 ext applier tgt h s =
     (let skipped_for = (\<lambda>w. Inr (s\<lparr>as_prov := skip (h_id h) [] (Because w) (as_prov s)\<rparr>)) in
      if target_of h \<in> set slot_targets \<and> target_of h \<noteq> tgt then skipped_for ''decided for another target''
      else if target_of h = ''riscv'' \<and> h_kind h = ''fuse'' \<and> h_dispatch_groups h \<noteq> None then
        (case xpurt_chains (as_graph s) (the (h_dispatch_groups h)) of
           Inl (Fusion_Key_Error d) \<Rightarrow> Inl (Inl (Fusion_Key_Error d))
         | Inl e \<Rightarrow> skipped_for ''not a valid group''
         | Inr chs \<Rightarrow> (case for_each (xpurt_chain_step h) chs s of Inl e \<Rightarrow> Inl (Inr e) | Inr s' \<Rightarrow> Inr s'))
      else if target_of h \<noteq> ''cuda'' \<and> h_kind h \<notin> set cuda_kinds then skipped_for ''not applicable on cuda''
      else case apply_kind log4 ext applier (as_specs s) h (as_graph s) (as_prov s) of
        Inl e \<Rightarrow> Inl (Inr e)
      | Inr r \<Rightarrow> Inr (take_over r s))"

definition wanted :: "string list option \<Rightarrow> graph_hint \<Rightarrow> bool" where
  "wanted statuses h = (case statuses of None \<Rightarrow> True | Some ss \<Rightarrow> h_status h \<in> Some ` set ss)"

text \<open>\<open>apply_hints\<close> for a slot target; the record of the round, which carries the time, is the provenance.\<close>

definition apply_hints ::
  "(int \<Rightarrow> nat) \<Rightarrow> bool \<Rightarrow> applier \<Rightarrow> specs \<Rightarrow> string \<Rightarrow> string list option \<Rightarrow> graph \<Rightarrow> graph_hint list
     \<Rightarrow> (fusion_error + fuse_error) + rewriting" where
  "apply_hints log4 ext applier specs tgt statuses graph hs =
     (let g = unique_names graph; before = dict_of (map (\<lambda>x. (o_name x, o_did x)) (ops g)) in
      case ordered_hints specs (filter (wanted statuses) hs) of
        Inl e \<Rightarrow> Inl (Inr e)
      | Inr todo \<Rightarrow>
          (case for_each (apply_one log4 ext applier tgt) todo
                  \<lparr>as_graph = g, as_specs = specs, as_added = [], as_prov = no_provenance\<rparr> of
             Inl e \<Rightarrow> Inl e
           | Inr s \<Rightarrow> Inr (renumber_graph before (as_graph s), as_added s, as_prov s)))"

section \<open>The RISC-V appliers\<close>

datatype riscv_error = On_Fuse fusion_error | On_Split split_error | On_Shard shard_error | On_Unfuse unfuse_error

definition riscv_applied :: "graph_hint \<Rightarrow> graph \<Rightarrow> provenance \<Rightarrow> graph \<times> provenance" where
  "riscv_applied h g p = (g, note_applied (applied_to (h_id h) (h_kind h) [] [] None) p)"

definition riscv_step :: "graph_hint \<Rightarrow> graph \<times> provenance \<Rightarrow> riscv_error + graph \<times> provenance" where
  "riscv_step h s =
     (let (g, p) = s in
      if h_network h \<noteq> None \<and> h_network h \<noteq> g_name g then Inr (g, skip (h_id h) [] (Because ''for another network'') p)
      else if h_kind h = ''fuse'' \<and> h_dispatch_groups h \<noteq> None then
        (case apply_hint g (the (h_dispatch_groups h)) (h_pairwise h) of Inl e \<Rightarrow> Inl (On_Fuse e) | Inr g' \<Rightarrow> Inr (riscv_applied h g' p))
      else if h_kind h = ''tile_split'' then
        (case apply_split_hint g (h_tiles h) of Inl e \<Rightarrow> Inl (On_Split e) | Inr g' \<Rightarrow> Inr (riscv_applied h g' p))
      else if h_kind h = ''shard'' then
        (case apply_shard_hint g (h_shards h) of Inl e \<Rightarrow> Inl (On_Shard e) | Inr g' \<Rightarrow> Inr (riscv_applied h g' p))
      else if h_kind h = ''unfuse'' \<and> h_unfused h \<noteq> None then
        (case apply_unfuse_hint g (the (h_unfused h)) None of Inl e \<Rightarrow> Inl (On_Unfuse e) | Inr g' \<Rightarrow> Inr (riscv_applied h g' p))
      else Inr (g, skip (h_id h) [] (Because (h_kind h @ '' has no RISC-V applier'')) p))"

definition apply_riscv :: "string list option \<Rightarrow> graph \<Rightarrow> graph_hint list \<Rightarrow> riscv_error + graph \<times> provenance" where
  "apply_riscv statuses graph hs =
     for_each riscv_step (filter (wanted statuses) hs) (unique_names graph, no_provenance)"

end
