(* ===== verification/Graph_Edit_Facts.thy ===== *)
theory Graph_Edit_Facts
  imports Graph_Edit
begin

text \<open>
  The sort of \<^verbatim>\<open>graph_edit.toposort\<close> as an instance of Kahn's algorithm with the smallest ready index
  first: when it succeeds, what it returns, and that it is stable.
\<close>

section \<open>Indexing the producers\<close>

abbreviation store_fresh :: "nat \<Rightarrow> string \<Rightarrow> (string, nat) dict \<Rightarrow> patch_error + (string, nat) dict" where
  "store_fresh i t d \<equiv> (if has_key d t then Inl (Produced_Twice t) else Inr (AList.update t i d))"

lemma store_all:
  "for_each (store_fresh i) ts d = Inr d' \<longleftrightarrow>
     distinct ts \<and> set ts \<inter> set (keys d) = {} \<and> d' = fold (\<lambda>t. AList.update t i) ts d"
  by (induction ts arbitrary: d) (auto simp: has_key_iff keys_update)

lemma keys_fold_same: "set (keys (fold (\<lambda>t. AList.update t i) ts d)) = set ts \<union> set (keys d)"
  by (induction ts arbitrary: d) (auto simp: keys_update)

lemma index_makes_iff:
  "index_makes ix d = Inr d' \<longleftrightarrow>
     distinct (makes (snd ix)) \<and> set (makes (snd ix)) \<inter> set (keys d) = {} \<and>
     d' = fold (\<lambda>t. AList.update t (fst ix)) (makes (snd ix)) d"
  unfolding index_makes_def by (rule store_all)

lemma index_makes_from:
  "(\<exists>d'. for_each index_makes (enumerate k xs) d = Inr d') \<longleftrightarrow>
     distinct (concat (map makes xs)) \<and> set (concat (map makes xs)) \<inter> set (keys d) = {}"
proof (induction xs arbitrary: k d)
  case (Cons x xs)
  let ?d = "fold (\<lambda>t. AList.update t k) (makes x) d"
  show ?case
  proof (cases "distinct (makes x) \<and> set (makes x) \<inter> set (keys d) = {}")
    case True
    then have "index_makes (k, x) d = Inr ?d" by (simp add: index_makes_iff)
    then show ?thesis using True by (auto simp: Cons keys_fold_same)
  next
    case False
    then obtain e where "index_makes (k, x) d = Inl e"
      by (cases "index_makes (k, x) d") (auto simp: index_makes_iff)
    with False show ?thesis by auto
  qed
qed simp

lemma index_makes_lookup:
  assumes "for_each index_makes (enumerate 0 xs) [] = Inr prd"
  shows "map_of prd t = Some i \<longleftrightarrow> i < length xs \<and> t \<in> set (makes (xs ! i))"
proof -
  define P where "P pre (d :: (string, nat) dict) \<longleftrightarrow>
      (\<forall>t i. map_of d t = Some i \<longleftrightarrow> i < length pre \<and> t \<in> set (makes (snd (pre ! i))))" for pre :: "(nat \<times> op) list" and d
  have "P (enumerate 0 xs) prd"
  proof (rule for_each_prefix_inv [OF assms])
    show "P [] []" by (simp add: P_def)
    fix pre ix post and d d' :: "(string, nat) dict"
    assume split: "enumerate 0 xs = pre @ ix # post" and I: "P pre d" and step: "index_makes ix d = Inr d'"
    have "fst ix = length pre"
      using arg_cong [OF split, of "\<lambda>l. l ! length pre"] arg_cong [OF split, of length] by (auto simp: nth_enumerate_eq)
    moreover have "t \<notin> set (makes (snd ix))" if "map_of d t = Some i" for t i
      using step that unfolding index_makes_iff by (auto simp: has_key_iff [symmetric] has_key_def)
    ultimately show "P (pre @ [ix]) d'"
      using I step unfolding P_def index_makes_iff
      by (auto simp: map_of_fold_same nth_append less_Suc_eq split: if_splits)
  qed
  then show ?thesis by (auto simp: P_def nth_enumerate_eq)
qed

section \<open>What an op waits for\<close>

lemma op_waits_iff:
  "op_waits prd ext ix = Inr s \<longleftrightarrow>
     s = {p. p \<noteq> fst ix \<and> (\<exists>t \<in> set (o_ins (snd ix)). map_of prd t = Some p)} \<and>
     (\<forall>t \<in> set (o_ins (snd ix)). map_of prd t \<noteq> None \<or> t \<in> ext)"
proof -
  have "for_each (\<lambda>t d. case map_of prd t of
          Some p \<Rightarrow> Inr (if p \<noteq> fst ix then insert p d else d)
        | None \<Rightarrow> if t \<in> ext then Inr d else Inl (Nothing_Produces n t)) ts d = Inr s \<longleftrightarrow>
      s = d \<union> {p. p \<noteq> fst ix \<and> (\<exists>t \<in> set ts. map_of prd t = Some p)} \<and>
      (\<forall>t \<in> set ts. map_of prd t \<noteq> None \<or> t \<in> ext)" for ts d n
    by (induction ts arbitrary: d) (auto split: option.splits)
  then show ?thesis by (simp add: op_waits_def)
qed

text \<open>\<open>(p, i)\<close>: op \<open>i\<close> reads a tensor op \<open>p\<close> makes.\<close>

definition op_deps :: "op list \<Rightarrow> (nat \<times> nat) set" where
  "op_deps xs = {(p, i). p < length xs \<and> i < length xs \<and> p \<noteq> i \<and>
                         set (o_ins (xs ! i)) \<inter> set (makes (xs ! p)) \<noteq> {}}"

text \<open>Every read is of an external tensor or of one an op makes.\<close>

definition reads_known :: "string set \<Rightarrow> op list \<Rightarrow> bool" where
  "reads_known ext xs \<longleftrightarrow> (\<forall>x \<in> set xs. set (o_ins x) \<subseteq> ext \<union> set (concat (map makes xs)))"

lemma waits_result:
  assumes prd: "for_each index_makes (enumerate 0 xs) [] = Inr prd"
  shows "map_res (op_waits prd ext) (enumerate 0 xs) = Inr ds \<longleftrightarrow>
           reads_known ext xs \<and> ds = map (\<lambda>i. {p. (p, i) \<in> op_deps xs}) [0..<length xs]"
proof -
  let ?s = "\<lambda>i. {p. (p, i) \<in> op_deps xs}"
  have made: "(\<exists>p. map_of prd t = Some p) \<longleftrightarrow> t \<in> set (concat (map makes xs))" for t
    unfolding index_makes_lookup [OF prd] by simp (metis in_set_conv_nth)
  have unmade: "map_of prd t \<noteq> None \<longleftrightarrow> t \<in> set (concat (map makes xs))" for t
    using made [of t] by (simp add: not_None_eq)
  have one: "op_waits prd ext (i, xs ! i) = Inr s \<longleftrightarrow>
      s = ?s i \<and> set (o_ins (xs ! i)) \<subseteq> ext \<union> set (concat (map makes xs))" if "i < length xs" for i s
  proof -
    have "{p. p \<noteq> i \<and> (\<exists>t \<in> set (o_ins (xs ! i)). map_of prd t = Some p)} = ?s i"
      using that by (auto simp: index_makes_lookup [OF prd] op_deps_def)
    moreover have "(\<forall>t \<in> set (o_ins (xs ! i)). map_of prd t \<noteq> None \<or> t \<in> ext) \<longleftrightarrow>
        set (o_ins (xs ! i)) \<subseteq> ext \<union> set (concat (map makes xs))"
      unfolding unmade by blast
    ultimately show ?thesis by (simp add: op_waits_iff)
  qed
  show ?thesis
  proof
    assume m: "map_res (op_waits prd ext) (enumerate 0 xs) = Inr ds"
    have len: "length ds = length xs" using map_res_length [OF m] by simp
    have nth: "op_waits prd ext (i, xs ! i) = Inr (ds ! i)" if "i < length xs" for i
      using map_res_nth [OF m, of i] that by (simp add: nth_enumerate_eq)
    have "ds = map ?s [0..<length xs]" by (rule nth_equalityI) (use len nth one in auto)
    moreover have "reads_known ext xs" unfolding reads_known_def using nth one by (metis in_set_conv_nth)
    ultimately show "reads_known ext xs \<and> ds = map ?s [0..<length xs]" by simp
  next
    assume r: "reads_known ext xs \<and> ds = map ?s [0..<length xs]"
    have "op_waits prd ext ix = Inr (?s (fst ix))" if "ix \<in> set (enumerate 0 xs)" for ix
    proof -
      from that have "fst ix < length xs" "snd ix = xs ! fst ix" by (auto simp: in_set_enumerate_eq)
      moreover from this have "set (o_ins (xs ! fst ix)) \<subseteq> ext \<union> set (concat (map makes xs))"
        using r nth_mem unfolding reads_known_def by blast
      ultimately show ?thesis using one [of "fst ix"] by (metis prod.collapse)
    qed
    from map_res_total [OF this] have "map_res (op_waits prd ext) (enumerate 0 xs) = Inr (map (\<lambda>ix. ?s (fst ix)) (enumerate 0 xs))" .
    also have "map (\<lambda>ix. ?s (fst ix)) (enumerate 0 xs) = map ?s (map fst (enumerate 0 xs))"
      by (simp only: map_map comp_def)
    finally show "map_res (op_waits prd ext) (enumerate 0 xs) = Inr ds" using r by (simp only: map_fst_enumerate add_0)
  qed
qed

section \<open>The sort is Kahn's\<close>

definition waits_ok :: "nat set list \<Rightarrow> nat set \<Rightarrow> (nat, nat set) dict \<Rightarrow> bool" where
  "waits_ok ds D w \<longleftrightarrow> (\<forall>j < length ds. get_or w j {} = ds ! j - D)"

definition waits_wf :: "nat set list \<Rightarrow> bool" where
  "waits_wf ds \<longleftrightarrow> (\<forall>i < length ds. ds ! i \<subseteq> {..<length ds} - {i})"

lemma discard_from_result:
  "distinct js \<Longrightarrow>
   (\<forall>j. get_or (snd (discard_from i js w)) j {} = (if j \<in> set js then get_or w j {} - {i} else get_or w j {})) \<and>
   fst (discard_from i js w) = filter (\<lambda>j. get_or w j {} - {i} = {}) js"
proof (induction js arbitrary: w)
  case (Cons j js)
  have upd: "get_or (AList.update j s w) k {} = (if k = j then s else get_or w k {})" for s :: "nat set" and k
    by (simp add: get_or_def)
  from Cons have IH: "(\<forall>k. get_or (snd (discard_from i js (AList.update j (get_or w j {} - {i}) w))) k {} =
        (if k \<in> set js then get_or (AList.update j (get_or w j {} - {i}) w) k {} - {i}
         else get_or (AList.update j (get_or w j {} - {i}) w) k {})) \<and>
      fst (discard_from i js (AList.update j (get_or w j {} - {i}) w)) =
        filter (\<lambda>k. get_or (AList.update j (get_or w j {} - {i}) w) k {} - {i} = {}) js" by simp
  have "filter (\<lambda>k. get_or (AList.update j (get_or w j {} - {i}) w) k {} - {i} = {}) js =
      filter (\<lambda>k. get_or w k {} - {i} = {}) js"
    using Cons.prems by (intro filter_cong) (auto simp: upd)
  with IH Cons.prems show ?case by (simp add: Let_def upd)
qed simp

interpretation edit_sort: kahn_min pop_least "\<lambda>ds. [0..<length ds]" "\<lambda>ds i. ds ! i" waits_ok
  "\<lambda>ds i. discard_from i (users ds i)" waits_wf "\<lambda>ds. id"
proof
  fix ready :: "nat list" and ds :: "nat set list"
  show "ready \<noteq> [] \<Longrightarrow> pop_least ds ready < length ready" by (simp add: pop_least_def min_index_lt)
  show "x \<in> set ready \<Longrightarrow> id (ready ! pop_least ds ready) \<le> id x" for x
    using min_index_le [of x ready id] by (simp add: pop_least_def)
next
  fix ds :: "nat set list" and D :: "nat set" and w :: "(nat, nat set) dict" and d
  assume wf: "waits_wf ds" and ok: "waits_ok ds D w" and d: "d \<in> set [0..<length ds]" "d \<notin> D"
  have dist: "distinct (users ds d)" by (simp add: users_def)
  note R = discard_from_result [OF this, of d w]
  have "waits_ok ds (insert d D) (snd (discard_from d (users ds d) w))"
    using R ok by (auto simp: waits_ok_def users_def)
  moreover have "set (fst (discard_from d (users ds d) w)) =
      {x \<in> set [0..<length ds]. d \<in> ds ! x \<and> ds ! x \<subseteq> insert d D}"
    using R ok by (auto simp: waits_ok_def users_def)
  moreover have "distinct (fst (discard_from d (users ds d) w))" using R dist by simp
  ultimately show "waits_ok ds (insert d D) (snd (discard_from d (users ds d) w)) \<and>
      distinct (fst (discard_from d (users ds d) w)) \<and>
      set (fst (discard_from d (users ds d) w)) = {x \<in> set [0..<length ds]. d \<in> ds ! x \<and> ds ! x \<subseteq> insert d D}"
    by blast
qed (fastforce simp: waits_wf_def)+

lemma initial_waits_ok: "waits_ok ds {} (initial_waits ds)"
proof -
  have "map_of (initial_waits ds) j = (if ds ! j = {} then None else Some (ds ! j))" if "j < length ds" for j
  proof -
    have d: "distinct (map fst (initial_waits ds))"
      unfolding initial_waits_def by (intro distinct_map_filter) simp
    show ?thesis
    proof (cases "ds ! j = {}")
      case True
      then show ?thesis by (auto simp: map_of_eq_None_iff initial_waits_def in_set_enumerate_eq)
    next
      case False
      with that have "(j, ds ! j) \<in> set (initial_waits ds)" by (simp add: initial_waits_def in_set_enumerate_eq)
      with d False show ?thesis by simp
    qed
  qed
  then show ?thesis by (simp add: waits_ok_def get_or_def)
qed

lemma sort_start:
  "edit_sort.start_ok ds (filter (\<lambda>i. ds ! i = {}) [0..<length ds]) (initial_waits ds)"
  by (simp add: edit_sort.start_ok_def initial_waits_ok)

lemma topo_order_facts:
  assumes "waits_wf ds"
  shows "distinct (topo_order ds)" "set (topo_order ds) \<subseteq> {..<length ds}" "topo (\<lambda>i. ds ! i) (topo_order ds)"
    "length (topo_order ds) = length ds \<longleftrightarrow> acyclic {(p, i). i < length ds \<and> p \<in> ds ! i}"
    "topo (\<lambda>i. ds ! i) [0..<length ds] \<Longrightarrow> topo_order ds = [0..<length ds]"
proof -
  have f: "length [0..<length ds] \<le> length ds" by simp
  note R = edit_sort.kahn_result [OF assms sort_start f, folded topo_order_def]
  show "distinct (topo_order ds)" "topo (\<lambda>i. ds ! i) (topo_order ds)" by (fact R)+
  show "set (topo_order ds) \<subseteq> {..<length ds}" using R(2) by auto
  have g: "edit_sort.dep_graph ds = {(p, i). i < length ds \<and> p \<in> ds ! i}"
    by (auto simp: edit_sort.dep_graph_def)
  show "length (topo_order ds) = length ds \<longleftrightarrow> acyclic {(p, i). i < length ds \<and> p \<in> ds ! i}"
    using edit_sort.kahn_complete_iff [OF assms sort_start f, folded topo_order_def] unfolding g by simp
  show "topo_order ds = [0..<length ds]" if "topo (\<lambda>i. ds ! i) [0..<length ds]"
    using edit_sort.kahn_stable [OF assms sort_start f _ that, folded topo_order_def]
    by (simp add: sorted_wrt_upt)
qed

section \<open>What the sort returns\<close>

text \<open>No op reads a tensor that a later op makes.\<close>

definition ordered_ops :: "op list \<Rightarrow> bool" where
  "ordered_ops xs \<longleftrightarrow>
     (\<forall>j < length xs. \<forall>i < j. set (o_ins (xs ! i)) \<inter> set (makes (xs ! j)) = {})"

definition waits_of :: "op list \<Rightarrow> nat set list" where
  "waits_of xs = map (\<lambda>i. {p. (p, i) \<in> op_deps xs}) [0..<length xs]"

lemma waits_of_wf: "waits_wf (waits_of xs)"
  by (auto simp: waits_wf_def waits_of_def op_deps_def)

lemma waits_of_graph: "{(p, i). i < length (waits_of xs) \<and> p \<in> waits_of xs ! i} = op_deps xs"
  by (auto simp: waits_of_def op_deps_def)

lemma toposort_iff:
  "toposort g = Inr g' \<longleftrightarrow>
     (output_tensors g \<noteq> [] \<or> output_tensor g \<noteq> None) \<and>
     distinct (concat (map makes (ops g))) \<and> reads_known (external g) (ops g) \<and> acyclic (op_deps (ops g)) \<and>
     g' = g\<lparr>ops := map (\<lambda>i. ops g ! i) (topo_order (waits_of (ops g)))\<rparr>"
proof -
  have io: "(\<exists>r. io_names g = Inr r) \<longleftrightarrow> output_tensors g \<noteq> [] \<or> output_tensor g \<noteq> None"
    by (auto simp: io_names_def split: option.splits)
  have len: "length (topo_order (waits_of (ops g))) = length (ops g) \<longleftrightarrow> acyclic (op_deps (ops g))"
    using topo_order_facts(4) [OF waits_of_wf] unfolding waits_of_graph by (simp add: waits_of_def)
  show ?thesis
  proof (cases "for_each index_makes (enumerate 0 (ops g)) []")
    case (Inl e)
    with index_makes_from [of 0 "ops g" "[]"] have "\<not> distinct (concat (map makes (ops g)))"
      by (auto simp: keys_def)
    with Inl show ?thesis by (auto simp: toposort_def split: sum.splits)
  next
    case (Inr prd)
    with index_makes_from [of 0 "ops g" "[]"] have d: "distinct (concat (map makes (ops g)))" by auto
    have w: "map_res (op_waits prd (external g)) (enumerate 0 (ops g)) = Inr ds \<longleftrightarrow>
        reads_known (external g) (ops g) \<and> ds = waits_of (ops g)" for ds
      using waits_result [OF Inr] by (simp add: waits_of_def)
    have "toposort g = Inr g' \<longleftrightarrow> (\<exists>r. io_names g = Inr r) \<and>
        (\<exists>ds. map_res (op_waits prd (external g)) (enumerate 0 (ops g)) = Inr ds \<and>
              length (topo_order ds) = length (ops g) \<and> g' = g\<lparr>ops := map (\<lambda>i. ops g ! i) (topo_order ds)\<rparr>)"
      unfolding toposort_def Inr
      by (cases "io_names g"; cases "map_res (op_waits prd (external g)) (enumerate 0 (ops g))")
        (simp_all only: sum.case sum.inject sum.distinct simp_thms ex_simps split: if_split, auto)
    then show ?thesis unfolding io w using len d by blast
  qed
qed

text \<open>
  \<open>toposort\<close> succeeds exactly when the graph names an output, no two tensors (outputs and internal
  ones) have two producers, every input of an op is external (a graph input or constant) or made by
  some op, and the reads among different ops have no cycle.
\<close>
theorem toposort_accepts:
  "(\<exists>g'. toposort g = Inr g') \<longleftrightarrow>
     \<not> (output_tensors g = [] \<and> output_tensor g = None) \<and>
     distinct (concat (map makes (ops g))) \<and> reads_known (external g) (ops g) \<and> acyclic (op_deps (ops g))"
  unfolding toposort_iff de_Morgan_conj by blast

lemma ordered_topo: "ordered_ops xs \<longleftrightarrow> topo (\<lambda>i. waits_of xs ! i) [0..<length xs]"
proof -
  have w: "waits_of xs ! i \<subseteq> {..<i} \<longleftrightarrow> (\<forall>j < length xs. i < j \<longrightarrow> set (o_ins (xs ! i)) \<inter> set (makes (xs ! j)) = {})"
    if "i < length xs" for i
  proof -
    have "p \<in> waits_of xs ! i \<longleftrightarrow> p < length xs \<and> p \<noteq> i \<and> set (o_ins (xs ! i)) \<inter> set (makes (xs ! p)) \<noteq> {}" for p
      using that by (simp add: waits_of_def op_deps_def)
    then show ?thesis unfolding subset_iff lessThan_iff using that by (metis linorder_neqE_nat order_less_imp_not_less)
  qed
  have "topo (\<lambda>i. waits_of xs ! i) [0..<length xs] \<longleftrightarrow> (\<forall>i < length xs. waits_of xs ! i \<subseteq> {..<i})"
    by (rule topo_upt)
  also have "\<dots> \<longleftrightarrow> ordered_ops xs" unfolding ordered_ops_def using w by (metis less_trans)
  finally show ?thesis by simp
qed

lemma toposort_result:
  assumes "toposort g = Inr g'"
  shows "mset (ops g') = mset (ops g) \<and> g' = g\<lparr>ops := ops g'\<rparr> \<and> ordered_ops (ops g') \<and>
         (ordered_ops (ops g) \<longrightarrow> g' = g)"
proof -
  let ?xs = "ops g"
  let ?ds = "waits_of (ops g)"
  let ?o = "topo_order (waits_of (ops g))"
  have g': "g' = g\<lparr>ops := map (\<lambda>i. ?xs ! i) ?o\<rparr>" and acyc: "acyclic (op_deps ?xs)"
    using assms unfolding toposort_iff by blast+
  note F = topo_order_facts [OF waits_of_wf [of ?xs]]
  have n: "length ?ds = length ?xs" by (simp add: waits_of_def)
  have len: "length ?o = length ?xs" using F(4) [unfolded waits_of_graph] acyc n by simp
  have "card (set ?o) = length ?xs" using F(1) len by (simp add: distinct_card)
  then have all: "set ?o = {..<length ?xs}" using F(2) n by (intro card_subset_eq) auto
  then have "set ?o = set [0..<length ?xs]" by (simp only: lessThan_atLeast0 set_upt)
  from iffD1 [OF set_eq_iff_mset_eq_distinct [OF F(1) distinct_upt] this]
  have "mset (map (\<lambda>i. ?xs ! i) ?o) = mset (map (\<lambda>i. ?xs ! i) [0..<length ?xs])"
    by (simp only: mset_map)
  then have ms: "mset (ops g') = mset (ops g)" by (simp add: g' map_nth)
  have "ordered_ops (map (\<lambda>i. ?xs ! i) ?o)"
    unfolding ordered_ops_def
  proof (intro allI impI)
    fix j i assume j: "j < length (map (\<lambda>i. ?xs ! i) ?o)" "i < j"
    then have i: "i < length ?o" by simp
    have "?o = take i ?o @ ?o ! i # drop (Suc i) ?o" by (rule id_take_nth_drop [OF i])
    then have "?ds ! (?o ! i) \<subseteq> set (take i ?o)" using F(3) unfolding topo_def by blast
    moreover have "?o ! j \<notin> set (take i ?o)" "?o ! j \<noteq> ?o ! i"
      using F(1) j i by (auto simp: in_set_conv_nth nth_eq_iff_index_eq)
    moreover have "?o ! i < length ?xs" "?o ! j < length ?xs" using all i j nth_mem [of _ ?o] by auto
    ultimately show "set (o_ins (map (\<lambda>i. ?xs ! i) ?o ! i)) \<inter> set (makes (map (\<lambda>i. ?xs ! i) ?o ! j)) = {}"
      using i j by (auto simp: waits_of_def op_deps_def)
  qed
  moreover have "g' = g" if "ordered_ops (ops g)"
    using F(5) that unfolding ordered_topo n g' by (simp add: map_nth)
  ultimately show ?thesis using ms by (simp add: g')
qed

text \<open>
  C14. What \<open>toposort\<close> returns is the same graph with its ops permuted so that no op reads a tensor a
  later op makes; ops that are already in such an order keep it.
\<close>
theorem toposort_orders:
  assumes "toposort g = Inr g'"
  shows "mset (ops g') = mset (ops g) \<and> g' = g\<lparr>ops := ops g'\<rparr> \<and> ordered_ops (ops g') \<and>
         (ordered_ops (ops g) \<longrightarrow> g' = g)"
  using assms by (rule toposort_result)

theorem toposort_orders_witness:
  "mset (ops (plain_graph [mk_op ''a'' ''relu'' None [] [''x''] [''y''], mk_op ''b'' ''relu'' None [] [''y''] [''z'']] [''z''])) =
   mset (ops (plain_graph [mk_op ''b'' ''relu'' None [] [''y''] [''z''], mk_op ''a'' ''relu'' None [] [''x''] [''y'']] [''z'']))"
proof -
  have "toposort (plain_graph [mk_op ''b'' ''relu'' None [] [''y''] [''z''], mk_op ''a'' ''relu'' None [] [''x''] [''y'']] [''z'']) =
    Inr (plain_graph [mk_op ''a'' ''relu'' None [] [''x''] [''y''], mk_op ''b'' ''relu'' None [] [''y''] [''z'']] [''z''])"
    by code_simp
  from toposort_orders [OF this] show ?thesis by blast
qed

end
