(* ===== verification/Patch_Facts.thy ===== *)
theory Patch_Facts
  imports Graph_Edit_Facts
begin

text \<open>
  The patches of \<^verbatim>\<open>graph_edit\<close>: renaming to unique names, what a patch made by \<open>diff\<close> does on the graph
  it was made from, and where it falls short of the edited graph.
\<close>

section \<open>Unique names\<close>

lemma rename_sel [simp]:
  "o_name (rename n x) = n" "o_ins (rename n x) = o_ins x" "o_outs (rename n x) = o_outs x"
  "o_kind (rename n x) = o_kind x"
  by (simp_all add: rename_def)

lemma rename_same: "rename (o_name x) x = x"
  by (cases x) (simp add: rename_def upd_def)

lemma inj_numbered: "inj (numbered n)"
  by (rule injI) (simp add: numbered_def)

definition names_inv :: "op list \<Rightarrow> op list \<Rightarrow> name_state \<Rightarrow> bool" where
  "names_inv xs pre s \<longleftrightarrow>
     (\<forall>n. get_or (ns_seen s) n 0 = count_list (map o_name pre) n) \<and>
     set (map o_name xs) \<union> set (map o_name (ns_ops s)) \<subseteq> set (ns_taken s) \<and>
     list_all2 (\<lambda>x y. \<exists>m. y = rename m x) pre (ns_ops s) \<and> distinct (map o_name (ns_ops s)) \<and>
     (\<forall>n \<in> set (map o_name (ns_ops s)). n \<in> set (map o_name xs) \<longrightarrow> n \<in> set (map o_name pre)) \<and>
     (distinct (map o_name pre) \<longrightarrow> ns_ops s = pre)"

lemma names_inv_snoc:
  assumes I: "names_inv xs pre s"
    and "\<And>n. get_or seen n 0 = count_list (map o_name (pre @ [x])) n"
    and "y = rename m x" "o_name y \<notin> set (map o_name (ns_ops s))"
    and "set (ns_taken s) \<subseteq> set taken" "o_name y \<in> set taken"
    and "o_name y \<in> set (map o_name xs) \<Longrightarrow> o_name y = o_name x"
    and "distinct (map o_name (pre @ [x])) \<Longrightarrow> y = x"
  shows "names_inv xs (pre @ [x]) \<lparr>ns_seen = seen, ns_taken = taken, ns_ops = ns_ops s @ [y]\<rparr>"
proof -
  have "list_all2 (\<lambda>x y. \<exists>m. y = rename m x) (pre @ [x]) (ns_ops s @ [y])"
    using I assms(3) by (intro list_all2_appendI) (auto simp: names_inv_def)
  moreover have "n \<in> set (map o_name (pre @ [x]))"
    if "n \<in> set (map o_name (ns_ops s @ [y]))" "n \<in> set (map o_name xs)" for n
  proof (cases "n = o_name y")
    case True
    with assms(7) that show ?thesis by simp
  next
    case False
    with that have "n \<in> set (map o_name (ns_ops s))" by simp
    with I that(2) have "n \<in> set (map o_name pre)" unfolding names_inv_def by blast
    then show ?thesis by simp
  qed
  moreover have "ns_ops s @ [y] = pre @ [x]" if "distinct (map o_name (pre @ [x]))"
    using assms(8) [OF that] I that by (simp add: names_inv_def)
  moreover have "distinct (map o_name (ns_ops s @ [y]))" using I assms(4) by (simp add: names_inv_def)
  moreover have "set (map o_name xs) \<union> set (map o_name (ns_ops s @ [y])) \<subseteq> set taken"
    using I assms(5,6) unfolding names_inv_def by auto
  ultimately show ?thesis
    using assms(2) unfolding names_inv_def name_state.select_convs by blast
qed

lemma name_step_inv:
  assumes I: "names_inv xs pre s" and x: "o_name x \<in> set (map o_name xs)"
  shows "names_inv xs (pre @ [x]) (name_step x s)"
proof -
  let ?n = "o_name x"
  define k where "k = get_or (ns_seen s) ?n 0"
  define seen where "seen = AList.update ?n (k + 1) (ns_seen s)"
  have k: "k = 0 \<longleftrightarrow> ?n \<notin> set (map o_name pre)" using I by (simp add: names_inv_def count_list_0_iff k_def)
  have seen: "get_or seen n 0 = count_list (map o_name (pre @ [x])) n" for n
    using I by (simp add: names_inv_def get_or_def seen_def k_def)
  have sub: "set (map o_name xs) \<union> set (map o_name (ns_ops s)) \<subseteq> set (ns_taken s)"
    using I by (simp add: names_inv_def)
  show ?thesis
  proof (cases "k = 0")
    case True
    have "?n \<notin> set (map o_name (ns_ops s))" using I x k True unfolding names_inv_def by blast
    then have "names_inv xs (pre @ [x]) \<lparr>ns_seen = seen, ns_taken = ns_taken s, ns_ops = ns_ops s @ [x]\<rparr>"
      using sub x by (intro names_inv_snoc [OF I seen rename_same [symmetric]]) auto
    moreover have "name_step x s = \<lparr>ns_seen = seen, ns_taken = ns_taken s, ns_ops = ns_ops s @ [x]\<rparr>"
      using True by (simp add: name_step_def Let_def k_def seen_def)
    ultimately show ?thesis by simp
  next
    case False
    define m where "m = numbered ?n (fresh_index (numbered ?n) (ns_taken s) k)"
    have fresh: "m \<notin> set (ns_taken s)" unfolding m_def using fresh_index [OF inj_numbered] by blast
    have "names_inv xs (pre @ [x]) \<lparr>ns_seen = seen, ns_taken = m # ns_taken s, ns_ops = ns_ops s @ [rename m x]\<rparr>"
      using sub fresh k False by (intro names_inv_snoc [OF I seen refl]) auto
    moreover have "name_step x s = \<lparr>ns_seen = seen, ns_taken = m # ns_taken s, ns_ops = ns_ops s @ [rename m x]\<rparr>"
      using False by (simp add: name_step_def Let_def k_def seen_def m_def)
    ultimately show ?thesis by simp
  qed
qed

lemma unique_ops_inv:
  "names_inv xs xs (fold name_step xs \<lparr>ns_seen = [], ns_taken = map o_name xs, ns_ops = []\<rparr>)"
proof (rule fold_prefix_inv [where P = "names_inv xs"])
  show "names_inv xs [] \<lparr>ns_seen = [], ns_taken = map o_name xs, ns_ops = []\<rparr>"
    by (simp add: names_inv_def get_or_def)
  show "names_inv xs (pre @ [x]) (name_step x s)" if "xs = pre @ x # post" "names_inv xs pre s" for pre x post s
    by (rule name_step_inv [OF that(2)]) (simp add: that(1))
qed

lemma unique_ops_distinct: "distinct (map o_name (unique_ops xs))"
  using unique_ops_inv [of xs] by (simp add: names_inv_def unique_ops_def)

lemma unique_ops_renamed: "list_all2 (\<lambda>x y. \<exists>m. y = rename m x) xs (unique_ops xs)"
  using unique_ops_inv [of xs] by (simp add: names_inv_def unique_ops_def)

lemma unique_ops_same: "distinct (map o_name xs) \<Longrightarrow> unique_ops xs = xs"
  using unique_ops_inv [of xs] by (simp add: names_inv_def unique_ops_def)

lemma unique_ops_idem: "unique_ops (unique_ops xs) = unique_ops xs"
  by (rule unique_ops_same [OF unique_ops_distinct])

lemma unique_ops_origin: "y \<in> set (unique_ops xs) \<Longrightarrow> \<exists>x \<in> set xs. \<exists>m. y = rename m x"
proof -
  assume "y \<in> set (unique_ops xs)"
  then obtain i where i: "i < length (unique_ops xs)" "y = unique_ops xs ! i" by (auto simp: in_set_conv_nth)
  note R = unique_ops_renamed [of xs]
  have "i < length xs" using i(1) list_all2_lengthD [OF R] by simp
  moreover from this have "\<exists>m. unique_ops xs ! i = rename m (xs ! i)" by (rule list_all2_nthD [OF R])
  ultimately show ?thesis using i(2) by (intro bexI [of _ "xs ! i"]) simp_all
qed

section \<open>Ops by name and their digests\<close>

lemma semantic_sel [simp]:
  "o_name (semantic x) = o_name x" "o_ins (semantic x) = o_ins x" "o_outs (semantic x) = o_outs x"
  by (simp_all add: semantic_def lasting_def)

lemma lasting_idem [simp]: "lasting (lasting f) = lasting f"
  by (cases f) (simp add: lasting_def)

lemma semantic_idem [simp]: "semantic (semantic x) = semantic x"
  unfolding semantic_def by (cases x) (simp add: upd_def)

lemma op_digest_semantic [simp]: "op_digest dig (semantic x) = op_digest dig x"
  by (simp add: op_digest_def)

lemma map_of_ops_by_name:
  assumes "distinct (map o_name (ops g))"
  shows "map_of (ops_by_name g) n = Some x \<longleftrightarrow> x \<in> set (ops g) \<and> o_name x = n"
proof -
  have "distinct (map fst (map (\<lambda>x. (o_name x, x)) (ops g)))" using assms by (simp add: comp_def)
  then show ?thesis by (auto simp: ops_by_name_def dict_of_distinct)
qed

lemma keys_ops_by_name:
  assumes "distinct (map o_name (ops g))"
  shows "keys (ops_by_name g) = map o_name (ops g)"
proof -
  have "distinct (map fst (map (\<lambda>x. (o_name x, x)) (ops g)))" using assms by (simp add: comp_def)
  then show ?thesis by (simp add: ops_by_name_def dict_of_distinct keys_def)
qed

text \<open>An op of one graph that the other has under the same name with the same content.\<close>

definition twin :: "op list \<Rightarrow> op \<Rightarrow> bool" where
  "twin ys x \<longleftrightarrow> (\<exists>y \<in> set ys. o_name y = o_name x \<and> semantic y = semantic x)"

lemma not_same_twins:
  assumes "distinct (map o_name (ops a))" "distinct (map o_name (ops b))"
    and inj: "inj_on dig (semantic ` (set (ops a) \<union> set (ops b)))"
  shows "not_same dig (ops_by_name a) (ops_by_name b) = map o_name (filter (\<lambda>x. \<not> twin (ops b) x) (ops a))"
proof -
  let ?P = "\<lambda>n. case map_of (ops_by_name b) n of None \<Rightarrow> True
      | Some y \<Rightarrow> (case map_of (ops_by_name a) n of None \<Rightarrow> True | Some x \<Rightarrow> op_digest dig x \<noteq> op_digest dig y)"
  have "?P (o_name x) \<longleftrightarrow> \<not> twin (ops b) x" if x: "x \<in> set (ops a)" for x
  proof -
    have ax: "map_of (ops_by_name a) (o_name x) = Some x" using x map_of_ops_by_name [OF assms(1)] by blast
    show ?thesis
    proof (cases "map_of (ops_by_name b) (o_name x)")
      case None
      have "o_name y \<noteq> o_name x" if "y \<in> set (ops b)" for y
        using map_of_ops_by_name [OF assms(2), of "o_name y" y] that None by auto
      then have "\<not> twin (ops b) x" unfolding twin_def by blast
      then show ?thesis unfolding None option.case by simp
    next
      case (Some y)
      then have y: "y \<in> set (ops b)" "o_name y = o_name x" using map_of_ops_by_name [OF assms(2)] by blast+
      have only: "z = y" if "z \<in> set (ops b)" "o_name z = o_name x" for z
        using map_of_ops_by_name [OF assms(2), of "o_name x" z] that Some by simp
      have "op_digest dig x = op_digest dig y \<longleftrightarrow> semantic x = semantic y"
        unfolding op_digest_def using inj_on_eq_iff [OF inj] x y(1) by blast
      moreover have "twin (ops b) x \<longleftrightarrow> semantic y = semantic x"
        unfolding twin_def using y only by blast
      ultimately show ?thesis unfolding ax Some option.case by auto
    qed
  qed
  then have "filter (?P \<circ> o_name) (ops a) = filter (\<lambda>x. \<not> twin (ops b) x) (ops a)" by (intro filter_cong) auto
  then show ?thesis unfolding not_same_def keys_ops_by_name [OF assms(1)] filter_map by simp
qed

section \<open>The steps of a patch\<close>

lemma check_required_ok:
  "(\<And>n d. (n, d) \<in> set req \<Longrightarrow> \<exists>x. map_of have n = Some x \<and> op_digest dig x = d) \<Longrightarrow>
   check_required dig have req = Inr ()"
  unfolding check_required_def
proof (induction req)
  case (Cons r req)
  obtain n d where r: "r = (n, d)" by fastforce
  with Cons.prems [of n d] obtain x where "map_of have n = Some x" "op_digest dig x = d" by auto
  with Cons r show ?case by simp
qed simp

lemma add_patch_ops_ok:
  "distinct (map o_name (xs @ added)) \<Longrightarrow> add_patch_ops xs added = Inr (xs @ added)"
  unfolding add_patch_ops_def by (induction added arbitrary: xs) auto

lemma add_fresh_ok:
  assumes "distinct (keys added)" "set (keys added) \<inter> set (keys d) = {}"
  shows "for_each (\<lambda>(k, v) d. if has_key d k \<and> map_of d k \<noteq> Some v then Inl (err k) else Inr (AList.update k v d)) added d =
           Inr (d @ added)"
  using assms
proof (induction added arbitrary: d)
  case (Cons kv added)
  obtain k v where kv: "kv = (k, v)" by fastforce
  with Cons.prems have k: "k \<notin> set (keys d)" by (simp add: keys_def)
  have "for_each (\<lambda>(k, v) d. if has_key d k \<and> map_of d k \<noteq> Some v then Inl (err k) else Inr (AList.update k v d))
      added (d @ [(k, v)]) = Inr ((d @ [(k, v)]) @ added)"
    by (rule Cons.IH) (use Cons.prems kv in \<open>auto simp: keys_def\<close>)
  with kv k show ?case by (simp add: has_key_iff update_fresh)
qed simp

lemma only_in_facts:
  "distinct (keys a) \<Longrightarrow> distinct (keys (only_in a b))" "set (keys (only_in a b)) \<inter> set (keys b) = {}"
  "map_of (only_in a b) k = (if has_key b k then None else map_of a k)"
proof -
  show "distinct (keys a) \<Longrightarrow> distinct (keys (only_in a b))" by (simp add: keys_def only_in_def distinct_map_filter)
  show "set (keys (only_in a b)) \<inter> set (keys b) = {}"
    by (auto simp: only_in_def keys_def has_key_iff [symmetric] has_key_def dest: weak_map_of_SomeI)
  show "map_of (only_in a b) k = (if has_key b k then None else map_of a k)"
    by (induction a) (auto simp: only_in_def)
qed

lemma map_of_drop_unused:
  "map_of (drop_unused xs gone ts) k =
     (if k \<in> set gone \<and> \<not> (\<exists>x \<in> set xs. k \<in> set (o_ins x) \<or> k \<in> set (o_outs x)) then None else map_of ts k)"
  unfolding drop_unused_def
  by (induction gone arbitrary: ts) (auto simp: list_ex_iff delete_conv')

lemma toposort_codes: "toposort g = Inl e \<Longrightarrow> patch_code e \<notin> {Some ''stale'', Some ''exists''}"
proof -
  have stored: "for_each index_makes ixs d = Inl e \<Longrightarrow> \<exists>t. e = Produced_Twice t" for ixs d e
  proof (induction ixs arbitrary: d)
    case (Cons ix ixs)
    have "for_each (store_fresh i) ts d = Inl e \<Longrightarrow> \<exists>t. e = Produced_Twice t" for i ts d
      by (induction ts arbitrary: d) (auto split: if_splits)
    with Cons show ?case by (cases "index_makes ix d") (auto simp: index_makes_def)
  qed simp
  have waited: "map_res (op_waits prd ext) ixs = Inl e \<Longrightarrow> \<exists>n t. e = Nothing_Produces n t" for prd ext ixs e
  proof (induction ixs)
    case (Cons ix ixs)
    have "for_each (\<lambda>t d. case map_of prd t of
          Some p \<Rightarrow> Inr (if p \<noteq> fst ix then insert p d else d)
        | None \<Rightarrow> if t \<in> ext then Inr d else Inl (Nothing_Produces (o_name (snd ix)) t)) ts d = Inl e \<Longrightarrow>
        \<exists>n t. e = Nothing_Produces n t" for ts d
      by (induction ts arbitrary: d) (auto split: option.splits if_splits)
    with Cons show ?case by (auto simp: op_waits_def split: sum.splits)
  qed simp
  show "toposort g = Inl e \<Longrightarrow> ?thesis"
    by (auto simp: toposort_def io_names_def dest!: stored waited split: sum.splits if_splits option.splits)
qed

section \<open>A patch on its own base\<close>

text \<open>What a graph is up to the order of its ops and their bookkeeping: what \<open>graph_digest\<close> hashes.\<close>

definition same_content :: "graph \<Rightarrow> graph \<Rightarrow> bool" where
  "same_content g h \<longleftrightarrow>
     mset (map semantic (ops g)) = mset (map semantic (ops h)) \<and> map_of (tensors g) = map_of (tensors h) \<and>
     io_inputs g = io_inputs h \<and> output_tensor g = output_tensor h \<and> output_tensors g = output_tensors h \<and>
     map_of (weight_derivations g) = map_of (weight_derivations h)"

text \<open>
  The edits a patch can carry: the graph's inputs and outputs, the tensors and the derivations both graphs
  have are unchanged, and an op reads and writes only tensors that stay registered if the base had them.
\<close>

definition patchable :: "graph \<Rightarrow> graph \<Rightarrow> bool" where
  "patchable b e \<longleftrightarrow>
     distinct (keys (tensors e)) \<and> distinct (keys (weight_derivations e)) \<and>
     io_inputs e = io_inputs b \<and> output_tensor e = output_tensor b \<and> output_tensors e = output_tensors b \<and>
     (\<forall>t. has_key (tensors b) t \<longrightarrow> has_key (tensors e) t \<longrightarrow> map_of (tensors e) t = map_of (tensors b) t) \<and>
     (\<forall>k. has_key (weight_derivations b) k \<longrightarrow> map_of (weight_derivations e) k = map_of (weight_derivations b) k) \<and>
     (\<forall>x \<in> set (ops e). \<forall>t \<in> set (o_ins x) \<union> set (o_outs x). has_key (tensors b) t \<longrightarrow> has_key (tensors e) t)"

lemma map_filter_lookup:
  "(\<And>x. x \<in> set xs \<Longrightarrow> m (h x) = Some x) \<Longrightarrow> List.map_filter m (map h xs) = xs"
  by (induction xs) (auto simp: List.map_filter_def)

lemma kept_and_added:
  assumes "distinct (map o_name xs)" "distinct (map o_name ys)"
  defines "K \<equiv> filter (\<lambda>x. o_name x \<notin> set (map o_name (filter (\<lambda>x. \<not> twin ys x) xs))) xs"
    and "N \<equiv> map semantic (filter (\<lambda>y. \<not> twin xs y) ys)"
  shows "distinct (map o_name (K @ N))" "mset (map semantic (K @ N)) = mset (map semantic ys)"
proof -
  have name_inj: "x = y" if "x \<in> set zs" "y \<in> set zs" "o_name x = o_name y" "distinct (map o_name zs)" for x y zs
    using that by (metis distinct_map inj_onD)
  have K: "K = filter (twin ys) xs" unfolding K_def
    using name_inj [OF _ _ _ assms(1)] by (intro filter_cong refl) (auto simp: image_iff)
  have names: "map o_name N = map o_name (filter (\<lambda>y. \<not> twin xs y) ys)" by (simp add: N_def)
  have disj: "o_name x \<noteq> o_name y" if "x \<in> set xs" "twin ys x" "y \<in> set ys" "\<not> twin xs y" for x y
  proof
    assume "o_name x = o_name y"
    moreover from that(2) obtain z where z: "z \<in> set ys" "o_name z = o_name x" "semantic z = semantic x"
      by (auto simp: twin_def)
    ultimately have "z = y" using name_inj [OF z(1) that(3) _ assms(2)] by simp
    with z that(1) have "twin xs y" unfolding twin_def by metis
    with that(4) show False by simp
  qed
  show "distinct (map o_name (K @ N))"
    unfolding map_append names distinct_append using assms(1,2) disj by (auto simp: K distinct_map_filter)
  define T where "T = filter (twin xs) ys"
  have dK: "distinct (map semantic K)" and dT: "distinct (map semantic T)"
  proof -
    have inj: "inj_on semantic (set zs)" if "distinct (map o_name zs)" for zs
      using name_inj [OF _ _ _ that] by (metis inj_onI semantic_sel(1))
    show "distinct (map semantic K)" "distinct (map semantic T)"
      using inj [OF assms(1)] inj [OF assms(2)] assms(1,2) by (auto simp: K T_def distinct_map inj_on_def)
  qed
  have "set (map semantic K) = set (map semantic T)"
  proof
    show "set (map semantic K) \<subseteq> set (map semantic T)"
    proof
      fix s assume "s \<in> set (map semantic K)"
      then obtain x where x: "x \<in> set xs" "twin ys x" "s = semantic x" by (auto simp: K)
      then obtain y where "y \<in> set ys" "o_name y = o_name x" "semantic y = semantic x" by (auto simp: twin_def)
      moreover from this x have "twin xs y" unfolding twin_def by metis
      ultimately have "y \<in> set T \<and> s = semantic y" using x(3) by (simp add: T_def)
      then show "s \<in> set (map semantic T)" unfolding set_map by blast
    qed
    show "set (map semantic T) \<subseteq> set (map semantic K)"
    proof
      fix s assume "s \<in> set (map semantic T)"
      then obtain y where y: "y \<in> set ys" "twin xs y" "s = semantic y" by (auto simp: T_def)
      then obtain x where "x \<in> set xs" "o_name x = o_name y" "semantic x = semantic y" by (auto simp: twin_def)
      moreover from this y have "twin ys x" unfolding twin_def by metis
      ultimately have "x \<in> set K \<and> s = semantic x" using y(3) by (simp add: K)
      then show "s \<in> set (map semantic K)" unfolding set_map by blast
    qed
  qed
  from iffD1 [OF set_eq_iff_mset_eq_distinct [OF dK dT] this]
  have KT: "mset (map semantic K) = mset (map semantic T)" .
  have NN: "map semantic N = map semantic (filter (\<lambda>y. \<not> twin xs y) ys)" by (simp add: N_def)
  have "mset ys = mset T + mset (filter (\<lambda>y. \<not> twin xs y) ys)" by (simp add: T_def)
  then have "mset (map semantic ys) = mset (map semantic T) + mset (map semantic (filter (\<lambda>y. \<not> twin xs y) ys))"
    by (simp only: mset_map image_mset_union)
  then show "mset (map semantic (K @ N)) = mset (map semantic ys)"
    unfolding map_append mset_append KT NN by simp
qed

lemma patched_tensors:
  assumes "distinct (keys te)"
    and shared: "\<forall>t. has_key tb t \<longrightarrow> has_key te t \<longrightarrow> map_of te t = map_of tb t"
    and unused: "\<forall>x \<in> set xs. \<forall>t \<in> set (o_ins x) \<union> set (o_outs x). has_key tb t \<longrightarrow> has_key te t"
  shows "\<exists>ts. add_patch_tensors tb (only_in te tb) = Inr ts \<and>
           map_of (drop_unused xs (filter (\<lambda>t. \<not> has_key te t) (keys tb)) ts) = map_of te"
proof (intro exI conjI ext)
  show "add_patch_tensors tb (only_in te tb) = Inr (tb @ only_in te tb)"
    unfolding add_patch_tensors_def
    by (rule add_fresh_ok [OF only_in_facts(1) [OF assms(1)] only_in_facts(2)])
  fix k
  have all: "map_of (tb @ only_in te tb) k = (if has_key tb k then map_of tb k else map_of te k)"
    by (auto simp: map_add_def only_in_facts(3) has_key_def split: option.splits)
  have gone: "k \<in> set (filter (\<lambda>t. \<not> has_key te t) (keys tb)) \<longleftrightarrow> has_key tb k \<and> \<not> has_key te k"
    by (auto simp: has_key_iff)
  show "map_of (drop_unused xs (filter (\<lambda>t. \<not> has_key te t) (keys tb)) (tb @ only_in te tb)) k = map_of te k"
  proof (cases "has_key te k")
    case True
    with shared show ?thesis unfolding map_of_drop_unused all gone by auto
  next
    case False
    then have none: "map_of te k = None" by (simp add: has_key_def)
    show ?thesis
    proof (cases "has_key tb k")
      case True
      with False unused have "\<not> (\<exists>x \<in> set xs. k \<in> set (o_ins x) \<or> k \<in> set (o_outs x))" by blast
      with True False none show ?thesis unfolding map_of_drop_unused gone by simp
    next
      case b: False
      then have "map_of (tb @ only_in te tb) k = None" unfolding all none by simp
      with none show ?thesis unfolding map_of_drop_unused by simp
    qed
  qed
qed

lemma patched_derivations:
  assumes "distinct (keys de)" "\<forall>k. has_key db k \<longrightarrow> map_of de k = map_of db k"
  shows "add_patch_derivations db (only_in de db) = Inr (db @ only_in de db)"
    "map_of (db @ only_in de db) = map_of de"
proof -
  show "add_patch_derivations db (only_in de db) = Inr (db @ only_in de db)"
    unfolding add_patch_derivations_def
    by (rule add_fresh_ok [OF only_in_facts(1) [OF assms(1)] only_in_facts(2)])
  show "map_of (db @ only_in de db) = map_of de"
  proof
    fix k
    show "map_of (db @ only_in de db) k = map_of de k"
      using assms(2) [rule_format, of k]
      by (cases "map_of db k") (auto simp: map_add_def only_in_facts(3) has_key_def split: option.splits)
  qed
qed

lemma unique_names_sel [simp]:
  "tensors (unique_names g) = tensors g" "weight_derivations (unique_names g) = weight_derivations g"
  "io_inputs (unique_names g) = io_inputs g" "output_tensor (unique_names g) = output_tensor g"
  "output_tensors (unique_names g) = output_tensors g" "ops (unique_names g) = unique_ops (ops g)"
  "input_tensor (unique_names g) = input_tensor g" "packed_inputs (unique_names g) = packed_inputs g"
  by (simp_all add: unique_names_def io_inputs_def)

lemma patched_on_base:
  fixes dig :: "op \<Rightarrow> 'd"
  assumes p: "patchable b e"
    and inj: "inj_on dig (semantic ` (set (unique_ops (ops b)) \<union> set (unique_ops (ops e))))"
  shows "\<exists>g. patched dig b (graph_diff dig b e tm) = Inr g \<and> same_content g (unique_names e)"
proof -
  let ?b = "unique_names b" and ?e = "unique_names e" and ?p = "graph_diff dig b e tm"
  let ?B = "unique_ops (ops b)" and ?E = "unique_ops (ops e)"
  have dB: "distinct (map o_name (ops ?b))" and dE: "distinct (map o_name (ops ?e))"
    by (simp_all add: unique_ops_distinct)
  have inj': "inj_on dig (semantic ` (set (ops ?b) \<union> set (ops ?e)))" "inj_on dig (semantic ` (set (ops ?e) \<union> set (ops ?b)))"
    using inj by (simp_all add: Un_commute)
  have removed: "pt_remove_ops ?p = map o_name (filter (\<lambda>x. \<not> twin ?E x) ?B)"
    using not_same_twins [OF dB dE inj'(1)] by (simp add: graph_diff_def Let_def)
  have "List.map_filter (map_of (ops_by_name ?e)) (map o_name (filter (\<lambda>y. \<not> twin ?B y) ?E)) = filter (\<lambda>y. \<not> twin ?B y) ?E"
    by (rule map_filter_lookup) (simp add: map_of_ops_by_name [OF dE])
  then have added: "pt_add_ops ?p = map semantic (filter (\<lambda>y. \<not> twin ?B y) ?E)"
    using not_same_twins [OF dE dB inj'(2)] by (simp add: graph_diff_def Let_def)
  define xs where "xs = filter (\<lambda>x. o_name x \<notin> set (map o_name (filter (\<lambda>x. \<not> twin ?E x) ?B))) ?B @
      map semantic (filter (\<lambda>y. \<not> twin ?B y) ?E)"
  note KN = kept_and_added [OF dB dE, simplified unique_names_sel, folded xs_def]
  have add: "add_patch_ops (filter (\<lambda>x. o_name x \<notin> set (pt_remove_ops ?p)) ?B) (pt_add_ops ?p) = Inr xs"
    unfolding removed added xs_def by (rule add_patch_ops_ok) (use KN(1) in \<open>simp add: xs_def\<close>)
  have req: "check_required dig (ops_by_name ?b) (pt_requires ?p) = Inr ()"
    by (rule check_required_ok) (auto simp: graph_diff_def Let_def set_map_filter)
  have used: "\<forall>x \<in> set xs. \<forall>t \<in> set (o_ins x) \<union> set (o_outs x). has_key (tensors b) t \<longrightarrow> has_key (tensors e) t"
  proof (intro ballI impI)
    fix x t assume x: "x \<in> set xs" and t: "t \<in> set (o_ins x) \<union> set (o_outs x)" "has_key (tensors b) t"
    from x have "semantic x \<in> set (map semantic ?E)" using mset_eq_setD [OF KN(2)] by auto
    then obtain y where y: "y \<in> set ?E" "semantic x = semantic y" by auto
    then obtain z m where z: "z \<in> set (ops e)" "y = rename m z" using unique_ops_origin by blast
    have "o_ins x = o_ins z" "o_outs x = o_outs z" using y(2) z(2) by (metis semantic_sel(2,3) rename_sel(2,3))+
    with z(1) t p show "has_key (tensors e) t" unfolding patchable_def by simp
  qed
  obtain ts where ts: "add_patch_tensors (tensors b) (only_in (tensors e) (tensors b)) = Inr ts"
    "map_of (drop_unused xs (filter (\<lambda>t. \<not> has_key (tensors e) t) (keys (tensors b))) ts) = map_of (tensors e)"
    using patched_tensors [OF _ _ used] p unfolding patchable_def by blast
  have D: "add_patch_derivations (weight_derivations b) (only_in (weight_derivations e) (weight_derivations b)) =
      Inr (weight_derivations b @ only_in (weight_derivations e) (weight_derivations b))"
    "map_of (weight_derivations b @ only_in (weight_derivations e) (weight_derivations b)) = map_of (weight_derivations e)"
    using patched_derivations [of "weight_derivations e" "weight_derivations b"] p unfolding patchable_def by blast+
  have fields: "pt_format ?p = patch_format" "pt_add_tensors ?p = only_in (tensors e) (tensors b)"
    "pt_remove_tensors ?p = filter (\<lambda>t. \<not> has_key (tensors e) t) (keys (tensors b))"
    "pt_derivations ?p = only_in (weight_derivations e) (weight_derivations b)"
    by (simp_all add: graph_diff_def Let_def)
  have io: "io_inputs e = io_inputs b" "output_tensor e = output_tensor b" "output_tensors e = output_tensors b"
    using p by (simp_all add: patchable_def)
  define g1 where "g1 = ?b\<lparr>ops := xs, tensors := drop_unused xs (filter (\<lambda>t. \<not> has_key (tensors e) t) (keys (tensors b))) ts\<rparr>"
  define g2 where "g2 = g1\<lparr>weight_derivations := weight_derivations b @ only_in (weight_derivations e) (weight_derivations b),
      weight_dtypes := merge_dtypes (weight_dtypes ?b) (pt_dtypes ?p)\<rparr>"
  have run: "patched dig b ?p = Inr (if only_in (weight_derivations e) (weight_derivations b) = [] then g1 else g2)"
    unfolding patched_def Let_def req sum.case fields unique_names_sel add ts(1) D(1) g2_def g1_def by simp
  have "same_content g2 ?e"
    using KN(2) ts(2) D(2) io by (simp add: same_content_def g2_def g1_def) (simp add: io_inputs_def)
  moreover have "same_content g1 ?e" if "only_in (weight_derivations e) (weight_derivations b) = []"
    using KN(2) ts(2) D(2) io that by (simp add: same_content_def g1_def) (simp add: io_inputs_def)
  ultimately show ?thesis unfolding run by simp
qed

lemma toposort_content: "toposort g = Inr g' \<Longrightarrow> same_content g' g \<and> ordered_ops (ops g')"
proof -
  assume "toposort g = Inr g'"
  from toposort_result [OF this]
  have ms: "mset (ops g') = mset (ops g)" and g': "g' = g\<lparr>ops := ops g'\<rparr>" and "ordered_ops (ops g')" by blast+
  from ms have "mset (map semantic (ops g')) = mset (map semantic (ops g))" by (simp only: mset_map)
  then have "same_content (g\<lparr>ops := ops g'\<rparr>) g" by (simp add: same_content_def io_inputs_def)
  with g' \<open>ordered_ops (ops g')\<close> show ?thesis by simp
qed


text \<open>One op replaced by two, through a new tensor; the digest is the op itself.\<close>

definition edit_base :: graph where
  "edit_base = (plain_graph [mk_op ''a'' ''relu'' (Some 0) [] [''x''] [''y''], mk_op ''b'' ''gelu'' (Some 1) [0] [''y''] [''z'']] [''z''])
     \<lparr>tensors := [(''y'', plain_tensor [4]), (''z'', plain_tensor [4])]\<rparr>"

definition edit_goal :: graph where
  "edit_goal = (plain_graph [mk_op ''a'' ''relu'' None [] [''x''] [''y''], mk_op ''c'' ''mul'' None [] [''y''] [''w''],
        mk_op ''d'' ''add'' None [] [''w''] [''z'']] [''z''])
     \<lparr>tensors := [(''y'', plain_tensor [4]), (''z'', plain_tensor [4]), (''w'', plain_tensor [4])]\<rparr>"


text \<open>
  A patch records the tensors the edit changed in \<open>changed_tensors\<close>, but applying it never reads them:
  when the edit only changes the type of a tensor, applying its patch returns the base graph's type.
\<close>
theorem changed_tensors_not_applied:
  "let e = edit_base\<lparr>tensors := [(''y'', plain_tensor [4]), (''z'', plain_tensor [4]\<lparr>t_dtype := Some ''f16''\<rparr>)]\<rparr>;
       p = graph_diff id edit_base e None
   in pt_changed_tensors p = [''z''] \<and>
      (case apply_patch id edit_base p of
         Inr (g', _) \<Rightarrow> map_of (tensors g') ''z'' = map_of (tensors edit_base) ''z'' \<and>
                       map_of (tensors g') ''z'' \<noteq> map_of (tensors e) ''z''
       | Inl _ \<Rightarrow> False)"
  by code_simp

end
