(* ===== verification/Hint_Flow.thy ===== *)
theory Hint_Flow
  imports Hint_Apply Patch_Facts
begin

text \<open>
  Rewrites that keep the values of a graph's outputs: the invariant the extractor's graphs have and every applier
  keeps, the fields of an op that no kernel reads, and one lemma per kind of rewrite. \<open>sound_applier\<close> is the
  contract of an applier; the model's appliers are interpreted in Hint_Apply_Facts.
\<close>

section \<open>Bookkeeping\<close>

text \<open>An op without name, dispatch data and the marks that the appliers leave.\<close>

definition bookless :: "op_fields \<Rightarrow> op_fields" where
  "bookless f =
     f\<lparr>name := [], dispatch_id := None, null_dispatch := False, depends_on := [],
       extra := filter (\<lambda>(k, v). k \<notin> {''hint'', ''slot_variant'', ''unfused_from''}) (extra f)\<rparr>"

definition essence :: "op \<Rightarrow> op" where
  "essence x = upd bookless x"

definition kern_steady :: "(op \<Rightarrow> 'v list \<Rightarrow> 'v list) \<Rightarrow> bool" where
  "kern_steady kern = (\<forall>x y vs. essence x = essence y \<longrightarrow> kern x vs = kern y vs)"

lemma essence_eqD:
  assumes "essence x = essence y"
  shows "o_ins x = o_ins y" "o_outs x = o_outs y" "sub_ops x = sub_ops y" "internal (flds x) = internal (flds y)"
proof -
  from assms have s: "sub_ops x = sub_ops y" and b: "bookless (flds x) = bookless (flds y)" by (simp_all add: essence_def upd_def)
  show "sub_ops x = sub_ops y" by (fact s)
  from arg_cong [OF b, of inputs] show "o_ins x = o_ins y" by (simp add: bookless_def)
  from arg_cong [OF b, of outputs] show "o_outs x = o_outs y" by (simp add: bookless_def)
  from arg_cong [OF b, of internal] show "internal (flds x) = internal (flds y)" by (simp add: bookless_def)
qed

lemma filter_update:
  "P k = False \<Longrightarrow> filter (\<lambda>(k, v). P k) (AList.update k v d) = filter (\<lambda>(k, v). P k) d"
  by (induction d) auto

lemma essence_marks [simp]:
  "essence (set_extra ''hint'' v x) = essence x" "essence (set_extra ''slot_variant'' v x) = essence x"
  "essence (set_extra ''unfused_from'' v x) = essence x" "essence (rename m x) = essence x"
  "essence (upd (\<lambda>f. f\<lparr>dispatch_id := d\<rparr>) x) = essence x" "essence (upd (\<lambda>f. f\<lparr>depends_on := ds\<rparr>) x) = essence x"
  by (simp_all add: essence_def bookless_def set_extra_def rename_def upd_def filter_update)

definition same_ops :: "op list \<Rightarrow> op list \<Rightarrow> bool" where
  "same_ops xs ys = list_all2 (\<lambda>x y. essence x = essence y) xs ys"

lemma same_ops_refl [simp]: "same_ops xs xs"
  by (simp add: same_ops_def list_all2_refl)

lemma same_ops_trans: "same_ops xs ys \<Longrightarrow> same_ops ys zs \<Longrightarrow> same_ops xs zs"
  unfolding same_ops_def by (rule list_all2_trans) auto

lemma same_ops_sym: "same_ops xs ys \<Longrightarrow> same_ops ys xs"
  unfolding same_ops_def by (induction rule: list_all2_induct) auto

lemma same_ops_update: "i < length xs \<Longrightarrow> essence y = essence (xs ! i) \<Longrightarrow> same_ops xs (xs[i := y])"
  by (auto simp: same_ops_def list_all2_conv_all_nth nth_list_update)

lemma same_ops_map: "(\<And>x. x \<in> set xs \<Longrightarrow> essence (f x) = essence x) \<Longrightarrow> same_ops xs (map f xs)"
  by (simp add: same_ops_def list_all2_conv_all_nth)

lemma same_stage_writes: "essence x = essence y \<Longrightarrow> stage_writes x = stage_writes y"
proof -
  assume e: "essence x = essence y"
  note d = essence_eqD [OF e]
  show ?thesis by (cases "sub_ops y") (simp_all add: stage_writes_def stages_of_def d(2,3))
qed

lemma same_closed: "essence x = essence y \<Longrightarrow> closed_op x = closed_op y"
proof -
  assume e: "essence x = essence y"
  note d = essence_eqD [OF e] same_stage_writes [OF e]
  show ?thesis by (cases "sub_ops y") (simp_all add: closed_op_def stages_of_def d)
qed

lemma run_staged_same:
  assumes "kern_steady kern" "essence x = essence y"
  shows "run_staged kern x env = run_staged kern y env"
proof -
  note d = essence_eqD [OF assms(2)]
  have "kern x vs = kern y vs" for vs using assms unfolding kern_steady_def by blast
  then have "run_op kern x e = run_op kern y e" for e by (simp add: run_op_def d)
  then have "run_ops kern (stages_of x) env = run_ops kern (stages_of y) env" by (cases "sub_ops y") (simp_all add: stages_of_def d)
  then show ?thesis unfolding run_staged_def d by (simp cong: if_cong)
qed

lemma run_graph_same: "same_ops xs ys \<Longrightarrow> kern_steady kern \<Longrightarrow> run_graph kern xs env = run_graph kern ys env"
  unfolding same_ops_def
proof (induction xs ys arbitrary: env rule: list_all2_induct)
  case (Cons x xs y ys)
  show ?case using Cons.IH Cons.prems by (simp add: run_staged_same [OF Cons.prems Cons.hyps(1)])
qed simp

section \<open>The invariant\<close>

text \<open>Stages are plain ops, and the listed internal tensors are what the stages write besides the outputs.\<close>

definition tidy :: "op \<Rightarrow> bool" where
  "tidy x =
     (list_all (\<lambda>s. sub_ops s = None \<and> internal (flds s) = []) (subs x) \<and>
      distinct (makes x) \<and> set (internal (flds x)) \<subseteq> hidden x)"

definition sound :: "string set \<Rightarrow> op list \<Rightarrow> bool" where
  "sound outs xs = (flow_ok xs \<and> list_all tidy xs \<and> outs \<inter> hiddens xs = {})"

lemma same_hidden: "essence x = essence y \<Longrightarrow> hidden x = hidden y"
proof -
  assume e: "essence x = essence y"
  show ?thesis by (simp add: hidden_def essence_eqD(2) [OF e] same_stage_writes [OF e])
qed

lemma same_tidy: "essence x = essence y \<Longrightarrow> tidy x = tidy y"
  
proof -
  assume e: "essence x = essence y"
  show ?thesis by (simp add: tidy_def subs_def makes_def same_hidden [OF e] essence_eqD(2-) [OF e])
qed

lemma same_hiddens: "same_ops xs ys \<Longrightarrow> hiddens xs = hiddens ys"
  unfolding same_ops_def by (induction xs ys rule: list_all2_induct) (auto simp: hiddens_def dest: same_hidden)

lemma list_all2_same_all: "list_all2 R xs ys \<Longrightarrow> (\<And>x y. R x y \<Longrightarrow> P x = P y) \<Longrightarrow> list_all P xs = list_all P ys"
  by (induction xs ys rule: list_all2_induct) auto

lemma list_all2_same_map: "list_all2 R xs ys \<Longrightarrow> (\<And>x y. R x y \<Longrightarrow> f x = f y) \<Longrightarrow> map f xs = map f ys"
  by (induction xs ys rule: list_all2_induct) auto

lemma reads_back_io:
  "reads_back xs =
     (sorted_wrt (\<lambda>p q. set (fst p) \<inter> set (snd q) = {}) (map (\<lambda>x. (o_ins x, o_outs x)) xs) \<and>
      list_all (\<lambda>p. set (fst p) \<inter> set (snd p) = {}) (map (\<lambda>x. (o_ins x, o_outs x)) xs))"
  by (simp add: reads_back_def sorted_wrt_map list_all_length)

lemma sound_same:
  assumes "same_ops xs ys" "sound outs xs"
  shows "sound outs ys"
proof -
  note s = assms(1) [unfolded same_ops_def]
  have w: "map stage_writes xs = map stage_writes ys" by (rule list_all2_same_map [OF s]) (rule same_stage_writes)
  have c: "list_all closed_op xs = list_all closed_op ys" by (rule list_all2_same_all [OF s]) (rule same_closed)
  have t: "list_all tidy xs = list_all tidy ys" by (rule list_all2_same_all [OF s]) (rule same_tidy)
  have i: "list_all (\<lambda>x. list_all P (o_ins x)) xs = list_all (\<lambda>x. list_all P (o_ins x)) ys" for P
    by (rule list_all2_same_all [OF s]) (drule essence_eqD(1), simp)
  have io: "map (\<lambda>x. (o_ins x, o_outs x)) xs = map (\<lambda>x. (o_ins x, o_outs x)) ys"
    by (rule list_all2_same_map [OF s]) (frule essence_eqD(1), drule essence_eqD(2), simp)
  have "reads_back xs = reads_back ys" using io by (simp add: reads_back_io)
  with w c t i same_hiddens [OF assms(1)] assms(2) show ?thesis by (simp add: sound_def flow_ok_def)
qed

lemma distinct_concat_map:
  "distinct (concat (map f xs)) \<Longrightarrow> (\<And>x. x \<in> set xs \<Longrightarrow> distinct (g x) \<and> set (g x) \<subseteq> set (f x)) \<Longrightarrow> distinct (concat (map g xs))"
proof (induction xs)
  case (Cons x xs)
  have "set (concat (map g xs)) \<subseteq> set (concat (map f xs))" using Cons.prems(2) by fastforce
  moreover have "distinct (g x)" "set (g x) \<subseteq> set (f x)" using Cons.prems(2) by auto
  moreover have "distinct (concat (map g xs))" using Cons by simp
  ultimately show ?case using Cons.prems(1) by auto
qed simp

lemma sound_single_flow:
  assumes "sound outs xs"
  shows "single_flow xs"
proof -
  have w: "distinct (concat (map stage_writes xs))" and r: "reads_back xs" and c: "list_all closed_op xs" and t: "list_all tidy xs"
    using assms by (simp_all add: sound_def flow_ok_def)
  have "distinct (makes x) \<and> set (makes x) \<subseteq> set (stage_writes x)" if "x \<in> set xs" for x
    using c t that by (auto simp: makes_def list_all_iff tidy_def hidden_def closed_op_def)
  from distinct_concat_map [OF w this] r c show ?thesis by (simp add: single_flow_def)
qed

section \<open>Keeping values\<close>

text \<open>\<open>g'\<close> computes the outputs of \<open>g\<close>, for any kernels over the values \<open>'v\<close> that read no bookkeeping.\<close>

definition keeps_values :: "'v itself \<Rightarrow> graph \<Rightarrow> graph \<Rightarrow> bool" where
  "keeps_values T g g' =
     (outputs_of g' = outputs_of g \<and>
      (\<forall>outs (kern :: op \<Rightarrow> 'v list \<Rightarrow> 'v list) env. outputs_of g = Inr outs \<longrightarrow> sound (set outs) (ops g) \<longrightarrow> kern_full kern \<longrightarrow> kern_steady kern
        \<longrightarrow> sound (set outs) (ops g') \<and> (\<forall>u \<in> set outs. run_graph kern (ops g') env u = run_graph kern (ops g) env u)))"

lemma keeps_refl [simp]: "keeps_values T g g"
  by (simp add: keeps_values_def)

lemma keeps_trans:
  assumes "keeps_values T a b" "keeps_values T b c"
  shows "keeps_values T a c"
  using assms unfolding keeps_values_def by (elim conjE) (intro conjI allI impI, simp_all)

lemma outputs_of_ops [simp]: "outputs_of (g\<lparr>ops := xs\<rparr>) = outputs_of g"
  by (simp add: outputs_of_def result_names_def)

lemma keeps_same: "same_ops (ops g) xs \<Longrightarrow> keeps_values T g (g\<lparr>ops := xs\<rparr>)"
  unfolding keeps_values_def
  by (auto intro: sound_same simp: fun_cong [OF run_graph_same [OF same_ops_sym]])

text \<open>The contract of an applier: whatever it makes of a hint, the outputs keep their values.\<close>

locale sound_applier =
  fixes step :: "specs \<Rightarrow> graph_hint \<Rightarrow> graph \<Rightarrow> provenance \<Rightarrow> fuse_error + rewriting"
    and T :: "'v itself"
  assumes keeps: "step specs h g p = Inr (g', used, p') \<Longrightarrow> keeps_values T g g'"
begin

lemma keeps_state:
  assumes "keeps_values T g0 (as_graph s)" "step specs h (as_graph s) p = Inr r"
  shows "keeps_values T g0 (as_graph (take_over r s))"
  using assms keeps keeps_trans by (cases r) (fastforce simp: take_over_def)

end

end
