(* ===== verification/Hint_Rewrites.thy ===== *)
theory Hint_Rewrites
  imports Hint_Flow
begin

text \<open>The rewrites behind the hints keep the values of the outputs: pair and chain fusion, sibling fusion, unfusing.\<close>

section \<open>Chain fusion\<close>

lemma set_drop_index_update: "set (drop_index i (xs[j := f])) \<subseteq> insert f (set xs)"
  unfolding drop_index_def by (auto dest!: in_set_takeD in_set_dropD set_update_subset_insert [THEN subsetD])

lemma fused_pair_fields:
  "fused_pair specs A B t = Inr (F, spec) \<Longrightarrow>
     internal (flds F) = internal (flds A) @ [t] @ internal (flds B) \<and> stages_of F = stages_of A @ stages_of B \<and>
     subs F = stages_of A @ stages_of B \<and> o_outs F = o_outs B"
  by (auto simp: fused_pair_def Let_def plain_fields_def stages_of_def subs_def split: sum.splits)

lemma tidy_stages: "tidy x \<Longrightarrow> s \<in> set (stages_of x) \<Longrightarrow> sub_ops s = None \<and> internal (flds s) = []"
  by (cases "sub_ops x") (auto simp: tidy_def subs_def stages_of_def list_all_iff hidden_def stage_writes_def)

lemma distinct_concat_apart:
  "distinct (concat xss) \<Longrightarrow> sorted_wrt (\<lambda>x y. set x \<inter> set y = {}) xss \<and> list_all distinct xss"
  by (induction xss) auto

lemma fuse_pair_tidy:
  assumes "fuse_pair specs g a b = Inr (g', spec)" "flow_ok (ops g)" "list_all tidy (ops g)"
  shows "list_all tidy (ops g')"
proof -
  from assms(1) obtain ia ib t F where r: "index_of (ops g) a = Inr ia" "index_of (ops g) b = Inr ib"
    "shared_tensor g (ops g ! ia) (ops g ! ib) = Inr t" "fused_pair specs (ops g ! ia) (ops g ! ib) t = Inr (F, spec)"
    "g' = g\<lparr>ops := drop_index ia ((ops g)[ib := F])\<rparr>"
    by (auto simp: fuse_pair_def Let_def split: sum.splits)
  define A where "A = ops g ! ia"
  define B where "B = ops g ! ib"
  note i = index_of_bound [OF r(1)] index_of_bound [OF r(2)]
  have s: "o_outs A = [t]" "t \<in> set (o_ins B)" using shared_tensorD [OF r(3), folded A_def B_def] by auto
  have w: "distinct (concat (map stage_writes (ops g)))" and rb: "reads_back (ops g)" and cl: "list_all closed_op (ops g)"
    using assms(2) by (simp_all add: flow_ok_def)
  have ne: "ia \<noteq> ib"
  proof
    assume "ia = ib"
    then have "set (o_ins B) \<inter> set (o_outs B) = {}" using rb i by (auto simp: reads_back_def list_all_length B_def)
    with s \<open>ia = ib\<close> show False by (simp add: A_def B_def)
  qed
  have dis: "set (stage_writes A) \<inter> set (stage_writes B) = {}" "distinct (stage_writes A)" "distinct (stage_writes B)"
  proof -
    have "sorted_wrt (\<lambda>x y. set x \<inter> set y = {}) (map stage_writes (ops g)) \<and> list_all distinct (map stage_writes (ops g))"
      by (rule distinct_concat_apart [OF w])
    then show "set (stage_writes A) \<inter> set (stage_writes B) = {}" "distinct (stage_writes A)" "distinct (stage_writes B)"
      using i ne by (auto simp: sorted_wrt_iff_nth_less list_all_length A_def B_def) (metis disjoint_iff linorder_neqE_nat)+
  qed
  have tA: "tidy A" and tB: "tidy B" using assms(3) i by (simp_all add: list_all_length A_def B_def)
  have oB: "set (o_outs B) \<subseteq> set (stage_writes B)" and oA: "t \<in> set (stage_writes A)"
    using cl i s by (auto simp: list_all_length A_def B_def closed_op_def)
  note F = fused_pair_fields [OF r(4), folded A_def B_def]
  have "stage_writes F = stage_writes A @ stage_writes B" by (simp add: stage_writes_def F)
  then have hF: "hidden F = (set (stage_writes A) \<union> set (stage_writes B)) - set (o_outs B)" by (simp add: hidden_def F)
  have iA: "set (internal (flds A)) \<subseteq> set (stage_writes A)" "t \<notin> set (internal (flds A))" "distinct (internal (flds A))"
    using tA s by (auto simp: tidy_def hidden_def makes_def)
  have iB: "set (internal (flds B)) \<subseteq> set (stage_writes B) - set (o_outs B)" "distinct (o_outs B @ internal (flds B))"
    using tB by (auto simp: tidy_def hidden_def makes_def)
  have "tidy F"
    unfolding tidy_def makes_def hF
  proof (intro conjI)
    show "list_all (\<lambda>s. sub_ops s = None \<and> internal (flds s) = []) (subs F)"
      using tidy_stages [OF tA] tidy_stages [OF tB] by (auto simp: F list_all_iff)
    show "distinct (o_outs F @ internal (flds F))" using iA iB dis(1) oA oB by (auto simp: F)
    show "set (internal (flds F)) \<subseteq> set (stage_writes A) \<union> set (stage_writes B) - set (o_outs B)"
      using iA iB dis(1) oA oB by (auto simp: F)
  qed
  then show ?thesis using assms(3) set_drop_index_update [of ia "ops g" ib F] by (auto simp: r(5) list_all_iff)
qed

lemma fuse_pair_keeps:
  fixes T :: "'v itself"
  assumes "fuse_pair specs g a b = Inr (g', spec)"
  shows "keeps_values T g g'"
proof -
  have o: "outputs_of g' = outputs_of g" using assms by (auto simp: fuse_pair_def Let_def split: sum.splits)
  have "sound (set outs) (ops g') \<and> (\<forall>u \<in> set outs. run_graph kern (ops g') env u = run_graph kern (ops g) env u)"
    if "outputs_of g = Inr outs" "sound (set outs) (ops g)" "kern_full kern" for outs and kern :: "op \<Rightarrow> 'v list \<Rightarrow> 'v list" and env
  proof -
    have s: "flow_ok (ops g)" "set outs \<inter> hiddens (ops g) = {}" "list_all tidy (ops g)" using that(2) by (simp_all add: sound_def)
    from fuse_pair_values [OF assms s(1) that(3,1) s(2)] fuse_pair_tidy [OF assms s(1,3)] show ?thesis
      by (auto simp: sound_def)
  qed
  with o show ?thesis by (simp add: keeps_values_def)
qed

lemma fuse_along_keeps:
  "fuse_along specs rest g cur sp = Inr (g', sp') \<Longrightarrow> keeps_values T g g'"
proof (induction rest arbitrary: g cur sp)
  case (Cons n rest)
  then obtain g1 s1 where p: "fuse_pair specs g cur n = Inr (g1, s1)"
    "fuse_along specs rest g1 (cur @ ''+'' @ n) (Some s1) = Inr (g', sp')" by (auto split: sum.splits)
  from keeps_trans [OF fuse_pair_keeps [OF p(1)] Cons.IH [OF p(2)]] show ?case .
qed simp

lemma fuse_chain_keeps: "fuse_chain specs g ns = Inr (g', spec) \<Longrightarrow> keeps_values T g g'"
  by (auto simp: fuse_chain_def split: list.splits sum.splits option.splits prod.splits intro: fuse_along_keeps)

section \<open>Sibling fusion\<close>

lemma mset_concat_map: "mset as = mset bs \<Longrightarrow> mset (concat (map f as)) = mset (concat (map f bs))"
  by (metis mset_concat mset_map sum_mset_sum_list map_map)

lemma stages_closed_all: "(\<And>s. s \<in> set ss \<Longrightarrow> set (o_ins s) \<subseteq> I) \<Longrightarrow> stages_closed I ss"
proof (induction ss arbitrary: I)
  case (Cons s ss)
  have "stages_closed (I \<union> set (o_outs s)) ss" by (rule Cons.IH) (use Cons.prems in fastforce)
  with Cons.prems show ?case by simp
qed simp

lemma par_op_sel:
  assumes "list_all (\<lambda>x. sub_ops x = None) sel"
  shows "o_outs (par_op nm k sel shs) = concat (map o_outs sel)" "stage_writes (par_op nm k sel shs) = concat (map o_outs sel)"
    "set (o_ins (par_op nm k sel shs)) = (\<Union>x \<in> set sel. set (o_ins x))" "hidden (par_op nm k sel shs) = {}"
    "closed_op (par_op nm k sel shs)"
proof -
  show o: "o_outs (par_op nm k sel shs) = concat (map o_outs sel)" by (simp add: par_op_def plain_fields_def)
  have "map o_outs (map strip_stage sel) = map o_outs sel" by (simp add: strip_stage_def)
  then show w: "stage_writes (par_op nm k sel shs) = concat (map o_outs sel)"
    by (simp add: stage_writes_def stages_of_def par_op_def all_writes_def comp_def strip_stage_def)
  show i: "set (o_ins (par_op nm k sel shs)) = (\<Union>x \<in> set sel. set (o_ins x))" by (simp add: par_op_def plain_fields_def)
  show "hidden (par_op nm k sel shs) = {}" by (simp add: hidden_def o w)
  have "stages_closed (set (o_ins (par_op nm k sel shs))) (stages_of (par_op nm k sel shs))"
    by (rule stages_closed_all) (unfold i, auto simp: par_op_def stages_of_def strip_stage_def)
  then show "closed_op (par_op nm k sel shs)" by (simp add: closed_op_def o w)
qed

definition moved_ops :: "op list \<Rightarrow> nat list \<Rightarrow> op \<Rightarrow> op list" where
  "moved_ops xs is F = map (\<lambda>i. xs ! i) (filter (\<lambda>i. i \<notin> set is) [0..<Suc (last is)]) @ F # drop (Suc (last is)) xs"

text \<open>The rest of the proof speaks of one accepted group of a sound graph.\<close>

definition good_group :: "string set \<Rightarrow> op list \<Rightarrow> nat list \<Rightarrow> bool" where
  "good_group outs xs is = (sound outs xs \<and> movable xs is \<and> list_all (\<lambda>i. sub_ops (xs ! i) = None) is)"

lemma good_groupD:
  assumes "good_group outs xs is"
  shows "single_flow xs" "movable xs is" "last is < length xs" "filter (\<lambda>i. i \<in> set is) [0..<Suc (last is)] = is"
    "list_all (\<lambda>x. sub_ops x = None) (map (\<lambda>i. xs ! i) is)" "\<And>i. i \<in> set is \<Longrightarrow> i \<le> last is"
proof -
  show "single_flow xs" using assms sound_single_flow by (auto simp: good_group_def)
  show m: "movable xs is" using assms by (simp add: good_group_def)
  then have i: "sorted is" "distinct is" "is \<noteq> []" "set is \<subseteq> {..<length xs}" by (simp_all add: movable_def)
  then have "last is \<in> {..<length xs}" using last_in_set by blast
  then show "last is < length xs" by simp
  show f: "filter (\<lambda>i. i \<in> set is) [0..<Suc (last is)] = is" by (rule gathered_ops(2) [OF i])
  show "list_all (\<lambda>x. sub_ops x = None) (map (\<lambda>i. xs ! i) is)" using assms by (simp add: good_group_def list_all_iff)
  show "i \<le> last is" if "i \<in> set is" for i
  proof -
    have "i \<in> set (filter (\<lambda>i. i \<in> set is) [0..<Suc (last is)])" unfolding f by (rule that)
    then show ?thesis by (simp add: less_Suc_eq_le del: upt_Suc)
  qed
qed

lemma mset_filter_parts: "mset (filter (\<lambda>x. \<not> P x) xs @ filter P xs) = mset xs"
  by (induction xs) auto

lemma moved_writes:
  assumes "good_group outs xs is" "F = par_op nm k (map (\<lambda>i. xs ! i) is) shs"
  shows "mset (concat (map stage_writes (moved_ops xs is F))) = mset (concat (map stage_writes xs))"
proof -
  note g = good_groupD [OF assms(1)]
  let ?ns = "filter (\<lambda>i. i \<notin> set is) [0..<Suc (last is)]" and ?w = "\<lambda>i. stage_writes (xs ! i)"
  have "map stage_writes (map (\<lambda>i. xs ! i) is) = map o_outs (map (\<lambda>i. xs ! i) is)"
    using g(5) by (auto simp: stage_writes_def stages_of_def all_writes_def list_all_iff)
  then have "stage_writes F = concat (map stage_writes (map (\<lambda>i. xs ! i) is))"
    unfolding assms(2) par_op_sel(2) [OF g(5)] by (rule arg_cong [OF sym])
  then have F: "stage_writes F = concat (map ?w is)" by (simp add: comp_def)
  obtain m where m: "m = Suc (last is)" by simp
  have ml: "m \<le> length xs" using g(3) m by simp
  have "mset (?ns @ is) = mset [0..<m]"
    using mset_filter_parts [of "\<lambda>i. i \<in> set is" "[0..<Suc (last is)]", unfolded g(4)] by (simp add: m)
  from mset_concat_map [OF this, of ?w] have "mset (concat (map ?w (?ns @ is))) = mset (concat (map ?w [0..<m]))" .
  moreover have "map ?w [0..<m] = map stage_writes (take m xs)" using ml by (intro nth_equalityI) simp_all
  ultimately have "mset (concat (map ?w ?ns)) + mset (concat (map ?w is)) + mset (concat (map stage_writes (drop m xs))) =
      mset (concat (map stage_writes (take m xs @ drop m xs)))" by (simp del: upt_Suc append_take_drop_id)
  then show ?thesis unfolding append_take_drop_id moved_ops_def F [symmetric] m [symmetric]
    by (simp add: comp_def ac_simps m del: upt_Suc)
qed

lemma moved_reads_back:
  assumes "good_group outs xs is" "F = par_op nm k (map (\<lambda>i. xs ! i) is) shs"
  shows "reads_back (moved_ops xs is F)"
proof -
  note g = good_groupD [OF assms(1)]
  let ?ns = "filter (\<lambda>i. i \<notin> set is) [0..<Suc (last is)]"
  let ?R = "\<lambda>x y. set (o_ins x) \<inter> set (o_outs y) = {}"
  have self: "?R x x" if "x \<in> set xs" for x
    using g(1) that by (auto simp: single_flow_def reads_back_def list_all_iff)
  have fwd: "?R (xs ! a) (xs ! b)" if "a < b" "b < length xs" for a b
    using single_flow_apart(3) [OF g(1) that] by blast
  have lnk: "?R (xs ! b) (xs ! a)" if "a < b" "b \<le> last is" "a \<in> set is" for a b
    using movable_unlinked [OF g(2,1) that] by (auto simp: unlinked_def)
  have any: "?R (xs ! b) (xs ! a)" if "a \<in> set is" "b \<le> last is" for a b
  proof (cases a b rule: linorder_cases)
    case less then show ?thesis by (rule lnk [OF _ that(2,1)])
  next
    case equal then show ?thesis using self [of "xs ! a"] that g(3,6) by auto
  next
    case greater
    have "a < length xs" using g(3) g(6) [OF that(1)] by simp
    with greater show ?thesis by (rule fwd)
  qed
  have oF: "set (o_outs F) = (\<Union>i \<in> set is. set (o_outs (xs ! i)))" and iF: "set (o_ins F) = (\<Union>i \<in> set is. set (o_ins (xs ! i)))"
    by (simp_all add: assms(2) par_op_sel [OF g(5)])
  obtain m where m: "m = Suc (last is)" by simp
  let ?P = "map (\<lambda>i. xs ! i) (filter (\<lambda>i. i \<notin> set is) [0..<m])" and ?Q = "drop m xs"
  have P: "\<exists>b. x = xs ! b \<and> b \<le> last is \<and> x \<in> set xs" if "x \<in> set ?P" for x
    using that g(3) by (auto simp: m less_Suc_eq_le simp del: upt_Suc)
  have Q: "\<exists>b. y = xs ! b \<and> last is < b \<and> b < length xs \<and> y \<in> set xs" if "y \<in> set ?Q" for y
  proof -
    from that obtain i where "y = xs ! (m + i)" "m + i < length xs" by (auto simp: in_set_conv_nth)
    then show ?thesis by (intro exI [of _ "m + i"]) (simp add: m)
  qed
  have PF: "\<forall>x \<in> set ?P. ?R x F"
  proof
    fix x assume "x \<in> set ?P"
    then obtain b where "x = xs ! b" "b \<le> last is" using P by blast
    with any [OF _ this(2)] show "?R x F" by (auto simp: oF)
  qed
  have FF: "?R F F" using any g(6) unfolding oF iF by blast
  have FQ: "\<forall>y \<in> set ?Q. ?R F y"
  proof
    fix y assume "y \<in> set ?Q"
    then obtain b where b: "y = xs ! b" "last is < b" "b < length xs" using Q by blast
    have "?R (xs ! a) y" if "a \<in> set is" for a
      unfolding b(1) by (rule fwd [OF _ b(3)]) (use g(6) [OF that] b(2) in simp)
    then show "?R F y" by (auto simp: iF)
  qed
  have PQ: "\<forall>x \<in> set ?P. \<forall>y \<in> set ?Q. ?R x y"
  proof (intro ballI)
    fix x y assume "x \<in> set ?P" "y \<in> set ?Q"
    then obtain a b where b: "x = xs ! a" "a \<le> last is" "y = xs ! b" "last is < b" "b < length xs" using P Q by blast
    show "?R x y" unfolding b(1,3) by (rule fwd [OF _ b(5)]) (use b(2,4) in simp)
  qed
  have sw: "sorted_wrt (<) (filter (\<lambda>i. i \<notin> set is) [0..<m])" by (rule sorted_wrt_filter) (simp add: strict_sorted_iff)
  have PP: "sorted_wrt ?R ?P"
    unfolding sorted_wrt_map
  proof (rule sorted_wrt_mono_rel [OF _ sw])
    fix a b assume "b \<in> set (filter (\<lambda>i. i \<notin> set is) [0..<m])" "a < b"
    then have "b < length xs" using g(3) by (simp add: m less_Suc_eq_le del: upt_Suc)
    with \<open>a < b\<close> show "?R (xs ! a) (xs ! b)" by (rule fwd)
  qed
  have "sorted_wrt ?R xs" using g(1) by (simp add: single_flow_def reads_back_def)
  then have QQ: "sorted_wrt ?R ?Q" by (rule sorted_wrt_drop)
  have "list_all (\<lambda>x. ?R x x) ?P" "list_all (\<lambda>x. ?R x x) ?Q" using self P Q by (fastforce simp: list_all_iff)+
  with PF FF FQ PQ PP QQ show ?thesis unfolding reads_back_def moved_ops_def m [symmetric] sorted_wrt_append by simp
qed

lemma moved_sound:
  assumes "good_group outs xs is" "F = par_op nm k (map (\<lambda>i. xs ! i) is) shs"
  shows "sound outs (moved_ops xs is F)"
proof -
  note g = good_groupD [OF assms(1)]
  have s: "flow_ok xs" "list_all tidy xs" "outs \<inter> hiddens xs = {}" using assms(1) by (simp_all add: good_group_def sound_def)
  note F = par_op_sel [OF g(5), of nm k shs, folded assms(2)]
  have sub: "x = F \<or> x \<in> set xs" if "x \<in> set (moved_ops xs is F)" for x
    using that g(3) by (auto simp: moved_ops_def less_Suc_eq_le simp del: upt_Suc dest: in_set_dropD)
  have mem: "xs ! i \<in> set xs" if "i \<in> set is" for i using g(3) g(6) [OF that] by simp
  have hs: "hiddens (moved_ops xs is F) \<subseteq> hiddens xs" using sub F(4) by (fastforce simp: hiddens_def)
  have dw: "distinct (concat (map stage_writes (moved_ops xs is F)))"
    using mset_eq_imp_distinct_iff [OF moved_writes [OF assms]] s(1) by (simp add: flow_ok_def)
  have ins: "v \<notin> hiddens xs" if "x \<in> set (moved_ops xs is F)" "v \<in> set (o_ins x)" for x v
  proof -
    have "v \<notin> hiddens xs" if "y \<in> set xs" "v \<in> set (o_ins y)" for y
      using s(1) that by (auto simp: flow_ok_def list_all_iff)
    moreover have "\<exists>y \<in> set xs. v \<in> set (o_ins y)"
    proof (cases "x = F")
      case True
      with that(2) have "v \<in> (\<Union>y \<in> set (map (\<lambda>i. xs ! i) is). set (o_ins y))" unfolding F(3) [symmetric] by simp
      then obtain i where "i \<in> set is" "v \<in> set (o_ins (xs ! i))" by auto
      with mem show ?thesis by blast
    qed (use that sub in blast)
    ultimately show ?thesis by blast
  qed
  have "flow_ok (moved_ops xs is F)"
    unfolding flow_ok_def
  proof (intro conjI dw moved_reads_back [OF assms])
    show "list_all closed_op (moved_ops xs is F)" using sub F(5) s(1) by (auto simp: list_all_iff flow_ok_def)
    show "list_all (\<lambda>x. list_all (\<lambda>t. t \<notin> hiddens (moved_ops xs is F)) (o_ins x)) (moved_ops xs is F)"
      using ins hs by (auto simp: list_all_iff)
  qed
  moreover have "tidy F"
  proof -
    have "F \<in> set (moved_ops xs is F)" by (simp add: moved_ops_def)
    with distinct_concat_apart [OF dw] have "distinct (stage_writes F)" by (auto simp: list_all_iff)
    moreover have "internal (flds (xs ! i)) = []" if "i \<in> set is" for i
    proof -
      have "tidy (xs ! i)" "sub_ops (xs ! i) = None" using s(2) mem [OF that] g(5) that by (auto simp: list_all_iff)
      then show ?thesis by (auto simp: tidy_def hidden_def stage_writes_def stages_of_def)
    qed
    moreover have "internal (flds F) = []" by (simp add: assms(2) par_op_def plain_fields_def)
    ultimately show ?thesis using g(5)
      by (auto simp: tidy_def makes_def F(1,2) subs_def list_all_iff) (auto simp: assms(2) par_op_def strip_stage_def)
  qed
  ultimately show ?thesis using s hs sub by (auto simp: sound_def list_all_iff)
qed

lemma strip_stage_essence: "essence (strip_stage x) = essence x"
proof -
  have "filter (\<lambda>(k, v). k \<notin> {''hint'', ''slot_variant'', ''unfused_from''}) (filter (\<lambda>(k, v). k \<notin> {''slot_variant'', ''hint''}) d) =
      filter (\<lambda>(k, v). k \<notin> {''hint'', ''slot_variant'', ''unfused_from''}) d" for d :: "(string, string) dict"
    by (induction d) auto
  then show ?thesis by (simp add: essence_def strip_stage_def bookless_def upd_def)
qed

lemma steady_lasting: "kern_steady kern \<Longrightarrow> kern_lasting kern"
  unfolding kern_steady_def kern_lasting_def using strip_stage_essence by blast

lemma fuse_siblings_keeps:
  fixes T :: "'v itself"
  assumes "fuse_siblings specs g ns = Inr (g', spec)"
  shows "keeps_values T g g'"
proof -
  from fuse_siblingsD [OF assms] obtain "is" nm shs where m: "movable (ops g) is"
    and plain: "list_all (\<lambda>i. sub_ops (ops g ! i) = None) is"
    and g': "ops g' = moved_ops (ops g) is (par_op nm (ks_op spec) (map (\<lambda>i. ops g ! i) is) shs)"
    unfolding moved_ops_def by blast
  have "outputs_of g' = outputs_of g" using assms by (auto simp: fuse_siblings_def Let_def split: sum.splits if_splits)
  moreover have "sound (set outs) (ops g')" if "sound (set outs) (ops g)" for outs
    unfolding g' by (rule moved_sound [OF _ refl]) (use that m plain in \<open>simp add: good_group_def\<close>)
  moreover have "run_graph kern (ops g') env = run_graph kern (ops g) env"
    if "sound (set outs) (ops g)" "kern_full kern" "kern_steady kern" for kern :: "op \<Rightarrow> 'v list \<Rightarrow> 'v list" and env outs
    unfolding g' moved_ops_def
    by (rule moved_values [OF m sound_single_flow [OF that(1)] that(2) steady_lasting [OF that(3)] plain])
  ultimately show ?thesis by (auto simp: keeps_values_def)
qed

section \<open>Unfusing\<close>

lemma place_split: "t \<in> set xs \<Longrightarrow> xs = take (place_of t xs) xs @ t # drop (place_of t xs + 1) xs"
  by (induction xs) auto

lemma run_graph_apart_set:
  assumes "kern_full kern" "list_all closed_op xs" "\<And>u. u \<notin> H \<Longrightarrow> e1 u = e2 u"
    and "list_all (\<lambda>x. set (o_ins x) \<inter> H = {}) xs" "u \<notin> H"
  shows "run_graph kern xs e1 u = run_graph kern xs e2 u"
  using assms(2-4)
proof (induction xs arbitrary: e1 e2)
  case Nil
  with assms(5) show ?case by simp
next
  case (Cons x xs)
  have x: "closed_op x" "set (o_ins x) \<inter> H = {}" "list_all closed_op xs" "list_all (\<lambda>x. set (o_ins x) \<inter> H = {}) xs"
    using Cons.prems(1,3) by simp_all
  have "run_staged kern x e1 v = run_staged kern x e2 v" if "v \<notin> H" for v
    by (rule run_staged_cong [OF assms(1) x(1)]) (use x(2) Cons.prems(2) that in auto)
  from Cons.IH [OF x(3) this x(4)] show ?case by simp
qed

text \<open>The stages of one op, as ops of the graph.\<close>

lemma stages_flow:
  assumes "stages_closed I ss" "distinct (all_writes ss)" "I \<inter> set (all_writes ss) = {}"
  shows "reads_back ss \<and> (\<forall>s \<in> set ss. set (o_ins s) \<subseteq> I \<union> set (all_writes ss))"
  using assms
proof (induction ss arbitrary: I)
  case (Cons s ss)
  have ih: "reads_back ss \<and> (\<forall>r \<in> set ss. set (o_ins r) \<subseteq> (I \<union> set (o_outs s)) \<union> set (all_writes ss))"
    by (rule Cons.IH) (use Cons.prems in auto)
  have sub: "set (o_outs r) \<subseteq> set (all_writes ss)" if "r \<in> set ss" for r using that by (auto simp: all_writes_def)
  have "\<forall>r \<in> set (s # ss). set (o_ins s) \<inter> set (o_outs r) = {}" using Cons.prems sub by fastforce
  with ih Cons.prems show ?case by (auto simp: reads_back_def)
qed (simp add: reads_back_def)

lemma plain_op: "sub_ops s = None \<Longrightarrow> stage_writes s = o_outs s \<and> hidden s = {} \<and> closed_op s"
  by (simp add: stage_writes_def stages_of_def hidden_def closed_op_def)

text \<open>What a sound graph says of one of its ops and of the ops around it.\<close>

lemma sound_at:
  assumes "sound outs (pre @ t # post)"
  shows "stages_closed (set (o_ins t)) (stages_of t)" "distinct (stage_writes t)" "set (o_ins t) \<inter> set (stage_writes t) = {}"
    "\<And>x. x \<in> set pre \<union> set post \<Longrightarrow> set (stage_writes x) \<inter> set (stage_writes t) = {}"
    "\<And>x. x \<in> set pre \<Longrightarrow> set (o_ins x) \<inter> set (stage_writes t) = {}" "\<And>x. x \<in> set post \<Longrightarrow> set (o_ins x) \<inter> hidden t = {}"
    "\<And>x. x \<in> set post \<Longrightarrow> set (o_ins t) \<inter> set (o_outs x) = {}" "list_all closed_op (pre @ t # post)" "reads_back (pre @ post)"
    "set (o_ins t) \<inter> hiddens (pre @ t # post) = {}" "\<And>x. x \<in> set pre \<union> set post \<Longrightarrow> set (o_outs x) \<subseteq> set (stage_writes x)"
proof -
  have f: "distinct (concat (map stage_writes (pre @ t # post)))" "reads_back (pre @ t # post)" "list_all closed_op (pre @ t # post)"
    "list_all (\<lambda>x. list_all (\<lambda>v. v \<notin> hiddens (pre @ t # post)) (o_ins x)) (pre @ t # post)"
    using assms by (simp_all add: sound_def flow_ok_def)
  show "list_all closed_op (pre @ t # post)" by (fact f(3))
  have ct: "closed_op t" using f(3) by simp
  then show "stages_closed (set (o_ins t)) (stages_of t)" by (simp add: closed_op_def)
  show "distinct (stage_writes t)" using f(1) by simp
  have hid: "set (o_ins x) \<inter> hiddens (pre @ t # post) = {}" if "x \<in> set (pre @ t # post)" for x
    using f(4) that by (auto simp: list_all_iff)
  then show "set (o_ins t) \<inter> hiddens (pre @ t # post) = {}" by simp
  have ht: "hidden t \<subseteq> hiddens (pre @ t # post)" by (auto simp: hiddens_def)
  have st: "set (stage_writes t) \<subseteq> set (o_outs t) \<union> hidden t" by (auto simp: hidden_def)
  show "set (o_ins t) \<inter> set (stage_writes t) = {}" using hid [of t] ht st f(2) by (auto simp: reads_back_def)
  show "set (stage_writes x) \<inter> set (stage_writes t) = {}" if "x \<in> set pre \<union> set post" for x using f(1) that by auto
  show "set (o_ins x) \<inter> set (stage_writes t) = {}" if "x \<in> set pre" for x
  proof -
    have "set (o_ins x) \<inter> set (o_outs t) = {}" using that f(2) by (auto simp: reads_back_def sorted_wrt_append)
    with hid [of x] that ht st show ?thesis by auto
  qed
  show "set (o_ins x) \<inter> hidden t = {}" if "x \<in> set post" for x using hid [of x] that ht by auto
  show "set (o_ins t) \<inter> set (o_outs x) = {}" if "x \<in> set post" for x using f(2) that by (auto simp: reads_back_def sorted_wrt_append)
  show "reads_back (pre @ post)" using f(2) by (auto simp: reads_back_def sorted_wrt_append)
  show "set (o_outs x) \<subseteq> set (stage_writes x)" if "x \<in> set pre \<union> set post" for x
    using f(3) that by (auto simp: list_all_iff closed_op_def)
qed

lemma unfused_sound:
  assumes "sound outs (pre @ t # post)" "sub_ops t = Some ss"
  shows "sound outs (pre @ ss @ post)"
proof -
  note a = sound_at [OF assms(1)]
  have ss: "stages_of t = ss" and w: "stage_writes t = all_writes ss" using assms(2) by (simp_all add: stages_of_def stage_writes_def)
  have td: "list_all tidy (pre @ t # post)" using assms(1) by (simp add: sound_def)
  then have pl: "sub_ops s = None \<and> internal (flds s) = []" if "s \<in> set ss" for s
    using assms(2) that by (auto simp: tidy_def subs_def list_all_iff)
  note sf = stages_flow [OF a(1) [unfolded ss] a(2,3) [unfolded w]]
  have mp: "concat (map stage_writes ss) = all_writes ss" unfolding all_writes_def
    by (intro arg_cong [of _ _ concat] map_cong refl) (use pl plain_op in blast)
  have hs: "hiddens (pre @ ss @ post) \<subseteq> hiddens (pre @ t # post)" using pl plain_op by (fastforce simp: hiddens_def)
  have hw: "hiddens (pre @ ss @ post) \<inter> set (stage_writes t) = {}"
    using a(4) pl plain_op by (fastforce simp: hiddens_def hidden_def)
  have "reads_back (pre @ ss @ post)"
  proof -
    have sub: "set (o_outs s) \<subseteq> set (stage_writes t)" if "s \<in> set ss" for s using that by (auto simp: w all_writes_def)
    have "\<forall>x \<in> set pre. \<forall>s \<in> set ss. set (o_ins x) \<inter> set (o_outs s) = {}" using sub a(5) by blast
    moreover have "\<forall>s \<in> set ss. \<forall>x \<in> set post. set (o_ins s) \<inter> set (o_outs x) = {}"
    proof (intro ballI)
      fix s x assume "s \<in> set ss" "x \<in> set post"
      moreover from this have "set (o_ins s) \<subseteq> set (o_ins t) \<union> set (stage_writes t)" using sf by (simp add: w)
      moreover have "set (o_outs x) \<inter> set (stage_writes t) = {}" using a(4) [of x] a(11) [of x] \<open>x \<in> set post\<close> by auto
      ultimately show "set (o_ins s) \<inter> set (o_outs x) = {}" using a(7) [of x] by blast
    qed
    moreover have "reads_back ss" using sf by blast
    ultimately show ?thesis using a(9) by (simp add: reads_back_def sorted_wrt_append ball_Un)
  qed
  moreover have "distinct (concat (map stage_writes (pre @ ss @ post)))"
    using assms(1) by (simp add: sound_def flow_ok_def mp w)
  moreover have "list_all closed_op (pre @ ss @ post)" using a(8) pl plain_op by (auto simp: list_all_iff)
  moreover have "list_all (\<lambda>x. list_all (\<lambda>v. v \<notin> hiddens (pre @ ss @ post)) (o_ins x)) (pre @ ss @ post)"
  proof -
    have "set (o_ins x) \<inter> hiddens (pre @ ss @ post) = {}" if "x \<in> set pre \<union> set post" for x
      using assms(1) hs that by (fastforce simp: sound_def flow_ok_def list_all_iff)
    moreover have "set (o_ins s) \<inter> hiddens (pre @ ss @ post) = {}" if "s \<in> set ss" for s
      using sf that a(10) hs hw unfolding w by blast
    ultimately show ?thesis by (fastforce simp: list_all_iff)
  qed
  moreover have "list_all tidy ss"
    using pl plain_op mp a(2) unfolding w
    by (auto simp: list_all_iff tidy_def subs_def makes_def all_writes_def dest: distinct_concat_apart)
  ultimately show ?thesis using td hs assms(1) by (auto simp: sound_def flow_ok_def)
qed

lemma unfused_values:
  assumes "sound outs (pre @ t # post)" "sub_ops t = Some ss" "kern_full kern" "u \<in> outs"
  shows "run_graph kern (pre @ ss @ post) env u = run_graph kern (pre @ t # post) env u"
proof -
  note a = sound_at [OF assms(1)]
  let ?e = "run_graph kern pre env"
  have td: "list_all tidy (pre @ t # post)" using assms(1) by (simp add: sound_def)
  then have pl: "list_all (\<lambda>x. sub_ops x = None) ss" using assms(2) by (auto simp: tidy_def subs_def list_all_iff)
  have ss: "stages_of t = ss" and w: "stage_writes t = all_writes ss" using assms(2) by (simp_all add: stages_of_def stage_writes_def)
  have agree: "run_graph kern ss ?e v = run_staged kern t ?e v" if "v \<notin> hidden t" for v
    using that run_ops_other [of v ss kern ?e] by (auto simp: run_graph_plain [OF pl] run_staged_def ss hidden_def w)
  have "u \<notin> hidden t" using assms(1,4) by (auto simp: sound_def hiddens_def)
  then have "run_graph kern post (run_graph kern ss ?e) u = run_graph kern post (run_staged kern t ?e) u"
    by (intro run_graph_apart_set [OF assms(3) _ agree]) (use a(6,8) in \<open>auto simp: list_all_iff\<close>)
  then show ?thesis by (simp add: run_graph_append)
qed

end
