(* ===== verification/Annotate.thy ===== *)
theory Annotate
  imports Graph_IR
begin

text \<open>
  \<^verbatim>\<open>_annotate_dispatches\<close> of \<^verbatim>\<open>pipeline/extract_graph.py\<close>: every op that is not a view becomes a
  dispatch with the next id, and depends on the dispatches whose data its inputs hold. The
  dependencies are compared with a reading of the op list by positions.
\<close>

section \<open>The pass\<close>

record annotation =
  an_producer :: "(string, int) dict"
  an_next :: int
  an_dispatches :: "int list"
  an_ops :: "op list"

definition is_view :: "op \<Rightarrow> bool" where
  "is_view x = (o_kind x = ''view'')"

definition set_dispatch :: "int option \<Rightarrow> int list \<Rightarrow> op \<Rightarrow> op" where
  "set_dispatch did deps x =
     upd (\<lambda>f. f\<lparr>dispatch_id := did, null_dispatch := (did = None), hardware_target := Some ''any'', depends_on := deps\<rparr>) x"

definition alias_producers :: "(string \<times> string) list \<Rightarrow> (string, int) dict \<Rightarrow> (string, int) dict" where
  "alias_producers prs owners =
     fold (\<lambda>(t_in, t_out) p. case map_of p t_in of None \<Rightarrow> p | Some d \<Rightarrow> AList.update t_out d p) prs owners"

definition annotate_step :: "op \<Rightarrow> annotation \<Rightarrow> annotation" where
  "annotate_step x s =
     (if is_view x then
        s\<lparr>an_producer := alias_producers (zip (o_ins x) (o_outs x)) (an_producer s),
          an_ops := an_ops s @ [set_dispatch None [] x]\<rparr>
      else
        (let deps = sorted_set (List.map_filter (map_of (an_producer s)) (o_ins x))
         in s\<lparr>an_producer := fold (\<lambda>t. AList.update t (an_next s)) (o_outs x) (an_producer s),
              an_next := an_next s + 1,
              an_dispatches := an_dispatches s @ [an_next s],
              an_ops := an_ops s @ [set_dispatch (Some (an_next s)) deps x]\<rparr>))"

definition annotate_dispatches :: "op list \<Rightarrow> op list \<times> int list" where
  "annotate_dispatches xs =
     (let s = fold annotate_step xs
                \<lparr>an_producer = [], an_next = 0, an_dispatches = [], an_ops = []\<rparr>
      in (an_ops s, an_dispatches s))"

section \<open>Whose data a tensor holds\<close>

text \<open>
  \<open>holder xs t\<close>: the position of the op whose data the buffer \<open>t\<close> holds after the ops \<open>xs\<close> ran. A
  view moves the data of its inputs to its outputs, any other op writes its own.
\<close>

definition holder_step :: "nat \<Rightarrow> op \<Rightarrow> (string \<Rightarrow> nat option) \<Rightarrow> string \<Rightarrow> nat option" where
  "holder_step k x h =
     (if is_view x
      then fold (\<lambda>(t_in, t_out) h. case h t_in of None \<Rightarrow> h | Some i \<Rightarrow> h(t_out \<mapsto> i))
             (zip (o_ins x) (o_outs x)) h
      else (\<lambda>t. if t \<in> set (o_outs x) then Some k else h t))"

fun holder_from :: "nat \<Rightarrow> op list \<Rightarrow> (string \<Rightarrow> nat option) \<Rightarrow> string \<Rightarrow> nat option" where
  "holder_from k [] h = h"
| "holder_from k (x # xs) h = holder_from (Suc k) xs (holder_step k x h)"

definition holder :: "op list \<Rightarrow> string \<Rightarrow> nat option" where
  "holder xs = holder_from 0 xs (\<lambda>_. None)"

text \<open>The dispatch id of the op at a position: how many ops before it are dispatches.\<close>

definition rank :: "op list \<Rightarrow> nat \<Rightarrow> nat" where
  "rank xs i = length (filter (\<lambda>x. \<not> is_view x) (take i xs))"

lemma holder_from_append:
  "holder_from k (xs @ ys) h = holder_from (k + length xs) ys (holder_from k xs h)"
  by (induction xs arbitrary: k h) auto

lemma holder_snoc: "holder (xs @ [x]) = holder_step (length xs) x (holder xs)"
  by (simp add: holder_def holder_from_append)

lemma rank_append: "i \<le> length xs \<Longrightarrow> rank (xs @ ys) i = rank xs i"
  by (simp add: rank_def)

lemma rank_le: "rank xs i \<le> rank xs (length xs)"
proof -
  have "filter P xs = filter P (take i xs) @ filter P (drop i xs)" for P
    by (metis append_take_drop_id filter_append)
  then have "length (filter P xs) = length (filter P (take i xs)) + length (filter P (drop i xs))" for P
    by (metis length_append)
  then show ?thesis by (simp add: rank_def)
qed

definition number :: "op list \<Rightarrow> (string \<Rightarrow> nat option) \<Rightarrow> string \<Rightarrow> int option" where
  "number xs h t = map_option (\<lambda>i. int (rank xs i)) (h t)"

lemma alias_number:
  assumes "\<And>t. map_of p t = number xs h t"
  shows "map_of (alias_producers prs p) t =
           number xs (fold (\<lambda>(a, b) h. case h a of None \<Rightarrow> h | Some i \<Rightarrow> h(b \<mapsto> i)) prs h) t"
  using assms unfolding alias_producers_def
proof (induction prs arbitrary: p h)
  case (Cons ab prs)
  obtain a b where ab: "ab = (a, b)" by fastforce
  have "map_of (case map_of p a of None \<Rightarrow> p | Some d \<Rightarrow> AList.update b d p) t =
      number xs (case h a of None \<Rightarrow> h | Some i \<Rightarrow> h(b \<mapsto> i)) t" for t
    using Cons.prems [of a] Cons.prems [of t] by (auto simp: number_def split: option.splits)
  from Cons.IH [OF this] ab show ?case by simp
qed simp

lemma holder_lt: "holder xs t = Some i \<Longrightarrow> i < length xs \<and> \<not> is_view (xs ! i)"
proof (induction xs arbitrary: t i rule: rev_induct)
  case (snoc x xs)
  have old: "j < length (xs @ [x]) \<and> \<not> is_view ((xs @ [x]) ! j)" if "holder xs u = Some j" for u j
    using snoc.IH [OF that] by (simp add: nth_append)
  show ?case
  proof (cases "is_view x")
    case False
    then show ?thesis using snoc.prems old by (auto simp: holder_snoc holder_step_def split: if_splits)
  next
    case True
    have "\<exists>u. h u = Some i" if "fold (\<lambda>(a, b) h. case h a of None \<Rightarrow> h | Some i \<Rightarrow> h(b \<mapsto> i)) prs h t = Some i"
      for prs h using that
    proof (induction prs arbitrary: h)
      case (Cons ab prs)
      obtain a b where ab: "ab = (a, b)" by fastforce
      with Cons.prems have "fold (\<lambda>(a, b) h. case h a of None \<Rightarrow> h | Some i \<Rightarrow> h(b \<mapsto> i)) prs
          (case h a of None \<Rightarrow> h | Some i \<Rightarrow> h(b \<mapsto> i)) t = Some i" by simp
      from Cons.IH [OF this] show ?case by (auto split: option.splits if_splits)
    qed auto
    with snoc.prems True show ?thesis using old by (auto simp: holder_snoc holder_step_def)
  qed
qed (simp add: holder_def)

section \<open>What the pass computes\<close>

text \<open>The dependencies the op at position \<open>k\<close> should have.\<close>

definition data_deps :: "op list \<Rightarrow> nat \<Rightarrow> int list" where
  "data_deps xs k = sorted_set (List.map_filter (number xs (holder (take k xs))) (o_ins (xs ! k)))"

definition annotated :: "op list \<Rightarrow> nat \<Rightarrow> op" where
  "annotated xs k =
     (if is_view (xs ! k) then set_dispatch None [] (xs ! k)
      else set_dispatch (Some (int (rank xs k))) (data_deps xs k) (xs ! k))"

lemma annotate_inv:
  fixes xs :: "op list"
  defines "s \<equiv> fold annotate_step xs \<lparr>an_producer = [], an_next = 0, an_dispatches = [], an_ops = []\<rparr>"
  shows "(\<forall>t. map_of (an_producer s) t = number xs (holder xs) t) \<and>
         an_next s = int (rank xs (length xs)) \<and>
         an_dispatches s = map int [0..<rank xs (length xs)] \<and>
         an_ops s = map (annotated xs) [0..<length xs]"
proof -
  define P where "P pre s \<longleftrightarrow> (\<forall>t. map_of (an_producer s) t = number xs (holder pre) t) \<and>
         an_next s = int (rank xs (length pre)) \<and>
         an_dispatches s = map int [0..<rank xs (length pre)] \<and>
         an_ops s = map (annotated xs) [0..<length pre]" for pre :: "op list" and s :: annotation
  have "P xs (fold annotate_step xs \<lparr>an_producer = [], an_next = 0, an_dispatches = [], an_ops = []\<rparr>)"
  proof (rule fold_prefix_inv)
    show "P [] \<lparr>an_producer = [], an_next = 0, an_dispatches = [], an_ops = []\<rparr>"
      by (simp add: P_def number_def holder_def rank_def)
  next
    fix pre x post s assume xs: "xs = pre @ x # post" and "P pre s"
    then have I: "\<And>t. map_of (an_producer s) t = number xs (holder pre) t"
      "an_next s = int (rank xs (length pre))" "an_dispatches s = map int [0..<rank xs (length pre)]"
      "an_ops s = map (annotated xs) [0..<length pre]" by (simp_all add: P_def)
    have here: "xs ! length pre = x" "take (length pre) xs = pre" using xs by simp_all
    show "P (pre @ [x]) (annotate_step x s)"
    proof (cases "is_view x")
      case True
      have "map_of (an_producer (annotate_step x s)) t = number xs (holder (pre @ [x])) t" for t
        using alias_number [OF I(1)] True by (simp add: annotate_step_def holder_snoc holder_step_def)
      moreover have "rank xs (Suc (length pre)) = rank xs (length pre)"
        using True xs by (simp add: rank_def)
      ultimately show ?thesis using True I here
        by (simp add: P_def annotate_step_def annotated_def)
    next
      case False
      have rank: "rank xs (Suc (length pre)) = Suc (rank xs (length pre))"
        using False xs by (simp add: rank_def)
      let ?deps = "sorted_set (List.map_filter (map_of (an_producer s)) (o_ins x))"
      have step: "annotate_step x s = s\<lparr>
          an_producer := fold (\<lambda>t. AList.update t (an_next s)) (o_outs x) (an_producer s),
          an_next := an_next s + 1, an_dispatches := an_dispatches s @ [an_next s],
          an_ops := an_ops s @ [set_dispatch (Some (an_next s)) ?deps x]\<rparr>"
        using False by (simp add: annotate_step_def Let_def)
      have "map_of (an_producer (annotate_step x s)) t = number xs (holder (pre @ [x])) t" for t
        unfolding step using False I(1) [of t] I(2)
        by (simp add: map_of_fold_same holder_snoc holder_step_def number_def)
      moreover have "an_next (annotate_step x s) = int (rank xs (length (pre @ [x])))"
        unfolding step using I(2) rank by simp
      moreover have "an_dispatches (annotate_step x s) = map int [0..<rank xs (length (pre @ [x]))]"
        unfolding step using I(2,3) rank by simp
      moreover have "an_ops (annotate_step x s) = map (annotated xs) [0..<length (pre @ [x])]"
      proof -
        have "map_of (an_producer s) = number xs (holder pre)" using I(1) by (rule ext)
        then have "annotated xs (length pre) = set_dispatch (Some (an_next s)) ?deps x"
          unfolding annotated_def data_deps_def here using False I(2) by simp
        then show ?thesis unfolding step using I(4) by simp
      qed
      ultimately show ?thesis by (simp add: P_def)
    qed
  qed
  then show ?thesis by (simp add: P_def s_def)
qed

lemma annotated_closed_form:
  "annotate_dispatches xs =
     (map (annotated xs) [0..<length xs], map int [0..<length (filter (\<lambda>x. \<not> is_view x) xs)])"
  using annotate_inv [of xs] by (simp add: annotate_dispatches_def Let_def rank_def)


lemma dids_annotated:
  "dids (map (annotated xs) [0..<n]) = map int [0..<rank xs n]" if "n \<le> length xs"
  using that
proof (induction n)
  case (Suc n)
  then have "take (Suc n) xs = take n xs @ [xs ! n]" by (simp add: take_Suc_conv_app_nth)
  then have "rank xs (Suc n) = rank xs n + (if is_view (xs ! n) then 0 else 1)"
    by (simp add: rank_def)
  then show ?case using Suc by (simp add: annotated_def set_dispatch_def)
qed (simp add: rank_def)

lemma data_deps_lt:
  assumes k: "k < length xs" and d: "d \<in> set (data_deps xs k)"
  shows "0 \<le> d \<and> d < int (rank xs k)"
proof -
  from d obtain t i where i: "holder (take k xs) t = Some i" "d = int (rank xs i)"
    by (auto simp: data_deps_def List.map_filter_def number_def)
  from holder_lt [OF i(1)] k have lt: "i < k" "\<not> is_view (xs ! i)" by auto
  have "take (Suc i) xs = take i xs @ [xs ! i]" using lt k by (simp add: take_Suc_conv_app_nth)
  then have "rank xs (Suc i) = Suc (rank xs i)" using lt by (simp add: rank_def)
  moreover have "rank xs (Suc i) \<le> rank xs k"
    using rank_le [of "take k xs" "Suc i"] lt k by (simp add: rank_def min_def)
  ultimately show ?thesis using i by simp
qed

lemma annotated_closed:
  "dids (fst (annotate_dispatches xs)) = snd (annotate_dispatches xs) \<and>
   backward (fst (annotate_dispatches xs)) \<and>
   \<Union> (set ` o_deps ` set (fst (annotate_dispatches xs))) \<subseteq> set (snd (annotate_dispatches xs)) \<and>
   acyclic (dep_rel (fst (annotate_dispatches xs)))"
proof -
  have a: "fst (annotate_dispatches xs) = map (annotated xs) [0..<length xs]"
    and r: "snd (annotate_dispatches xs) = map int [0..<rank xs (length xs)]"
    by (simp_all add: annotated_closed_form rank_def)
  have ids: "dids (fst (annotate_dispatches xs)) = snd (annotate_dispatches xs)"
    unfolding a r by (rule dids_annotated) simp
  have deps: "set (o_deps (annotated xs k)) \<subseteq> {0 ..< int (rank xs k)}" if "k < length xs" for k
    using data_deps_lt [OF that] by (auto simp: annotated_def set_dispatch_def)
  have bw: "backward (fst (annotate_dispatches xs))"
    unfolding a backward_def using deps
    by (fastforce simp: annotated_def set_dispatch_def split: option.splits if_splits)
  have "\<Union> (set ` o_deps ` set (fst (annotate_dispatches xs))) \<subseteq> set (snd (annotate_dispatches xs))"
  proof
    fix d assume "d \<in> \<Union> (set ` o_deps ` set (fst (annotate_dispatches xs)))"
    then obtain k where k: "k < length xs" "d \<in> set (o_deps (annotated xs k))" unfolding a by auto
    with deps [OF k(1)] have "d \<in> {0 ..< int (rank xs k)}" by blast
    with rank_le [of xs k] have "0 \<le> d" "nat d < rank xs (length xs)" by auto
    then show "d \<in> set (snd (annotate_dispatches xs))" unfolding r by (auto intro!: image_eqI [of _ _ "nat d"])
  qed
  with ids bw backward_acyclic [OF bw] show ?thesis by blast
qed

text \<open>
  C6. The annotated graph is schedulable as it stands: ids are \<open>0 .. n - 1\<close> in op order and equal
  the returned list, every dependency is the id of an earlier dispatch of the graph, and the
  dependency relation has no cycle.
\<close>
theorem annotate_schedulable:
  "dids (fst (annotate_dispatches xs)) = snd (annotate_dispatches xs) \<and>
   backward (fst (annotate_dispatches xs)) \<and>
   \<Union> (set ` o_deps ` set (fst (annotate_dispatches xs))) \<subseteq> set (snd (annotate_dispatches xs)) \<and>
   acyclic (dep_rel (fst (annotate_dispatches xs)))"
  by (rule annotated_closed)

end
