(* ===== verification/Hint_Apply_Facts.thy ===== *)
theory Hint_Apply_Facts
  imports Hint_Rewrites Annotate
begin

text \<open>
  What \<open>apply_hints\<close> guarantees: the fusions, sibling fusions, splits and unfusings keep the value of every output,
  whatever hints are given, in whatever order they apply; the dispatch ids and the remap that follow.
\<close>

section \<open>The appliers keep their contract\<close>

lemma mark_hint_keeps: "mark_hint hid nm g = Inr g' \<Longrightarrow> keeps_values T g g'"
  by (auto simp: mark_hint_def split: sum.splits intro!: keeps_same same_ops_update dest: index_of_bound)

lemma group_loop_keeps:
  assumes "\<And>g ns g' s. fuse g ns = Inr (g', s) \<Longrightarrow> keeps_values T g g'"
    and "for_each (group_loop fuse want hid kind) grps (g, u, p) = Inr (g', u', p')"
  shows "keeps_values T g g'"
proof -
  have "keeps_values T g (fst (g', u', p'))"
  proof (rule for_each_invariant [where P = "\<lambda>r. keeps_values T g (fst r)", OF assms(2)])
    fix grp s s'
    assume k: "keeps_values T g (fst s)" and st: "group_loop fuse want hid kind grp s = Inr s'"
    obtain g1 u1 p1 where s: "s = (g1, u1, p1)" by (cases s)
    consider "fst s' = g1" | cur g2 sp g3 where "fuse g1 cur = Inr (g2, sp)" "mark_hint hid (join ''+'' cur) g2 = Inr g3" "fst s' = g3"
      using st by (auto simp: s group_loop_def try_group_def Let_def split: sum.splits if_splits prod.splits)
    then show "keeps_values T g (fst s')"
    proof cases
      case 2
      from keeps_trans [OF assms(1) [OF 2(1)] mark_hint_keeps [OF 2(2)]] k show ?thesis by (auto simp: 2(3) s intro: keeps_trans)
    qed (use k s in simp)
  qed simp
  then show ?thesis by simp
qed

lemma nothing_fused_graph [simp]: "fst (nothing_fused h l r) = fst r"
  by (cases r) (simp add: nothing_fused_def)

interpretation fuse: sound_applier apply_fuse T for T :: "'v itself"
proof unfold_locales
  fix specs h g p g' used p' assume "apply_fuse specs h g p = Inr (g', used, p')"
  then consider "g' = g" | kind chs u' p'' where
    "for_each (group_loop (fuse_chain specs) (Some kind) (h_id h) ''fuse'') chs (g, [], p) = Inr (g', u', p'')"
    by (auto simp: apply_fuse_def Let_def split: option.splits sum.splits if_splits prod.splits)
      (metis fst_conv nothing_fused_graph prod.collapse)+
  then show "keeps_values T g g'" by cases (auto intro: group_loop_keeps fuse_chain_keeps)
qed

interpretation siblings: sound_applier apply_siblings T for T :: "'v itself"
proof unfold_locales
  have loop: "keeps_values T g g'" if "sibling_loop specs h g p gs = Inr (g', u, p')" for specs h g p gs g' u p'
  proof -
    from that obtain r where r: "for_each (group_loop (fuse_siblings specs) (if h_fused_kind h = Some [] then None else h_fused_kind h)
        (h_id h) ''fuse_siblings'') gs (g, [], p) = Inr r" "fst r = g'"
      by (auto simp: sibling_loop_def split: sum.splits) (metis fst_conv nothing_fused_graph)
    then show ?thesis by (cases r) (auto intro: group_loop_keeps fuse_siblings_keeps)
  qed
  fix specs h g p g' used p' assume "apply_siblings specs h g p = Inr (g', used, p')"
  then show "keeps_values T g g'"
    by (auto simp: apply_siblings_def split: option.splits sum.splits if_splits prod.splits intro: loop)
qed

lemma set_variants_same: "same_ops xs (fold (set_variant names hid) kns xs)"
proof (induction kns arbitrary: xs)
  case (Cons kn kns)
  have "same_ops xs (set_variant names hid kn xs)"
  proof (cases "map_of names (snd kn)")
    case (Some i)
    show ?thesis
    proof (cases "i < length xs")
      case True
      then show ?thesis by (simp add: set_variant_def Some same_ops_update)
    qed (simp add: set_variant_def Some list_update_beyond)
  qed (simp add: set_variant_def)
  with Cons show ?case by (auto intro: same_ops_trans)
qed simp

lemma apply_split_keeps: "apply_split log4 ext specs h g p = Inr (g', used, p') \<Longrightarrow> keeps_values T g g'"
  by (auto simp: apply_split_def Let_def split: sum.splits if_splits intro: keeps_same set_variants_same)

interpretation split: sound_applier "apply_split log4 ext" T for log4 ext and T :: "'v itself"
  by unfold_locales (rule apply_split_keeps)

lemma unfuse_one_keeps:
  fixes T :: "'v itself"
  assumes "t \<in> set (ops g)" "sub_ops t \<noteq> None"
  shows "keeps_values T g (fst (unfuse_one h t (g, p)))"
proof -
  from assms(2) obtain ss where ss: "sub_ops t = Some ss" by blast
  define i where "i = place_of t (ops g)"
  let ?pre = "take i (ops g)" and ?post = "drop (i + 1) (ops g)" and ?st = "map (unfused_stage (o_name t)) ss"
  have split: "ops g = ?pre @ t # ?post" unfolding i_def by (rule place_split [OF assms(1)])
  have "same_ops ss ?st" by (rule same_ops_map) (simp add: unfused_stage_def)
  then have same: "same_ops (?pre @ ss @ ?post) (?pre @ ?st @ ?post)"
    unfolding same_ops_def by (intro list_all2_appendI) (auto intro: list_all2_refl)
  have "keeps_values T g (g\<lparr>ops := ?pre @ ?st @ ?post\<rparr>)"
    unfolding keeps_values_def
  proof (intro conjI allI impI ballI)
    fix outs and kern :: "op \<Rightarrow> 'v list \<Rightarrow> 'v list" and env u
    assume s: "sound (set outs) (ops g)" and k: "kern_full kern" "kern_steady kern"
    then have s': "sound (set outs) (?pre @ t # ?post)" using split by simp
    from sound_same [OF same unfused_sound [OF s' ss]] show "sound (set outs) (ops (g\<lparr>ops := ?pre @ ?st @ ?post\<rparr>))" by simp
    assume "u \<in> set outs"
    from unfused_values [OF s' ss k(1) this, of env] run_graph_same [OF same k(2), of env] split
    show "run_graph kern (ops (g\<lparr>ops := ?pre @ ?st @ ?post\<rparr>)) env u = run_graph kern (ops g) env u" by simp
  qed simp
  then show ?thesis by (simp add: unfuse_one_def Let_def ss subs_def i_def)
qed

lemma unfuse_one_left:
  assumes "mset (t # ts) \<subseteq># mset (ops g)"
  shows "mset ts \<subseteq># mset (ops (fst (unfuse_one h t (g, p))))"
proof -
  have t: "t \<in> set (ops g)" using mset_subset_eqD [OF assms, of t] by simp
  define i where "i = place_of t (ops g)"
  have split: "ops g = take i (ops g) @ t # drop (i + 1) (ops g)" unfolding i_def by (rule place_split [OF t])
  then have "mset (ops g) = add_mset t (mset (take i (ops g)) + mset (drop (i + 1) (ops g)))"
    by (metis mset.simps(2) mset_append union_mset_add_mset_right)
  with assms have le: "mset ts \<subseteq># mset (take i (ops g)) + mset (drop (i + 1) (ops g))" by simp
  show ?thesis
  proof (cases "filter (\<lambda>x. \<not> has_key (tensors g) x) (internal (flds t)) \<noteq> []")
    case True
    have "mset ts \<subseteq># mset (t # ts)" by simp
    from subset_mset.order_trans [OF this assms] True show ?thesis by (simp add: unfuse_one_def Let_def)
  next
    case False
    have "mset (take i (ops g)) + mset (drop (i + 1) (ops g)) \<subseteq>#
        mset (take i (ops g) @ map (unfused_stage (o_name t)) (subs t) @ drop (i + 1) (ops g))" by simp
    with False le show ?thesis by (auto simp: unfuse_one_def Let_def i_def intro: subset_mset.order_trans)
  qed
qed

lemma unfuse_all_keeps:
  "mset ts \<subseteq># mset (ops g) \<Longrightarrow> list_all (\<lambda>t. sub_ops t \<noteq> None) ts \<Longrightarrow> keeps_values T g (fst (fold (unfuse_one h) ts (g, p)))"
proof (induction ts arbitrary: g p)
  case (Cons t ts)
  obtain g1 p1 where s: "unfuse_one h t (g, p) = (g1, p1)" by fastforce
  have t: "t \<in> set (ops g)" using mset_subset_eqD [OF Cons.prems(1), of t] by simp
  have "keeps_values T g g1" using unfuse_one_keeps [OF t, of T h p] Cons.prems(2) s by simp
  moreover have "keeps_values T g1 (fst (fold (unfuse_one h) ts (g1, p1)))"
    by (rule Cons.IH) (use unfuse_one_left [OF Cons.prems(1), of h p] Cons.prems(2) s in simp_all)
  ultimately show ?case by (simp add: s) (rule keeps_trans)
qed simp

interpretation unfuse: sound_applier "\<lambda>specs h g p. Inr (apply_unfuse h g p)" T for T :: "'v itself"
proof unfold_locales
  fix specs :: specs and h g p g' used p'
  assume "Inr (apply_unfuse h g p) = (Inr (g', used, p') :: fuse_error + rewriting)"
  then show "keeps_values T g g'"
    using unfuse_all_keeps [of "unfuse_targets h (ops g)" g T h p]
    by (auto simp: apply_unfuse_def unfuse_targets_def list_all_iff split: if_splits prod.splits)
qed

section \<open>The whole path\<close>

definition modelled_kinds :: "graph_hint list \<Rightarrow> bool" where
  "modelled_kinds hs =
     list_all (\<lambda>h. h_kind h \<notin> {''fuse_view'', ''fuse_attention'', ''fuse_region'', ''merge_sibling_convs'', ''rewrite'', ''fold_layout''}) hs"

lemma apply_kind_keeps:
  assumes "apply_kind log4 ext applier specs h g p = Inr (g', u, p')" "modelled_kinds [h]"
  shows "keeps_values T g g'"
  using assms fuse.keeps siblings.keeps split.keeps unfuse.keeps
  by (auto simp: apply_kind_def modelled_kinds_def split: if_splits)

lemma take_over_graph [simp]: "as_graph (take_over r s) = fst r"
  by (cases r) (simp add: take_over_def)

lemma xpurt_chain_keeps: "xpurt_chain_step h ch s = Inr s' \<Longrightarrow> keeps_values T (as_graph s) (as_graph s')"
  by (auto simp: xpurt_chain_step_def split: sum.splits if_splits prod.splits intro: fuse.keeps)

lemma apply_one_keeps:
  assumes "apply_one log4 ext applier tgt h s = Inr s'" "modelled_kinds [h]"
  shows "keeps_values T (as_graph s) (as_graph s')"
proof -
  from assms(1) consider "as_graph s' = as_graph s" | chs where "for_each (xpurt_chain_step h) chs s = Inr s'"
    | r where "apply_kind log4 ext applier (as_specs s) h (as_graph s) (as_prov s) = Inr r" "as_graph s' = fst r"
    by (auto simp: apply_one_def Let_def split: if_splits sum.splits fusion_error.splits)
  then show ?thesis
  proof cases
    case 2
    show ?thesis
      by (rule for_each_invariant [where P = "\<lambda>x. keeps_values T (as_graph s) (as_graph x)", OF 2])
        (auto intro: keeps_trans xpurt_chain_keeps)
  next
    case 3
    then show ?thesis by (cases r) (auto intro: apply_kind_keeps [OF _ assms(2)])
  qed simp
qed

lemma inserted_set: "set (fold insert_rewrite rs xs) = set rs \<union> set xs"
proof (induction rs arbitrary: xs)
  case (Cons r rs)
  have "set (take i xs) \<union> set (drop i xs) = set xs" for i unfolding set_append [symmetric] by simp
  then have "set (insert_rewrite r xs) = insert r (set xs)" by (auto simp: insert_rewrite_def Let_def)
  with Cons show ?case by auto
qed simp

lemma ordered_hints_set: "ordered_hints specs hs = Inr todo \<Longrightarrow> set todo \<subseteq> set hs"
proof -
  assume o: "ordered_hints specs hs = Inr todo"
  from o obtain keyed where k: "map_res (\<lambda>h. case hint_order specs h of Inl e \<Rightarrow> Inl e | Inr k \<Rightarrow> Inr (k, h)) hs = Inr keyed"
    and t: "set todo \<subseteq> snd ` set keyed" by (auto simp: ordered_hints_def Let_def inserted_set split: sum.splits)
  have "snd e \<in> set hs" if "e \<in> set keyed" for e
  proof -
    from map_res_set [OF k that] obtain h where "h \<in> set hs"
      "(case hint_order specs h of Inl e \<Rightarrow> Inl e | Inr k \<Rightarrow> Inr (k, h)) = Inr e" by blast
    then show ?thesis by (cases "hint_order specs h") auto
  qed
  with t show "set todo \<subseteq> set hs" by blast
qed

lemma number_same: "same_ops xs (fst (numbered_ops xs))"
proof -
  have "same_ops (ys @ xs) (fst (fold number_step xs (zs, n, m)))" if "same_ops ys zs" for ys zs n m
    using that
  proof (induction xs arbitrary: ys zs n m)
    case (Cons x xs)
    obtain x' n' m' where st: "number_step x (zs, n, m) = (zs @ [x'], n', m')" "essence x' = essence x"
      by (cases "null_dispatch (flds x) \<and> o_did x = None") (auto simp: number_step_def Let_def)
    have "same_ops (ys @ [x]) (zs @ [x'])" using Cons.prems st(2) by (simp add: same_ops_def list_all2_appendI)
    from Cons.IH [OF this, of n' m'] show ?case by (simp add: st(1))
  qed simp
  from this [of "[]" "[]"] show ?thesis by (simp add: numbered_ops_def)
qed

lemma depend_same: "same_ops xs (fst (fold depend_step xs ([], [])))"
proof -
  have "same_ops (ys @ xs) (fst (fold depend_step xs (zs, m)))" if "same_ops ys zs" for ys zs m
    using that
  proof (induction xs arbitrary: ys zs m)
    case (Cons x xs)
    obtain x' m' where st: "depend_step x (zs, m) = (zs @ [x'], m')" "essence x' = essence x"
      by (cases "o_did x") (auto simp: depend_step_def)
    have "same_ops (ys @ [x]) (zs @ [x'])" using Cons.prems st(2) by (simp add: same_ops_def list_all2_appendI)
    from Cons.IH [OF this, of m'] show ?case by (simp add: st(1))
  qed simp
  from this [of "[]" "[]"] show ?thesis by simp
qed

lemma renumber_same: "same_ops (ops g) (ops (renumber_graph before g))" "outputs_of (renumber_graph before g) = outputs_of g"
proof -
  obtain xs n m where x: "numbered_ops (ops g) = (xs, n, m)" by (metis prod_cases3)
  have "same_ops (ops g) (fst (fold depend_step xs ([], [])))"
    using same_ops_trans [OF number_same depend_same, of "ops g"] by (simp add: x)
  then show "same_ops (ops g) (ops (renumber_graph before g))" by (simp add: renumber_graph_def x Let_def)
  show "outputs_of (renumber_graph before g) = outputs_of g"
    by (simp add: renumber_graph_def x Let_def outputs_of_def result_names_def)
qed

lemma unique_same: "same_ops xs (unique_ops xs)"
  unfolding same_ops_def by (rule list_all2_mono [OF unique_ops_renamed]) auto


section \<open>The new dispatch ids\<close>

definition viewed :: "op \<Rightarrow> bool" where
  "viewed x = (null_dispatch (flds x) \<and> o_did x = None)"

fun renumbered :: "int \<Rightarrow> op list \<Rightarrow> op list" where
  "renumbered n [] = []"
| "renumbered n (x # xs) =
     (if viewed x then x # renumbered n xs else upd (\<lambda>f. f\<lparr>dispatch_id := Some n\<rparr>) x # renumbered (n + 1) xs)"

lemma numbered_renumbered: "fst (numbered_ops xs) = renumbered 0 xs"
proof -
  have "fst (fold number_step xs (zs, n, m)) = zs @ renumbered n xs" for zs n m
    by (induction xs arbitrary: zs n m) (simp_all add: number_step_def viewed_def Let_def)
  then show ?thesis by (simp add: numbered_ops_def)
qed

lemma renumbered_ids:
  "List.map_filter o_did (renumbered n xs) = [n..n + int (length (filter (\<lambda>x. \<not> viewed x) xs)) - 1]"
proof (induction xs arbitrary: n)
  case (Cons x xs)
  then show ?case by (auto simp: List.map_filter_simps viewed_def upto.simps [of n] algebra_simps)
qed (simp add: List.map_filter_simps)

lemma renumbered_ordered:
  "sorted_wrt (\<lambda>x y. \<forall>a b. o_did x = Some a \<longrightarrow> o_did y = Some b \<longrightarrow> a < b) (renumbered n xs) \<and>
   (\<forall>x \<in> set (renumbered n xs). \<forall>a. o_did x = Some a \<longrightarrow> n \<le> a)"
proof (induction xs arbitrary: n)
  case (Cons x xs)
  from Cons.IH [of n] Cons.IH [of "n + 1"] show ?case by (auto simp: viewed_def)
qed simp

definition owned :: "op \<Rightarrow> (string, int) dict \<Rightarrow> (string, int) dict" where
  "owned x p = (case o_did x of None \<Rightarrow> p | Some d \<Rightarrow> fold (\<lambda>t. AList.update t d) (o_outs x) p)"

lemma map_of_fold_update: "map_of (fold (\<lambda>t. AList.update t d) ts p) t = (if t \<in> set ts then Some d else map_of p t)"
  by (induction ts arbitrary: p) (auto simp: update_conv')

lemma owned_iff:
  "distinct (concat (map o_outs zs)) \<Longrightarrow>
     map_of (fold owned zs []) t = Some d \<longleftrightarrow> (\<exists>y \<in> set zs. o_did y = Some d \<and> t \<in> set (o_outs y))"
proof (induction zs rule: rev_induct)
  case (snoc y zs)
  then have ih: "map_of (fold owned zs []) t = Some d \<longleftrightarrow> (\<exists>y \<in> set zs. o_did y = Some d \<and> t \<in> set (o_outs y))"
    and apart: "\<And>z. z \<in> set zs \<Longrightarrow> set (o_outs z) \<inter> set (o_outs y) = {}" by auto
  obtain p where p: "fold owned zs [] = p" by simp
  show ?case
  proof (cases "o_did y")
    case (Some e)
    then have "map_of (owned y p) t = (if t \<in> set (o_outs y) then Some e else map_of p t)" by (simp add: owned_def map_of_fold_update)
    with ih apart Some show ?thesis by (auto simp: p)
  next
    case None
    then have "owned y p = p" by (simp add: owned_def)
    with ih None show ?thesis by (auto simp: p)
  qed
qed simp

definition wire :: "(string, int) dict \<Rightarrow> op \<Rightarrow> op" where
  "wire p x =
     (case o_did x of
        None \<Rightarrow> x
      | Some d \<Rightarrow> upd (\<lambda>f. f\<lparr>depends_on := sorted_set (filter (\<lambda>i. i \<noteq> d) (List.map_filter (map_of p) (o_ins x)))\<rparr>) x)"

lemma depend_step_eq: "depend_step x (xs, p) = (xs @ [wire p x], owned x p)"
  by (auto simp: depend_step_def wire_def owned_def split: option.splits)

lemma wired_nth:
  "length (fst (fold depend_step zs (acc, p))) = length acc + length zs \<and>
   (\<forall>i < length zs. fst (fold depend_step zs (acc, p)) ! (length acc + i) = wire (fold owned (take i zs) p) (zs ! i)) \<and>
   take (length acc) (fst (fold depend_step zs (acc, p))) = acc"
proof (induction zs arbitrary: acc p)
  case (Cons z zs)
  let ?r = "fst (fold depend_step zs (acc @ [wire p z], owned z p))"
  note ih = Cons.IH [of "acc @ [wire p z]" "owned z p"]
  then have tk: "take (length acc + 1) ?r = acc @ [wire p z]" by simp
  have a: "take (length acc) ?r = acc" using arg_cong [OF tk, of "take (length acc)"] by simp
  have b: "?r ! length acc = wire p z" using arg_cong [OF tk, of "\<lambda>l. l ! length acc"] ih by (simp add: nth_append)
  have "?r ! (length acc + i) = wire (fold owned (take i (z # zs)) p) ((z # zs) ! i)" if "i < length (z # zs)" for i
    using that b ih by (cases i) (auto simp: add.assoc)
  with a ih show ?case by (simp add: depend_step_eq)
qed simp

lemma wire_sel [simp]: "o_did (wire p x) = o_did x" "o_outs (wire p x) = o_outs x" "o_ins (wire p x) = o_ins x"
  by (simp_all add: wire_def split: option.splits)


text \<open>
  A dependency through a view is lost: the extractor passes the producer of a view's input on to its output, the
  renumbering does not (the docstring calls it the same rule).
\<close>

definition viewed_chain :: "op list" where
  "viewed_chain = [mk_op ''c'' ''conv2d'' None [] [''x''] [''s''], mk_op ''v'' ''view'' None [] [''s''] [''t''],
                   mk_op ''r'' ''relu'' None [] [''t''] [''y'']]"

definition viewed_graph :: graph where
  "viewed_graph = plain_graph (fst (annotate_dispatches viewed_chain)) [''y'']"

lemma view_dependency_lost:
  "map (\<lambda>x. (o_did x, o_deps x)) (ops viewed_graph) = [(Some 0, []), (None, []), (Some 1, [0])]"
  "map (\<lambda>x. (o_did x, o_deps x)) (ops (renumber_graph (map (\<lambda>x. (o_name x, o_did x)) (ops viewed_graph)) viewed_graph)) =
     [(Some 0, []), (None, []), (Some 1, [])]"
  by code_simp+

text \<open>Two ops with one old id: \<open>setdefault\<close> drops what the second became.\<close>

lemma shared_id_remapped_once:
  "id_remap (renumber_graph [(''a'', Some 7), (''b'', Some 7)]
     (plain_graph [mk_op ''a'' ''relu'' (Some 7) [] [''x''] [''s''], mk_op ''b'' ''relu'' (Some 7) [] [''s''] [''y'']] [''y''])) =
   Some [(7, To_Many [0])]"
  by code_simp

section \<open>A concrete rewrite\<close>

definition hinted_ops :: "op list" where
  "hinted_ops =
     [demo_op ''la'' ''linear'' [''x''] [''s''], demo_op ''rl'' ''relu'' [''s''] [''u''],
      demo_op ''lb'' ''linear'' [''x''] [''t''], demo_op ''ad'' ''add'' [''u'', ''t''] [''y'']]"

definition hinted_graph :: graph where
  "hinted_graph = plain_graph hinted_ops [''y'']"

definition demo_hints :: "graph_hint list" where
  "demo_hints =
     [(plain_hint ''split:linear'' ''split_slot'' ''cuda'' ''proposed'' [])\<lparr>h_slot := ''linear''\<rparr>,
      fuse_hint ''fused__linear__relu'' None [] ''accepted'', fuse_hint ''fused__relu__add__a'' None [] ''accepted'']"

definition no_applier :: applier where
  "no_applier k specs h g p = Inr (g, [], p)"

definition hinted_run :: "(fusion_error + fuse_error) + rewriting" where
  "hinted_run = apply_hints (\<lambda>v. 0) False no_applier demo_specs ''cuda'' (Some [''accepted'']) hinted_graph demo_hints"

lemma hinted_eval:
  "(case hinted_run of Inl e \<Rightarrow> False
    | Inr (g, added, p) \<Rightarrow>
        map (\<lambda>x. (o_name x, o_kind x)) (ops g) = [(''la+rl'', ''fused__linear__relu''), (''lb'', ''linear''), (''ad'', ''add'')] \<and>
        map ap_op (pv_applied p) = [''la+rl''] \<and> map sk_id (pv_skipped p) = [''fuse:fused__relu__add__a''])"
  by code_simp

lemma hinted_ok: "sound (set [''y'']) (ops hinted_graph)" "outputs_of hinted_graph = Inr [''y'']" "modelled_kinds demo_hints"
  by code_simp+

lemma plus_one_steady: "kern_steady plus_one"
  unfolding kern_steady_def plus_one_def by (auto dest: essence_eqD(2))



end
