(* ===== verification/Hint_Account.thy ===== *)
theory Hint_Account
  imports Hint_Apply_Facts
begin

text \<open>No hint is lost without a record: every hint that \<open>apply_hints\<close> considers is applied or skipped with a reason.\<close>

section \<open>The hints on record\<close>

definition on_record :: "provenance \<Rightarrow> string set" where
  "on_record p = ap_id ` set (pv_applied p) \<union> sk_id ` set (pv_skipped p)"

lemma on_record_simps [simp]:
  "on_record (skip hid ns w p) = insert hid (on_record p)" "on_record (note_applied a p) = insert (ap_id a) (on_record p)"
  "on_record (rename_to ns m p) = on_record p" "ap_id (applied_to hid k n ns fk) = hid"
  by (auto simp: on_record_def skip_def note_applied_def rename_to_def applied_to_def)

text \<open>A scope given as an empty list says nothing to do, and leaves no record.\<close>

definition scoped :: "graph_hint \<Rightarrow> bool" where
  "scoped h = (h_chains h \<noteq> Some [] \<and> h_groups h \<noteq> Some [] \<and> h_dispatch_groups h \<noteq> Some [])"

definition recorded :: "string \<Rightarrow> bool \<Rightarrow> provenance \<Rightarrow> provenance \<Rightarrow> bool" where
  "recorded hid must p p' = (on_record p \<subseteq> on_record p' \<and> on_record p' \<subseteq> insert hid (on_record p) \<and> (must \<longrightarrow> hid \<in> on_record p'))"

lemma recorded_trans: "recorded hid m p q \<Longrightarrow> recorded hid m' q r \<Longrightarrow> recorded hid (m \<or> m') p r"
  by (auto simp: recorded_def)

lemma recorded_weaken: "recorded hid m p q \<Longrightarrow> (m' \<longrightarrow> m) \<Longrightarrow> recorded hid m' p q"
  by (auto simp: recorded_def)

lemma recorded_skip [simp]: "recorded hid m p (skip hid ns w p)" "recorded hid False p p"
  by (auto simp: recorded_def)

lemma group_loop_record: "group_loop fuse want hid kind grp r = Inr r' \<Longrightarrow> recorded hid True (snd (snd r)) (snd (snd r'))"
  by (cases r) (auto simp: recorded_def group_loop_def Let_def split: sum.splits if_splits prod.splits)

lemma groups_record:
  "for_each (group_loop fuse want hid kind) grps r = Inr r' \<Longrightarrow>
     recorded hid (grps \<noteq> []) (snd (snd r)) (snd (snd r')) \<and> (grps = [] \<longrightarrow> r' = r)"
proof (induction grps arbitrary: r)
  case (Cons grp grps)
  then obtain r1 where r1: "group_loop fuse want hid kind grp r = Inr r1" "for_each (group_loop fuse want hid kind) grps r1 = Inr r'"
    by (auto split: sum.splits)
  from recorded_trans [OF group_loop_record [OF r1(1)]] Cons.IH [OF r1(2)] show ?case by auto
qed simp

lemma groups_done:
  assumes "for_each (group_loop fuse want (h_id h) kind) grps (g, [], p) = Inr r" "nothing_fused h limited r = (g', u', p')"
  shows "recorded (h_id h) (grps \<noteq> [] \<or> \<not> limited) p p'"
  using groups_record [OF assms(1)] assms(2)
  by (cases r) (auto simp: nothing_fused_def recorded_def split: if_splits)

lemma apply_fuse_record: "apply_fuse specs h g p = Inr (g', u, p') \<Longrightarrow> recorded (h_id h) (h_chains h \<noteq> Some []) p p'"
proof -
  assume "apply_fuse specs h g p = Inr (g', u, p')"
  then consider e where "p' = skip (h_id h) [] (Raised e) p"
    | kind chs r u' where "for_each (group_loop (fuse_chain specs) (Some kind) (h_id h) ''fuse'') chs (g, [], p) = Inr r"
        "nothing_fused h (h_chains h \<noteq> None) r = (g', u', p')" "h_chains h = None \<or> h_chains h = Some chs"
    by (auto simp: apply_fuse_def Let_def split: option.splits sum.splits if_splits prod.splits)
  then show ?thesis
  proof cases
    case 2
    from groups_done [OF 2(1,2)] 2(3) show ?thesis by (auto simp: recorded_def)
  qed simp
qed

lemma apply_siblings_record: "apply_siblings specs h g p = Inr (g', u, p') \<Longrightarrow> recorded (h_id h) (h_groups h \<noteq> Some []) p p'"
proof -
  have loop: "recorded (h_id h) (gs \<noteq> [] \<or> h_groups h = None) p p'" if "sibling_loop specs h g p gs = Inr (g', u, p')" for gs g' u p'
    using that groups_done [of "fuse_siblings specs" _ h "''fuse_siblings''" gs g p _ "h_groups h \<noteq> None" g' u p']
    by (auto simp: sibling_loop_def split: sum.splits)
  assume a: "apply_siblings specs h g p = Inr (g', u, p')"
  show ?thesis
  proof (cases "h_groups h")
    case (Some gs)
    with a loop [of "map group_ops gs" g' u p'] show ?thesis by (simp add: apply_siblings_def)
  next
    case None
    with a consider e where "p' = skip (h_id h) [] (Raised e) p" | gs where "sibling_loop specs h g p gs = Inr (g', u, p')"
      by (auto simp: apply_siblings_def split: option.splits sum.splits if_splits prod.splits)
    then show ?thesis
    proof cases
      case (2 gs)
      from loop [OF 2] None show ?thesis by simp
    qed simp
  qed
qed

lemma apply_split_record: "apply_split log4 ext specs h g p = Inr (g', u, p') \<Longrightarrow> recorded (h_id h) True p p'"
  by (auto simp: apply_split_def Let_def recorded_def applied_to_def split: sum.splits if_splits)

lemma on_record_renames [simp]: "on_record (fold (\<lambda>s. rename_to (f s) (k s)) ss p) = on_record p"
  by (induction ss arbitrary: p) simp_all

lemma unfuse_one_record: "recorded (h_id h) True (snd s) (snd (unfuse_one h t s))"
  by (cases s) (auto simp: recorded_def unfuse_one_def Let_def)

lemma apply_unfuse_record: "apply_unfuse h g p = (g', u, p') \<Longrightarrow> recorded (h_id h) True p p'"
proof -
  have all: "recorded (h_id h) (ts \<noteq> []) (snd s) (snd (fold (unfuse_one h) ts s))" for ts s
  proof (induction ts arbitrary: s)
    case (Cons t ts)
    from recorded_trans [OF unfuse_one_record Cons.IH] show ?case by simp
  qed simp
  assume "apply_unfuse h g p = (g', u, p')"
  then show ?thesis using all [of "unfuse_targets h (ops g)" "(g, p)"]
    by (auto simp: apply_unfuse_def split: if_splits prod.splits)
qed

lemma apply_kind_record:
  assumes "apply_kind log4 ext applier specs h g p = Inr (g', u, p')" "modelled_kinds [h]"
  shows "recorded (h_id h) (scoped h) p p'"
proof -
  from assms show ?thesis
    by (auto simp: apply_kind_def modelled_kinds_def scoped_def split: if_splits dest!: apply_fuse_record apply_siblings_record
        apply_split_record apply_unfuse_record elim!: recorded_weaken)
qed

lemma xpurt_chain_record:
  assumes "xpurt_chain_step h ch s = Inr s'"
  shows "recorded (h_id h) True (as_prov s) (as_prov s')"
  using assms apply_fuse_record [of "as_specs s" "h\<lparr>h_fused_kind := _, h_chains := Some [ch]\<rparr>"]
  by (fastforce simp: xpurt_chain_step_def take_over_def recorded_def split: sum.splits if_splits prod.splits)

lemma xpurt_chains_record:
  "for_each (xpurt_chain_step h) chs s = Inr s' \<Longrightarrow> recorded (h_id h) (chs \<noteq> []) (as_prov s) (as_prov s')"
proof (induction chs arbitrary: s)
  case (Cons ch chs)
  then obtain s1 where s1: "xpurt_chain_step h ch s = Inr s1" "for_each (xpurt_chain_step h) chs s1 = Inr s'" by (auto split: sum.splits)
  from recorded_trans [OF xpurt_chain_record [OF s1(1)] Cons.IH [OF s1(2)]] show ?case by simp
qed simp

lemma apply_one_record:
  assumes "apply_one log4 ext applier tgt h s = Inr s'" "modelled_kinds [h]"
  shows "recorded (h_id h) (scoped h) (as_prov s) (as_prov s')"
proof -
  from assms(1) consider w where "s' = s\<lparr>as_prov := skip (h_id h) [] (Because w) (as_prov s)\<rparr>"
    | chs where "xpurt_chains (as_graph s) (the (h_dispatch_groups h)) = Inr chs" "for_each (xpurt_chain_step h) chs s = Inr s'" "h_dispatch_groups h \<noteq> None"
    | r where "apply_kind log4 ext applier (as_specs s) h (as_graph s) (as_prov s) = Inr r" "s' = take_over r s"
    by (auto simp: apply_one_def Let_def split: if_splits sum.splits fusion_error.splits)
  then show ?thesis
  proof cases
    case 1
    then show ?thesis by (auto simp: recorded_def)
  next
    case 2
    have "length chs = length (the (h_dispatch_groups h))" using map_res_length 2(1) by (auto simp: xpurt_chains_def Let_def)
    then have "scoped h \<longrightarrow> chs \<noteq> []" using 2(3) by (auto simp: scoped_def)
    with xpurt_chains_record [OF 2(2)] show ?thesis by (auto simp: recorded_def)
  next
    case (3 r)
    obtain g' u p' where r: "r = (g', u, p')" by (cases r)
    from apply_kind_record [OF 3(1) [unfolded r] assms(2)] show ?thesis by (simp add: 3(2) r take_over_def)
  qed
qed

lemma all_recorded:
  "for_each (apply_one log4 ext applier tgt) todo s = Inr s' \<Longrightarrow> modelled_kinds todo \<Longrightarrow>
     on_record (as_prov s) \<subseteq> on_record (as_prov s') \<and> on_record (as_prov s') \<subseteq> on_record (as_prov s) \<union> h_id ` set todo \<and>
     (\<forall>h \<in> set todo. scoped h \<longrightarrow> h_id h \<in> on_record (as_prov s'))"
proof (induction todo arbitrary: s)
  case (Cons h todo)
  from Cons.prems(1) obtain s1 where s1: "apply_one log4 ext applier tgt h s = Inr s1"
    "for_each (apply_one log4 ext applier tgt) todo s1 = Inr s'" by (auto split: sum.splits)
  have m: "modelled_kinds [h]" "modelled_kinds todo" using Cons.prems(2) by (simp_all add: modelled_kinds_def)
  from apply_one_record [OF s1(1) m(1)] Cons.IH [OF s1(2) m(2)] show ?case by (auto simp: recorded_def)
qed simp

lemma ordered_hints_all: "ordered_hints specs hs = Inr todo \<Longrightarrow> set todo = set hs"
proof
  assume o: "ordered_hints specs hs = Inr todo"
  show "set todo \<subseteq> set hs" by (rule ordered_hints_set [OF o])
  let ?key = "\<lambda>h. case hint_order specs h of Inl e \<Rightarrow> Inl e | Inr k \<Rightarrow> Inr (k, h)"
  from o obtain keyed where k: "map_res ?key hs = Inr keyed"
    by (cases "map_res ?key hs") (simp_all add: ordered_hints_def)
  let ?s = "map snd (sort_key fst keyed)"
  from o have "todo = fold insert_rewrite (filter (\<lambda>h. h_kind h = ''rewrite'') ?s) (filter (\<lambda>h. h_kind h \<noteq> ''rewrite'') ?s)"
    by (simp add: ordered_hints_def k Let_def)
  then have "set todo = {h \<in> set ?s. h_kind h = ''rewrite''} \<union> {h \<in> set ?s. h_kind h \<noteq> ''rewrite''}"
    by (simp only: inserted_set set_filter)
  also have "\<dots> = set ?s" by blast
  finally have t: "set todo = snd ` set keyed" by simp
  show "set hs \<subseteq> set todo"
  proof
    fix h assume "h \<in> set hs"
    then obtain i where i: "i < length hs" "h = hs ! i" by (auto simp: in_set_conv_nth)
    from map_res_nth [OF k i(1)] have "snd (keyed ! i) = h" by (cases "keyed ! i") (auto simp: i(2) split: sum.splits)
    moreover have "keyed ! i \<in> set keyed" using i(1) map_res_length [OF k] by simp
    ultimately show "h \<in> set todo" unfolding t by force
  qed
qed



end
