(* ===== verification/Layout.thy ===== *)
theory Layout
  imports Graph_IR
begin

text \<open>
  The affine maps of \<^verbatim>\<open>pipeline/layout_fold.py\<close>: a map is an offset with (extent, stride) pairs,
  and element \<open>i\<close> of the result, row-major over the extents, lives at offset plus the sum of index times
  stride. A loop that may not end is a \<open>partial_function\<close>: \<open>None\<close> is a run that does not return, \<open>Some (Inl e)\<close>
  one that raises. The pseudo-random points of the sampled check are an argument.
\<close>

type_synonym dims = "(int \<times> int) list"
type_synonym amap = "int \<times> dims"

datatype layout_error = Missing_Key string | Zero_Division | Malformed string

section \<open>Evaluating a map\<close>

text \<open>The row-major strides of a list of extents.\<close>

definition contig :: "int list \<Rightarrow> int list" where
  "contig ds = snd (foldr (\<lambda>d s. (fst s * d, fst s # snd s)) ds (1, []))"

definition eval_map :: "amap \<Rightarrow> int list \<Rightarrow> int" where
  "eval_map m idx = fst m + sum_list (map (\<lambda>(i, d). i * snd d) (zip idx (snd m)))"

text \<open>The index tuple of a linear position, the last extent fastest.\<close>

definition unravel :: "int \<Rightarrow> int list \<Rightarrow> int list" where
  "unravel p ds = snd (foldr (\<lambda>d s. (fst s div d, fst s mod d # snd s)) ds (p, []))"

definition drop_ones :: "dims \<Rightarrow> dims" where
  "drop_ones ds = filter (\<lambda>d. fst d \<noteq> 1) ds"

definition copy_dims :: "(string, int) dict \<Rightarrow> layout_error + dims" where
  "copy_dims sh =
     map_res (\<lambda>i. case map_of sh (''d'' @ str_nat i) of
         None \<Rightarrow> Inl (Missing_Key (''d'' @ str_nat i))
       | Some d \<Rightarrow> (case map_of sh (''s'' @ str_nat i) of
             None \<Rightarrow> Inl (Missing_Key (''s'' @ str_nat i))
           | Some s \<Rightarrow> Inr (d, s))) [0..<6]"

definition copy_map :: "(string, int) dict \<Rightarrow> layout_error + amap" where
  "copy_map sh =
     (case copy_dims sh of Inl e \<Rightarrow> Inl e | Inr ds \<Rightarrow> Inr (get_or sh ''off'' 0, drop_ones ds))"

section \<open>Merging and splitting dimensions\<close>

definition merge_dim :: "int \<times> int \<Rightarrow> dims \<Rightarrow> dims" where
  "merge_dim d0 rest =
     (case rest of
        [] \<Rightarrow> [d0]
      | d1 # ds \<Rightarrow> (if snd d0 = snd d1 * fst d1 then (fst d0 * fst d1, snd d1) # ds else d0 # rest))"

definition merge_dims :: "dims \<Rightarrow> dims" where
  "merge_dims ds = foldr merge_dim (drop_ones ds) []"

text \<open>
  Taking a piece of extent \<open>want\<close> off the front of the dimensions: \<open>got\<close> is what has been taken so far, with
  its stride. The result is the stride of the piece and what is left.
\<close>

function take_extent ::
  "int \<Rightarrow> int \<Rightarrow> int option \<Rightarrow> dims \<Rightarrow> layout_error + (int option \<times> dims) option" where
  "take_extent want got stride src =
     (if \<not> got < want then Inr (if got = want then Some (stride, src) else None)
      else case src of
        [] \<Rightarrow> Inr None
      | (d, s) # rest \<Rightarrow>
          (if got = 0 then Inl Zero_Division
           else let need = want div got in
             if want mod got \<noteq> 0 then Inr None
             else if d \<le> need then
               (if stride \<noteq> None \<and> stride \<noteq> Some (s * d) then Inr None
                else take_extent want (got * d) (Some s) rest)
             else if d mod need \<noteq> 0 then Inr None
             else if stride \<noteq> None \<and> stride \<noteq> Some (s * (d div need) * need) then Inr None
             else take_extent want (got * need) (Some (s * (d div need))) ((d div need, s) # rest)))"
  by pat_completeness auto
termination
proof (relation "measure (\<lambda>(want, got, stride, src). 2 * length src + (if got < want then 1 else 0))", goal_cases)
  case (3 want got stride src x xs d s need)
  then have "got * need = want" by (metis add.right_neutral mult_div_mod_eq)
  with 3 show ?case by simp
qed auto

declare take_extent.simps [simp del]

fun fit_sizes :: "int list \<Rightarrow> dims \<Rightarrow> layout_error + int option list option" where
  "fit_sizes [] src = Inr (if src = [] then Some [] else None)"
| "fit_sizes (w # ws) src =
     (if w = 1 then
        (case fit_sizes ws src of Inl e \<Rightarrow> Inl e | Inr None \<Rightarrow> Inr None | Inr (Some r) \<Rightarrow> Inr (Some (Some 0 # r)))
      else case take_extent w 1 None src of
        Inl e \<Rightarrow> Inl e
      | Inr None \<Rightarrow> Inr None
      | Inr (Some (st, src')) \<Rightarrow>
          (case fit_sizes ws src' of Inl e \<Rightarrow> Inl e | Inr None \<Rightarrow> Inr None | Inr (Some r) \<Rightarrow> Inr (Some (st # r))))"

definition fit :: "dims \<Rightarrow> int list \<Rightarrow> layout_error + int option list option" where
  "fit ds sizes = fit_sizes sizes (drop_ones ds)"

section \<open>Composing maps\<close>

text \<open>The sampled check: the two corners and pseudo-random points.\<close>

type_synonym draws = "int list \<Rightarrow> int list list"

definition sample_points :: "draws \<Rightarrow> int list \<Rightarrow> int list list" where
  "sample_points rnd ds =
     (if ds = [] then [[]] else map (\<lambda>_. 0) ds # map (\<lambda>d. d - 1) ds # rnd ds)"

text \<open>At an index of the outer map: the chain of the two maps against the candidate.\<close>

definition same_at :: "amap \<Rightarrow> amap \<Rightarrow> amap \<Rightarrow> int list \<Rightarrow> bool" where
  "same_at outer inner cand idx =
     (let D = map fst (snd inner); cds = map fst (snd cand);
          p = eval_map outer idx;
          goal = (if D \<noteq> [] then eval_map inner (unravel p D) else fst inner + p);
          lin = sum_list (map (\<lambda>(i, c). i * c) (zip idx (contig (map fst (snd outer)))))
      in eval_map cand (unravel lin cds) = goal)"

definition same_map :: "draws \<Rightarrow> amap \<Rightarrow> amap \<Rightarrow> amap \<Rightarrow> layout_error + bool" where
  "same_map rnd outer inner cand =
     (let ds = map fst (snd outer); cds = map fst (snd cand) in
      if cds \<noteq> ds \<and> prod_list cds \<noteq> prod_list ds then Inr False
      else if 0 \<in> set cds then Inl Zero_Division
      else Inr (list_all (same_at outer inner cand) (sample_points rnd ds)))"

text \<open>
  The outermost inner dimension whose row-major stride is at most \<open>t\<close>; the loop cuts every (extent, stride)
  of the outer map until each piece stays inside one inner dimension.
\<close>

definition level :: "int list \<Rightarrow> int \<Rightarrow> nat option" where
  "level cD t = List.find (\<lambda>r. cD ! r \<le> t) [0..<length cD]"

partial_function (option) split_work ::
  "int list \<Rightarrow> int list \<Rightarrow> int list \<Rightarrow> dims \<Rightarrow> dims \<Rightarrow> dims option option" where
  "split_work D cD base pieces work =
     (case work of
        [] \<Rightarrow> Some (Some pieces)
      | (d, t) # rest \<Rightarrow>
          (if d = 1 then split_work D cD base pieces rest
           else if t = 0 then split_work D cD base (pieces @ [(d, 0)]) rest
           else case level cD t of
             None \<Rightarrow> Some None
           | Some r \<Rightarrow>
               (if t mod (cD ! r) \<noteq> 0 then Some None
                else if base ! r + (d - 1) * (t div (cD ! r)) < D ! r then split_work D cD base (pieces @ [(d, t)]) rest
                else if t div (cD ! r) \<noteq> 1 \<or> base ! r \<noteq> 0 \<or> d mod (D ! r) \<noteq> 0 then Some None
                else split_work D cD base pieces ((d div (D ! r), t * (D ! r)) # (D ! r, t) # rest))))"

declare split_work.simps [code]

text \<open>A piece reads the inner map with its step in its inner dimension.\<close>

definition piece_dim :: "dims \<Rightarrow> int list \<Rightarrow> int \<times> int \<Rightarrow> int \<times> int" where
  "piece_dim I cD dt =
     (if snd dt = 0 then (fst dt, 0)
      else case level cD (snd dt) of
        None \<Rightarrow> (fst dt, 0)
      | Some r \<Rightarrow> (fst dt, snd dt div (cD ! r) * snd (I ! r)))"

definition compose :: "draws \<Rightarrow> amap \<Rightarrow> int list \<Rightarrow> amap \<Rightarrow> (layout_error + amap option) option" where
  "compose rnd outer inner_shape inner =
     (let D = map fst (snd inner); cD = contig D; base = unravel (fst outer) D in
      if prod_list D \<noteq> prod_list inner_shape \<and> snd inner \<noteq> [] then Some (Inr None)
      else if 0 \<in> set D then Some (Inl Zero_Division)
      else case split_work D cD base [] (snd outer) of
        None \<Rightarrow> None
      | Some None \<Rightarrow> Some (Inr None)
      | Some (Some ps) \<Rightarrow>
          (let cand = (eval_map inner base, map (piece_dim (snd inner) cD) ps) in
           Some (case same_map rnd outer inner cand of
                   Inl e \<Rightarrow> Inl e
                 | Inr ok \<Rightarrow> Inr (if ok then Some cand else None))))"

end
