(* ===== verification/Layout_Facts.thy ===== *)
theory Layout_Facts
  imports Layout
begin

text \<open>
  The algebra of affine maps: merging and re-fitting dimensions keeps every address, a composed map reads
  what the two maps read, and the splitting loop of \<open>compose\<close> returns.
\<close>

section \<open>Addresses\<close>

text \<open>The element at linear position \<open>p\<close> of a list of dimensions.\<close>

definition addr :: "dims \<Rightarrow> int \<Rightarrow> int" where
  "addr ds p = eval_map (0, ds) (unravel p (map fst ds))"

definition extents_pos :: "dims \<Rightarrow> bool" where
  "extents_pos ds = list_all (\<lambda>d. 0 < fst d) ds"

abbreviation volume :: "dims \<Rightarrow> int" where
  "volume ds \<equiv> prod_list (map fst ds)"

lemma extents_pos_simps [simp]:
  "extents_pos []" "extents_pos ((d, s) # ds) \<longleftrightarrow> 0 < d \<and> extents_pos ds"
  by (simp_all add: extents_pos_def)

lemma prod_list_pos: "list_all (\<lambda>d. 0 < d) ds \<Longrightarrow> 0 < prod_list (ds :: int list)"
  by (induction ds) auto

lemma volume_pos: "extents_pos ds \<Longrightarrow> 0 < volume ds"
  by (rule prod_list_pos) (simp add: extents_pos_def list_all_iff)

lemma contig_simps [simp]: "contig [] = []" "contig (d # ds) = prod_list ds # contig ds"
proof -
  have "fst (foldr (\<lambda>d s. (fst s * d, fst s # snd s)) ds (1, [])) = prod_list ds"
    by (induction ds) (simp_all add: mult.commute)
  then show "contig (d # ds) = prod_list ds # contig ds" by (simp add: contig_def)
qed (simp add: contig_def)

lemma length_contig [simp]: "length (contig ds) = length ds"
  by (induction ds) auto

lemma unravel_fst: "list_all (\<lambda>d. 0 < d) ds \<Longrightarrow>
    fst (foldr (\<lambda>d s. (fst s div d, fst s mod d # snd s)) ds (p, [])) = (p :: int) div prod_list ds"
proof (induction ds)
  case (Cons d ds)
  then show ?case by (simp add: zdiv_zmult2_eq mult.commute [of d])
qed simp

lemma unravel_Nil [simp]: "unravel p [] = []"
  by (simp add: unravel_def)

lemma unravel_Cons: "list_all (\<lambda>d. 0 < d) ds \<Longrightarrow> unravel p (d # ds) = p div prod_list ds mod d # unravel p ds"
  using unravel_fst [of ds p] by (simp add: unravel_def)

lemma length_unravel [simp]: "length (unravel p ds) = length ds"
proof -
  have "length (snd (foldr (\<lambda>d s. (fst s div d, fst s mod d # snd s)) ds (p, []))) = length ds"
    by (induction ds) auto
  then show ?thesis by (simp add: unravel_def)
qed

lemma addr_simps:
  "addr [] p = 0"
  "extents_pos ds \<Longrightarrow> addr ((d, s) # ds) p = p div volume ds mod d * s + addr ds p"
  by (simp_all add: addr_def eval_map_def unravel_Cons extents_pos_def list_all_iff)

lemma eval_map_addr: "eval_map (off, ds) (unravel p (map fst ds)) = off + addr ds p"
  by (simp add: addr_def eval_map_def)

section \<open>Merging\<close>

lemma extents_pos_drop [simp]: "extents_pos ds \<Longrightarrow> extents_pos (drop_ones ds)"
  by (auto simp: extents_pos_def drop_ones_def list_all_iff)

lemma volume_drop [simp]: "volume (drop_ones ds) = volume ds"
  by (induction ds) (auto simp: drop_ones_def)

lemma addr_drop: "extents_pos ds \<Longrightarrow> addr (drop_ones ds) p = addr ds p"
proof (induction ds)
  case (Cons x ds)
  obtain d s where x: "x = (d, s)" by fastforce
  have pos: "extents_pos ds" using Cons.prems by (simp add: x)
  have d1: "drop_ones ((d, s) # ds) = (if d = 1 then drop_ones ds else (d, s) # drop_ones ds)"
    by (simp add: drop_ones_def)
  show ?case unfolding x d1 using Cons.IH [OF pos] pos by (simp add: addr_simps)
qed (simp add: drop_ones_def)

lemma addr_pair:
  assumes "0 < d0" "0 < d1" "extents_pos ds"
  shows "addr ((d0, s * d1) # (d1, s) # ds) p = addr ((d0 * d1, s) # ds) p"
proof -
  define q where "q = p div volume ds"
  have split: "p div (d1 * volume ds) = q div d1"
    using zdiv_zmult2_eq [of d1 p "volume ds"] assms(2) by (simp add: q_def mult.commute)
  have "q mod (d1 * d0) = d1 * (q div d1 mod d0) + q mod d1" using assms(1) by (intro zmod_zmult2_eq) simp
  then have "q mod (d0 * d1) * s = q div d1 mod d0 * (s * d1) + q mod d1 * s"
    by (simp add: algebra_simps)
  with assms show ?thesis by (simp add: addr_simps split q_def [symmetric])
qed

lemma merge_dim_addr:
  assumes "0 < fst x" "extents_pos rest"
  shows "extents_pos (merge_dim x rest) \<and> volume (merge_dim x rest) = fst x * volume rest \<and>
         addr (merge_dim x rest) p = addr (x # rest) p"
proof (cases rest)
  case Nil
  then show ?thesis using assms by (cases x) (simp add: merge_dim_def)
next
  case (Cons y ds)
  obtain d0 s0 d1 s1 where xy: "x = (d0, s0)" "y = (d1, s1)" by (cases x, cases y) blast
  show ?thesis
  proof (cases "s0 = s1 * d1")
    case True
    have "addr ((d0, s1 * d1) # (d1, s1) # ds) p = addr ((d0 * d1, s1) # ds) p"
      by (rule addr_pair) (use assms Cons xy in simp_all)
    then show ?thesis using assms Cons xy True by (simp add: merge_dim_def mult.assoc)
  next
    case False
    then show ?thesis using assms Cons xy by (simp add: merge_dim_def)
  qed
qed

lemma merge_dims_addr:
  assumes "extents_pos ds"
  shows "extents_pos (merge_dims ds) \<and> volume (merge_dims ds) = volume ds \<and> addr (merge_dims ds) p = addr ds p"
proof -
  have "extents_pos xs \<Longrightarrow> extents_pos (foldr merge_dim xs []) \<and> volume (foldr merge_dim xs []) = volume xs \<and>
      addr (foldr merge_dim xs []) p = addr xs p" for xs
  proof (induction xs)
    case (Cons x xs)
    obtain d s where x: "x = (d, s)" by fastforce
    from Cons x have IH: "extents_pos (foldr merge_dim xs [])" "volume (foldr merge_dim xs []) = volume xs"
      "addr (foldr merge_dim xs []) p = addr xs p" and d: "0 < d" and pos: "extents_pos xs" by simp_all
    from merge_dim_addr [of x "foldr merge_dim xs []" p] d IH pos show ?case by (simp add: x addr_simps)
  qed simp
  from this [of "drop_ones ds"] assms show ?thesis unfolding merge_dims_def by (simp add: addr_drop)
qed

text \<open>What is left has no neighbours that could still be merged.\<close>

lemma merge_dims_maximal: "successively (\<lambda>x y. snd x \<noteq> snd y * fst y) (merge_dims ds)"
proof -
  have step: "successively (\<lambda>x y. snd x \<noteq> snd y * fst y) rest \<Longrightarrow>
      successively (\<lambda>x y. snd x \<noteq> snd y * fst y) (merge_dim x rest)" for x rest
    by (cases rest rule: list.exhaust; cases "tl rest") (auto simp: merge_dim_def)
  have "successively (\<lambda>x y. snd x \<noteq> snd y * fst y) (foldr merge_dim xs [])" for xs
    by (induction xs) (auto intro: step)
  then show ?thesis by (simp add: merge_dims_def)
qed

section \<open>Fitting\<close>

text \<open>A taken piece of extent \<open>got\<close> in front of the rest; nothing has been taken while the stride is \<open>None\<close>.\<close>

definition taken :: "int \<Rightarrow> int option \<Rightarrow> dims \<Rightarrow> dims" where
  "taken got stride src = (got, case stride of None \<Rightarrow> 0 | Some s \<Rightarrow> s) # src"

lemma addr_taken:
  assumes "0 < got" "0 < d" "extents_pos src" "stride = None \<longrightarrow> got = 1" "stride = None \<or> stride = Some (s * d)"
  shows "addr (taken got stride ((d, s) # src)) p = addr (taken (got * d) (Some s) src) p"
proof (cases stride)
  case None
  with assms show ?thesis by (simp add: taken_def addr_simps)
next
  case (Some t)
  with assms(5) have "t = s * d" by simp
  with addr_pair [OF assms(1,2,3), of s p] Some show ?thesis by (simp add: taken_def)
qed

lemma take_extent_done: "\<not> got < want \<Longrightarrow> take_extent want got stride src = Inr (if got = want then Some (stride, src) else None)"
  by (subst take_extent.simps) simp

lemma take_extent_Nil: "got < want \<Longrightarrow> take_extent want got stride [] = Inr None"
  by (subst take_extent.simps) simp

lemma take_extent_Cons:
  "got < want \<Longrightarrow> 0 < got \<Longrightarrow> take_extent want got stride ((d, s) # rest) =
     (if want mod got \<noteq> 0 then Inr None
      else if d \<le> want div got then
        (if stride \<noteq> None \<and> stride \<noteq> Some (s * d) then Inr None else take_extent want (got * d) (Some s) rest)
      else if d mod (want div got) \<noteq> 0 then Inr None
      else if stride \<noteq> None \<and> stride \<noteq> Some (s * (d div (want div got)) * (want div got)) then Inr None
      else take_extent want (got * (want div got)) (Some (s * (d div (want div got)))) ((d div (want div got), s) # rest))"
  by (subst take_extent.simps) (simp add: Let_def)

lemma take_extent_addr:
  assumes "take_extent want got stride src = Inr (Some (st, src'))"
    and "0 < got" "extents_pos src" "stride = None \<longrightarrow> got = 1"
  shows "extents_pos src' \<and> volume (taken got stride src) = volume (taken want st src') \<and>
         addr (taken got stride src) p = addr (taken want st src') p"
  using assms
proof (induction want got stride src rule: take_extent.induct)
  case (1 want got stride src)
  show ?case
  proof (cases "got < want")
    case False
    with "1.prems" show ?thesis by (auto simp: take_extent_done split: if_splits)
  next
    case less: True
    from "1.prems"(1) less obtain d s rest where src: "src = (d, s) # rest"
      by (cases src) (auto simp: take_extent_Nil)
    have pos: "0 < d" "extents_pos rest" using "1.prems"(3) src by simp_all
    define need where "need = want div got"
    have div: "want mod got = 0" "stride = None \<or> (d \<le> need \<and> stride = Some (s * d)) \<or>
        (\<not> d \<le> need \<and> d mod need = 0 \<and> stride = Some (s * (d div need) * need))"
      using "1.prems"(1,2) less src
      by (auto simp: take_extent_Cons need_def split: if_splits)
    have gn: "got * need = want" using div(1) by (auto simp: need_def)
    have npos: "0 < need" using gn less "1.prems"(2) by (metis less_trans zero_less_mult_pos)
    show ?thesis
    proof (cases "d \<le> need")
      case True
      have st: "stride = None \<or> stride = Some (s * d)" using div(2) True by auto
      have run: "take_extent want (got * d) (Some s) rest = Inr (Some (st, src'))"
        using "1.prems"(1,2) less src div st True
        by (auto simp: take_extent_Cons need_def split: if_splits)
      have "extents_pos src' \<and> volume (taken (got * d) (Some s) rest) = volume (taken want st src') \<and>
          addr (taken (got * d) (Some s) rest) p = addr (taken want st src') p"
        by (rule "1.IH"(1) [OF _ src refl _ need_def _ _ _ run])
           (use less "1.prems"(2) div True st pos in \<open>auto simp: need_def\<close>)
      then show ?thesis using addr_taken [OF "1.prems"(2) pos "1.prems"(4) st, of p] src by (simp add: taken_def)
    next
      case False
      define e where "e = d div need"
      have split: "need * e = d" "\<not> d \<le> need" "stride = None \<or> stride = Some (s * e * need)"
        using "1.prems"(1,2) less src div False
        by (auto simp: take_extent_Cons need_def e_def split: if_splits)
      have epos: "0 < e" using split(1) pos(1) npos by (metis zero_less_mult_pos)
      have run: "take_extent want (got * need) (Some (s * e)) ((e, s) # rest) = Inr (Some (st, src'))"
        using "1.prems"(1,2) less src div False
        by (auto simp: take_extent_Cons need_def e_def split: if_splits)
      have dm: "d mod need = 0" using split(1) by auto
      have "extents_pos src' \<and> volume (taken (got * need) (Some (s * e)) ((e, s) # rest)) = volume (taken want st src') \<and>
          addr (taken (got * need) (Some (s * e)) ((e, s) # rest)) p = addr (taken want st src') p"
        by (rule "1.IH"(2) [OF _ src refl _ need_def _ _ _ _ run [unfolded e_def], folded e_def])
           (use less "1.prems"(2) div False split pos epos npos dm in \<open>auto simp: need_def e_def\<close>)
      moreover have "addr (taken got stride ((need, s * e) # (e, s) # rest)) p =
          addr (taken (got * need) (Some (s * e)) ((e, s) # rest)) p"
        by (rule addr_taken) (use "1.prems"(2,4) npos pos epos split(3) in simp_all)
      moreover have "addr (taken got stride ((need, s * e) # (e, s) # rest)) p = addr (taken got stride ((d, s) # rest)) p"
        using addr_pair [OF npos epos pos(2), of s p] npos epos pos by (simp add: taken_def addr_simps mult.assoc flip: split(1))
      moreover have "volume (taken got stride src) = volume (taken (got * need) (Some (s * e)) ((e, s) # rest))"
        using split(1) src by (simp add: taken_def mult.assoc)
      ultimately show ?thesis using src by simp
    qed
  qed
qed

lemma take_extent_stride:
  "take_extent want got stride src = Inr (Some (st, src')) \<Longrightarrow> got < want \<or> stride \<noteq> None \<Longrightarrow> st \<noteq> None"
proof (induction want got stride src rule: take_extent.induct)
  case (1 want got stride src)
  show ?case
  proof (cases "got < want")
    case False
    with "1.prems" show ?thesis by (auto simp: take_extent_done split: if_splits)
  next
    case less: True
    from "1.prems"(1) less obtain d s rest where src: "src = (d, s) # rest"
      by (cases src) (auto simp: take_extent_Nil)
    have c: "got \<noteq> 0" "want mod got = 0" "d \<le> want div got \<Longrightarrow> stride = None \<or> stride = Some (s * d)"
      "\<not> d \<le> want div got \<Longrightarrow> d mod (want div got) = 0 \<and> (stride = None \<or> stride = Some (s * (d div (want div got)) * (want div got)))"
      using "1.prems"(1) less src
      by (subst (asm) (1) take_extent.simps; force simp: Let_def split: if_splits)+
    show ?thesis
    proof (cases "d \<le> want div got")
      case True
      have "take_extent want (got * d) (Some s) rest = Inr (Some (st, src'))"
        using "1.prems"(1) less src c(1,2) c(3) [OF True] True
        by (subst (asm) (1) take_extent.simps) (auto simp: Let_def split: if_splits)
      from "1.IH"(1) [OF _ src refl _ refl _ True _ this] less c show ?thesis using True by auto
    next
      case False
      have "take_extent want (got * (want div got)) (Some (s * (d div (want div got)))) ((d div (want div got), s) # rest)
          = Inr (Some (st, src'))"
        using "1.prems"(1) less src c(1,2) c(4) [OF False] False
        by (subst (asm) (1) take_extent.simps) (auto simp: Let_def split: if_splits)
      from "1.IH"(2) [OF _ src refl _ refl _ False _ _ this] less c False show ?thesis by auto
    qed
  qed
qed

text \<open>Sizes with strides, as dimensions.\<close>

definition with_strides :: "int list \<Rightarrow> int option list \<Rightarrow> dims" where
  "with_strides sizes strides = zip sizes (map (\<lambda>s. case s of None \<Rightarrow> 0 | Some x \<Rightarrow> x) strides)"

lemma addr_cong_tail:
  assumes "extents_pos a" "extents_pos b" "volume a = volume b" "addr a p = addr b p"
  shows "addr (x # a) p = addr (x # b) p"
  using assms by (cases x) (simp add: addr_simps)

lemma fit_sizes_addr:
  assumes "fit_sizes sizes src = Inr (Some strides)" "extents_pos src" "list_all (\<lambda>n. 0 < n) sizes"
  shows "length strides = length sizes \<and> None \<notin> set strides \<and> prod_list sizes = volume src \<and>
         addr (with_strides sizes strides) p = addr src p"
  using assms
proof (induction sizes arbitrary: src strides)
  case Nil
  then show ?case by (auto simp: with_strides_def split: if_splits)
next
  case (Cons w ws)
  note volume_ws = map_fst_zip [of ws]
  show ?case
  proof (cases "w = 1")
    case True
    with Cons.prems(1) obtain r where r: "fit_sizes ws src = Inr (Some r)" "strides = Some 0 # r"
      by (auto split: sum.splits option.splits)
    from Cons.IH [OF r(1) Cons.prems(2)] Cons.prems(3) have IH: "length r = length ws" "None \<notin> set r"
      "prod_list ws = volume src" "addr (with_strides ws r) p = addr src p" by simp_all
    have "extents_pos (with_strides ws r)" using Cons.prems(3) IH(1)
      by (auto simp: with_strides_def extents_pos_def list_all_iff dest: set_zip_leftD)
    with IH True r(2) show ?thesis by (simp add: with_strides_def addr_simps)
  next
    case False
    with Cons.prems(1) obtain st src' r where t: "take_extent w 1 None src = Inr (Some (st, src'))"
      "fit_sizes ws src' = Inr (Some r)" "strides = st # r"
      by (auto split: sum.splits option.splits)
    from take_extent_addr [OF t(1), of p] Cons.prems(2) have A: "extents_pos src'"
      "volume src = w * volume src'" "addr (taken 1 None src) p = addr (taken w st src') p"
      by (simp_all add: taken_def)
    have w: "0 < w" using Cons.prems(3) by simp
    have st: "st \<noteq> None" using take_extent_stride [OF t(1)] False w by simp
    from Cons.IH [OF t(2) A(1)] Cons.prems(3) have IH: "length r = length ws" "None \<notin> set r"
      "prod_list ws = volume src'" "addr (with_strides ws r) p = addr src' p" by simp_all
    have pos: "extents_pos (with_strides ws r)" using Cons.prems(3) IH(1)
      by (auto simp: with_strides_def extents_pos_def list_all_iff dest: set_zip_leftD)
    have vol: "volume (with_strides ws r) = volume src'" using IH(1,3) by (simp add: with_strides_def)
    have "addr (with_strides (w # ws) strides) p = addr (taken w st (with_strides ws r)) p"
      by (simp add: with_strides_def taken_def t(3))
    also have "\<dots> = addr (taken w st src') p"
      unfolding taken_def by (rule addr_cong_tail [OF pos A(1) vol IH(4)])
    also have "\<dots> = addr src p" using A(3) Cons.prems(2) by (simp add: taken_def addr_simps)
    finally show ?thesis using IH st [symmetric] A(2) by (simp add: t(3))
  qed
qed

lemma fit_addresses_aux:
  assumes "fit ds sizes = Inr (Some strides)" "extents_pos ds" "list_all (\<lambda>n. 0 < n) sizes"
  shows "length strides = length sizes \<and> None \<notin> set strides \<and> prod_list sizes = volume ds \<and>
         addr (with_strides sizes strides) p = addr ds p"
  using fit_sizes_addr [of sizes "drop_ones ds" strides p] assms by (simp add: fit_def addr_drop)



end
