(* ===== verification/Layout_Compose.thy ===== *)
theory Layout_Compose
  imports Layout_Facts
begin

text \<open>
  What \<open>compose\<close> returns: the splitting loop keeps the addresses of the outer map and puts every piece inside
  one inner dimension; where the pieces of an inner dimension fit together the composed map reads, at every
  position, what the chain of the two maps reads.
\<close>

section \<open>Digits\<close>

definition ravel :: "int list \<Rightarrow> int list \<Rightarrow> int" where
  "ravel ds x = sum_list (map (\<lambda>(i, c). i * c) (zip x (contig ds)))"

definition within :: "int list \<Rightarrow> int list \<Rightarrow> bool" where
  "within ds x = list_all2 (\<lambda>i d. 0 \<le> i \<and> i < d) x ds"

lemma ravel_simps [simp]: "ravel [] x = 0" "ravel (d # ds) (i # x) = i * prod_list ds + ravel ds x"
  by (simp_all add: ravel_def)

lemma ravel_bounds: "within ds x \<Longrightarrow> 0 \<le> ravel ds x \<and> ravel ds x < prod_list ds"
proof (induction ds arbitrary: x)
  case Nil
  then show ?case by simp
next
  case (Cons d ds)
  then obtain i y where x: "x = i # y" "0 \<le> i" "i < d" "within ds y"
    by (auto simp: within_def list_all2_Cons2)
  from Cons.IH [OF x(4)] have y: "0 \<le> ravel ds y" "ravel ds y < prod_list ds" by simp_all
  have "i * prod_list ds + ravel ds y < (i + 1) * prod_list ds" using y by (simp add: algebra_simps)
  also have "\<dots> \<le> d * prod_list ds" using x(3) y by (intro mult_right_mono) auto
  finally show ?case using x y by simp
qed

lemma within_pos: "within ds x \<Longrightarrow> list_all (\<lambda>d. 0 < d) ds"
  by (auto simp: within_def list_all2_conv_all_nth list_all_length)

lemma unravel_ravel: "within ds x \<Longrightarrow> unravel (ravel ds x + q * prod_list ds) ds = x"
proof (induction ds arbitrary: x q)
  case Nil
  then show ?case by (simp add: within_def)
next
  case (Cons d ds)
  then obtain i y where x: "x = i # y" "0 \<le> i" "i < d" "within ds y"
    by (auto simp: within_def list_all2_Cons2)
  have pos: "list_all (\<lambda>d. 0 < d) ds" by (rule within_pos [OF x(4)])
  have P: "0 < prod_list ds" by (rule prod_list_pos [OF pos])
  have flat: "ravel (d # ds) x + q * prod_list (d # ds) = ravel ds y + (i + q * d) * prod_list ds"
    by (simp add: x(1) algebra_simps)
  have "(ravel ds y + (i + q * d) * prod_list ds) div prod_list ds = i + q * d"
    using ravel_bounds [OF x(4)] P by simp
  then have "(ravel ds y + (i + q * d) * prod_list ds) div prod_list ds mod d = i" using x(2,3) by simp
  with Cons.IH [OF x(4), of "i + q * d"] show ?case unfolding flat by (simp add: unravel_Cons [OF pos] x(1))
qed

lemma within_unravel: "list_all (\<lambda>d. 0 < d) ds \<Longrightarrow> within ds (unravel p ds)"
  by (induction ds) (auto simp: unravel_Cons within_def)

lemma ravel_unravel: "list_all (\<lambda>d. 0 < d) ds \<Longrightarrow> ravel ds (unravel p ds) + p div prod_list ds * prod_list ds = p"
proof (induction ds)
  case (Cons d ds)
  define q where "q = p div prod_list ds"
  have "p div prod_list (d # ds) = q div d"
    using Cons.prems zdiv_zmult2_eq [of d p "prod_list ds"] by (simp add: q_def mult.commute)
  moreover have "q mod d * prod_list ds + q div d * (d * prod_list ds) = q * prod_list ds"
    by (metis (no_types) distrib_right mod_mult_div_eq mult.assoc mult.commute)
  ultimately show ?case using Cons by (simp add: unravel_Cons q_def)
qed simp

section \<open>The splitting loop\<close>

lemma addr_append:
  "extents_pos a \<Longrightarrow> extents_pos b \<Longrightarrow> addr (a @ b) p = addr a (p div volume b) + addr b p"
proof (induction a)
  case (Cons x a)
  obtain d s where x: "x = (d, s)" by fastforce
  have "p div (volume b * volume a) = p div volume b div volume a"
    using Cons.prems volume_pos [of a] by (intro zdiv_zmult2_eq) (simp add: x)
  with Cons show ?case by (simp add: x addr_simps extents_pos_def mult.commute)
qed (simp add: addr_simps)

text \<open>A piece stays inside one inner dimension.\<close>

definition inside :: "int list \<Rightarrow> int list \<Rightarrow> int \<times> int \<Rightarrow> bool" where
  "inside D base dt =
     (snd dt = 0 \<or>
      (case level (contig D) (snd dt) of
         None \<Rightarrow> False
       | Some r \<Rightarrow> snd dt mod (contig D ! r) = 0 \<and>
                   base ! r + (fst dt - 1) * (snd dt div (contig D ! r)) < D ! r))"

definition same_dims :: "dims \<Rightarrow> dims \<Rightarrow> bool" where
  "same_dims a b = (extents_pos a \<and> volume a = volume b \<and> (\<forall>p. addr a p = addr b p))"

lemma same_dims_tail:
  assumes "extents_pos a" "extents_pos b" "extents_pos b'" "volume b = volume b'" "\<And>p. addr b p = addr b' p"
    and "same_dims ps (a @ b')"
  shows "same_dims ps (a @ b)"
  using assms by (simp add: same_dims_def addr_append)

lemma split_work_same:
  assumes "split_work D cD base pieces work = Some (Some ps)"
    and "cD = contig D" "list_all (\<lambda>d. 0 < d) D" "extents_pos pieces" "extents_pos work" "list_all (inside D base) pieces"
  shows "same_dims ps (pieces @ work) \<and> list_all (inside D base) ps"
proof -
  define P where "P = (\<lambda>D cD base pieces work (res :: dims option).
    cD = contig D \<longrightarrow> list_all (\<lambda>d. 0 < d) D \<longrightarrow> extents_pos pieces \<longrightarrow> extents_pos work \<longrightarrow> list_all (inside D base) pieces
    \<longrightarrow> (case res of None \<Rightarrow> True | Some ps \<Rightarrow> same_dims ps (pieces @ work) \<and> list_all (inside D base) ps))"
  have "P D cD base pieces work (Some ps)"
  proof (rule split_work.raw_induct [OF _ assms(1)], goal_cases)
    case (1 f D cD base pieces work res)
    note IH = 1(1) and eq = 1(2)
    show ?case
    proof (cases work)
      case Nil
      with eq show ?thesis by (auto simp: P_def same_dims_def)
    next
      case (Cons x rest)
      obtain d t where x: "x = (d, t)" by fastforce
      show ?thesis
      proof (cases res)
        case None
        then show ?thesis by (simp add: P_def)
      next
        case res: (Some qs)
        show ?thesis unfolding P_def
        proof (intro impI)
          assume cD: "cD = contig D" and D: "list_all (\<lambda>d. 0 < d) D" and pp: "extents_pos pieces"
            and wp: "extents_pos work" and ins: "list_all (inside D base) pieces"
          from wp Cons x have dr: "0 < d" "extents_pos rest" by simp_all
          consider (one) "d = 1" "f D cD base pieces rest = Some res"
            | (zero) "d \<noteq> 1" "t = 0" "f D cD base (pieces @ [(d, 0)]) rest = Some res"
            | (fits) r where "t \<noteq> 0" "level cD t = Some r" "t mod (cD ! r) = 0"
                "base ! r + (d - 1) * (t div (cD ! r)) < D ! r" "f D cD base (pieces @ [(d, t)]) rest = Some res"
            | (cut) r where "level cD t = Some r" "d mod (D ! r) = 0"
                "f D cD base pieces ((d div (D ! r), t * (D ! r)) # (D ! r, t) # rest) = Some res"
            using eq by (auto simp: Cons x res split: if_splits option.splits)
          then have "same_dims qs (pieces @ work) \<and> list_all (inside D base) qs"
          proof cases
            case one
            from IH [OF one(2)] cD D pp dr ins have r: "same_dims qs (pieces @ rest)" "list_all (inside D base) qs"
              by (simp_all add: P_def res)
            have "same_dims qs (pieces @ work)"
              by (rule same_dims_tail [OF pp wp dr(2) _ _ r(1)]) (use dr one(1) in \<open>simp_all add: Cons x addr_simps\<close>)
            with r(2) show ?thesis by simp
          next
            case zero
            from IH [OF zero(3)] cD D pp dr ins zero(2) show ?thesis
              by (simp add: P_def res Cons x inside_def extents_pos_def)
          next
            case fits
            from IH [OF fits(5)] cD D pp dr ins fits(1-4) show ?thesis
              by (simp add: P_def res Cons x inside_def extents_pos_def)
          next
            case cut
            define e where "e = d div (D ! r)"
            have r: "r < length D" using cut(1) cD by (auto simp: level_def find_Some_iff)
            have Dr: "0 < D ! r" using D r by (simp add: list_all_length)
            have d: "e * (D ! r) = d" using cut(2) by (auto simp: e_def)
            have e: "0 < e" using d Dr dr(1) by (metis mult.commute zero_less_mult_pos)
            have pos: "extents_pos ((e, t * (D ! r)) # (D ! r, t) # rest)" using e Dr dr(2) by simp
            from IH [OF cut(3)] cD D pp pos ins have q: "same_dims qs (pieces @ (e, t * (D ! r)) # (D ! r, t) # rest)"
              "list_all (inside D base) qs" by (simp_all add: P_def res e_def)
            have "same_dims qs (pieces @ work)"
            proof (rule same_dims_tail [OF pp wp pos _ _ q(1)])
              show "volume work = volume ((e, t * (D ! r)) # (D ! r, t) # rest)" by (simp add: Cons x flip: d)
              show "addr work p = addr ((e, t * (D ! r)) # (D ! r, t) # rest) p" for p
                using addr_pair [OF e Dr dr(2), of t p] by (simp add: Cons x d)
            qed
            with q(2) show ?thesis by simp
          qed
          then show "case res of None \<Rightarrow> True | Some ps \<Rightarrow> same_dims ps (pieces @ work) \<and> list_all (inside D base) ps"
            by (simp add: res)
        qed
      qed
    qed
  qed
  with assms show ?thesis by (simp add: P_def)
qed

section \<open>The composed map\<close>

text \<open>The step of a piece in inner dimension \<open>r\<close>.\<close>

definition step_in :: "int list \<Rightarrow> nat \<Rightarrow> int \<times> int \<Rightarrow> int" where
  "step_in cD r dt = (if snd dt \<noteq> 0 \<and> level cD (snd dt) = Some r then snd dt div (cD ! r) else 0)"

definition restride :: "(int \<times> int \<Rightarrow> int) \<Rightarrow> dims \<Rightarrow> dims" where
  "restride f ps = map (\<lambda>x. (fst x, f x)) ps"

lemma restride_simps [simp]:
  "restride f [] = []" "restride f (x # ps) = (fst x, f x) # restride f ps"
  "extents_pos (restride f ps) = extents_pos ps" "volume (restride f ps) = volume ps"
  "map fst (restride f ps) = map fst ps"
  by (auto simp: restride_def extents_pos_def list_all_iff comp_def)

lemma addr_restride_sum:
  assumes "extents_pos ps" "\<And>x. x \<in> set ps \<Longrightarrow> f x = (\<Sum>r<n. g r x * c r)"
  shows "addr (restride f ps) p = (\<Sum>r<n. addr (restride (g r) ps) p * c r)"
  using assms
proof (induction ps)
  case (Cons x ps)
  obtain d t where x: "x = (d, t)" by fastforce
  have pos: "extents_pos ps" using Cons.prems(1) x by simp
  have IH: "addr (restride f ps) p = (\<Sum>r<n. addr (restride (g r) ps) p * c r)"
    by (rule Cons.IH [OF pos]) (use Cons.prems(2) in auto)
  have fx: "f (d, t) = (\<Sum>r<n. g r (d, t) * c r)" using Cons.prems(2) [of x] x by simp
  show ?case
    by (simp add: x addr_simps pos IH fx sum_distrib_left sum.distrib [symmetric] algebra_simps)
qed (simp add: addr_simps)

lemma addr_bounds:
  assumes "extents_pos ps" "\<And>x. x \<in> set ps \<Longrightarrow> 0 \<le> f x"
  shows "0 \<le> addr (restride f ps) p \<and> addr (restride f ps) p \<le> sum_list (map (\<lambda>x. (fst x - 1) * f x) ps)"
  using assms
proof (induction ps)
  case (Cons x ps)
  obtain d t where x: "x = (d, t)" by fastforce
  have pos: "extents_pos ps" "0 < d" using Cons.prems(1) x by simp_all
  have IH: "0 \<le> addr (restride f ps) p" "addr (restride f ps) p \<le> sum_list (map (\<lambda>x. (fst x - 1) * f x) ps)"
    using Cons.IH [OF pos(1)] Cons.prems(2) by auto
  have f: "0 \<le> f (d, t)" using Cons.prems(2) [of x] x by simp
  define i where "i = p div volume ps mod d"
  have i: "0 \<le> i" "i \<le> d - 1" using pos(2) by (simp_all add: i_def)
  have "0 \<le> i * f (d, t)" "i * f (d, t) \<le> (d - 1) * f (d, t)" using i f by (auto intro: mult_right_mono)
  with IH show ?case by (simp add: x addr_simps pos i_def [symmetric])
qed (simp add: addr_simps)

text \<open>The pieces of every inner dimension fit in it together, at the far corner.\<close>

definition no_carry :: "amap \<Rightarrow> amap \<Rightarrow> bool" where
  "no_carry outer inner =
     (let D = map fst (snd inner); cD = contig D; base = unravel (fst outer) D in
      case split_work D cD base [] (snd outer) of
        Some (Some ps) \<Rightarrow>
          list_all (\<lambda>r. base ! r + sum_list (map (\<lambda>x. (fst x - 1) * step_in cD r x) ps) < D ! r) [0..<length D]
      | _ \<Rightarrow> False)"

lemma level_stride:
  assumes "level cD t = Some r"
  shows "r < length cD \<and> cD ! r \<le> t"
  using assms by (auto simp: level_def find_Some_iff)

lemma contig_pos: "list_all (\<lambda>d. 0 < d) ds \<Longrightarrow> list_all (\<lambda>c. 0 < c) (contig ds)"
  by (induction ds) (auto intro: prod_list_pos)

lemma ravel_sum: "length x = length ds \<Longrightarrow> ravel ds x = (\<Sum>r<length ds. x ! r * contig ds ! r)"
  by (simp add: ravel_def sum_list_sum_nth atLeast0LessThan)

lemma eval_map_sum: "length x = length (snd m) \<Longrightarrow> eval_map m x = fst m + (\<Sum>r<length x. x ! r * snd (snd m ! r))"
  by (simp add: eval_map_def sum_list_sum_nth atLeast0LessThan)

lemma piece_sums:
  assumes "inside D base x" "list_all (\<lambda>d. 0 < d) D" "length I = length D"
  shows "snd x = (\<Sum>r<length D. step_in (contig D) r x * contig D ! r)"
    and "snd (piece_dim I (contig D) x) = (\<Sum>r<length D. step_in (contig D) r x * snd (I ! r))"
    and "0 \<le> step_in (contig D) r x"
proof -
  have pick: "(\<Sum>r<length D. (if r = k then a else 0) * c r) = a * c k" if "k < length D" for k :: nat and a and c :: "nat \<Rightarrow> int"
    using that by (simp add: sum.delta if_distrib [of "\<lambda>z. z * _"] cong: if_cong)
  have "snd x = (\<Sum>r<length D. step_in (contig D) r x * contig D ! r) \<and>
    snd (piece_dim I (contig D) x) = (\<Sum>r<length D. step_in (contig D) r x * snd (I ! r)) \<and> 0 \<le> step_in (contig D) r x"
  proof (cases "snd x = 0")
    case True
    then show ?thesis by (simp add: step_in_def piece_dim_def)
  next
    case False
    with assms(1) obtain k where k: "level (contig D) (snd x) = Some k" "snd x mod (contig D ! k) = 0"
      by (auto simp: inside_def split: option.splits)
    from level_stride [OF k(1)] have kl: "k < length D" "contig D ! k \<le> snd x" by simp_all
    have ck: "0 < contig D ! k" using contig_pos [OF assms(2)] kl(1) by (simp add: list_all_length)
    have st: "step_in (contig D) r x = (if r = k then snd x div (contig D ! k) else 0)" for r
      using False k(1) by (simp add: step_in_def)
    have "snd x = snd x div (contig D ! k) * (contig D ! k)" using k(2) by auto
    with False k(1) kl ck show ?thesis unfolding st pick [OF kl(1)]
      by (simp add: piece_dim_def pos_imp_zdiv_nonneg_iff)
  qed
  then show "snd x = (\<Sum>r<length D. step_in (contig D) r x * contig D ! r)"
    and "snd (piece_dim I (contig D) x) = (\<Sum>r<length D. step_in (contig D) r x * snd (I ! r))"
    and "0 \<le> step_in (contig D) r x" by blast+
qed

lemma composed_reads:
  assumes ps: "same_dims ps od" "list_all (inside D (unravel off D)) ps"
    and D: "list_all (\<lambda>d. 0 < d) D" and I: "map fst I = D"
    and fits: "\<And>r. r < length D \<Longrightarrow>
        unravel off D ! r + sum_list (map (\<lambda>x. (fst x - 1) * step_in (contig D) r x) ps) < D ! r"
  shows "eval_map (eval_map (o1, I) (unravel off D), map (piece_dim I (contig D)) ps)
           (unravel p (map fst ps)) = eval_map (o1, I) (unravel (off + addr od p) D)"
proof -
  define base where "base = unravel off D"
  define dig where "dig r = addr (restride (step_in (contig D) r) ps) p" for r
  define x where "x = map (\<lambda>r. base ! r + dig r) [0..<length D]"
  have len: "length I = length D" using I by (metis length_map)
  have pos: "extents_pos ps" using ps(1) by (simp add: same_dims_def)
  have ins: "inside D base x" if "x \<in> set ps" for x using ps(2) that by (simp add: base_def list_all_iff)
  have range0: "within D base" unfolding base_def by (rule within_unravel [OF D])
  have dig: "0 \<le> dig r" "base ! r + dig r < D ! r" if "r < length D" for r
    using addr_bounds [OF pos, of "step_in (contig D) r" p] piece_sums(3) [OF ins D len] fits [OF that]
    by (auto simp: dig_def base_def)
  have xr: "within D x" using range0 dig by (auto simp: x_def within_def list_all2_conv_all_nth)
  have self: "restride snd ps = ps" by (simp add: restride_def)
  have a1: "addr od p = (\<Sum>r<length D. dig r * contig D ! r)"
    using addr_restride_sum [OF pos, where f = snd and n = "length D" and g = "step_in (contig D)" and c = "\<lambda>r. contig D ! r" and p = p]
      piece_sums(1) [OF ins D len] ps(1) by (simp add: self dig_def same_dims_def)
  have "map (piece_dim I (contig D)) ps = restride (\<lambda>x. snd (piece_dim I (contig D) x)) ps"
    by (auto simp: restride_def piece_dim_def split: option.splits)
  moreover have "addr (restride (\<lambda>x. snd (piece_dim I (contig D) x)) ps) p = (\<Sum>r<length D. dig r * snd (I ! r))"
    using addr_restride_sum [OF pos, where n = "length D" and g = "step_in (contig D)" and c = "\<lambda>r. snd (I ! r)" and p = p]
      piece_sums(2) [OF ins D len] by (simp add: dig_def)
  ultimately have a2: "eval_map (c, map (piece_dim I (contig D)) ps) (unravel p (map fst ps)) =
      c + (\<Sum>r<length D. dig r * snd (I ! r))" for c
    using eval_map_addr [of c "restride (\<lambda>x. snd (piece_dim I (contig D) x)) ps" p] by simp
  have bl: "length base = length D" by (simp add: base_def)
  have "off = ravel D base + off div prod_list D * prod_list D" using ravel_unravel [OF D, of off] by (simp add: base_def)
  moreover have "ravel D base + addr od p = ravel D x"
    by (simp add: ravel_sum bl x_def a1 sum.distrib [symmetric] distrib_right)
  ultimately have "off + addr od p = ravel D x + off div prod_list D * prod_list D" by simp
  then have "unravel (off + addr od p) D = x" using unravel_ravel [OF xr] by simp
  moreover have "eval_map (o1, I) x = eval_map (o1, I) base + (\<Sum>r<length D. dig r * snd (I ! r))"
    by (simp add: eval_map_sum bl len x_def sum.distrib distrib_right)
  ultimately show ?thesis by (simp add: a2 base_def)
qed

text \<open>
  A map returned by \<open>compose\<close> reads the same elements as the chain it replaces, at every position and
  not only at the sampled ones, when the pieces of every inner dimension fit in it together.
\<close>
theorem compose_reads_chain:
  assumes "compose rnd outer inner_shape inner = Some (Inr (Some cand))"
    and "extents_pos (snd outer)" "extents_pos (snd inner)" "no_carry outer inner"
  shows "volume (snd cand) = volume (snd outer) \<and>
         eval_map cand (unravel p (map fst (snd cand))) =
         eval_map inner (unravel (eval_map outer (unravel p (map fst (snd outer)))) (map fst (snd inner)))"
proof -
  define D where "D = map fst (snd inner)"
  define base where "base = unravel (fst outer) D"
  have D: "list_all (\<lambda>d. 0 < d) D" using assms(3) by (simp add: D_def extents_pos_def list_all_iff)
  from assms(1) obtain ps where w: "split_work D (contig D) base [] (snd outer) = Some (Some ps)"
    and cand: "cand = (eval_map inner base, map (piece_dim (snd inner) (contig D)) ps)"
    by (auto simp: compose_def Let_def D_def base_def split: if_splits option.splits sum.splits)
  from split_work_same [OF w refl D _ assms(2)] have ps: "same_dims ps (snd outer)" "list_all (inside D base) ps"
    by simp_all
  have fits: "base ! r + sum_list (map (\<lambda>x. (fst x - 1) * step_in (contig D) r x) ps) < D ! r" if "r < length D" for r
    using assms(4) w that by (simp add: no_carry_def Let_def list_all_iff flip: D_def base_def)
  have fst_piece: "map fst (map (piece_dim (snd inner) (contig D)) ps) = map fst ps"
    by (auto simp: piece_dim_def split: option.splits)
  have "eval_map (eval_map (fst inner, snd inner) base, map (piece_dim (snd inner) (contig D)) ps) (unravel p (map fst ps)) =
      eval_map (fst inner, snd inner) (unravel (fst outer + addr (snd outer) p) D)"
    unfolding base_def
    by (rule composed_reads [OF ps(1) ps(2) [unfolded base_def] D D_def [symmetric]]) (rule fits [unfolded base_def])
  moreover have "fst outer + addr (snd outer) p = eval_map outer (unravel p (map fst (snd outer)))"
    using eval_map_addr [of "fst outer" "snd outer" p] by simp
  moreover have "volume (snd cand) = volume (snd outer)"
    using ps(1) unfolding cand snd_conv fst_piece by (simp add: same_dims_def)
  ultimately show ?thesis unfolding cand snd_conv fst_piece by (simp add: D_def)
qed

section \<open>The splitting loop returns\<close>

definition work_size :: "dims \<Rightarrow> int" where
  "work_size w = sum_list (map (\<lambda>x. 2 * fst x - 1) w)"

lemma work_size_simps [simp]: "work_size [] = 0" "work_size (x # w) = 2 * fst x - 1 + work_size w"
  by (simp_all add: work_size_def)

lemma work_size_nonneg: "extents_pos w \<Longrightarrow> 0 \<le> work_size w"
  by (induction w) auto

lemma cut_smaller: "2 \<le> e \<Longrightarrow> 2 \<le> D \<Longrightarrow> 2 * e - 1 + (2 * D - 1) < 2 * (e * D) - (1 :: int)"
proof -
  assume "2 \<le> e" "2 \<le> D"
  then have "0 < (e - 1) * (D - 1)" by simp
  then show ?thesis by (simp add: algebra_simps)
qed

lemma split_work_returns:
  assumes "extents_pos work" "list_all (\<lambda>d. 2 \<le> d) D"
  shows "\<exists>r. split_work D (contig D) base pieces work = Some r"
  using assms(1)
proof (induction "nat (work_size work)" arbitrary: work pieces rule: less_induct)
  case less
  show ?case
  proof (cases work)
    case Nil
    then show ?thesis by (simp add: split_work.simps)
  next
    case (Cons x rest)
    obtain d t where x: "x = (d, t)" by fastforce
    have pos: "0 < d" "extents_pos rest" using less.prems Cons x by simp_all
    have smaller: "nat (work_size rest) < nat (work_size work)"
      using work_size_nonneg [OF pos(2)] pos(1) by (simp add: Cons x)
    have rest: "\<exists>r. split_work D (contig D) base qs rest = Some r" for qs
      by (rule less.hyps [OF smaller pos(2)])
    show ?thesis
    proof (cases "level (contig D) t")
      case None
      with rest show ?thesis by (subst split_work.simps) (simp add: Cons x)
    next
      case (Some r)
      from level_stride [OF Some] have r: "r < length D" by simp
      have Dr: "2 \<le> D ! r" using assms(2) r by (simp add: list_all_length)
      define e where "e = d div (D ! r)"
      show ?thesis
      proof (cases "t div (contig D ! r) = 1 \<and> base ! r = 0 \<and> d mod (D ! r) = 0 \<and> \<not> d - 1 < D ! r")
        case True
        then have d: "e * (D ! r) = d" "D ! r < d" by (auto simp: e_def)
        have e: "2 \<le> e"
        proof (rule ccontr)
          assume "\<not> 2 \<le> e"
          then have "e * (D ! r) \<le> 1 * (D ! r)" using Dr by (intro mult_right_mono) auto
          with d show False by simp
        qed
        have "nat (work_size ((e, t * (D ! r)) # (D ! r, t) # rest)) < nat (work_size work)"
          using cut_smaller [OF e Dr] work_size_nonneg [OF pos(2)] e Dr by (simp add: Cons x flip: d(1))
        from less.hyps [OF this] e Dr pos
        have "\<exists>r'. split_work D (contig D) base pieces ((e, t * (D ! r)) # (D ! r, t) # rest) = Some r'" by simp
        with rest show ?thesis by (subst split_work.simps) (simp add: Cons x Some e_def)
      next
        case False
        with rest show ?thesis by (subst split_work.simps) (auto simp: Cons x Some)
      qed
    qed
  qed
qed

text \<open>
  C18. Composing two maps ends: the splitting loop of \<open>compose\<close> returns for every outer map with positive
  extents when the inner map has no extent below two, as the maps of copies have.
\<close>
theorem compose_returns:
  assumes "extents_pos (snd outer)" "list_all (\<lambda>d. 2 \<le> fst d) (snd inner)"
  shows "compose rnd outer inner_shape inner \<noteq> None"
proof -
  have "list_all (\<lambda>d. 2 \<le> d) (map fst (snd inner))" using assms(2) by (simp add: list_all_iff)
  from split_work_returns [OF assms(1) this] obtain r where
    "split_work (map fst (snd inner)) (contig (map fst (snd inner))) (unravel (fst outer) (map fst (snd inner))) []
       (snd outer) = Some r" by blast
  then show ?thesis by (auto simp: compose_def Let_def split: option.splits)
qed

text \<open>An inner extent of one that is read out of bounds makes the loop run forever.\<close>

lemma split_work_diverges: "split_work [1] [1] [0] [] [(2, 1)] = None"
proof (rule ccontr)
  assume "split_work [1] [1] [0] [] [(2, 1)] \<noteq> None"
  then obtain r where r: "split_work [1] [1] [0] [] [(2, 1)] = Some r" by blast
  have "\<not> ([1 :: int] = [1] \<and> [1 :: int] = [1] \<and> [0 :: int] = [0] \<and> (\<exists>rest. [(2 :: int, 1 :: int)] = (2, 1) # rest))"
  proof (rule split_work.raw_induct [where P = "\<lambda>D cD base pieces work res.
        \<not> (D = [1] \<and> cD = [1] \<and> base = [0] \<and> (\<exists>rest. work = (2, 1) # rest))", OF _ r], goal_cases)
    case (1 f D cD base pieces work res)
    have lv: "level [1] 1 = Some 0" by code_simp
    show ?case
    proof
      assume "D = [1] \<and> cD = [1] \<and> base = [0] \<and> (\<exists>rest. work = (2, 1) # rest)"
      then obtain rest where "D = [1]" "cD = [1]" "base = [0]" "work = (2, 1) # rest" by blast
      with 1(2) have "f [1] [1] [0] pieces ((2, 1) # (1, 1) # rest) = Some res" by (simp add: lv)
      from 1(1) [OF this] show False by simp
    qed
  qed
  then show False by simp
qed

section \<open>Concrete maps\<close>

text \<open>
  A permuted read of a permuted copy composes; a sliding window over the rows of a padded copy is refused,
  since its pieces carry into the next row.
\<close>

definition transposed :: amap where "transposed = (0, [(4, 1), (6, 4)])"
definition stored :: amap where "stored = (3, [(2, 60), (3, 10), (4, 1)])"

lemma compose_demo: "compose (\<lambda>ds. []) transposed [24] stored = Some (Inr (Some (3, [(4, 1), (2, 60), (3, 10)])))"
  by code_simp

lemma demo_no_carry: "no_carry transposed stored" "extents_pos (snd transposed)" "extents_pos (snd stored)"
  by code_simp+

theorem compose_reads_chain_witness:
  "eval_map (3, [(4, 1), (2, 60), (3, 10)]) (unravel 11 [4, 2, 3]) =
   eval_map stored (unravel (eval_map transposed (unravel 11 [4, 6])) [2, 3, 4])"
  using compose_reads_chain [OF compose_demo demo_no_carry(2,3,1), of 11] by (simp add: transposed_def stored_def)

theorem compose_returns_witness: "compose (\<lambda>ds. []) (0, [(2, 2), (3, 1)]) [8] (0, [(2, 8), (4, 1)]) \<noteq> None"
  by (rule compose_returns) (simp_all)

lemma window_carries: "\<not> no_carry (0, [(2, 2), (3, 1)]) (0, [(2, 8), (4, 1)])"
  by code_simp

lemma window_refused: "compose (\<lambda>ds. []) (0, [(2, 2), (3, 1)]) [8] (0, [(2, 8), (4, 1)]) = Some (Inr None)"
  by code_simp

end
