(* ===== verification/Layout_Fold.thy ===== *)
theory Layout_Fold
  imports Layout_Compose
begin

text \<open>
  The graph part of \<^verbatim>\<open>pipeline/layout_fold.py\<close>: the walks that follow views and copies up from a
  bmm operand and down from its result, the strided bmm that replaces a bmm, and the loop that folds one bmm
  after the other. An op of the graph is named by its position. Times are any ordered field; the rounding
  of reported numbers is an argument.
\<close>

type_synonym 'a run = "(layout_error + 'a) option"

section \<open>The walks\<close>

definition copy_kinds :: "string set" where
  "copy_kinds = {''strided_copy'', ''strided_copy_f16''}"

definition view_kinds :: "string set" where
  "view_kinds = {''view''}"

definition prods :: "graph \<Rightarrow> (string, nat) dict" where
  "prods g = dict_of (concat (map (\<lambda>(i, x). map (\<lambda>t. (t, i)) (o_outs x)) (enumerate 0 (ops g))))"

definition readers_of :: "graph \<Rightarrow> string \<Rightarrow> nat list" where
  "readers_of g t = concat (map (\<lambda>(i, x). map (\<lambda>_. i) (filter (\<lambda>s. s = t) (o_ins x))) (enumerate 0 (ops g)))"

definition out_names :: "graph \<Rightarrow> layout_error + string list" where
  "out_names g =
     (if output_tensors g \<noteq> [] then Inr (output_tensors g)
      else case output_tensor g of None \<Rightarrow> Inl (Missing_Key ''tensor'') | Some t \<Rightarrow> Inr [t])"

definition tshape :: "graph \<Rightarrow> string \<Rightarrow> layout_error + int list" where
  "tshape g t =
     (case map_of (tensors g) t of
        None \<Rightarrow> Inl (Missing_Key t)
      | Some x \<Rightarrow> (case t_shape x of None \<Rightarrow> Inl (Missing_Key ''shape'') | Some sh \<Rightarrow> Inr sh))"

definition op_copy_map :: "op \<Rightarrow> layout_error + amap" where
  "op_copy_map x = (case shape (flds x) of None \<Rightarrow> Inl (Missing_Key ''shape'') | Some sh \<Rightarrow> copy_map sh)"

definition row_major :: "int list \<Rightarrow> amap" where
  "row_major sh = (0, merge_dims (zip sh (contig sh)))"

text \<open>One step up: the source of a view or copy, the shape of its result, and its map.\<close>

definition hop :: "graph \<Rightarrow> string \<Rightarrow> op \<Rightarrow> layout_error + string \<times> int list \<times> amap" where
  "hop g cur x =
     (case o_ins x of
        [] \<Rightarrow> Inl (Malformed ''inputs'')
      | src # _ \<Rightarrow>
          (case tshape g cur of
             Inl e \<Rightarrow> Inl e
           | Inr sh \<Rightarrow>
               (if o_kind x \<in> view_kinds then Inr (src, sh, offset (flds x), [(prod_list sh, 1)])
                else case op_copy_map x of Inl e \<Rightarrow> Inl e | Inr m \<Rightarrow> Inr (src, sh, m))))"

partial_function (option) source_loop ::
  "draws \<Rightarrow> graph \<Rightarrow> string list \<Rightarrow> string \<Rightarrow> amap \<Rightarrow> nat list \<Rightarrow> (string \<times> amap \<times> nat list) run" where
  "source_loop rnd g outs cur m chain =
     (case map_of (prods g) cur of
        None \<Rightarrow> Some (Inr (cur, m, chain))
      | Some i \<Rightarrow>
          (if o_kind (ops g ! i) \<notin> copy_kinds \<union> view_kinds then Some (Inr (cur, m, chain))
           else case hop g cur (ops g ! i) of
             Inl e \<Rightarrow> Some (Inl e)
           | Inr (src, sh, inner) \<Rightarrow>
               (case compose rnd m sh inner of
                  None \<Rightarrow> None
                | Some (Inl e) \<Rightarrow> Some (Inl e)
                | Some (Inr None) \<Rightarrow> Some (Inr (cur, m, chain))
                | Some (Inr (Some nm)) \<Rightarrow>
                    (if length (readers_of g cur) = 1 \<and> cur \<notin> set outs
                     then source_loop rnd g outs src nm (chain @ [i]) else Some (Inr (cur, m, chain))))))"

declare source_loop.simps [code]

definition source_map :: "draws \<Rightarrow> graph \<Rightarrow> string list \<Rightarrow> string \<Rightarrow> (string \<times> amap \<times> nat list) run" where
  "source_map rnd g outs t =
     (case tshape g t of Inl e \<Rightarrow> Some (Inl e) | Inr sh \<Rightarrow> source_loop rnd g outs t (row_major sh) [])"

text \<open>Down: the last tensor whose chain has a copy, with that chain.\<close>

partial_function (option) sink_loop ::
  "graph \<Rightarrow> string list \<Rightarrow> int \<Rightarrow> string \<Rightarrow> nat list \<Rightarrow> (string \<times> nat list) option \<Rightarrow> (string \<times> nat list) option run" where
  "sink_loop g outs n cur chain best =
     (if length (readers_of g cur) \<noteq> 1 \<or> cur \<in> set outs then Some (Inr best)
      else let r = hd (readers_of g cur); x = ops g ! r; chain' = chain @ [r] in
        if o_kind x \<in> view_kinds then
          (if offset (flds x) \<noteq> 0 then Some (Inr best)
           else case o_outs x of
             [] \<Rightarrow> Some (Inl (Malformed ''outputs''))
           | c # _ \<Rightarrow> sink_loop g outs n c chain'
                        (if list_ex (\<lambda>i. o_kind (ops g ! i) \<in> copy_kinds) chain' then Some (c, chain') else best))
        else if o_kind x \<in> copy_kinds then
          (case op_copy_map x of
             Inl e \<Rightarrow> Some (Inl e)
           | Inr (off, ds) \<Rightarrow>
               (if off \<noteq> 0 \<or> prod_list (map fst ds) \<noteq> n then Some (Inr best)
                else case o_outs x of
                  [] \<Rightarrow> Some (Inl (Malformed ''outputs''))
                | c # _ \<Rightarrow> sink_loop g outs n c chain' (Some (c, chain'))))
        else Some (Inr best))"

declare sink_loop.simps [code]

text \<open>The read map of the last tensor, composed back through the chain (given last op first).\<close>

fun back_map :: "draws \<Rightarrow> graph \<Rightarrow> int \<Rightarrow> nat list \<Rightarrow> amap \<Rightarrow> amap option run" where
  "back_map rnd g n [] G = Some (Inr (Some G))"
| "back_map rnd g n (i # rest) G =
     (case (if o_kind (ops g ! i) \<in> copy_kinds then op_copy_map (ops g ! i) else Inr (0, [(n, 1)])) of
        Inl e \<Rightarrow> Some (Inl e)
      | Inr inner \<Rightarrow>
          (case o_outs (ops g ! i) of
             [] \<Rightarrow> Some (Inl (Malformed ''outputs''))
           | t # _ \<Rightarrow>
               (case tshape g t of
                  Inl e \<Rightarrow> Some (Inl e)
                | Inr sh \<Rightarrow>
                    (case compose rnd G sh inner of
                       None \<Rightarrow> None
                     | Some (Inl e) \<Rightarrow> Some (Inl e)
                     | Some (Inr None) \<Rightarrow> Some (Inr None)
                     | Some (Inr (Some G')) \<Rightarrow> back_map rnd g n rest G'))))"

text \<open>The inverse of a permutation of the tensor; \<open>None\<close> when the map is not one.\<close>

definition invert_perm :: "amap \<Rightarrow> amap option" where
  "invert_perm G =
     (let ds = merge_dims (snd G);
          order = sort_key (\<lambda>k. - snd (ds ! k)) [0..<length ds];
          sd = map (\<lambda>k. ds ! k) order;
          ost = contig (map fst ds) in
      if fst G \<noteq> 0 \<or> sd = [] \<or> snd (last sd) \<noteq> 1 \<or>
         list_ex (\<lambda>i. snd (sd ! i) \<noteq> snd (sd ! Suc i) * fst (sd ! Suc i)) [0..<length sd - 1]
      then None else Some (0, map (\<lambda>k. (fst (ds ! k), ost ! k)) order))"

definition sink_map :: "draws \<Rightarrow> graph \<Rightarrow> string list \<Rightarrow> string \<Rightarrow> (string \<times> amap \<times> nat list) option run" where
  "sink_map rnd g outs t =
     (case tshape g t of
        Inl e \<Rightarrow> Some (Inl e)
      | Inr sh \<Rightarrow>
          (case sink_loop g outs (prod_list sh) t [] None of
             None \<Rightarrow> None
           | Some (Inl e) \<Rightarrow> Some (Inl e)
           | Some (Inr None) \<Rightarrow> Some (Inr None)
           | Some (Inr (Some (final, chain))) \<Rightarrow>
               (case tshape g final of
                  Inl e \<Rightarrow> Some (Inl e)
                | Inr fs \<Rightarrow>
                    (case back_map rnd g (prod_list sh) (rev chain) (row_major fs) of
                       None \<Rightarrow> None
                     | Some (Inl e) \<Rightarrow> Some (Inl e)
                     | Some (Inr None) \<Rightarrow> Some (Inr None)
                     | Some (Inr (Some G)) \<Rightarrow>
                         Some (Inr (case invert_perm G of None \<Rightarrow> None | Some w \<Rightarrow> Some (final, w, chain)))))))"

section \<open>The strided bmm\<close>

definition gemm_kind :: "string \<Rightarrow> string option" where
  "gemm_kind k = (if k = ''bmm'' then Some ''bmm_strided'' else if k = ''bmm_f16'' then Some ''bmm_strided_f16'' else None)"

definition gemm_of :: "op \<Rightarrow> op option" where
  "gemm_of x =
     (if gemm_kind (o_kind x) \<noteq> None then Some x
      else case subs x of s # _ \<Rightarrow> (if gemm_kind (o_kind s) \<noteq> None then Some s else None) | [] \<Rightarrow> None)"

definition natural :: "int \<Rightarrow> int \<Rightarrow> int \<Rightarrow> amap" where
  "natural batch r c = (0, [(batch, r * c), (r, c), (c, 1)])"

text \<open>Candidate splits of the batch: products of trailing dimensions over the matrix, and dimensions.\<close>

definition split_cands :: "int \<Rightarrow> amap \<times> int \<times> int \<Rightarrow> layout_error + int list" where
  "split_cands bt mrc =
     (case mrc of (m, r, c) \<Rightarrow>
        (let ds = map fst (drop_ones (snd m)); accs = map (\<lambda>k. prod_list (drop k ds)) (rev [0..<length ds]) in
         if ds \<noteq> [] \<and> (r * c = 0 \<or> 0 \<in> set ds) then Inl Zero_Division
         else Inr (map (\<lambda>a. a div (r * c)) (filter (\<lambda>a. a mod (r * c) = 0 \<and> bt mod (a div (r * c)) = 0) accs) @
                   filter (\<lambda>d. bt mod d = 0) ds)))"

text \<open>An operand's dense matrix: one of its two inner strides is one.\<close>

definition dense :: "int option list \<Rightarrow> bool" where
  "dense f = (f ! 2 = Some 1 \<or> f ! 3 = Some 1)"

fun pick_split ::
  "int \<Rightarrow> int \<times> int \<times> int \<Rightarrow> amap \<times> amap \<times> amap \<Rightarrow> int list \<Rightarrow>
   layout_error + (int \<times> int option list \<times> int option list \<times> int option list) option" where
  "pick_split bt mkn maps [] = Inr None"
| "pick_split bt mkn maps (B1 # Bs) =
     (case mkn of (M, K, N) \<Rightarrow> case maps of (am, bm, cm) \<Rightarrow>
        (case map_res (\<lambda>(m, r, c). fit (snd m) [bt div B1, B1, r, c]) [(am, M, K), (bm, K, N), (cm, M, N)] of
           Inl e \<Rightarrow> Inl e
         | Inr fs \<Rightarrow>
             (case fs of
                [Some fa, Some fb, Some fc] \<Rightarrow>
                  (if dense fa \<and> dense fb \<and> dense fc then Inr (Some (B1, fa, fb, fc)) else pick_split bt mkn maps Bs)
              | _ \<Rightarrow> pick_split bt mkn maps Bs)))"

definition stride_at :: "int option list \<Rightarrow> nat \<Rightarrow> int" where
  "stride_at f i = (case f ! i of None \<Rightarrow> 0 | Some s \<Rightarrow> s)"

definition operand_shape :: "string \<Rightarrow> string list \<Rightarrow> amap \<Rightarrow> int option list \<Rightarrow> (string, int) dict" where
  "operand_shape p sfx m f =
     (p @ ''_off'', fst m) # map (\<lambda>(i, s). (p @ ''_s'' @ s, stride_at f i)) (enumerate 0 sfx)"

definition strided_shape ::
  "int \<Rightarrow> int \<times> int \<times> int \<Rightarrow> amap \<times> amap \<times> amap \<Rightarrow>
   int \<times> int option list \<times> int option list \<times> int option list \<Rightarrow> (string, int) dict" where
  "strided_shape bt mkn maps sp =
     (case mkn of (M, K, N) \<Rightarrow> case maps of (am, bm, cm) \<Rightarrow> case sp of (B1, fa, fb, fc) \<Rightarrow>
        [(''B0'', bt div B1), (''B1'', B1), (''M'', M), (''K'', K), (''N'', N)] @
        operand_shape ''a'' [''0'', ''1'', ''m'', ''k''] am fa @
        operand_shape ''b'' [''0'', ''1'', ''k'', ''n''] bm fb @
        operand_shape ''c'' [''0'', ''1'', ''m'', ''n''] cm fc)"

text \<open>\<open>s.replace(p, q, 1)\<close>.\<close>

fun replace_first :: "string \<Rightarrow> string \<Rightarrow> string \<Rightarrow> string" where
  "replace_first p q [] = (if p = [] then q else [])"
| "replace_first p q (c # cs) =
     (if prefix p (c # cs) then q @ drop (length p) (c # cs) else c # replace_first p q cs)"

definition without_variant :: "(string, string) dict \<Rightarrow> (string, string) dict" where
  "without_variant ex = filter (\<lambda>(k, v). k \<noteq> ''slot_variant'') ex"

definition strided_gemm :: "op \<Rightarrow> string \<Rightarrow> string \<Rightarrow> string \<Rightarrow> (string, int) dict \<Rightarrow> op" where
  "strided_gemm gm a b c sh =
     upd (\<lambda>f. f\<lparr>op_kind := (case gemm_kind (op_kind f) of None \<Rightarrow> op_kind f | Some k \<Rightarrow> k),
               inputs := [a, b], outputs := [c], shape := Some sh\<rparr>) gm"

text \<open>The op that replaces a bmm; in a fused group only the head stage and the group's inputs change.\<close>

definition folded_op ::
  "op \<Rightarrow> op \<Rightarrow> string \<times> string \<Rightarrow> string \<times> string \<times> string \<Rightarrow> (string, int) dict \<Rightarrow> string list \<Rightarrow> op" where
  "folded_op x gm old roots sh names =
     (case old of (a, b) \<Rightarrow> case roots of (ra, rb, c) \<Rightarrow>
        (let g2 = strided_gemm gm ra rb c sh in
         if gemm_kind (o_kind x) \<noteq> None then
           upd (\<lambda>f. f\<lparr>folded := Some names, extra := without_variant (extra f)\<rparr>) g2
         else Op ((flds x)\<lparr>
             stage_shapes := (if has_key (stage_shapes (flds x)) ''a'' then AList.update ''a'' sh (stage_shapes (flds x))
                              else stage_shapes (flds x)),
             inputs := rev (remdups (rev (map (\<lambda>t. if t = b then rb else if t = a then ra else t) (o_ins x)))),
             op_kind := replace_first (''fused__'' @ o_kind gm @ ''__'') (''fused__'' @ o_kind g2 @ ''__'') (o_kind x),
             folded := Some names, extra := without_variant (extra (flds x))\<rparr>)
           (Some (g2 # tl (subs x)))))"

definition has_copy :: "graph \<Rightarrow> nat list \<Rightarrow> bool" where
  "has_copy g is = list_ex (\<lambda>i. o_kind (ops g ! i) \<in> copy_kinds) is"

definition copy_names :: "graph \<Rightarrow> nat list \<Rightarrow> string list" where
  "copy_names g is = map (\<lambda>i. o_name (ops g ! i)) (filter (\<lambda>i. o_kind (ops g ! i) \<in> copy_kinds) is)"

text \<open>An operand read through its copies, or as it is when no copy is on the way.\<close>

definition operand :: "draws \<Rightarrow> graph \<Rightarrow> string list \<Rightarrow> string \<Rightarrow> amap \<Rightarrow> (string \<times> amap \<times> nat list) run" where
  "operand rnd g outs t plain =
     (case source_map rnd g outs t of
        None \<Rightarrow> None
      | Some (Inl e) \<Rightarrow> Some (Inl e)
      | Some (Inr (root, m, chain)) \<Rightarrow>
          Some (Inr (if has_copy g chain then (root, m, chain) else (t, plain, []))))"

text \<open>The batch, the matrix sizes, the operands and the result of a bmm.\<close>

definition gemm_parts :: "op \<Rightarrow> layout_error + int \<times> (int \<times> int \<times> int) \<times> string \<times> string \<times> string" where
  "gemm_parts gm =
     (case shape (flds gm) of
        None \<Rightarrow> Inl (Missing_Key ''shape'')
      | Some sh \<Rightarrow>
          (case map_res (\<lambda>k. case map_of sh k of None \<Rightarrow> Inl (Missing_Key k) | Some v \<Rightarrow> Inr v)
                  [''batch'', ''M'', ''K'', ''N''] of
             Inl e \<Rightarrow> Inl e
           | Inr vs \<Rightarrow>
               (case o_ins gm of
                  a # b # _ \<Rightarrow>
                    (case o_outs gm of
                       [] \<Rightarrow> Inl (Malformed ''outputs'')
                     | c # _ \<Rightarrow> Inr (vs ! 0, (vs ! 1, vs ! 2, vs ! 3), a, b, c))
                | _ \<Rightarrow> Inl (Malformed ''inputs''))))"

definition fold_split ::
  "int \<Rightarrow> int \<times> int \<times> int \<Rightarrow> amap \<times> amap \<times> amap \<Rightarrow>
   layout_error + (int \<times> int option list \<times> int option list \<times> int option list) option" where
  "fold_split bt mkn maps =
     (case mkn of (M, K, N) \<Rightarrow> case maps of (am, bm, cm) \<Rightarrow>
        (case map_res (split_cands bt) [(am, M, K), (bm, K, N), (cm, M, N)] of
           Inl e \<Rightarrow> Inl e
         | Inr cs \<Rightarrow> pick_split bt mkn maps (rev (sorted_set (1 # concat cs)))))"

definition try_fold :: "draws \<Rightarrow> graph \<Rightarrow> string list \<Rightarrow> op \<Rightarrow> op \<Rightarrow> (op \<times> nat list) option run" where
  "try_fold rnd g outs x gm =
     (case gemm_parts gm of
        Inl e \<Rightarrow> Some (Inl e)
      | Inr (bt, (M, K, N), a, b, c) \<Rightarrow>
          (case operand rnd g outs a (natural bt M K) of
             None \<Rightarrow> None
           | Some (Inl e) \<Rightarrow> Some (Inl e)
           | Some (Inr (ra, am, as)) \<Rightarrow>
          (case operand rnd g outs b (natural bt K N) of
             None \<Rightarrow> None
           | Some (Inl e) \<Rightarrow> Some (Inl e)
           | Some (Inr (rb, bm, bs)) \<Rightarrow>
          (case (if gemm_kind (o_kind x) = None then Some (Inr None) else sink_map rnd g outs c) of
             None \<Rightarrow> None
           | Some (Inl e) \<Rightarrow> Some (Inl e)
           | Some (Inr sk) \<Rightarrow>
          (case (case sk of None \<Rightarrow> (c, natural bt M N, []) | Some s \<Rightarrow> s) of (rc, cm, cs) \<Rightarrow>
             (if as @ bs @ cs = [] then Some (Inr None)
              else case fold_split bt (M, K, N) (am, bm, cm) of
                Inl e \<Rightarrow> Some (Inl e)
              | Inr None \<Rightarrow> Some (Inr None)
              | Inr (Some sp) \<Rightarrow>
                  Some (Inr (Some (folded_op x gm (a, b) (ra, rb, rc) (strided_shape bt (M, K, N) (am, bm, cm) sp)
                                     (copy_names g (as @ bs @ cs)), as @ bs @ cs)))))))))"

section \<open>The fold loop\<close>

text \<open>The first op that folds; ops that read a copy and do not fold are reported as skipped.\<close>

definition reads_copy :: "graph \<Rightarrow> op \<Rightarrow> bool" where
  "reads_copy g x =
     list_ex (\<lambda>t. case map_of (prods g) t of None \<Rightarrow> False | Some i \<Rightarrow> o_kind (ops g ! i) \<in> copy_kinds) (o_ins x)"

fun scan_ops ::
  "draws \<Rightarrow> string list \<Rightarrow> graph \<Rightarrow> string list \<Rightarrow> (nat \<times> op) list \<Rightarrow> string list \<Rightarrow>
   (string list \<times> (nat \<times> op \<times> nat list) option) run" where
  "scan_ops rnd only g outs [] skipped = Some (Inr (skipped, None))"
| "scan_ops rnd only g outs ((i, x) # rest) skipped =
     (case gemm_of x of
        None \<Rightarrow> scan_ops rnd only g outs rest skipped
      | Some gm \<Rightarrow>
          (if only \<noteq> [] \<and> o_name x \<notin> set only then scan_ops rnd only g outs rest skipped
           else case try_fold rnd g outs x gm of
             None \<Rightarrow> None
           | Some (Inl e) \<Rightarrow> Some (Inl e)
           | Some (Inr None) \<Rightarrow>
               scan_ops rnd only g outs rest (if reads_copy g x then skipped @ [o_name x] else skipped)
           | Some (Inr (Some (new, dead))) \<Rightarrow> Some (Inr (skipped, Some (i, new, dead)))))"

definition replaced_ops :: "graph \<Rightarrow> nat \<Rightarrow> op \<Rightarrow> nat list \<Rightarrow> op list" where
  "replaced_ops g i new dead =
     (let names = map (\<lambda>j. o_name (ops g ! j)) dead in
      map (\<lambda>(j, x). if j = i then new else x)
        (filter (\<lambda>(j, x). o_name x \<notin> set names \<or> j = i) (enumerate 0 (ops g))))"

definition dead_tensors :: "graph \<Rightarrow> op \<Rightarrow> op \<Rightarrow> nat list \<Rightarrow> string list" where
  "dead_tensors g x new dead =
     filter (\<lambda>t. t \<notin> set (o_ins new) \<and> t \<notin> set (o_outs new)) (concat (map (\<lambda>j. o_outs (ops g ! j)) dead)) @
     (if sub_ops x = None \<and> take 1 (o_outs x) \<noteq> take 1 (o_outs new) then take 1 (o_outs x) else [])"

definition apply_fold :: "graph \<Rightarrow> nat \<Rightarrow> op \<Rightarrow> nat list \<Rightarrow> graph" where
  "apply_fold g i new dead =
     g\<lparr>ops := replaced_ops g i new dead,
       tensors := filter (\<lambda>(t, d). t \<notin> set (dead_tensors g (ops g ! i) new dead)) (tensors g)\<rparr>"

record 't fold_entry =
  fe_op :: string
  fe_copies :: "string list"
  fe_us :: 't
  fe_shape :: "(string, int) dict option"

record 't fold_report =
  fr_folded :: "'t fold_entry list"
  fr_skipped :: "string list"
  fr_removed :: 't

definition copies_us :: "(string, 't) dict \<Rightarrow> op \<Rightarrow> ('t::linordered_field)" where
  "copies_us us new = sum_list (map (\<lambda>n. get_or us n 0) (case folded (flds new) of None \<Rightarrow> [] | Some ns \<Rightarrow> ns))"

definition report_fold ::
  "('t \<Rightarrow> 't) \<Rightarrow> (string, 't) dict \<Rightarrow> op \<Rightarrow> op \<Rightarrow> string list \<Rightarrow> 't fold_report \<Rightarrow> ('t::linordered_field) fold_report" where
  "report_fold round1 us x new skipped rep =
     \<lparr>fr_folded = fr_folded rep @
        [\<lparr>fe_op = o_name x, fe_copies = (case folded (flds new) of None \<Rightarrow> [] | Some ns \<Rightarrow> ns),
          fe_us = round1 (copies_us us new), fe_shape = shape (flds new)\<rparr>],
      fr_skipped = skipped, fr_removed = fr_removed rep + copies_us us new\<rparr>"

partial_function (option) fold_loop ::
  "draws \<Rightarrow> ('t \<Rightarrow> 't) \<Rightarrow> (string, 't) dict \<Rightarrow> string list \<Rightarrow> graph \<Rightarrow> 't fold_report \<Rightarrow>
   (graph \<times> ('t::linordered_field) fold_report) run" where
  "fold_loop rnd round1 us only g rep =
     (case out_names g of
        Inl e \<Rightarrow> Some (Inl e)
      | Inr outs \<Rightarrow>
          (case scan_ops rnd only g outs (enumerate 0 (ops g)) (fr_skipped rep) of
             None \<Rightarrow> None
           | Some (Inl e) \<Rightarrow> Some (Inl e)
           | Some (Inr (skipped, None)) \<Rightarrow> Some (Inr (g, rep\<lparr>fr_skipped := skipped\<rparr>))
           | Some (Inr (skipped, Some (i, new, dead))) \<Rightarrow>
               fold_loop rnd round1 us only (apply_fold g i new dead) (report_fold round1 us (ops g ! i) new skipped rep)))"

declare fold_loop.simps [code]

definition fold_layout ::
  "draws \<Rightarrow> ('t \<Rightarrow> 't) \<Rightarrow> (string, 't) dict \<Rightarrow> string list \<Rightarrow> graph \<Rightarrow> (graph \<times> ('t::linordered_field) fold_report) run" where
  "fold_layout rnd round1 us only g =
     (case fold_loop rnd round1 us only g \<lparr>fr_folded = [], fr_skipped = [], fr_removed = 0\<rparr> of
        None \<Rightarrow> None
      | Some (Inl e) \<Rightarrow> Some (Inl e)
      | Some (Inr (g', rep)) \<Rightarrow> Some (Inr (g', rep\<lparr>fr_removed := round1 (fr_removed rep)\<rparr>)))"

section \<open>Hints\<close>

record 't layout_hint =
  lh_id :: string
  lh_kind :: string
  lh_target :: string
  lh_status :: string
  lh_by :: string
  lh_ir :: "string option"
  lh_gain_us :: 't
  lh_gain_pct :: 't
  lh_source_ops :: "string list"
  lh_ops :: "string list option"

text \<open>Worth trying when the copies it removes are a large enough share of the model's time.\<close>

definition propose_fold ::
  "draws \<Rightarrow> ('t \<Rightarrow> 't) \<Rightarrow> ('t \<Rightarrow> 't) \<Rightarrow> graph \<Rightarrow> (string, 't) dict \<Rightarrow> 't option \<Rightarrow> 't \<Rightarrow> string option \<Rightarrow>
   ('t::linordered_field) layout_hint list run" where
  "propose_fold rnd round1 round2 g us total_us min_gain ir =
     (case fold_layout rnd round1 us [] g of
        None \<Rightarrow> None
      | Some (Inl e) \<Rightarrow> Some (Inl e)
      | Some (Inr (g', rep)) \<Rightarrow>
          (let measured = sum_list (map snd us);
               total = (case total_us of Some t \<Rightarrow> if t \<noteq> 0 then t else if measured \<noteq> 0 then measured else 1
                                       | None \<Rightarrow> if measured \<noteq> 0 then measured else 1);
               pct = 100 * fr_removed rep / total;
               names = map fe_op (fr_folded rep) in
           Some (Inr (if fr_folded rep = [] \<or> pct < min_gain then []
                      else [\<lparr>lh_id = ''layout:fold_strided_gemm'', lh_kind = ''fold_layout'', lh_target = ''cuda'',
                             lh_status = ''proposed'', lh_by = ''mb-cost'', lh_ir = ir, lh_gain_us = fr_removed rep,
                             lh_gain_pct = round2 pct, lh_source_ops = names,
                             lh_ops = (if names = [] then None else Some names)\<rparr>]))))"

end
