(* ===== verification/Layout_Fold_Facts.thy ===== *)
theory Layout_Fold_Facts
  imports Layout_Fold Complex_Main
begin

text \<open>
  Folding copies into bmm operands deletes copies and views only, one bmm per step, and keeps every graph
  output produced. A fused group whose later stage reads the folded operand loses it.
\<close>

section \<open>The walks stay on copies and views\<close>

definition moves :: "op \<Rightarrow> bool" where
  "moves x = (o_kind x \<in> copy_kinds \<union> view_kinds)"

lemma prods_Some: "map_of (prods g) t = Some i \<Longrightarrow> i < length (ops g) \<and> t \<in> set (o_outs (ops g ! i))"
  by (auto simp: prods_def map_of_dict_of enumerate_eq_zip dest!: map_of_SomeD)
     (auto simp: in_set_zip)

lemma readers_of_less: "i \<in> set (readers_of g t) \<Longrightarrow> i < length (ops g) \<and> t \<in> set (o_ins (ops g ! i))"
  by (auto simp: readers_of_def enumerate_eq_zip) (auto simp: in_set_zip)

text \<open>A deleted op of a walk makes no graph output but possibly the walk's last tensor.\<close>

definition walked :: "graph \<Rightarrow> string list \<Rightarrow> string list \<Rightarrow> nat list \<Rightarrow> bool" where
  "walked g outs spare chain =
     (\<forall>i \<in> set chain. i < length (ops g) \<and> moves (ops g ! i) \<and>
        (\<forall>t. o_outs (ops g ! i) = [t] \<longrightarrow> t \<in> set outs \<longrightarrow> t \<in> set spare))"

lemma source_loop_walked:
  assumes "source_loop rnd g outs cur m chain = Some (Inr (rt, m', chain'))" "walked g outs [] chain"
  shows "walked g outs [] chain'"
proof -
  define P where "P = (\<lambda>(rnd :: draws) g outs (cur :: string) (m :: amap) chain (r :: layout_error + string \<times> amap \<times> nat list).
    case r of Inl e \<Rightarrow> True | Inr (rt, m', chain') \<Rightarrow> walked g outs [] chain \<longrightarrow> walked g outs [] chain')"
  have "P rnd g outs cur m chain (Inr (rt, m', chain'))"
  proof (rule source_loop.raw_induct [where P = P, OF _ assms(1)], goal_cases)
    case (1 f rnd g outs cur m chain r)
    consider (stop) "(\<exists>m c. r = Inr (c, m, chain)) \<or> (\<exists>e. r = Inl e)"
      | (on) i src nm where "map_of (prods g) cur = Some i" "moves (ops g ! i)" "cur \<notin> set outs"
          "f rnd g outs src nm (chain @ [i]) = Some r"
      using 1(2) by (auto simp: moves_def split: option.splits if_splits sum.splits prod.splits)
    then show ?case
    proof cases
      case stop
      then show ?thesis by (auto simp: P_def)
    next
      case on
      have "walked g outs [] chain \<Longrightarrow> walked g outs [] (chain @ [i])"
        using prods_Some [OF on(1)] on(2,3) by (auto simp: walked_def)
      with 1(1) [OF on(4)] show ?thesis by (auto simp: P_def split: sum.splits)
    qed
  qed
  with assms(2) show ?thesis by (simp add: P_def)
qed

lemma operand_walked:
  assumes "operand rnd g outs t plain = Some (Inr (rt, m, chain))"
  shows "walked g outs [] chain"
proof -
  from assms obtain rt' m' chain' where s: "source_map rnd g outs t = Some (Inr (rt', m', chain'))"
    and c: "chain = (if has_copy g chain' then chain' else [])"
    by (auto simp: operand_def split: option.splits sum.splits if_splits)
  have "walked g outs [] chain'" using s source_loop_walked [where chain = "[]"]
    by (auto simp: source_map_def walked_def split: sum.splits)
  moreover have "walked g outs [] []" by (simp add: walked_def)
  ultimately show ?thesis by (simp add: c)
qed

text \<open>Downwards every tensor but the last is read by one op and is no graph output.\<close>

definition sunk :: "graph \<Rightarrow> string list \<Rightarrow> string \<Rightarrow> string \<Rightarrow> nat list \<Rightarrow> bool" where
  "sunk g outs t cur chain = (walked g outs [cur] chain \<and> (chain = [] \<longrightarrow> cur = t) \<and> (chain \<noteq> [] \<longrightarrow> t \<notin> set outs))"

lemma walked_step:
  assumes "walked g outs [cur] chain" "cur \<notin> set outs" "i < length (ops g)" "moves (ops g ! i)" "o_outs (ops g ! i) = c # cs"
  shows "walked g outs [c] (chain @ [i])"
  using assms by (auto simp: walked_def)

lemma sink_loop_sunk:
  assumes "sink_loop g outs n cur chain best = Some (Inr (Some (final, chain')))"
    and "sunk g outs t cur chain" "\<And>f c. best = Some (f, c) \<Longrightarrow> c \<noteq> [] \<and> sunk g outs t f c"
  shows "chain' \<noteq> [] \<and> sunk g outs t final chain'"
proof -
  define ok where "ok = (\<lambda>g outs (b :: (string \<times> nat list) option). case b of None \<Rightarrow> True | Some (f, c) \<Rightarrow> c \<noteq> [] \<and> sunk g outs t f c)"
  define P where "P = (\<lambda>g outs (n :: int) cur chain best (r :: layout_error + (string \<times> nat list) option).
    case r of Inl e \<Rightarrow> True | Inr b \<Rightarrow> sunk g outs t cur chain \<longrightarrow> ok g outs best \<longrightarrow> ok g outs b)"
  have "P g outs n cur chain best (Inr (Some (final, chain')))"
  proof (rule sink_loop.raw_induct [where P = P, OF _ assms(1)], goal_cases)
    case (1 f g outs n cur chain best r)
    define i where "i = hd (readers_of g cur)"
    consider (stop) "r = Inr best \<or> (\<exists>e. r = Inl e)"
      | (on) c cs b where "length (readers_of g cur) = 1" "cur \<notin> set outs" "moves (ops g ! i)" "o_outs (ops g ! i) = c # cs"
          "b = best \<or> b = Some (c, chain @ [i])" "f g outs n c (chain @ [i]) b = Some r"
      using 1(2) unfolding i_def moves_def Let_def
      by (auto split: if_splits list.splits sum.splits prod.splits)
    then show ?case
    proof cases
      case stop
      then show ?thesis by (auto simp: P_def)
    next
      case on
      have "i \<in> set (readers_of g cur)" using on(1) by (cases "readers_of g cur") (auto simp: i_def)
      then have il: "i < length (ops g)" using readers_of_less by blast
      have s: "sunk g outs t cur chain \<Longrightarrow> sunk g outs t c (chain @ [i])"
        using walked_step [OF _ on(2) il on(3,4), of chain] on(2) by (auto simp: sunk_def)
      have "sunk g outs t cur chain \<Longrightarrow> ok g outs best \<Longrightarrow> ok g outs b" using on(5) s by (auto simp: ok_def)
      with s 1(1) [OF on(6)] show ?thesis by (auto simp: P_def split: sum.splits)
    qed
  qed
  moreover have "ok g outs best" using assms(3) by (auto simp: ok_def split: option.splits)
  ultimately show ?thesis using assms(2) by (simp add: P_def ok_def)
qed

lemma sink_map_sunk:
  assumes "sink_map rnd g outs t = Some (Inr (Some (final, w, chain)))"
  shows "sunk g outs t final chain"
proof -
  from assms obtain sh where s: "sink_loop g outs (prod_list sh) t [] None = Some (Inr (Some (final, chain)))"
    by (auto simp: sink_map_def split: option.splits sum.splits prod.splits)
  have "sunk g outs t t []" by (simp add: sunk_def walked_def)
  with sink_loop_sunk [OF s] show ?thesis by simp
qed

section \<open>One fold\<close>

lemma try_fold_parts:
  assumes "try_fold rnd g outs x gm = Some (Inr (Some (new, dead)))"
  shows "\<exists>bt mkn a b c ra rb rc sh names as bs cs.
    gemm_parts gm = Inr (bt, mkn, a, b, c) \<and> new = folded_op x gm (a, b) (ra, rb, rc) sh names \<and> dead = as @ bs @ cs \<and>
    walked g outs [] as \<and> walked g outs [] bs \<and>
    (if gemm_kind (o_kind x) = None then rc = c \<and> cs = [] else sunk g outs c rc cs)"
proof -
  obtain bt M K N a b c where gp: "gemm_parts gm = Inr (bt, (M, K, N), a, b, c)"
    using assms by (auto simp: try_fold_def split: sum.splits)
  obtain ra am as where oa: "operand rnd g outs a (natural bt M K) = Some (Inr (ra, am, as))"
    using assms gp by (auto simp: try_fold_def split: sum.splits option.splits)
  obtain rb bm bs where ob: "operand rnd g outs b (natural bt K N) = Some (Inr (rb, bm, bs))"
    using assms gp oa by (auto simp: try_fold_def split: sum.splits option.splits)
  obtain sk where sk: "(if gemm_kind (o_kind x) = None then Some (Inr None) else sink_map rnd g outs c) = Some (Inr sk)"
    using assms gp oa ob by (auto simp: try_fold_def split: sum.splits option.splits)
  obtain rc cm cs where c3: "(case sk of None \<Rightarrow> (c, natural bt M N, []) | Some s \<Rightarrow> s) = (rc, cm, cs)"
    by (metis prod_cases3)
  have run: "try_fold rnd g outs x gm =
      (if as @ bs @ cs = [] then Some (Inr None)
       else case fold_split bt (M, K, N) (am, bm, cm) of
         Inl e \<Rightarrow> Some (Inl e)
       | Inr None \<Rightarrow> Some (Inr None)
       | Inr (Some sp) \<Rightarrow>
           Some (Inr (Some (folded_op x gm (a, b) (ra, rb, rc) (strided_shape bt (M, K, N) (am, bm, cm) sp)
                              (copy_names g (as @ bs @ cs)), as @ bs @ cs))))"
    by (simp only: try_fold_def gp oa ob sk c3 sum.case option.case prod.case)
  have ne: "as @ bs @ cs \<noteq> []"
  proof
    assume "as @ bs @ cs = []"
    then have "try_fold rnd g outs x gm = Some (Inr None)" unfolding run by (rule if_P)
    with assms show False by simp
  qed
  note run' = run [unfolded if_not_P [OF ne]]
  obtain sp where fs: "fold_split bt (M, K, N) (am, bm, cm) = Inr (Some sp)"
  proof (cases "fold_split bt (M, K, N) (am, bm, cm)")
    case (Inl e)
    with run' assms have False by simp
    then show ?thesis by simp
  next
    case (Inr opt)
    then show ?thesis
    proof (cases opt)
      case None
      with Inr run' assms have False by simp
      then show ?thesis by simp
    next
      case (Some sp)
      with Inr that show ?thesis by simp
    qed
  qed
  have "Some (Inr (Some (folded_op x gm (a, b) (ra, rb, rc) (strided_shape bt (M, K, N) (am, bm, cm) sp)
      (copy_names g (as @ bs @ cs)), as @ bs @ cs))) = try_fold rnd g outs x gm"
    unfolding run' fs by (simp only: sum.case option.case)
  from trans [OF this assms] have "(folded_op x gm (a, b) (ra, rb, rc) (strided_shape bt (M, K, N) (am, bm, cm) sp)
      (copy_names g (as @ bs @ cs)), as @ bs @ cs) = (new, dead)" by (simp only: option.inject sum.inject)
  note r = this [THEN arg_cong [where f = fst], symmetric, unfolded fst_conv]
    this [THEN arg_cong [where f = snd], symmetric, unfolded snd_conv]
  have fin: "if gemm_kind (o_kind x) = None then rc = c \<and> cs = [] else sunk g outs c rc cs"
  proof (cases sk)
    case None
    with c3 have "rc = c \<and> cs = []" by simp
    moreover have "sunk g outs c c []" by (simp add: sunk_def walked_def)
    ultimately show ?thesis by simp
  next
    case (Some s)
    with c3 have s: "s = (rc, cm, cs)" by simp
    show ?thesis
    proof (cases "gemm_kind (o_kind x) = None")
      case True
      with sk Some show ?thesis by simp
    next
      case False
      with sk Some s have "sink_map rnd g outs c = Some (Inr (Some (rc, cm, cs)))" by simp
      with sink_map_sunk [OF this] show ?thesis by (simp only: False if_False)
    qed
  qed
  show ?thesis
    by ((rule exI)+, intro conjI, rule gp, rule r(1), rule r(2), rule operand_walked [OF oa],
        rule operand_walked [OF ob], rule fin)
qed

lemma gemm_of_cases:
  assumes "gemm_of x = Some gm"
  obtains "gemm_kind (o_kind x) \<noteq> None" "gm = x"
    | rest where "gemm_kind (o_kind x) = None" "subs x = gm # rest" "gemm_kind (o_kind gm) \<noteq> None"
  using assms by (auto simp: gemm_of_def split: if_splits list.splits)

lemma gemm_kind_Some: "gemm_kind k = Some k' \<Longrightarrow> k \<in> {''bmm'', ''bmm_f16''} \<and> k' \<in> {''bmm_strided'', ''bmm_strided_f16''}"
  by (auto simp: gemm_kind_def split: if_splits)

definition kinds_at_hand :: "string list" where
  "kinds_at_hand = [''bmm'', ''bmm_f16'', ''strided_copy'', ''strided_copy_f16'', ''view'']"

lemma short_kinds:
  assumes "gemm_kind k \<noteq> None \<or> k \<in> copy_kinds \<union> view_kinds"
  shows "length k < 20"
proof -
  have "list_all (\<lambda>k. length k < 20) kinds_at_hand" by code_simp
  moreover have "k \<in> set kinds_at_hand"
    using assms gemm_kind_Some [of k] unfolding kinds_at_hand_def list.set copy_kinds_def view_kinds_def by blast
  ultimately show ?thesis unfolding list_all_iff by blast
qed

lemma replace_first_cases: "replace_first p q s = s \<or> length q \<le> length (replace_first p q s)"
  by (induction p q s rule: replace_first.induct) auto

lemma folded_op_name [simp]:
  assumes "gemm_of x = Some gm"
  shows "o_name (folded_op x gm old roots sh names) = o_name x"
  using assms
  by (cases rule: gemm_of_cases [OF assms]) (auto simp: folded_op_def strided_gemm_def Let_def split: prod.splits)

text \<open>The new op is no bmm any more and no copy or view.\<close>

definition plain_gemms :: "op list \<Rightarrow> bool" where
  "plain_gemms xs =
     list_all (\<lambda>x. (gemm_kind (o_kind x) \<noteq> None \<longrightarrow> subs x = []) \<and> (moves x \<longrightarrow> gemm_of x = None)) xs"

lemma folded_op_kind:
  assumes "gemm_of x = Some gm" "\<not> moves x" "gemm_kind (o_kind x) \<noteq> None \<longrightarrow> subs x = []"
  shows "gemm_of (folded_op x gm old roots sh names) = None \<and> \<not> moves (folded_op x gm old roots sh names)"
proof -
  obtain a b ra rb rc where t: "old = (a, b)" "roots = (ra, rb, rc)" by (metis prod_cases3 surj_pair)
  from assms(1) show ?thesis
  proof (cases rule: gemm_of_cases)
    case 1
    then obtain k where k: "gemm_kind (o_kind x) = Some k" by blast
    from gemm_kind_Some [OF k] have "gemm_kind k = None" "k \<notin> copy_kinds \<union> view_kinds"
      by (auto simp: gemm_kind_def copy_kinds_def view_kinds_def)
    with 1 k assms(3) show ?thesis
      by (simp add: t folded_op_def strided_gemm_def Let_def gemm_of_def moves_def)
  next
    case (2 rest)
    then obtain k where k: "gemm_kind (o_kind gm) = Some k" by blast
    define k' where "k' = replace_first (''fused__'' @ o_kind gm @ ''__'') (''fused__'' @ k @ ''__'') (o_kind x)"
    have ks: "k \<in> {''bmm_strided'', ''bmm_strided_f16''}" using gemm_kind_Some [OF k] by blast
    then have kn: "gemm_kind k = None" by (auto simp: gemm_kind_def)
    have "20 \<le> length (''fused__'' @ k @ ''__'')" using ks by (elim insertE emptyE) simp_all
    then have "k' = o_kind x \<or> 20 \<le> length k'"
      using replace_first_cases [of "''fused__'' @ o_kind gm @ ''__''" "''fused__'' @ k @ ''__''" "o_kind x"]
      by (auto simp: k'_def)
    then have "gemm_kind k' = None \<and> k' \<notin> copy_kinds \<union> view_kinds"
    proof
      assume "k' = o_kind x"
      then show ?thesis using 2(1) assms(2) by (simp add: moves_def)
    next
      assume "20 \<le> length k'"
      with short_kinds [of k'] show ?thesis by (meson leD)
    qed
    with 2 k kn show ?thesis
      by (simp add: t folded_op_def strided_gemm_def Let_def gemm_of_def moves_def subs_def k'_def)
  qed
qed

text \<open>The outputs of the new op: those of a fused group, the folded result of a single bmm.\<close>

lemma folded_op_outs:
  assumes "gemm_of x = Some gm"
  shows "o_outs (folded_op x gm old (ra, rb, rc) sh names) = (if gemm_kind (o_kind x) = None then o_outs x else [rc])"
  using assms
  by (cases rule: gemm_of_cases [OF assms]) (auto simp: folded_op_def strided_gemm_def Let_def split: prod.splits)

section \<open>The ops after a fold\<close>

definition made :: "op list \<Rightarrow> string set" where
  "made xs = (\<Union>x \<in> set xs. set (o_outs x))"

lemma in_enumerate: "(j, x) \<in> set (enumerate 0 xs) \<longleftrightarrow> j < length xs \<and> x = xs ! j"
  by (auto simp: in_set_enumerate_eq)

lemma in_replaced_ops:
  assumes "i < length (ops g)"
  shows "y \<in> set (replaced_ops g i new dead) \<longleftrightarrow>
    y = new \<or> (\<exists>j < length (ops g). j \<noteq> i \<and> y = ops g ! j \<and> o_name y \<notin> (\<lambda>k. o_name (ops g ! k)) ` set dead)"
proof -
  define names where "names = (\<lambda>k. o_name (ops g ! k)) ` set dead"
  have "y \<in> set (replaced_ops g i new dead) \<longleftrightarrow>
      (\<exists>j x. (j, x) \<in> set (enumerate 0 (ops g)) \<and> (o_name x \<notin> names \<or> j = i) \<and> y = (if j = i then new else x))"
    by (force simp: replaced_ops_def Let_def names_def image_iff)
  also have "\<dots> \<longleftrightarrow> y = new \<or> (\<exists>j < length (ops g). j \<noteq> i \<and> y = ops g ! j \<and> o_name y \<notin> names)"
    unfolding in_enumerate using assms by auto
  finally show ?thesis by (simp add: names_def)
qed

lemma names_replaced_ops:
  assumes "o_name new = o_name (ops g ! i)"
  shows "subseq (map o_name (replaced_ops g i new dead)) (map o_name (ops g))"
proof -
  have "map o_name (replaced_ops g i new dead) =
      map (\<lambda>(j, x). o_name x) (filter (\<lambda>(j, x). o_name x \<notin> set (map (\<lambda>j. o_name (ops g ! j)) dead) \<or> j = i) (enumerate 0 (ops g)))"
    unfolding replaced_ops_def Let_def map_map
    by (rule map_cong [OF refl]) (use assms in \<open>auto simp: in_enumerate\<close>)
  moreover have "map (\<lambda>(j, x). o_name x) (enumerate 0 (ops g)) = map o_name (ops g)"
    by (rule nth_equalityI) (auto simp: nth_enumerate_eq)
  ultimately show ?thesis by (metis subseq_filter_left subseq_map)
qed

text \<open>What a fold assumes of a graph: unique names, single results of the ops it may delete, no bmm inside a bmm.\<close>

definition foldable :: "graph \<Rightarrow> bool" where
  "foldable g = (distinct (map o_name (ops g)) \<and> plain_gemms (ops g) \<and>
     list_all (\<lambda>x. moves x \<or> gemm_kind (o_kind x) \<noteq> None \<longrightarrow> length (o_outs x) = 1) (ops g))"

definition gemm_count :: "graph \<Rightarrow> nat" where
  "gemm_count g = length (filter (\<lambda>x. gemm_of x \<noteq> None) (ops g))"

definition staying :: "graph \<Rightarrow> string list" where
  "staying g = map o_name (filter (\<lambda>x. \<not> moves x) (ops g))"

lemma filter_snd: "map snd (filter (\<lambda>(j, y). P y) zs) = filter P (map snd zs)"
  by (induction zs) auto

text \<open>A step of the loop, at position \<open>i\<close>.\<close>

definition folds_at :: "graph \<Rightarrow> string list \<Rightarrow> nat \<Rightarrow> op \<Rightarrow> nat list \<Rightarrow> bool" where
  "folds_at g outs i new dead =
     (i < length (ops g) \<and> (\<exists>rnd gm. gemm_of (ops g ! i) = Some gm \<and>
        try_fold rnd g outs (ops g ! i) gm = Some (Inr (Some (new, dead)))))"

lemma filter_pair_cong:
  "(\<And>j y. (j, y) \<in> set zs \<Longrightarrow> P j y = Q j y) \<Longrightarrow> filter (\<lambda>(j, y). P j y) zs = filter (\<lambda>(j, y). Q j y) zs"
  by (rule filter_cong) auto

lemma map_pair_cong:
  "(\<And>j y. (j, y) \<in> set zs \<Longrightarrow> f j y = h j y) \<Longrightarrow> map (\<lambda>(j, y). f j y) zs = map (\<lambda>(j, y). h j y) zs"
  by (rule map_cong) auto

lemma still:
  assumes "foldable g" "folds_at g outs i new dead"
  shows "\<not> moves (ops g ! i)" "gemm_kind (o_kind (ops g ! i)) \<noteq> None \<longrightarrow> subs (ops g ! i) = []"
  using assms by (auto simp: foldable_def plain_gemms_def list_all_length folds_at_def)

lemma new_facts:
  assumes "foldable g" "folds_at g outs i new dead"
  shows "o_name new = o_name (ops g ! i)" "gemm_of new = None" "\<not> moves new"
proof -
  from assms(2) obtain rnd gm where gm: "gemm_of (ops g ! i) = Some gm"
    and tf: "try_fold rnd g outs (ops g ! i) gm = Some (Inr (Some (new, dead)))" by (auto simp: folds_at_def)
  from try_fold_parts [OF tf] obtain old roots sh names where n: "new = folded_op (ops g ! i) gm old roots sh names" by blast
  show "o_name new = o_name (ops g ! i)" unfolding n by (rule folded_op_name [OF gm])
  show "gemm_of new = None" "\<not> moves new" using folded_op_kind [OF gm still [OF assms]] unfolding n by blast+
qed

lemma fold_walks:
  assumes "folds_at g outs i new dead"
  obtains as bs cs c rc gm where "dead = as @ bs @ cs" "walked g outs [] as" "walked g outs [] bs" "walked g outs [rc] cs"
    "gemm_of (ops g ! i) = Some gm" "\<exists>ts. o_outs gm = c # ts" "cs = [] \<longrightarrow> rc = c" "cs \<noteq> [] \<longrightarrow> c \<notin> set outs"
    "o_outs new = (if gemm_kind (o_kind (ops g ! i)) = None then o_outs (ops g ! i) else [rc])"
    "gemm_kind (o_kind (ops g ! i)) = None \<longrightarrow> cs = []"
proof -
  from assms obtain rnd gm where gm: "gemm_of (ops g ! i) = Some gm"
    and tf: "try_fold rnd g outs (ops g ! i) gm = Some (Inr (Some (new, dead)))" by (auto simp: folds_at_def)
  from try_fold_parts [OF tf] obtain bt mkn a b c ra rb rc sh names as bs cs where
    gp: "gemm_parts gm = Inr (bt, mkn, a, b, c)" and n: "new = folded_op (ops g ! i) gm (a, b) (ra, rb, rc) sh names"
    and d: "dead = as @ bs @ cs" "walked g outs [] as" "walked g outs [] bs"
      "if gemm_kind (o_kind (ops g ! i)) = None then rc = c \<and> cs = [] else sunk g outs c rc cs" by blast
  have c: "\<exists>ts. o_outs gm = c # ts" using gp by (auto simp: gemm_parts_def split: option.splits sum.splits list.splits)
  have w: "walked g outs [rc] cs" "cs = [] \<longrightarrow> rc = c" "cs \<noteq> [] \<longrightarrow> c \<notin> set outs"
    "gemm_kind (o_kind (ops g ! i)) = None \<longrightarrow> cs = []"
    using d(4) by (auto simp: sunk_def walked_def split: if_splits)
  have outs: "o_outs new = (if gemm_kind (o_kind (ops g ! i)) = None then o_outs (ops g ! i) else [rc])"
    unfolding n by (rule folded_op_outs [OF gm])
  show thesis by (rule that [OF d(1-3) w(1) gm c w(2,3) outs w(4)])
qed

lemma dead_moves:
  assumes "folds_at g outs i new dead" "j \<in> set dead"
  shows "j < length (ops g) \<and> moves (ops g ! j)"
proof -
  from assms(1) obtain as bs cs c rc gm where d: "dead = as @ bs @ cs" "walked g outs [] as" "walked g outs [] bs"
    "walked g outs [rc] cs" by (rule fold_walks)
  with assms(2) show ?thesis by (auto simp: walked_def)
qed

lemma dead_names:
  assumes ok: "foldable g" and at: "folds_at g outs i new dead" and "j < length (ops g)"
  shows "o_name (ops g ! j) \<in> (\<lambda>k. o_name (ops g ! k)) ` set dead \<longleftrightarrow> j \<in> set dead"
proof
  assume "o_name (ops g ! j) \<in> (\<lambda>k. o_name (ops g ! k)) ` set dead"
  then obtain k where k: "k \<in> set dead" "o_name (ops g ! j) = o_name (ops g ! k)" by blast
  have "distinct (map o_name (ops g))" using ok by (simp add: foldable_def)
  then have "j = k" using k(2) assms(3) dead_moves [OF at k(1)] by (auto simp: distinct_conv_nth)
  with k show "j \<in> set dead" by simp
qed blast

lemma staying_apply:
  assumes ok: "foldable g" and at: "folds_at g outs i new dead"
  shows "staying (apply_fold g i new dead) = staying g"
proof -
  define D where "D = (\<lambda>k. o_name (ops g ! k)) ` set dead"
  have keep: "\<not> moves y \<longleftrightarrow> (o_name y \<notin> D \<or> j = i) \<and> \<not> moves (if j = i then new else y)"
    if "(j, y) \<in> set (enumerate 0 (ops g))" for j y
  proof -
    from that have j: "j < length (ops g)" "y = ops g ! j" by (simp_all add: in_enumerate)
    show ?thesis
    proof (cases "j = i")
      case True
      with j still(1) [OF ok at] new_facts(3) [OF ok at] show ?thesis by simp
    next
      case False
      with dead_names [OF ok at j(1)] dead_moves [OF at, of j] j(2) show ?thesis unfolding D_def by auto
    qed
  qed
  have "staying (apply_fold g i new dead) =
      map (\<lambda>(j, y). o_name (if j = i then new else y))
        (filter (\<lambda>(j, y). (o_name y \<notin> D \<or> j = i) \<and> \<not> moves (if j = i then new else y)) (enumerate 0 (ops g)))"
    by (simp add: staying_def apply_fold_def replaced_ops_def Let_def filter_map comp_def D_def case_prod_beta
        conj_commute cong: filter_cong)
  also have "\<dots> = map (\<lambda>(j, y). o_name y)
      (filter (\<lambda>(j, y). (o_name y \<notin> D \<or> j = i) \<and> \<not> moves (if j = i then new else y)) (enumerate 0 (ops g)))"
    by (rule map_pair_cong) (use new_facts(1) [OF ok at] in \<open>auto simp: in_enumerate\<close>)
  also have "filter (\<lambda>(j, y). (o_name y \<notin> D \<or> j = i) \<and> \<not> moves (if j = i then new else y)) (enumerate 0 (ops g)) =
      filter (\<lambda>(j, y). \<not> moves y) (enumerate 0 (ops g))"
    by (rule filter_pair_cong) (rule keep [symmetric])
  also have "map (\<lambda>(j, y). o_name y) \<dots> = map o_name (map snd (filter (\<lambda>(j, y). \<not> moves y) (enumerate 0 (ops g))))"
    by (simp add: case_prod_beta comp_def)
  also have "map snd (filter (\<lambda>(j, y). \<not> moves y) (enumerate 0 (ops g))) = filter (\<lambda>y. \<not> moves y) (map snd (enumerate 0 (ops g)))"
    by (rule filter_snd)
  finally show ?thesis by (simp add: staying_def)
qed

lemma gemm_count_apply:
  assumes ok: "foldable g" and at: "folds_at g outs i new dead"
  shows "Suc (gemm_count (apply_fold g i new dead)) = gemm_count g"
proof -
  define D where "D = (\<lambda>k. o_name (ops g ! k)) ` set dead"
  have keep: "(o_name y \<notin> D \<or> j = i) \<and> gemm_of (if j = i then new else y) \<noteq> None \<longleftrightarrow> gemm_of y \<noteq> None \<and> j \<noteq> i"
    if "(j, y) \<in> set (enumerate 0 (ops g))" for j y
  proof -
    from that have j: "j < length (ops g)" "y = ops g ! j" by (simp_all add: in_enumerate)
    have "moves y \<Longrightarrow> gemm_of y = None" using ok j by (auto simp: foldable_def plain_gemms_def list_all_length)
    with dead_names [OF ok at j(1)] dead_moves [OF at, of j] j(2) new_facts(2) [OF ok at] show ?thesis unfolding D_def by auto
  qed
  have "gemm_count (apply_fold g i new dead) =
      length (filter (\<lambda>(j, y). (o_name y \<notin> D \<or> j = i) \<and> gemm_of (if j = i then new else y) \<noteq> None) (enumerate 0 (ops g)))"
    by (simp add: gemm_count_def apply_fold_def replaced_ops_def Let_def filter_map comp_def D_def case_prod_beta
        conj_commute cong: filter_cong)
  also have "filter (\<lambda>(j, y). (o_name y \<notin> D \<or> j = i) \<and> gemm_of (if j = i then new else y) \<noteq> None) (enumerate 0 (ops g)) =
      filter (\<lambda>(j, y). gemm_of y \<noteq> None \<and> j \<noteq> i) (enumerate 0 (ops g))"
    by (rule filter_pair_cong [OF keep])
  also have "length \<dots> = card ({j. j < length (ops g) \<and> gemm_of (ops g ! j) \<noteq> None} - {i})"
    by (subst length_filter_conv_card) (rule arg_cong [where f = card], auto simp: nth_enumerate_eq)
  finally have c: "gemm_count (apply_fold g i new dead) = card ({j. j < length (ops g) \<and> gemm_of (ops g ! j) \<noteq> None} - {i})" .
  have "i \<in> {j. j < length (ops g) \<and> gemm_of (ops g ! j) \<noteq> None}" using at by (auto simp: folds_at_def)
  from card_Suc_Diff1 [OF _ this] have "Suc (card ({j. j < length (ops g) \<and> gemm_of (ops g ! j) \<noteq> None} - {i})) =
      card {j. j < length (ops g) \<and> gemm_of (ops g ! j) \<noteq> None}" by simp
  also have "\<dots> = gemm_count g" by (simp only: gemm_count_def length_filter_conv_card)
  finally show ?thesis by (simp only: c)
qed

lemma outputs_apply:
  assumes ok: "foldable g" and at: "folds_at g outs i new dead"
  shows "set outs \<inter> made (ops g) \<subseteq> made (ops (apply_fold g i new dead))"
proof
  fix t assume "t \<in> set outs \<inter> made (ops g)"
  then obtain y where t: "t \<in> set outs" and y: "y \<in> set (ops g)" "t \<in> set (o_outs y)" by (auto simp: made_def)
  then obtain j where j: "j < length (ops g)" "t \<in> set (o_outs (ops g ! j))" by (metis in_set_conv_nth)
  from at obtain as bs cs c rc gm where w: "dead = as @ bs @ cs" "walked g outs [] as" "walked g outs [] bs"
    "walked g outs [rc] cs" "gemm_of (ops g ! i) = Some gm" "\<exists>ts. o_outs gm = c # ts" "cs = [] \<longrightarrow> rc = c"
    "cs \<noteq> [] \<longrightarrow> c \<notin> set outs" "o_outs new = (if gemm_kind (o_kind (ops g ! i)) = None then o_outs (ops g ! i) else [rc])"
    "gemm_kind (o_kind (ops g ! i)) = None \<longrightarrow> cs = []" by (rule fold_walks)
  have i: "i < length (ops g)" using at by (simp add: folds_at_def)
  have single: "o_outs (ops g ! k) = [s]" if "k < length (ops g)" "s \<in> set (o_outs (ops g ! k))"
    "moves (ops g ! k) \<or> gemm_kind (o_kind (ops g ! k)) \<noteq> None" for k s
    using ok that by (auto simp: foldable_def list_all_length length_Suc_conv)
  have new: "new \<in> set (ops (apply_fold g i new dead))" by (simp add: apply_fold_def in_replaced_ops [OF i])
  show "t \<in> made (ops (apply_fold g i new dead))"
  proof (cases "j \<in> set dead \<and> j \<noteq> i")
    case True
    with dead_moves [OF at] j single have one: "o_outs (ops g ! j) = [t]" by blast
    from True w(1-4) one t have "j \<in> set cs \<and> t = rc" by (auto simp: walked_def)
    then have "t \<in> set (o_outs new)" using w(9,10) by auto
    with new show ?thesis by (auto simp: made_def)
  next
    case stays: False
    show ?thesis
    proof (cases "j = i")
      case True
      have "t \<in> set (o_outs new)"
      proof (cases "gemm_kind (o_kind (ops g ! i)) = None")
        case fused: True
        with w(9) j True show ?thesis by simp
      next
        case False
        with w(5) have "gm = ops g ! i" by (simp add: gemm_of_def)
        moreover have "o_outs (ops g ! i) = [t]" using single [OF i] j True False by simp
        ultimately have "t = c" using w(6) by auto
        with w(7,8) t have "rc = t" by auto
        with w(9) False show ?thesis by simp
      qed
      with new show ?thesis by (auto simp: made_def)
    next
      case False
      with stays dead_names [OF ok at j(1)] have "o_name (ops g ! j) \<notin> (\<lambda>k. o_name (ops g ! k)) ` set dead" by blast
      with False j have "ops g ! j \<in> set (ops (apply_fold g i new dead))"
        by (auto simp: apply_fold_def in_replaced_ops [OF i])
      with j(2) show ?thesis by (auto simp: made_def)
    qed
  qed
qed

lemma distinct_subseq: "subseq xs ys \<Longrightarrow> distinct ys \<Longrightarrow> distinct xs"
  by (induction rule: list_emb.induct) (auto elim: list_emb_set)

lemma foldable_apply:
  assumes ok: "foldable g" and at: "folds_at g outs i new dead"
  shows "foldable (apply_fold g i new dead) \<and> subseq (map o_name (ops (apply_fold g i new dead))) (map o_name (ops g))"
proof -
  have i: "i < length (ops g)" using at by (simp add: folds_at_def)
  note n = new_facts [OF ok at]
  have s: "subseq (map o_name (ops (apply_fold g i new dead))) (map o_name (ops g))"
    using names_replaced_ops [OF n(1), of dead] by (simp add: apply_fold_def)
  have "distinct (map o_name (ops (apply_fold g i new dead)))"
    by (rule distinct_subseq [OF s]) (use ok in \<open>simp add: foldable_def\<close>)
  moreover have "gemm_kind (o_kind new) = None" using n(2) by (auto simp: gemm_of_def split: if_splits)
  then have "plain_gemms (ops (apply_fold g i new dead))" and
    "list_all (\<lambda>x. moves x \<or> gemm_kind (o_kind x) \<noteq> None \<longrightarrow> length (o_outs x) = 1) (ops (apply_fold g i new dead))"
    using ok n(2,3) by (auto simp: apply_fold_def in_replaced_ops [OF i] list_all_iff plain_gemms_def foldable_def)
  ultimately show ?thesis using s by (simp add: foldable_def)
qed

section \<open>The loop\<close>

lemma scan_hit:
  assumes "scan_ops rnd only g outs ixs sk = Some (Inr (sk', Some (i, new, dead)))"
  shows "\<exists>x gm. (i, x) \<in> set ixs \<and> gemm_of x = Some gm \<and> try_fold rnd g outs x gm = Some (Inr (Some (new, dead)))"
  using assms
proof (induction ixs arbitrary: sk)
  case (Cons jx rest)
  obtain j x where jx: "jx = (j, x)" by fastforce
  show ?case
  proof (cases "\<exists>sk. scan_ops rnd only g outs rest sk = Some (Inr (sk', Some (i, new, dead)))")
    case True
    with Cons.IH show ?thesis by fastforce
  next
    case False
    with Cons.prems show ?thesis by (auto simp: jx split: option.splits if_splits sum.splits prod.splits)
  qed
qed simp

lemma fold_loop_rule:
  assumes "fold_loop rnd round1 us only g rep = Some (Inr (g', rep'))" "Q g (length (fr_folded rep))"
    and "\<And>g n outs i new dead. Q g n \<Longrightarrow> out_names g = Inr outs \<Longrightarrow> folds_at g outs i new dead \<Longrightarrow>
           Q (apply_fold g i new dead) (Suc n)"
  shows "Q g' (length (fr_folded rep'))"
proof -
  define P where "P = (\<lambda>(rnd :: draws) (round1 :: 'a \<Rightarrow> 'a) (us :: (string, 'a) dict) (only :: string list) g (rep :: 'a fold_report)
      (r :: layout_error + graph \<times> 'a fold_report).
    case r of Inl e \<Rightarrow> True | Inr (g', rep') \<Rightarrow> Q g (length (fr_folded rep)) \<longrightarrow> Q g' (length (fr_folded rep')))"
  have "P rnd round1 us only g rep (Inr (g', rep'))"
  proof (rule fold_loop.raw_induct [where P = P, OF _ assms(1)], goal_cases)
    case (1 f rnd round1 us only g rep r)
    consider (stop) sk where "r = Inr (g, rep\<lparr>fr_skipped := sk\<rparr>)" | (err) e where "r = Inl e"
      | (on) outs sk i new dead where "out_names g = Inr outs"
          "scan_ops rnd only g outs (enumerate 0 (ops g)) (fr_skipped rep) = Some (Inr (sk, Some (i, new, dead)))"
          "f rnd round1 us only (apply_fold g i new dead) (report_fold round1 us (ops g ! i) new sk rep) = Some r"
      using 1(2) by (auto split: sum.splits option.splits prod.splits)
    then show ?case
    proof cases
      case on
      from scan_hit [OF on(2)] obtain x gm where x: "(i, x) \<in> set (enumerate 0 (ops g))" "gemm_of x = Some gm"
        "try_fold rnd g outs x gm = Some (Inr (Some (new, dead)))" by blast
      then have "folds_at g outs i new dead" by (auto simp: folds_at_def in_enumerate)
      from assms(3) [OF _ on(1) this] 1(1) [OF on(3)] show ?thesis
        by (auto simp: P_def report_fold_def split: sum.splits)
    qed (auto simp: P_def)
  qed
  with assms(2) show ?thesis by (simp add: P_def)
qed

definition fold_inv :: "graph \<Rightarrow> string list \<Rightarrow> graph \<Rightarrow> nat \<Rightarrow> bool" where
  "fold_inv g0 outs g n =
     (foldable g \<and> out_names g = Inr outs \<and> subseq (map o_name (ops g)) (map o_name (ops g0)) \<and> staying g = staying g0 \<and>
      n + gemm_count g = gemm_count g0 \<and> set outs \<inter> made (ops g0) \<subseteq> made (ops g))"

lemma out_names_apply: "out_names (apply_fold g i new dead) = out_names g"
  by (simp add: out_names_def apply_fold_def)

lemma fold_layout_inv:
  assumes "fold_layout rnd round1 us only g = Some (Inr (g', rep))" "foldable g" "out_names g = Inr outs"
  shows "fold_inv g outs g' (length (fr_folded rep))"
proof -
  from assms(1) obtain rep0 where l: "fold_loop rnd round1 us only g \<lparr>fr_folded = [], fr_skipped = [], fr_removed = 0\<rparr> =
      Some (Inr (g', rep0))" and r: "fr_folded rep = fr_folded rep0"
    by (auto simp: fold_layout_def split: option.splits sum.splits prod.splits)
  have "fold_inv g outs g' (length (fr_folded rep0))"
  proof (rule fold_loop_rule [where Q = "fold_inv g outs", OF l])
    show "fold_inv g outs g (length (fr_folded \<lparr>fr_folded = [], fr_skipped = [], fr_removed = 0\<rparr>))"
      using assms(2,3) by (simp add: fold_inv_def)
  next
    fix h n outs' i new dead
    assume inv: "fold_inv g outs h n" and o: "out_names h = Inr outs'" and at: "folds_at h outs' i new dead"
    from inv o have outs: "outs' = outs" by (simp add: fold_inv_def)
    have ok: "foldable h" using inv by (simp add: fold_inv_def)
    note step = foldable_apply [OF ok at] staying_apply [OF ok at] gemm_count_apply [OF ok at] outputs_apply [OF ok at]
    have "out_names (apply_fold h i new dead) = Inr outs" 
      using o outs by (simp add: out_names_apply)
    with inv step show "fold_inv g outs (apply_fold h i new dead) (Suc n)"
      unfolding fold_inv_def outs by (auto intro: subseq_order.order_trans)
  qed
  with r show ?thesis by simp
qed


text \<open>
  Every entry of the report is one bmm turned into its strided form, so a fold makes at most as many
  rewrites as the graph has bmms.
\<close>
theorem fold_rewrites_bounded:
  assumes "fold_layout rnd round1 us only g = Some (Inr (g', rep))" "foldable g" "out_names g = Inr outs"
  shows "length (fr_folded rep) + gemm_count g' = gemm_count g"
  using fold_layout_inv [OF assms] by (simp add: fold_inv_def)

section \<open>Concrete graphs\<close>

definition copy_shape :: "dims \<Rightarrow> (string, int) dict" where
  "copy_shape ds =
     concat (map (\<lambda>i. let d = (if i < length ds then ds ! i else (1, 0)) in
                     [(''d'' @ str_nat i, fst d), (''s'' @ str_nat i, snd d)]) [0..<6])"

definition with_shape :: "(string, int) dict \<Rightarrow> op \<Rightarrow> op" where
  "with_shape sh x = upd (\<lambda>f. f\<lparr>shape := Some sh\<rparr>) x"

text \<open>One attention head group: the operand and the result of the bmm are permuted copies.\<close>

definition head_ops :: "op list" where
  "head_ops =
     [with_shape (copy_shape [(2, 4), (3, 8), (4, 1)]) (mk_op ''pa'' ''strided_copy'' (Some 0) [] [''x''] [''a'']),
      with_shape [(''batch'', 2), (''M'', 3), (''K'', 4), (''N'', 5)]
        (mk_op ''mm'' ''bmm'' (Some 1) [0] [''a'', ''w''] [''c'']),
      with_shape (copy_shape [(3, 5), (2, 15), (5, 1)]) (mk_op ''pc'' ''strided_copy'' (Some 2) [1] [''c''] [''y''])]"

definition head_tensors :: "(string, tensor) dict" where
  "head_tensors = [(''x'', plain_tensor [3, 2, 4]), (''a'', plain_tensor [2, 3, 4]), (''w'', plain_tensor [2, 4, 5]),
                   (''c'', plain_tensor [2, 3, 5]), (''y'', plain_tensor [3, 2, 5])]"

definition head_graph :: graph where
  "head_graph = (plain_graph head_ops [''y''])\<lparr>tensors := head_tensors\<rparr>"

definition head_folded :: "graph \<times> rat fold_report" where
  "head_folded =
     (case fold_layout (\<lambda>ds. []) (\<lambda>x. x) [] [] head_graph of
        Some (Inr r) \<Rightarrow> r | _ \<Rightarrow> (head_graph, \<lparr>fr_folded = [], fr_skipped = [], fr_removed = 0\<rparr>))"

lemma head_eval:
  "(case fold_layout (\<lambda>ds. []) (\<lambda>x. x) ([] :: (string, rat) dict) [] head_graph of
      Some (Inr (h, r)) \<Rightarrow>
        map (\<lambda>x. (o_name x, o_kind x, o_ins x, o_outs x, shape (flds x))) (ops h) =
          [(''mm'', ''bmm_strided'', [''x'', ''w''], [''y''],
            Some [(''B0'', 1), (''B1'', 2), (''M'', 3), (''K'', 4), (''N'', 5),
                  (''a_off'', 0), (''a_s0'', 0), (''a_s1'', 4), (''a_sm'', 8), (''a_sk'', 1),
                  (''b_off'', 0), (''b_s0'', 0), (''b_s1'', 20), (''b_sk'', 5), (''b_sn'', 1),
                  (''c_off'', 0), (''c_s0'', 0), (''c_s1'', 5), (''c_sm'', 10), (''c_sn'', 1)])]
    | _ \<Rightarrow> False)"
  by code_simp

lemma head_run: "fold_layout (\<lambda>ds. []) (\<lambda>x. x) [] [] head_graph = Some (Inr (fst head_folded, snd head_folded))"
  using head_eval by (auto simp: head_folded_def split: option.splits sum.splits)

lemma head_ok: "foldable head_graph" "out_names head_graph = Inr [''y'']" "gemm_count head_graph = 1" "staying head_graph = [''mm'']"
  by code_simp+


theorem fold_rewrites_bounded_witness: "length (fr_folded (snd head_folded)) + gemm_count (fst head_folded) = 1"
  using fold_rewrites_bounded [OF head_run head_ok(1,2)] head_ok(3) by simp

text \<open>
  A group whose second stage reads the same operand as its head bmm (the group lists it once): folding the
  copy away leaves that stage with a tensor that no op makes and that is no longer registered.
\<close>

definition group_graph :: graph where
  "group_graph =
     (plain_graph
        [with_shape (copy_shape [(2, 4), (3, 8), (4, 1)]) (mk_op ''pa'' ''strided_copy'' (Some 0) [] [''x''] [''a'']),
         Op (flds (mk_op ''mm+add'' ''fused__bmm__add__b'' (Some 1) [0] [''a'', ''w''] [''y'']))
           (Some [with_shape [(''batch'', 2), (''M'', 3), (''K'', 4), (''N'', 4)]
                    (mk_op ''mm'' ''bmm'' None [] [''a'', ''w''] [''c'']),
                  mk_op ''add'' ''add'' None [] [''a'', ''c''] [''y'']])] [''y''])
     \<lparr>tensors := [(''x'', plain_tensor [3, 2, 4]), (''a'', plain_tensor [2, 3, 4]), (''w'', plain_tensor [2, 4, 4]),
                  (''c'', plain_tensor [2, 3, 4]), (''y'', plain_tensor [2, 3, 4])]\<rparr>"

definition group_folded :: graph where
  "group_folded =
     (case fold_layout (\<lambda>ds. []) (\<lambda>x. x) ([] :: (string, rat) dict) [] group_graph of
        Some (Inr (g, r)) \<Rightarrow> g | _ \<Rightarrow> group_graph)"

lemma later_stage_loses_operand:
  "map (\<lambda>x. (o_kind x, o_ins x, map o_ins (subs x))) (ops group_folded) =
     [(''fused__bmm_strided__add__b'', [''x'', ''w''], [[''x'', ''w''], [''a'', ''c'']])] \<and>
   \<not> has_key (tensors group_folded) ''a''"
  by code_simp

end
