(* ===== verification/Round_Control.thy ===== *)
theory Round_Control
  imports Op_Class "HOL-Library.Char_ord" "HOL-Library.List_Lexorder"
begin

text \<open>
  \<^verbatim>\<open>pipeline/round_controller.py\<close>: at the start of every round of the graph optimiser the
  controller picks the moves of the round from the profile, the open hints and the gains of the rounds before.
  Numbers are any ordered field; rounding and the reading of a float are arguments. The texts of the reasons
  are left out.
\<close>

datatype control_error = Bad_Policy string | Not_A_Number string | Below_Limit string

section \<open>Switches\<close>

definition policies :: "string list" where
  "policies = [''off'', ''fixed'', ''graph-first'', ''auto'']"

definition resolve_policy :: "string option \<Rightarrow> string option \<Rightarrow> control_error + string" where
  "resolve_policy attr env =
     (let v = (case attr of Some s \<Rightarrow> s | None \<Rightarrow> (case env of Some s \<Rightarrow> s | None \<Rightarrow> ''off''));
          v = map (\<lambda>c. if c = CHR ''_'' then CHR ''-'' else c) (lower (strip v));
          v = (if v = [] then ''off'' else v);
          v = (if v \<in> {''0'', ''false'', ''no''} then ''off'' else v)
      in if v \<in> set policies then Inr v else Inl (Bad_Policy v))"

text \<open>A number given as an attribute (zero counts as absent), else by the environment, else the default.\<close>

definition number_of ::
  "(string \<Rightarrow> 't option) \<Rightarrow> 't option \<Rightarrow> string \<Rightarrow> string option \<Rightarrow> 't \<Rightarrow> control_error + ('t::linordered_field)" where
  "number_of float_of attr var env dflt =
     (case (case attr of
              Some v \<Rightarrow> if v = 0 then None else Some v
            | None \<Rightarrow> None) of
        Some v \<Rightarrow> if v < 0 then Inl (Below_Limit var) else Inr v
      | None \<Rightarrow>
          (case env of
             None \<Rightarrow> Inr dflt
           | Some s \<Rightarrow>
               (if s = [] then Inr dflt
                else case float_of s of
                  None \<Rightarrow> Inl (Not_A_Number var)
                | Some v \<Rightarrow> if v < 0 then Inl (Below_Limit var) else Inr v)))"

record move =
  mv_kernel :: bool
  mv_graph :: bool
  mv_region_loop :: bool
  mv_stop :: bool
  mv_deferred :: bool

definition move_label :: "move \<Rightarrow> string" where
  "move_label mv =
     (if mv_stop mv then ''stop''
      else let ms = map fst (filter snd [(''kernel'', mv_kernel mv), (''graph'', mv_graph mv), (''region_loop'', mv_region_loop mv)])
        in if ms = [] then ''stop'' else join ''+'' ms)"

record move_dict =
  md_policy :: string
  md_move :: string
  md_kernel :: bool
  md_graph :: bool
  md_region_loop :: bool
  md_stop :: bool
  md_deferred :: "bool option"

definition move_to_dict :: "string \<Rightarrow> move \<Rightarrow> move_dict" where
  "move_to_dict policy mv =
     \<lparr>md_policy = policy, md_move = move_label mv, md_kernel = mv_kernel mv, md_graph = mv_graph mv,
      md_region_loop = mv_region_loop mv, md_stop = mv_stop mv, md_deferred = Some (mv_deferred mv)\<rparr>"

definition move_from_dict :: "move_dict \<Rightarrow> move" where
  "move_from_dict d =
     \<lparr>mv_kernel = md_kernel d, mv_graph = md_graph d, mv_region_loop = md_region_loop d, mv_stop = md_stop d,
      mv_deferred = (case md_deferred d of None \<Rightarrow> False | Some b \<Rightarrow> b)\<rparr>"

section \<open>What the rounds have measured\<close>

type_synonym 't profile = "(string \<times> 't option) list"

definition small_classes :: "string list" where
  "small_classes = [''elementwise'', ''data_movement'', ''reduction'']"

record 't small_share =
  sm_share :: 't
  sm_n_small :: nat
  sm_n_ops :: nat

definition us_of :: "'t option \<Rightarrow> ('t::zero)" where
  "us_of v = (case v of None \<Rightarrow> 0 | Some x \<Rightarrow> x)"

definition is_small :: "('t::linordered_field) \<Rightarrow> string \<times> 't option \<Rightarrow> bool" where
  "is_small lim o_us =
     (if prefix ''fused__'' (fst o_us) \<or> prefix ''region__'' (fst o_us) then False
      else us_of (snd o_us) \<le> lim \<and> op_class False (fst o_us) \<in> set small_classes)"

definition small_unfused_share :: "(nat \<Rightarrow> 't \<Rightarrow> 't) \<Rightarrow> 't profile list \<Rightarrow> 't \<Rightarrow> ('t::linordered_field) small_share" where
  "small_unfused_share rnd profiles lim =
     (let all = concat profiles; sm = filter (\<lambda>p. is_small lim p) all;
          total = sum_list (map (us_of \<circ> snd) all); small = sum_list (map (us_of \<circ> snd) sm) in
      \<lparr>sm_share = (if total \<noteq> 0 then rnd 4 (small / total) else 0), sm_n_small = length sm, sm_n_ops = length all\<rparr>)"

definition live_region_ops :: "'t profile list \<Rightarrow> nat" where
  "live_region_ops profiles = length (filter (\<lambda>p. prefix ''region__'' (fst p)) (concat profiles))"

record 't hint =
  hi_id :: string
  hi_kind :: string
  hi_gains :: "'t option list"

text \<open>The best estimate among the sources; a hint without sources counts zero.\<close>

definition estimate :: "('t::linordered_field) hint \<Rightarrow> 't" where
  "estimate h = (case map us_of (hi_gains h) of [] \<Rightarrow> 0 | x # xs \<Rightarrow> fold max xs x)"

record 't candidate =
  ca_n :: nat
  ca_est :: 't
  ca_best :: "string option"

definition hint_class :: "'t hint \<Rightarrow> string" where
  "hint_class h =
     (if hi_kind h = ''merge_sibling_convs'' then ''merge'' else if hi_kind h = ''fuse_region'' then ''region'' else ''graph'')"

definition candidate_class ::
  "(nat \<Rightarrow> 't \<Rightarrow> 't) \<Rightarrow> 't hint list \<Rightarrow> 't \<Rightarrow> string \<Rightarrow> ('t::linordered_field) candidate" where
  "candidate_class rnd hints lim c =
     (let gs = map (\<lambda>h. (estimate h, hi_id h)) (filter (\<lambda>h. \<not> estimate h < lim \<and> hint_class h = c) hints);
          gs = sort_key (\<lambda>x. - fst x) gs in
      \<lparr>ca_n = length gs, ca_est = rnd 2 (min 100 (sum_list (map fst (take 3 gs)))),
       ca_best = (case gs of [] \<Rightarrow> None | x # _ \<Rightarrow> Some (snd x))\<rparr>)"

record 't candidates =
  cs_graph :: "'t candidate"
  cs_merge :: "'t candidate"
  cs_region :: "'t candidate"

definition candidate_classes :: "(nat \<Rightarrow> 't \<Rightarrow> 't) \<Rightarrow> 't hint list \<Rightarrow> 't \<Rightarrow> ('t::linordered_field) candidates" where
  "candidate_classes rnd hints lim =
     \<lparr>cs_graph = candidate_class rnd hints lim ''graph'', cs_merge = candidate_class rnd hints lim ''merge'',
      cs_region = candidate_class rnd hints lim ''region''\<rparr>"

record 't kb_run =
  kr_ok :: bool
  kr_base :: "'t option"
  kr_final :: "'t option"

record 't decision =
  de_hint :: string
  de_status :: string
  de_original :: "'t option"
  de_variant :: "'t option"

record 't round_rec =
  rr_round :: nat
  rr_partition_us :: "'t list"
  rr_runs :: "'t kb_run list"
  rr_decisions :: "'t decision list"

record 't gains =
  ga_kernel :: 't
  ga_graph :: 't
  ga_region :: 't
  ga_n_graph :: nat
  ga_n_region :: nat

text \<open>Accepted decisions with both times, and what they gained.\<close>

definition accepted :: "'t decision list \<Rightarrow> (string \<times> ('t::linordered_field)) list" where
  "accepted ds =
     List.map_filter (\<lambda>d. if de_status d \<noteq> ''accepted'' then None
       else case (de_original d, de_variant d) of (Some o1, Some v) \<Rightarrow> Some (de_hint d, max 0 (o1 - v)) | _ \<Rightarrow> None) ds"

definition realized :: "(nat \<Rightarrow> 't \<Rightarrow> 't) \<Rightarrow> 't round_rec \<Rightarrow> (string, string) dict \<Rightarrow> ('t::linordered_field) gains" where
  "realized rnd r kinds =
     (let total = sum_list (rr_partition_us r);
          k = sum_list (map (\<lambda>x. max 0 (us_of (kr_base x) - us_of (kr_final x))) (filter kr_ok (rr_runs r)));
          acc = accepted (rr_decisions r);
          reg = filter (\<lambda>d. map_of kinds (fst d) = Some ''fuse_region'') acc;
          gra = filter (\<lambda>d. map_of kinds (fst d) \<noteq> Some ''fuse_region'') acc;
          pct = (\<lambda>x. if total \<noteq> 0 then rnd 3 (100 * x / total) else 0) in
      \<lparr>ga_kernel = pct k, ga_graph = pct (sum_list (map snd gra)), ga_region = pct (sum_list (map snd reg)),
       ga_n_graph = length gra, ga_n_region = length reg\<rparr>)"

section \<open>The controller\<close>

record 't control =
  rc_policy :: string
  rc_rl_active :: bool
  rc_min_gain :: 't
  rc_budget :: 't
  rc_small_us :: 't

record worked =
  wo_kernel :: bool
  wo_graph :: bool
  wo_region :: bool

record 't past =
  pa_move :: string
  pa_worked :: "worked option"
  pa_gain :: "'t gains option"
  pa_spent :: 't

datatype mv = Kernel | Graph | Region_Loop

definition worked_on :: "mv \<Rightarrow> 't past \<Rightarrow> bool" where
  "worked_on m h =
     (case pa_worked h of
        None \<Rightarrow> False
      | Some w \<Rightarrow> (case m of Kernel \<Rightarrow> wo_kernel w | Graph \<Rightarrow> wo_graph w | Region_Loop \<Rightarrow> wo_region w))"

definition gain_of :: "mv \<Rightarrow> 't past \<Rightarrow> ('t::linordered_field)" where
  "gain_of m h =
     (case pa_gain h of
        None \<Rightarrow> 0
      | Some g \<Rightarrow> (case m of Kernel \<Rightarrow> ga_kernel g | Graph \<Rightarrow> ga_graph g | Region_Loop \<Rightarrow> ga_region g))"

definition last_two :: "'a list \<Rightarrow> 'a list" where
  "last_two xs = drop (length xs - 2) xs"

definition history :: "(string \<times> 't past option) list \<Rightarrow> string \<Rightarrow> 't past list" where
  "history rounds key = List.map_filter (\<lambda>(k, c). if k = key then c else None) rounds"

text \<open>The budget guard: the last two rounds in which the move had work each gained too little.\<close>

definition stopped :: "'t control \<Rightarrow> ('t::linordered_field) past list \<Rightarrow> mv \<Rightarrow> bool" where
  "stopped c hist m =
     (let l = last_two (filter (worked_on m) hist) in
      length l = 2 \<and> list_all (\<lambda>h. gain_of m h < 100 * rc_min_gain c) l)"

definition pre_stop :: "'t control \<Rightarrow> ('t::linordered_field) past list \<Rightarrow> 't \<Rightarrow> bool" where
  "pre_stop c hist spent =
     (if rc_budget c \<noteq> 0 \<and> spent \<ge> rc_budget c then True else stopped c hist Kernel \<and> stopped c hist Graph)"

record 't feature_set =
  fe_first :: bool
  fe_rounds_left :: nat
  fe_small :: "'t small_share"
  fe_cand :: "'t candidates"
  fe_live :: nat
  fe_last_gain :: "('t \<times> 't) option"
  fe_prev_pct :: "'t option"
  fe_last_move :: "string option"
  fe_spent :: 't
  fe_budget_left :: "'t option"

definition features ::
  "(nat \<Rightarrow> 't \<Rightarrow> 't) \<Rightarrow> 't control \<Rightarrow> bool \<Rightarrow> nat \<Rightarrow> 't profile list \<Rightarrow> 't hint list \<Rightarrow> 't \<Rightarrow> 't past list \<Rightarrow> 't \<Rightarrow>
   't option \<Rightarrow> 't option \<Rightarrow> ('t::linordered_field) feature_set" where
  "features rnd c first left profiles hints lim hist spent prev_total cur_total =
     (let last_rec = (if hist = [] then None else Some (last hist));
          lg = (case last_rec of None \<Rightarrow> None | Some h \<Rightarrow> pa_gain h) in
      \<lparr>fe_first = first, fe_rounds_left = left, fe_small = small_unfused_share rnd profiles (rc_small_us c),
       fe_cand = candidate_classes rnd hints lim, fe_live = live_region_ops profiles,
       fe_last_gain = map_option (\<lambda>g. (ga_kernel g, rnd 3 (ga_graph g + ga_region g))) lg,
       fe_prev_pct = (case (prev_total, cur_total) of
          (Some p, Some t) \<Rightarrow> if p \<noteq> 0 then Some (rnd 3 (100 * (p - t) / p)) else None | _ \<Rightarrow> None),
       fe_last_move = map_option pa_move last_rec, fe_spent = rnd 4 spent,
       fe_budget_left = (if rc_budget c \<noteq> 0 then Some (rnd 4 (rc_budget c - spent)) else None)\<rparr>)"

definition graph_estimate :: "'t feature_set \<Rightarrow> ('t::linordered_field)" where
  "graph_estimate f = ca_est (cs_graph (fe_cand f)) + ca_est (cs_merge (fe_cand f)) + ca_est (cs_region (fe_cand f))"

definition any_candidate :: "'t feature_set \<Rightarrow> bool" where
  "any_candidate f = (ca_n (cs_graph (fe_cand f)) > 0 \<or> ca_n (cs_merge (fe_cand f)) > 0 \<or> ca_n (cs_region (fe_cand f)) > 0)"

text \<open>The rule of \<open>auto\<close>: the flags (kernel, graph, deferred).\<close>

definition auto_rule ::
  "'t control \<Rightarrow> 't feature_set \<Rightarrow> 't past list \<Rightarrow> bool \<Rightarrow> bool \<Rightarrow> ('t::linordered_field) \<Rightarrow> bool \<times> bool \<times> bool" where
  "auto_rule c f hist kernel_ok graph_ok est =
     (if \<not> (kernel_ok \<and> graph_ok) then (kernel_ok, graph_ok, False)
      else let prev_graph_only = hist \<noteq> [] \<and> pa_move (last hist) = ''graph'' in
        if fe_first f \<and> (est \<ge> 8 \<or> (sm_share (fe_small f) \<ge> 1 / 4 \<and> est > 0)) then (False, True, True)
        else if (case fe_last_gain f of
                   None \<Rightarrow> False
                 | Some (k, g) \<Rightarrow> \<not> prev_graph_only \<and> g \<ge> 2 * max k (100 * rc_min_gain c))
          then (False, True, True)
        else (True, True, False))"

definition decide :: "'t control \<Rightarrow> 't feature_set \<Rightarrow> ('t::linordered_field) past list \<Rightarrow> move" where
  "decide c f hist =
     (let est = graph_estimate f;
          kernel_ok = (\<not> stopped c hist Kernel); live_graph = (\<not> stopped c hist Graph);
          graph_ok = (live_graph \<and> (est > 0 \<or> rc_policy c = ''fixed''));
          (k, g, d) =
            (if rc_policy c = ''fixed'' then (kernel_ok, live_graph, False)
             else if rc_policy c = ''graph-first'' then
               (if fe_first f \<and> graph_ok \<and> est \<ge> 0 \<and> any_candidate f then (False, live_graph, True)
                else (kernel_ok, live_graph, False))
             else auto_rule c f hist kernel_ok graph_ok est);
          region = (if \<not> rc_rl_active c then False
                    else if stopped c hist Region_Loop then False
                    else if rc_policy c \<in> {''fixed'', ''graph-first''} then k \<or> g
                    else (fe_live f > 0 \<and> k) \<or> (ca_n (cs_region (fe_cand f)) > 0 \<and> g));
          stop = (\<not> k \<and> \<not> g)
      in \<lparr>mv_kernel = k, mv_graph = g, mv_region_loop = region \<and> \<not> stop, mv_stop = stop, mv_deferred = d\<rparr>)"

text \<open>The record of a round that ran.\<close>

definition end_round ::
  "(nat \<Rightarrow> 't \<Rightarrow> 't) \<Rightarrow> 't control \<Rightarrow> 't feature_set \<Rightarrow> move \<Rightarrow> 't round_rec \<Rightarrow> (string, string) dict \<Rightarrow> nat \<Rightarrow> 't \<Rightarrow>
   ('t::linordered_field) past" where
  "end_round rnd c f mv r kinds plan_problems spent =
     (let decided = length (rr_decisions r);
          region_dec = length (filter (\<lambda>d. map_of kinds (de_hint d) = Some ''fuse_region'') (rr_decisions r)) in
      \<lparr>pa_move = md_move (move_to_dict (rc_policy c) mv),
       pa_worked = Some \<lparr>wo_kernel = (mv_kernel mv \<and> plan_problems > 0), wo_graph = (mv_graph mv \<and> decided > 0),
                         wo_region = (mv_region_loop mv \<and> (region_dec > 0 \<or> fe_live f > 0))\<rparr>,
       pa_gain = Some (realized rnd r kinds), pa_spent = rnd 4 spent\<rparr>)"

end
