(* ===== verification/Round_Facts.thy ===== *)
theory Round_Facts
  imports Round_Control Complex_Main
begin

text \<open>
  The controller's moves over a run: a move that the budget guard stopped never runs again, a run whose kernel
  and graph moves are both stopped ends, and kernel steps held back in one round come in the next one -- unless
  the region loop is on, when the rule that alternates them does not recognise the round before.
\<close>

section \<open>One decision\<close>

lemma move_from_to_dict: "move_from_dict (move_to_dict policy mv) = mv"
  by (simp add: move_from_dict_def move_to_dict_def)

lemma auto_rule_ok:
  assumes "auto_rule c f hist kernel_ok graph_ok est = (k, g, d)"
  shows "(k \<longrightarrow> kernel_ok) \<and> (g \<longrightarrow> graph_ok) \<and> (d \<longrightarrow> \<not> k \<and> g)"
  using assms by (auto simp: auto_rule_def Let_def split: if_splits)

lemma decide_guarded:
  "stopped c hist Kernel \<Longrightarrow> \<not> mv_kernel (decide c f hist)"
  "stopped c hist Graph \<Longrightarrow> \<not> mv_graph (decide c f hist)"
  "stopped c hist Region_Loop \<Longrightarrow> \<not> mv_region_loop (decide c f hist)"
  using auto_rule_ok [of c f hist "\<not> stopped c hist Kernel"
      "\<not> stopped c hist Graph \<and> (graph_estimate f > 0 \<or> rc_policy c = ''fixed'')" "graph_estimate f"]
  by (auto simp: decide_def Let_def split: prod.splits if_splits)

lemma decide_stop: "mv_stop (decide c f hist) \<longleftrightarrow> \<not> mv_kernel (decide c f hist) \<and> \<not> mv_graph (decide c f hist)"
  by (auto simp: decide_def Let_def split: prod.splits)

lemma decide_region: "mv_region_loop (decide c f hist) \<Longrightarrow> rc_rl_active c \<and> \<not> mv_stop (decide c f hist)"
  by (auto simp: decide_def Let_def split: prod.splits if_splits)

lemma decide_deferred: "mv_deferred (decide c f hist) \<Longrightarrow> \<not> mv_kernel (decide c f hist)"
  using auto_rule_ok [of c f hist "\<not> stopped c hist Kernel"
      "\<not> stopped c hist Graph \<and> (graph_estimate f > 0 \<or> rc_policy c = ''fixed'')" "graph_estimate f"]
  by (auto simp: decide_def Let_def split: prod.splits if_splits)

section \<open>A stopped move stays stopped\<close>

definition allows :: "mv \<Rightarrow> move \<Rightarrow> bool" where
  "allows m mv = (case m of Kernel \<Rightarrow> mv_kernel mv | Graph \<Rightarrow> mv_graph mv | Region_Loop \<Rightarrow> mv_region_loop mv)"

lemma worked_end_round: "worked_on m (end_round rnd c f mv r kinds n spent) \<Longrightarrow> allows m mv"
  by (cases m) (auto simp: worked_on_def end_round_def allows_def Let_def)

lemma stopped_idle: "\<not> worked_on m h \<Longrightarrow> stopped c (hist @ [h]) m = stopped c hist m"
  by (simp add: stopped_def)

text \<open>Rounds that ran one after the other, each decided from the history before it.\<close>

inductive rounds :: "('t::linordered_field) control \<Rightarrow> 't past list \<Rightarrow> 't past list \<Rightarrow> bool" for c where
  none: "rounds c hist hist"
| one: "rounds c hist later \<Longrightarrow> \<not> mv_stop (decide c f later) \<Longrightarrow>
    rounds c hist (later @ [end_round rnd c f (decide c f later) r kinds n spent])"

lemma stopped_stays_aux: "rounds c hist later \<Longrightarrow> stopped c hist m \<Longrightarrow> stopped c later m"
proof (induction rule: rounds.induct)
  case (one hist later f rnd r kinds n spent)
  then have st: "stopped c later m" by blast
  then have "\<not> allows m (decide c f later)" by (cases m) (auto simp: allows_def dest: decide_guarded)
  with worked_end_round have "\<not> worked_on m (end_round rnd c f (decide c f later) r kinds n spent)" by blast
  from stopped_idle [OF this] st show ?case by simp
qed

text \<open>
  C21. Once the budget guard has stopped a move it stays stopped through every later round of the run and no
  later round runs it; with the kernel and the graph move both stopped the next decision ends the run.
\<close>
theorem stopped_moves_stay_out:
  assumes "rounds c hist later" "stopped c hist m"
  shows "stopped c later m \<and> \<not> allows m (decide c f later) \<and>
         (stopped c hist Kernel \<and> stopped c hist Graph \<longrightarrow> mv_stop (decide c f later) \<and> pre_stop c later spent)"
proof -
  have st: "stopped c later m" by (rule stopped_stays_aux [OF assms])
  then have "\<not> allows m (decide c f later)" by (cases m) (auto simp: allows_def dest: decide_guarded)
  moreover have "mv_stop (decide c f later) \<and> pre_stop c later spent" if "stopped c hist Kernel \<and> stopped c hist Graph"
    using stopped_stays_aux [OF assms(1)] that by (simp add: decide_stop decide_guarded pre_stop_def)
  ultimately show ?thesis using st by blast
qed

section \<open>Held back kernel steps\<close>

lemma deferred_label:
  "mv_deferred (decide c f hist) \<Longrightarrow> \<not> rc_rl_active c \<Longrightarrow> \<not> mv_stop (decide c f hist) \<Longrightarrow>
   move_label (decide c f hist) = ''graph''"
  using decide_deferred [of c f hist] decide_region [of c f hist] decide_stop [of c f hist]
  by (auto simp: move_label_def)

lemma later_defer:
  assumes "\<not> fe_first f" "hist \<noteq> []" "pa_move (last hist) = ''graph''"
  shows "\<not> mv_deferred (decide c f hist) \<and> (mv_kernel (decide c f hist) \<longleftrightarrow> \<not> stopped c hist Kernel)"
  using assms by (auto simp: decide_def Let_def auto_rule_def split: prod.splits if_splits option.splits)

text \<open>
  C22. Without the region loop, kernel steps that a round holds back run in the next round unless the guard
  has stopped them: no policy holds them back twice in a row.
\<close>
theorem held_back_kernels_run:
  assumes "\<not> rc_rl_active c" "mv_deferred (decide c f1 hist)" "\<not> mv_stop (decide c f1 hist)" "\<not> fe_first f2"
    and "later = hist @ [end_round rnd c f1 (decide c f1 hist) r kinds n spent]" "\<not> stopped c later Kernel"
  shows "mv_kernel (decide c f2 later) \<and> \<not> mv_deferred (decide c f2 later)"
proof -
  have "pa_move (last later) = ''graph''"
    using deferred_label [OF assms(2,1,3)] by (simp add: assms(5) end_round_def move_to_dict_def Let_def)
  with later_defer [OF assms(4), of later c] assms(5,6) show ?thesis by simp
qed

section \<open>Concrete rounds\<close>

text \<open>
  \<open>rich\<close> has graph and region candidates and a live region op; the accepted decision of \<open>gain_round\<close> gains a fifth
  of the partition time, that of \<open>idle_round\<close> nothing.
\<close>

definition demo_control :: "bool \<Rightarrow> rat control" where
  "demo_control rl = \<lparr>rc_policy = ''auto'', rc_rl_active = rl, rc_min_gain = 3 / 100, rc_budget = 0, rc_small_us = 15\<rparr>"

definition keep :: "nat \<Rightarrow> rat \<Rightarrow> rat" where
  "keep n x = x"

definition rich :: "bool \<Rightarrow> rat past list \<Rightarrow> rat feature_set" where
  "rich first hist =
     features keep (demo_control True) first 3 [[(''linear'', Some 70), (''relu'', Some 10)], [(''region__rnn_stack'', Some 20)]]
       [\<lparr>hi_id = ''h1'', hi_kind = ''fuse'', hi_gains = [Some 9, None]\<rparr>, \<lparr>hi_id = ''h2'', hi_kind = ''fuse_region'', hi_gains = [Some 4]\<rparr>]
       2 hist 0 None None"

definition gain_round :: "rat round_rec" where
  "gain_round = \<lparr>rr_round = 0, rr_partition_us = [60, 40], rr_runs = [],
     rr_decisions = [\<lparr>de_hint = ''h1'', de_status = ''accepted'', de_original = Some 100, de_variant = Some 80\<rparr>]\<rparr>"

definition idle_round :: "rat round_rec" where
  "idle_round = \<lparr>rr_round = 1, rr_partition_us = [100], rr_runs = [\<lparr>kr_ok = True, kr_base = Some 50, kr_final = Some 50\<rparr>],
     rr_decisions = [\<lparr>de_hint = ''h1'', de_status = ''accepted'', de_original = Some 100, de_variant = Some 100\<rparr>]\<rparr>"

definition after :: "bool \<Rightarrow> bool \<Rightarrow> rat round_rec \<Rightarrow> rat past list \<Rightarrow> rat past list" where
  "after rl first r hist =
     hist @ [end_round keep (demo_control rl) (rich first hist) (decide (demo_control rl) (rich first hist) hist) r [] 1 0]"

lemma rich_facts:
  "map (\<lambda>mv. (mv_kernel mv, mv_graph mv, mv_deferred mv, mv_stop mv)) [decide (demo_control False) (rich True []) []] =
     [(False, True, True, False)]"
  "stopped (demo_control False) (after False True gain_round []) Kernel = False"
  by code_simp+

theorem held_back_kernels_run_witness:
  "mv_kernel (decide (demo_control False) (rich False (after False True gain_round [])) (after False True gain_round []))"
proof -
  have a: "\<not> rc_rl_active (demo_control False)" by (simp add: demo_control_def)
  have b: "mv_deferred (decide (demo_control False) (rich True []) [])" "\<not> mv_stop (decide (demo_control False) (rich True []) [])"
    using rich_facts(1) by simp_all
  have f: "\<not> fe_first (rich False (after False True gain_round []))" by (simp add: rich_def features_def Let_def)
  have l: "after False True gain_round [] =
      [] @ [end_round keep (demo_control False) (rich True []) (decide (demo_control False) (rich True []) []) gain_round [] 1 0]"
    by (simp add: after_def)
  from held_back_kernels_run [OF a b f l] rich_facts(2) show ?thesis by simp
qed

text \<open>
  With the region loop on, a graph-only round is labelled \<open>graph+region_loop\<close>, the rule of \<open>auto\<close> compares
  with \<open>graph\<close> and holds the kernel steps back a second time.
\<close>

definition region_view :: "rat past list \<Rightarrow> string list \<times> bool \<times> bool \<times> bool" where
  "region_view h =
     (map pa_move h, mv_deferred (decide (demo_control True) (rich False h) h),
      mv_kernel (decide (demo_control True) (rich False h) h), stopped (demo_control True) h Kernel)"

lemma region_loop_holds_back_again:
  "region_view (after True True gain_round []) = ([''graph+region_loop''], True, False, False)"
  by code_simp

definition two_idle :: "rat past list" where
  "two_idle = after False False idle_round (after False False idle_round [])"

lemma two_idle_facts: "stopped (demo_control False) two_idle Kernel" "stopped (demo_control False) two_idle Graph"
  by code_simp+

theorem stopped_moves_stay_out_witness:
  "mv_stop (decide (demo_control False) (rich False two_idle) two_idle) \<and> pre_stop (demo_control False) two_idle 0"
  using stopped_moves_stay_out [OF rounds.none two_idle_facts(1), of "rich False two_idle" 0] two_idle_facts by blast

end
