(* ===== verification/Storage_Dtype.thy ===== *)
theory Storage_Dtype
  imports Graph_IR "HOL-Library.Word"
begin

text \<open>
  \<^verbatim>\<open>pipeline/cuda_dtypes.py\<close>: storage dtypes of an IR and of its weights, and the rounding of a float32 to a bfloat16 on
  bit patterns. The numpy library is the argument \<open>np\<close>.
\<close>

unbundle bit_operations_syntax

section \<open>The numpy operations the pipeline uses\<close>

text \<open>
  \<open>np_with_bits f a\<close> is the float32 array of the shape of \<open>a\<close> whose bit patterns are \<open>f\<close> of those of \<open>a\<close>; \<open>None\<close> is the \<open>ValueError\<close>
  (or \<open>IndexError\<close>) of shapes that do not fit.
\<close>

record 'a numpy =
  np_shape :: "'a \<Rightarrow> int list"
  np_kind :: "'a \<Rightarrow> char"
  np_itemsize :: "'a \<Rightarrow> int"
  np_contiguous :: "'a \<Rightarrow> 'a"
  np_astype :: "string \<Rightarrow> 'a \<Rightarrow> 'a"
  np_with_bits :: "(32 word list \<Rightarrow> 32 word list) \<Rightarrow> 'a \<Rightarrow> 'a"
  np_full :: "int list \<Rightarrow> json \<Rightarrow> 'a"
  np_pad :: "(int \<times> int) list \<Rightarrow> json \<Rightarrow> 'a \<Rightarrow> 'a"
  np_stack :: "int \<Rightarrow> 'a list \<Rightarrow> 'a option"
  np_concatenate :: "int \<Rightarrow> 'a list \<Rightarrow> 'a option"
  np_transpose :: "int list \<Rightarrow> 'a \<Rightarrow> 'a"
  np_reshape :: "int list \<Rightarrow> 'a \<Rightarrow> 'a option"
  np_slice :: "int \<Rightarrow> int \<Rightarrow> int \<Rightarrow> 'a \<Rightarrow> 'a"
  np_scale :: "json \<Rightarrow> 'a \<Rightarrow> 'a"
  np_add :: "'a \<Rightarrow> 'a \<Rightarrow> 'a option"
  np_mul :: "'a \<Rightarrow> 'a \<Rightarrow> 'a option"

section \<open>Dtypes of an IR\<close>

definition is_mixed :: "graph \<Rightarrow> bool" where
  "is_mixed g = (g_quant g = Some ''native'')"

definition float_tensor :: "(string, string) dict" where
  "float_tensor = [(''f32'', ''fp32''), (''f16'', ''fp16''), (''bf16'', ''bf16'')]"

definition int_tensor :: "string list" where
  "int_tensor = [''i64'', ''i32'', ''b8'', ''u8'']"

definition storage_of :: "string option \<Rightarrow> string" where
  "storage_of t = get_or float_tensor (if t = None \<or> t = Some [] then ''f32'' else the t) ''fp32''"

definition ir_dtype :: "graph \<Rightarrow> string" where
  "ir_dtype g =
     (if is_mixed g
      then (let dts = map (t_dtype \<circ> snd) (tensors g) @ map (Some \<circ> snd) (weight_dtypes g) in
            if Some ''bf16'' \<in> set dts then ''bf16'' else if Some ''f16'' \<in> set dts then ''fp16'' else ''fp32'')
      else case g_quant g of
             Some q \<Rightarrow> (if q \<in> {''fp16'', ''bf16''} then q else ''fp32'')
           | None \<Rightarrow> ''fp32'')"

definition tensor_dtype :: "graph \<Rightarrow> string \<Rightarrow> string" where
  "tensor_dtype g t =
     (case map_of (tensors g) t of
        None \<Rightarrow> ''f32''
      | Some m \<Rightarrow> (case t_dtype m of None \<Rightarrow> ''f32'' | Some d \<Rightarrow> if d = [] then ''f32'' else d))"

definition buffer_dtype :: "char \<Rightarrow> int \<Rightarrow> string \<Rightarrow> string" where
  "buffer_dtype kind bytes storage =
     (if kind \<in> {CHR ''i'', CHR ''u'', CHR ''b''} then ''i32''
      else if storage = ''bf16'' then ''bf16''
      else if bytes = 2 then ''f16'' else ''f32'')"

definition weight_dtype :: "'a numpy \<Rightarrow> graph \<Rightarrow> string \<Rightarrow> 'a \<Rightarrow> string" where
  "weight_dtype np g key a =
     (let wd = get_or (weight_dtypes g) key [] in
      if wd \<noteq> [] then wd
      else buffer_dtype (np_kind np a) (np_itemsize np a) (if is_mixed g then ''fp32'' else ir_dtype g))"

definition narrowest :: "string list \<Rightarrow> string" where
  "narrowest ds =
     (let s = map (\<lambda>d. if has_key float_tensor d \<or> d \<in> set int_tensor then storage_of (Some d) else d) ds in
      if ''bf16'' \<in> set s then ''bf16'' else if ''fp16'' \<in> set s then ''fp16'' else ''fp32'')"

section \<open>Rounding to bfloat16\<close>

definition is_nan32 :: "32 word \<Rightarrow> bool" where
  "is_nan32 u = (u AND 0x7FFFFFFF > 0x7F800000)"

definition bf16_hi :: "32 word \<Rightarrow> 32 word" where
  "bf16_hi u =
     (let r = (u + 0x7FFF + (drop_bit 16 u AND 1)) AND 0xFFFF0000 in
      if is_nan32 u then (u OR 0x400000) AND 0xFFFF0000 else r)"

text \<open>The loop over chunks, which bounds the temporaries: \<open>f\<close> works on one chunk at a time.\<close>

function chunked :: "nat \<Rightarrow> ('b list \<Rightarrow> 'c list) \<Rightarrow> 'b list \<Rightarrow> 'c list" where
  "chunked n f us = (if us = [] \<or> n = 0 then [] else f (take n us) @ chunked n f (drop n us))"
  by pat_completeness auto
termination by (relation "measure (\<lambda>(n, f, us). length us)") auto

declare chunked.simps [simp del]

definition bf16_chunk :: nat where
  "bf16_chunk = 2 ^ 24"

definition round_bf16_bits :: "32 word list \<Rightarrow> 32 word list" where
  "round_bf16_bits us = chunked bf16_chunk (map bf16_hi) us"

definition bf16_bits :: "32 word list \<Rightarrow> 16 word list" where
  "bf16_bits us = chunked bf16_chunk (map (\<lambda>u. ucast (drop_bit 16 (bf16_hi u)))) us"

definition bf16_exact :: "32 word list \<Rightarrow> bool" where
  "bf16_exact us = list_all (\<lambda>u. u AND 0xFFFF = 0 \<or> is_nan32 u) us"

lemma chunked_map: "n > 0 \<Longrightarrow> chunked n (map h) us = map h us"
proof (induction n "map h" us rule: chunked.induct)
  case (1 n us)
  then show ?case by (simp add: chunked.simps [of n] flip: map_append)
qed

lemma round_bf16_bits_map: "round_bf16_bits us = map bf16_hi us"
  by (simp add: round_bf16_bits_def chunked_map bf16_chunk_def)

section \<open>What weights.npz holds\<close>

definition np_types :: "(string, string) dict" where
  "np_types = [(''f32'', ''float32''), (''f16'', ''float16''), (''i64'', ''int64''), (''i32'', ''int32''), (''b8'', ''bool_''),
               (''u8'', ''uint8'')]"

text \<open>\<open>None\<close>: a \<open>KeyError\<close> on an unknown dtype.\<close>

definition np_storage :: "'a numpy \<Rightarrow> 'a \<Rightarrow> string \<Rightarrow> 'a option" where
  "np_storage np a d =
     (if d = ''bf16'' then Some (np_with_bits np round_bf16_bits (np_astype np ''float32'' a))
      else map_option (\<lambda>t. np_astype np t a) (map_of np_types d))"

end
