(* ===== verification/Derivation.thy ===== *)
theory Derivation
  imports Storage_Dtype "HOL-Library.Char_ord" "HOL-Library.List_Lexorder"
begin

text \<open>
  \<^verbatim>\<open>pipeline/weight_derivations.py\<close>: weights computed from other weights by a recorded expression. An expression is the
  JSON value it is in \<open>graph.json\<close>, checked and evaluated as the source does; arrays are those of the numpy argument
  \<open>np\<close>. \<open>Deriv c\<close> is a \<open>DerivationError\<close> with code \<open>c\<close>, \<open>Py e\<close> any other Python exception \<open>e\<close>.
\<close>

section \<open>Nodes\<close>

datatype py_error = Deriv string | Py string

type_synonym fields = "(string \<times> json) list"

definition bad_param :: "py_error + unit" where
  "bad_param = Inl (Deriv ''bad_param'')"

definition known_dtypes :: "string list" where
  "known_dtypes = [''f32'', ''f16'', ''bf16'', ''i64'', ''i32'', ''u8'', ''b8'']"

definition float_dtypes :: "string list" where
  "float_dtypes = [''f32'', ''f16'', ''bf16'']"

definition structural :: "string list" where
  "structural = [''w'', ''pad'', ''stack'', ''concat'', ''transpose'', ''reshape'', ''slice'', ''const'']"

definition all_ops :: "string list" where
  "all_ops = structural @ [''scale'', ''cast'', ''add'', ''mul'']"

definition op_arity :: "(string, nat) dict" where
  "op_arity = [(''pad'', 1), (''transpose'', 1), (''reshape'', 1), (''slice'', 1), (''scale'', 1), (''cast'', 1), (''add'', 2),
            (''mul'', 2), (''const'', 0)]"

definition node_fields :: "string list" where
  "node_fields = [''op'', ''args'', ''pads'', ''value'', ''axis'', ''perm'', ''shape'', ''start'', ''stop'', ''by'', ''dtype'']"

text \<open>\<open>_num\<close>: \<open>math.isfinite\<close> raises on an integer that no double can hold.\<close>

definition is_num :: "json option \<Rightarrow> py_error + bool" where
  "is_num v =
     (case v of
        Some (J_Int i) \<Rightarrow> (if \<bar>i\<bar> \<ge> 2 ^ 1024 - 2 ^ 970 then Inl (Py ''OverflowError'') else Inr True)
      | Some (J_Float b) \<Rightarrow> Inr (finite_double b)
      | _ \<Rightarrow> Inr False)"

definition require_num :: "json option \<Rightarrow> py_error + unit" where
  "require_num v = (case is_num v of Inl e \<Rightarrow> Inl e | Inr b \<Rightarrow> if b then Inr () else bad_param)"

fun as_pair :: "json \<Rightarrow> (int \<times> int) option" where
  "as_pair (J_List [J_Int a, J_Int b]) = Some (a, b)"
| "as_pair _ = None"

definition as_pads :: "json \<Rightarrow> (int \<times> int) list option" where
  "as_pads j = (case j of J_List xs \<Rightarrow> those (map as_pair xs) | _ \<Rightarrow> None)"

definition pads_ok :: "json option \<Rightarrow> bool" where
  "pads_ok j = (case Option.bind j as_pads of None \<Rightarrow> False | Some ps \<Rightarrow> ps \<noteq> [] \<and> list_all (\<lambda>(a, b). min a b \<ge> 0) ps)"

definition reshape_ok :: "json option \<Rightarrow> bool" where
  "reshape_ok j =
     (case Option.bind j as_ints of
        None \<Rightarrow> False
      | Some s \<Rightarrow> s \<noteq> [] \<and> length (filter (\<lambda>x. x = -1) s) \<le> 1 \<and> list_all (\<lambda>x. x = -1 \<or> x > 0) s)"

definition slice_ok :: "fields \<Rightarrow> bool" where
  "slice_ok kvs =
     (case (Option.bind (map_of kvs ''axis'') as_int, Option.bind (map_of kvs ''start'') as_int, Option.bind (map_of kvs ''stop'') as_int) of
        (Some _, Some a, Some b) \<Rightarrow> 0 \<le> a \<and> a < b
      | _ \<Rightarrow> False)"

definition dtype_ok :: "json option \<Rightarrow> bool" where
  "dtype_ok j = (case Option.bind j as_str of None \<Rightarrow> False | Some d \<Rightarrow> d \<in> set known_dtypes)"

definition const_shape_ok :: "json option \<Rightarrow> bool" where
  "const_shape_ok j = (case Option.bind j as_ints of None \<Rightarrow> False | Some s \<Rightarrow> s \<noteq> [] \<and> list_all (\<lambda>x. x > 0) s)"

definition check_params :: "string \<Rightarrow> fields \<Rightarrow> py_error + unit" where
  "check_params opn kvs =
     (if opn = ''pad'' then
        (if \<not> pads_ok (map_of kvs ''pads'') then bad_param
         else if \<not> has_key kvs ''value'' then Inr () else require_num (map_of kvs ''value''))
      else if opn = ''stack'' \<or> opn = ''concat'' then
        (if Option.bind (map_of kvs ''axis'') as_int = None then bad_param else Inr ())
      else if opn = ''transpose'' then (if Option.bind (map_of kvs ''perm'') as_ints = None then bad_param else Inr ())
      else if opn = ''reshape'' then (if reshape_ok (map_of kvs ''shape'') then Inr () else bad_param)
      else if opn = ''slice'' then (if slice_ok kvs then Inr () else bad_param)
      else if opn = ''scale'' then require_num (map_of kvs ''by'')
      else if opn = ''cast'' then (if dtype_ok (map_of kvs ''dtype'') then Inr () else bad_param)
      else if opn = ''const'' then
        (if \<not> const_shape_ok (map_of kvs ''shape'') then bad_param
         else case require_num (map_of kvs ''value'') of
                Inl e \<Rightarrow> Inl e
              | Inr _ \<Rightarrow> if dtype_ok (map_of kvs ''dtype'') then Inr () else bad_param)
      else Inr ())"

text \<open>\<open>e.get("args", [])\<close> when it is a list.\<close>

definition args_list :: "fields \<Rightarrow> json list option" where
  "args_list kvs = (case map_of kvs ''args'' of None \<Rightarrow> Some [] | Some (J_List xs) \<Rightarrow> Some xs | Some _ \<Rightarrow> None)"

definition node_op :: "fields \<Rightarrow> string option" where
  "node_op kvs =
     (case map_of kvs ''op'' of Some (J_Str s) \<Rightarrow> if s \<in> set all_ops \<and> s \<noteq> ''w'' then Some s else None | _ \<Rightarrow> None)"

text \<open>A leaf is exactly \<open>{"w": key}\<close>.\<close>

definition leaf_key :: "fields \<Rightarrow> string option" where
  "leaf_key kvs = (if set (keys kvs) = {''w''} then Option.bind (map_of kvs ''w'') as_str else None)"

definition check_head :: "fields \<Rightarrow> py_error + json list" where
  "check_head kvs =
     (case node_op kvs of
        None \<Rightarrow> Inl (Deriv ''unknown_op'')
      | Some opn \<Rightarrow> (case args_list kvs of
          None \<Rightarrow> Inl (Deriv ''bad_node'')
        | Some args \<Rightarrow>
            (if (case map_of op_arity opn of Some n \<Rightarrow> length args \<noteq> n | None \<Rightarrow> args = []) then Inl (Deriv ''bad_arity'')
             else case check_params opn kvs of
               Inl e \<Rightarrow> Inl e
             | Inr _ \<Rightarrow> (if set (keys kvs) \<subseteq> set node_fields then Inr args else Inl (Deriv ''bad_param'')))))"

text \<open>\<open>_check_node\<close>: the leaves it collects are the result; the depth limit bounds the recursion.\<close>

function check_node :: "nat \<Rightarrow> json \<Rightarrow> string list \<Rightarrow> py_error + string list" where
  "check_node depth e leaves =
     (if depth > 64 then Inl (Deriv ''too_deep'')
      else case e of
        J_Obj kvs \<Rightarrow>
          (if has_key kvs ''w''
           then (case leaf_key kvs of None \<Rightarrow> Inl (Deriv ''bad_node'') | Some k \<Rightarrow> Inr (List.insert k leaves))
           else (case check_head kvs of
                   Inl er \<Rightarrow> Inl er
                 | Inr args \<Rightarrow> for_each (\<lambda>a ls. check_node (depth + 1) a ls) args leaves))
      | _ \<Rightarrow> Inl (Deriv ''bad_node''))"
  by pat_completeness auto
termination by (relation "measure (\<lambda>(d, e, ls). 65 - d)") auto

declare check_node.simps [simp del]

section \<open>The leaves of an expression\<close>

text \<open>What \<open>"w" in e\<close> followed by \<open>e.get\<close> or \<open>e["w"]\<close> raises when \<open>e\<close> is no object.\<close>

definition not_an_object :: "json \<Rightarrow> py_error" where
  "not_an_object e =
     (case e of
        J_Str s \<Rightarrow> (if contains ''w'' s then Py ''TypeError'' else Py ''AttributeError'')
      | J_List xs \<Rightarrow> (if J_Str ''w'' \<in> set xs then Py ''TypeError'' else Py ''AttributeError'')
      | _ \<Rightarrow> Py ''TypeError'')"

definition hashable :: "json \<Rightarrow> bool" where
  "hashable j = (case j of J_List _ \<Rightarrow> False | J_Obj _ \<Rightarrow> False | _ \<Rightarrow> True)"

text \<open>What iterating \<open>args\<close> gives when it is no list: the characters of a string, the keys of an object.\<close>

definition odd_args :: "json \<Rightarrow> py_error + unit" where
  "odd_args j =
     (case j of
        J_Str [] \<Rightarrow> Inr ()
      | J_Str (c # _) \<Rightarrow> Inl (not_an_object (J_Str [c]))
      | J_Obj [] \<Rightarrow> Inr ()
      | J_Obj ((k, _) # _) \<Rightarrow> Inl (not_an_object (J_Str k))
      | _ \<Rightarrow> Inl (Py ''TypeError''))"

lemma for_each_cong [fundef_cong]:
  assumes "xs = ys" "s = t" "\<And>x u. x \<in> set ys \<Longrightarrow> f x u = g x u"
  shows "for_each f xs s = for_each g ys t"
  unfolding assms(1,2) using assms(3)
proof (induction ys arbitrary: t)
  case (Cons y ys)
  then show ?case by (auto split: sum.splits)
qed simp

function expr_leaves :: "json \<Rightarrow> json list \<Rightarrow> py_error + json list" where
  "expr_leaves e acc =
     (case e of
        J_Obj kvs \<Rightarrow>
          (case (case map_of kvs ''w'' of
                   None \<Rightarrow> Inr acc
                 | Some k \<Rightarrow> if hashable k then Inr (List.insert k acc) else Inl (Py ''TypeError'')) of
             Inl er \<Rightarrow> Inl er
           | Inr acc \<Rightarrow> (case map_of kvs ''args'' of
               None \<Rightarrow> Inr acc
             | Some (J_List xs) \<Rightarrow> for_each expr_leaves xs acc
             | Some j \<Rightarrow> (case odd_args j of Inl er \<Rightarrow> Inl er | Inr _ \<Rightarrow> Inr acc)))
      | _ \<Rightarrow> Inl (not_an_object e))"
  by pat_completeness auto
termination by (relation "measure (\<lambda>(e, acc). size e)") (auto dest: size_in_field)

declare expr_leaves.simps [simp del]

text \<open>\<open>is_exact\<close> of one expression: only ops that move values.\<close>

fun all_res :: "('b \<Rightarrow> 'e + bool) \<Rightarrow> 'b list \<Rightarrow> 'e + bool" where
  "all_res f [] = Inr True"
| "all_res f (x # xs) = (case f x of Inl e \<Rightarrow> Inl e | Inr b \<Rightarrow> if b then all_res f xs else Inr False)"

lemma all_res_cong [fundef_cong]:
  assumes "xs = ys" "\<And>x. x \<in> set ys \<Longrightarrow> f x = g x"
  shows "all_res f xs = all_res g ys"
  unfolding assms(1) using assms(2)
proof (induction ys)
  case (Cons y ys)
  then show ?case by (auto split: sum.splits)
qed simp

function exact_node :: "json \<Rightarrow> py_error + bool" where
  "exact_node e =
     (case e of
        J_Obj kvs \<Rightarrow>
          (if has_key kvs ''w'' then Inr True
           else case map_of kvs ''op'' of
             None \<Rightarrow> Inl (Py ''KeyError'')
           | Some opn \<Rightarrow>
               (if opn \<notin> J_Str ` set structural then Inr False
                else case map_of kvs ''args'' of
                  None \<Rightarrow> Inr True
                | Some (J_List xs) \<Rightarrow> all_res exact_node xs
                | Some j \<Rightarrow> (case odd_args j of Inl er \<Rightarrow> Inl er | Inr _ \<Rightarrow> Inr True)))
      | _ \<Rightarrow> Inl (not_an_object e))"
  by pat_completeness auto
termination by (relation "measure size") (auto dest: size_in_field)

declare exact_node.simps [simp del]

section \<open>Evaluation\<close>

text \<open>\<open>storage\<close>, which also makes a scalar a one-element array.\<close>

definition storage :: "'a numpy \<Rightarrow> 'a \<Rightarrow> string \<Rightarrow> py_error + 'a" where
  "storage np a d =
     (case np_storage np a d of None \<Rightarrow> Inl (Py ''KeyError'') | Some b \<Rightarrow> Inr (np_contiguous np b))"

definition logical_dtype :: "'a numpy \<Rightarrow> graph \<Rightarrow> string \<Rightarrow> 'a \<Rightarrow> string" where
  "logical_dtype np g key a =
     (let d = get_or (weight_dtypes g) key [] in
      if d \<noteq> [] then d
      else if np_kind np a = CHR ''b'' then ''b8''
      else if np_kind np a \<in> {CHR ''i'', CHR ''u''} then get_or [(1, ''u8''), (4, ''i32''), (8, ''i64'')] (np_itemsize np a) ''i32''
      else weight_dtype np g key a)"

definition need :: "string \<Rightarrow> (json \<Rightarrow> 'b option) \<Rightarrow> fields \<Rightarrow> py_error + 'b" where
  "need k as kvs =
     (case map_of kvs k of
        None \<Rightarrow> Inl (Py ''KeyError'')
      | Some j \<Rightarrow> (case as j of None \<Rightarrow> Inl (Py ''TypeError'') | Some v \<Rightarrow> Inr v))"

definition bind_res :: "'e + 'b \<Rightarrow> ('b \<Rightarrow> 'e + 'c) \<Rightarrow> 'e + 'c" where
  "bind_res r f = (case r of Inl e \<Rightarrow> Inl e | Inr x \<Rightarrow> f x)"

lemma bind_res_simps [simp]: "bind_res (Inl e) f = Inl e" "bind_res (Inr x) f = f x"
  by (simp_all add: bind_res_def)

lemma bind_res_Inr_iff: "bind_res r f = Inr y \<longleftrightarrow> (\<exists>x. r = Inr x \<and> f x = Inr y)"
  by (cases r) auto

definition or_shape :: "'b option \<Rightarrow> py_error + 'b" where
  "or_shape r = (case r of None \<Rightarrow> Inl (Deriv ''shape'') | Some x \<Rightarrow> Inr x)"

text \<open>\<open>sorted(perm) == list(range(ndim))\<close>.\<close>

definition is_perm :: "int list \<Rightarrow> nat \<Rightarrow> bool" where
  "is_perm p n = (sort p = map int [0..<n])"

definition zero_double :: json where
  "zero_double = J_Float 0"

definition join_arrays :: "'a numpy \<Rightarrow> string \<Rightarrow> int \<Rightarrow> 'a list \<Rightarrow> 'a option" where
  "join_arrays np opn ax arrs = (if opn = ''stack'' then np_stack np ax arrs else np_concatenate np ax arrs)"

definition slice_array :: "'a numpy \<Rightarrow> int \<Rightarrow> int \<Rightarrow> int \<Rightarrow> 'a \<Rightarrow> py_error + 'a" where
  "slice_array np ax a b x =
     (let n = int (length (np_shape np x)) in
      if \<not> (- n \<le> ax \<and> ax < n) \<or> b > np_shape np x ! nat (if ax < 0 then ax + n else ax) then Inl (Deriv ''shape'')
      else Inr (np_contiguous np (np_slice np ax a b x)))"

text \<open>float32 arithmetic; a failed broadcast is numpy's bare \<open>ValueError\<close>.\<close>

definition arith :: "'a numpy \<Rightarrow> string \<Rightarrow> fields \<Rightarrow> 'a list \<Rightarrow> py_error + 'a" where
  "arith np opn kvs arrs =
     (let f = map (np_astype np ''float32'') arrs in
      if opn = ''scale'' then
        (case map_of kvs ''by'' of None \<Rightarrow> Inl (Py ''KeyError'') | Some b \<Rightarrow> Inr (np_scale np b (f ! 0)))
      else case (if opn = ''add'' then np_add np (f ! 0) (f ! 1) else np_mul np (f ! 0) (f ! 1)) of
             None \<Rightarrow> Inl (Py ''ValueError'') | Some r \<Rightarrow> Inr r)"

definition apply_op :: "'a numpy \<Rightarrow> string \<Rightarrow> fields \<Rightarrow> 'a list \<Rightarrow> string list \<Rightarrow> py_error + 'a \<times> string" where
  "apply_op np opn kvs arrs dts =
     (if opn = ''pad'' then
        bind_res (need ''pads'' as_pads kvs) (\<lambda>ps.
          if length ps \<noteq> length (np_shape np (hd arrs)) then Inl (Deriv ''shape'')
          else Inr (np_pad np ps (get_or kvs ''value'' zero_double) (hd arrs), hd dts))
      else if opn = ''stack'' \<or> opn = ''concat'' then
        (if length (remdups dts) \<noteq> 1 then Inl (Deriv ''dtype'')
         else bind_res (need ''axis'' as_int kvs) (\<lambda>ax.
                bind_res (or_shape (join_arrays np opn ax arrs)) (\<lambda>r. Inr (r, hd dts))))
      else if opn = ''transpose'' then
        bind_res (need ''perm'' as_ints kvs) (\<lambda>p.
          if \<not> is_perm p (length (np_shape np (hd arrs))) then Inl (Deriv ''shape'')
          else Inr (np_contiguous np (np_transpose np p (hd arrs)), hd dts))
      else if opn = ''reshape'' then
        bind_res (need ''shape'' as_ints kvs) (\<lambda>s.
          bind_res (or_shape (np_reshape np s (hd arrs))) (\<lambda>r. Inr (np_contiguous np r, hd dts)))
      else if opn = ''slice'' then
        bind_res (need ''axis'' as_int kvs) (\<lambda>ax. bind_res (need ''stop'' as_int kvs) (\<lambda>b. bind_res (need ''start'' as_int kvs) (\<lambda>a.
          bind_res (slice_array np ax a b (hd arrs)) (\<lambda>r. Inr (r, hd dts)))))
      else if opn \<in> {''scale'', ''add'', ''mul''} then
        (if list_ex (\<lambda>d. d \<notin> set float_dtypes) dts then Inl (Deriv ''dtype'')
         else bind_res (arith np opn kvs arrs) (\<lambda>r. bind_res (storage np r (hd dts)) (\<lambda>s. Inr (s, hd dts))))
      else if opn = ''cast'' then
        bind_res (need ''dtype'' as_str kvs) (\<lambda>d.
          bind_res (storage np (if np_kind np (hd arrs) = CHR ''f'' then np_astype np ''float32'' (hd arrs) else hd arrs) d)
            (\<lambda>s. Inr (s, d)))
      else Inl (Deriv ''unknown_op''))"

lemma map_res_cong [fundef_cong]:
  assumes "xs = ys" "\<And>x. x \<in> set ys \<Longrightarrow> f x = g x"
  shows "map_res f xs = map_res g ys"
  unfolding assms(1) using assms(2)
proof (induction ys)
  case (Cons y ys)
  then have "map_res f ys = map_res g ys" "f y = g y" by auto
  then show ?case by (simp only: map_res.simps)
qed simp

definition eval_const :: "'a numpy \<Rightarrow> fields \<Rightarrow> py_error + 'a \<times> string" where
  "eval_const np kvs =
     bind_res (need ''shape'' as_ints kvs) (\<lambda>s. bind_res (need ''value'' Some kvs) (\<lambda>v. bind_res (need ''dtype'' as_str kvs) (\<lambda>d.
       bind_res (storage np (np_full np s v) d) (\<lambda>a. Inr (a, d)))))"

text \<open>\<open>_eval\<close>: an array and its logical dtype.\<close>

function eval_node :: "'a numpy \<Rightarrow> (string \<Rightarrow> py_error + 'a \<times> string) \<Rightarrow> json \<Rightarrow> py_error + 'a \<times> string" where
  "eval_node np resolve e =
     (case e of
        J_Obj kvs \<Rightarrow>
          (case map_of kvs ''w'' of
             Some j \<Rightarrow> (case as_str j of None \<Rightarrow> Inl (Deriv ''unmapped'') | Some k \<Rightarrow> resolve k)
           | None \<Rightarrow> (case map_of kvs ''op'' of
               Some (J_Str opn) \<Rightarrow>
                 (if opn = ''const'' then eval_const np kvs
                  else case map_of kvs ''args'' of
                    None \<Rightarrow> Inl (Py ''KeyError'')
                  | Some (J_List xs) \<Rightarrow>
                      (case map_res (eval_node np resolve) xs of
                         Inl er \<Rightarrow> Inl er
                       | Inr vals \<Rightarrow> apply_op np opn kvs (map fst vals) (map snd vals))
                  | Some _ \<Rightarrow> Inl (Py ''TypeError''))
             | _ \<Rightarrow> Inl (Py ''KeyError'')))
      | _ \<Rightarrow> Inl (not_an_object e))"
  by pat_completeness auto
termination by (relation "measure (\<lambda>(np, r, e). size e)") (auto dest: size_in_field)

declare eval_node.simps [simp del]

end
