(* ===== verification/Replay.thy ===== *)
theory Replay
  imports Derivation
begin

text \<open>
  \<^verbatim>\<open>pipeline/weight_derivations.py\<close>, second half: the table \<open>weight_derivations\<close> of a graph, its validation, the replay
  from base weights, what loaders and writers make of it, and the recorder that builds it.
\<close>

section \<open>Dependency order\<close>

definition expr_of :: "json \<Rightarrow> py_error + json" where
  "expr_of r =
     (case r of
        J_Obj kvs \<Rightarrow> (case map_of kvs ''expr'' of None \<Rightarrow> Inl (Py ''KeyError'') | Some e \<Rightarrow> Inr e)
      | _ \<Rightarrow> Inl (Py ''TypeError''))"

definition is_number :: "json \<Rightarrow> bool" where
  "is_number j = (case j of J_Int _ \<Rightarrow> True | J_Float _ \<Rightarrow> True | J_Bool _ \<Rightarrow> True | _ \<Rightarrow> False)"

text \<open>
  \<open>sorted(expr_leaves(...))\<close>. Keys that are no strings either do not compare or are found in no table: then the first
  of them is unmapped.
\<close>

definition sorted_leaves :: "json list \<Rightarrow> py_error + string list" where
  "sorted_leaves ls =
     (case those (map as_str ls) of
        Some ss \<Rightarrow> Inr (sorted_set ss)
      | None \<Rightarrow> if length ls = 1 \<or> list_all is_number ls then Inl (Deriv ''unmapped'') else Inl (Py ''TypeError''))"

definition leaves_of :: "(string, json) dict \<Rightarrow> string \<Rightarrow> py_error + string list" where
  "leaves_of d k =
     (case map_of d k of
        None \<Rightarrow> Inl (Py ''KeyError'')
      | Some r \<Rightarrow> bind_res (expr_of r) (\<lambda>e. bind_res (expr_leaves e []) sorted_leaves))"

text \<open>
  The depth-first visit. \<open>True\<close> marks a finished key, \<open>False\<close> one on the path. Every level of the recursion marks
  another key, so the number of keys is enough fuel.
\<close>

type_synonym visits = "(string, bool) dict \<times> string list"

datatype 'e fuelled = Out_Of_Fuel | Stopped 'e

fun visit_key :: "(string, json) dict \<Rightarrow> string list \<Rightarrow> nat \<Rightarrow> string \<Rightarrow> visits \<Rightarrow> py_error fuelled + visits" where
  "visit_key d base 0 k s = Inl Out_Of_Fuel"
| "visit_key d base (Suc n) k (st, out) =
     (case map_of st k of
        Some True \<Rightarrow> Inr (st, out)
      | Some False \<Rightarrow> Inl (Stopped (Deriv ''cycle''))
      | None \<Rightarrow> (case leaves_of d k of
          Inl e \<Rightarrow> Inl (Stopped e)
        | Inr ls \<Rightarrow>
            (case for_each (\<lambda>l s. if has_key d l then visit_key d base n l s
                                  else if l \<notin> set base then Inl (Stopped (Deriv ''unmapped'')) else Inr s)
                   ls (AList.update k False st, out) of
               Inl e \<Rightarrow> Inl e
             | Inr (st', out') \<Rightarrow> Inr (AList.update k True st', out' @ [k]))))"

definition derivation_order :: "(string, json) dict \<Rightarrow> string list \<Rightarrow> py_error fuelled + string list" where
  "derivation_order d base =
     (case for_each (\<lambda>k s. visit_key d base (length d + 1) k s) (sort (keys d)) ([], []) of
        Inl e \<Rightarrow> Inl e
      | Inr (st, out) \<Rightarrow> Inr out)"

section \<open>Validation\<close>

type_synonym defect = "string \<times> string option"

definition shape_entry :: "json \<Rightarrow> int option" where
  "shape_entry j = (case j of J_Int i \<Rightarrow> Some i | J_Bool b \<Rightarrow> Some (if b then 1 else 0) | _ \<Rightarrow> None)"

definition shape_list :: "json \<Rightarrow> int list option" where
  "shape_list j = (case j of J_List xs \<Rightarrow> those (map shape_entry xs) | _ \<Rightarrow> None)"

text \<open>\<open>rec.get("shape")\<close>: absent and \<open>null\<close> are the same.\<close>

definition rec_shape :: "fields \<Rightarrow> json option" where
  "rec_shape kvs = (case map_of kvs ''shape'' of Some J_Null \<Rightarrow> None | j \<Rightarrow> j)"

definition record_dtype :: "fields \<Rightarrow> string option" where
  "record_dtype kvs =
     (case map_of kvs ''dtype'' of Some (J_Str d) \<Rightarrow> if d \<in> set known_dtypes then Some d else None | _ \<Rightarrow> None)"

definition shape_defect :: "string \<Rightarrow> fields \<Rightarrow> defect list" where
  "shape_defect k kvs =
     (case rec_shape kvs of
        None \<Rightarrow> []
      | Some j \<Rightarrow> (case shape_list j of
          Some s \<Rightarrow> if list_all (\<lambda>x. x > 0) s then [] else [(''bad_record'', Some k)]
        | None \<Rightarrow> [(''bad_record'', Some k)]))"

definition plain_float_dtype :: "graph \<Rightarrow> string" where
  "plain_float_dtype g = get_or [(''fp16'', ''f16''), (''bf16'', ''bf16'')] (case g_quant g of None \<Rightarrow> [] | Some q \<Rightarrow> q) ''f32''"

definition dtype_defect :: "graph \<Rightarrow> string \<Rightarrow> string \<Rightarrow> defect list" where
  "dtype_defect g k d =
     (if d \<notin> set float_dtypes then []
      else if is_mixed g then (if map_of (weight_dtypes g) k \<noteq> Some d then [(''dtype_contract'', Some k)] else [])
      else if d \<noteq> plain_float_dtype g then [(''dtype_contract'', Some k)] else [])"

definition record_defects :: "graph \<Rightarrow> string list \<Rightarrow> string \<times> json \<Rightarrow> py_error + defect list" where
  "record_defects g base kr =
     (let (k, r) = kr;
          named = (if prefix ''d.'' k then [] else [(''bad_key'', Some k)]) @
                  (if k \<in> set base then [(''shadows_base'', Some k)] else []) in
      case r of
        J_Obj kvs \<Rightarrow>
          (case (map_of kvs ''expr'', record_dtype kvs) of
             (Some e, Some d) \<Rightarrow>
               (case check_node 0 e [] of
                  Inl (Deriv c) \<Rightarrow> Inr (named @ [(c, Some k)])
                | Inl (Py x) \<Rightarrow> Inl (Py x)
                | Inr _ \<Rightarrow> Inr (named @ shape_defect k kvs @ dtype_defect g k d))
           | _ \<Rightarrow> Inr (named @ [(''bad_record'', Some k)]))
      | _ \<Rightarrow> Inr (named @ [(''bad_record'', Some k)]))"

definition validate_table :: "graph \<Rightarrow> string list \<Rightarrow> py_error fuelled + defect list" where
  "validate_table g base =
     (let d = weight_derivations g in
      case map_res (record_defects g base) (sort_key fst d) of
        Inl e \<Rightarrow> Inl (Stopped e)
      | Inr bads \<Rightarrow>
          (case derivation_order d base of
             Inl (Stopped (Deriv c)) \<Rightarrow> Inr (concat bads @ [(c, None)])
           | Inl e \<Rightarrow> Inl e
           | Inr _ \<Rightarrow> Inr (concat bads)))"

section \<open>Replay\<close>

text \<open>\<open>_closure\<close>: the keys and every derived key they read.\<close>

definition raw_leaves :: "(string, json) dict \<Rightarrow> string \<Rightarrow> py_error + string list" where
  "raw_leaves d k =
     (case map_of d k of
        None \<Rightarrow> Inl (Py ''KeyError'')
      | Some r \<Rightarrow> bind_res (expr_of r) (\<lambda>e. bind_res (expr_leaves e []) (\<lambda>ls. Inr (List.map_filter as_str ls))))"

function key_closure :: "(string, json) dict \<Rightarrow> string list \<Rightarrow> string list \<Rightarrow> py_error + string list" where
  "key_closure d out stack =
     (case stack of
        [] \<Rightarrow> Inr out
      | x # rest \<Rightarrow>
          (if x \<in> set out \<or> \<not> has_key d x then key_closure d out rest
           else case raw_leaves d x of
             Inl e \<Rightarrow> Inl e
           | Inr ls \<Rightarrow> key_closure d (x # out) (rev ls @ rest)))"
  by pat_completeness auto
termination
proof (relation "measures [\<lambda>(d, out, stack). card (set (keys d) - set out), \<lambda>(d, out, stack). length stack]"; clarsimp)
  fix d :: "(string, json) dict" and out x
  assume "x \<notin> set out" "has_key d x"
  then have "x \<in> set (keys d) - set out" by (simp add: has_key_iff)
  then have "set (keys d) - insert x (set out) \<subset> set (keys d) - set out" by auto
  then show "card (set (keys d) - insert x (set out)) < card (set (keys d) - set out)" by (rule psubset_card_mono [rotated]) simp
qed

declare key_closure.simps [simp del]

definition table_closure :: "(string, json) dict \<Rightarrow> string list \<Rightarrow> py_error + string list" where
  "table_closure d ks = key_closure d [] (rev ks)"

definition resolve_in :: "'a numpy \<Rightarrow> graph \<Rightarrow> (string, 'a) dict \<Rightarrow> (string, 'a \<times> string) dict \<Rightarrow> string \<Rightarrow> py_error + 'a \<times> string" where
  "resolve_in np bg base found k =
     (case map_of found k of
        Some v \<Rightarrow> Inr v
      | None \<Rightarrow> (case map_of base k of
          Some a \<Rightarrow> Inr (a, logical_dtype np bg k a)
        | None \<Rightarrow> Inl (Deriv ''unmapped'')))"

definition replay_record :: "'a numpy \<Rightarrow> (string \<Rightarrow> py_error + 'a \<times> string) \<Rightarrow> json \<Rightarrow> py_error + 'a \<times> string" where
  "replay_record np resolve r =
     (case r of
        J_Obj kvs \<Rightarrow>
          bind_res (need ''expr'' Some kvs) (\<lambda>e.
            bind_res (eval_node np resolve e) (\<lambda>v.
              if map_of kvs ''dtype'' \<noteq> Some (J_Str (snd v)) then Inl (Deriv ''dtype'')
              else case rec_shape kvs of
                     None \<Rightarrow> Inr v
                   | Some j \<Rightarrow> if shape_list j = Some (np_shape np (fst v)) then Inr v else Inl (Deriv ''shape'')))
      | _ \<Rightarrow> Inl (Py ''TypeError''))"

definition replay_step ::
  "'a numpy \<Rightarrow> graph \<Rightarrow> (string, json) dict \<Rightarrow> (string, 'a) dict \<Rightarrow> string list option \<Rightarrow> string
     \<Rightarrow> (string, 'a \<times> string) dict \<Rightarrow> py_error + (string, 'a \<times> string) dict" where
  "replay_step np bg d base want k found =
     (if want \<noteq> None \<and> k \<notin> set (the want) then Inr found
      else case map_of d k of
        None \<Rightarrow> Inl (Py ''KeyError'')
      | Some r \<Rightarrow> bind_res (replay_record np (resolve_in np bg base found) r) (\<lambda>v. Inr (AList.update k v found)))"

definition lift_stop :: "'e + 'b \<Rightarrow> 'e fuelled + 'b" where
  "lift_stop r = (case r of Inl e \<Rightarrow> Inl (Stopped e) | Inr x \<Rightarrow> Inr x)"

definition replay ::
  "'a numpy \<Rightarrow> graph \<Rightarrow> (string, 'a) dict \<Rightarrow> graph option \<Rightarrow> string list option \<Rightarrow> py_error fuelled + (string, 'a) dict" where
  "replay np g base bgo wanted =
     (let d = weight_derivations g; bg = (case bgo of None \<Rightarrow> g | Some b \<Rightarrow> b) in
      if d = [] then Inr []
      else bind_res (validate_table g (keys base)) (\<lambda>errs.
        if errs \<noteq> [] then Inl (Stopped (Deriv (fst (hd errs))))
        else bind_res (lift_stop (case wanted of None \<Rightarrow> Inr None | Some ks \<Rightarrow> map_sum id Some (table_closure d ks))) (\<lambda>want.
          bind_res (derivation_order d (keys base)) (\<lambda>ord.
            bind_res (lift_stop (for_each (replay_step np bg d base want) ord [])) (\<lambda>found.
              Inr (map (\<lambda>(k, v). (k, fst v)) (filter (\<lambda>(k, v). wanted = None \<or> k \<in> set (the wanted)) found)))))))"

section \<open>Loaders and writers\<close>

definition base_part :: "graph \<Rightarrow> (string, 'a) dict \<Rightarrow> (string, 'a) dict" where
  "base_part g w = filter (\<lambda>(k, v). \<not> has_key (weight_derivations g) k) w"

definition dict_update :: "(string, 'b) dict \<Rightarrow> (string, 'b) dict \<Rightarrow> (string, 'b) dict" where
  "dict_update w r = fold (\<lambda>(k, v). AList.update k v) r w"

definition fill_missing :: "'a numpy \<Rightarrow> graph \<Rightarrow> (string, 'a) dict \<Rightarrow> py_error fuelled + (string, 'a) dict" where
  "fill_missing np g w =
     (let miss = filter (\<lambda>k. \<not> has_key w k) (keys (weight_derivations g)) in
      if miss = [] then Inr w
      else bind_res (replay np g (base_part g w) (Some g) (Some miss)) (\<lambda>r. Inr (dict_update w r)))"

definition materialize :: "'a numpy \<Rightarrow> graph \<Rightarrow> (string, 'a) dict \<Rightarrow> py_error fuelled + (string, 'a) dict" where
  "materialize np g w = bind_res (replay np g (base_part g w) (Some g) None) (\<lambda>r. Inr (dict_update w r))"

text \<open>\<open>is_exact\<close> of the table, or of the named derivations.\<close>

definition is_exact :: "graph \<Rightarrow> string list option \<Rightarrow> py_error + bool" where
  "is_exact g ks =
     (let d = weight_derivations g in
      all_res (\<lambda>k. case map_of d k of
                 None \<Rightarrow> Inl (Py ''KeyError'')
               | Some r \<Rightarrow> bind_res (expr_of r) exact_node)
        (case ks of None \<Rightarrow> keys d | Some xs \<Rightarrow> xs))"

section \<open>The recorder\<close>

text \<open>\<open>None\<close> for the base graph: the recorder's own graph, as it is when a weight is read.\<close>

record 'a recorder =
  rc_graph :: graph
  rc_base :: "(string, 'a) dict"
  rc_base_graph :: "graph option"
  rc_arrays :: "(string, 'a) dict"

definition new_recorder :: "graph \<Rightarrow> (string, 'a) dict \<Rightarrow> graph option \<Rightarrow> 'a recorder" where
  "new_recorder g base bg = \<lparr>rc_graph = g, rc_base = base, rc_base_graph = bg, rc_arrays = []\<rparr>"

definition record_node :: "string \<Rightarrow> int list \<Rightarrow> json \<Rightarrow> json" where
  "record_node d sh e = J_Obj [(''dtype'', J_Str d), (''shape'', J_List (map J_Int sh)), (''expr'', e)]"

definition rec_resolve :: "'a numpy \<Rightarrow> 'a recorder \<Rightarrow> string \<Rightarrow> py_error + 'a \<times> string" where
  "rec_resolve np s k =
     (case map_of (rc_arrays s) k of
        Some a \<Rightarrow> (case map_of (weight_derivations (rc_graph s)) k of
            Some (J_Obj kvs) \<Rightarrow> bind_res (need ''dtype'' as_str kvs) (\<lambda>d. Inr (a, d))
          | _ \<Rightarrow> Inl (Py ''KeyError''))
      | None \<Rightarrow> (case map_of (rc_base s) k of
          Some a \<Rightarrow> Inr (a, logical_dtype np (case rc_base_graph s of None \<Rightarrow> rc_graph s | Some b \<Rightarrow> b) k a)
        | None \<Rightarrow> Inl (Deriv ''unmapped'')))"

definition declare_dtype :: "string \<Rightarrow> string \<Rightarrow> graph \<Rightarrow> graph" where
  "declare_dtype k d g =
     (if is_mixed g \<and> d \<in> set float_dtypes then g\<lparr>weight_dtypes := AList.update k d (weight_dtypes g)\<rparr> else g)"

definition put :: "'a numpy \<Rightarrow> string \<Rightarrow> json \<Rightarrow> 'a recorder \<Rightarrow> py_error + 'a recorder" where
  "put np new e s =
     (if has_key (weight_derivations (rc_graph s)) new \<or> has_key (rc_base s) new then Inl (Deriv ''exists'')
      else if \<not> prefix ''d.'' new then Inl (Deriv ''bad_key'')
      else bind_res (check_node 0 e []) (\<lambda>_.
        bind_res (eval_node np (rec_resolve np s) e) (\<lambda>(a, d).
          let g = rc_graph s in
          Inr (s\<lparr>rc_graph := declare_dtype new d
                    (g\<lparr>weight_derivations := AList.update new (record_node d (np_shape np a) e) (weight_derivations g)\<rparr>),
                 rc_arrays := AList.update new a (rc_arrays s)\<rparr>))))"

text \<open>An argument is a key or a node; the builders write the node of their op.\<close>

datatype weight_arg = Key string | Node json

definition arg_node :: "weight_arg \<Rightarrow> json" where
  "arg_node a = (case a of Key k \<Rightarrow> J_Obj [(''w'', J_Str k)] | Node j \<Rightarrow> j)"

definition op_node :: "string \<Rightarrow> fields \<Rightarrow> weight_arg list \<Rightarrow> json" where
  "op_node opn ps as = J_Obj ((''op'', J_Str opn) # ps @ [(''args'', J_List (map arg_node as))])"

definition pair_node :: "int \<times> int \<Rightarrow> json" where
  "pair_node p = J_List [J_Int (fst p), J_Int (snd p)]"

definition ints_node :: "int list \<Rightarrow> json" where
  "ints_node is = J_List (map J_Int is)"

definition build_pad :: "(int \<times> int) list \<Rightarrow> json \<Rightarrow> weight_arg \<Rightarrow> json" where
  "build_pad ps v a = op_node ''pad'' [(''pads'', J_List (map pair_node ps)), (''value'', v)] [a]"

definition build_stack :: "int \<Rightarrow> weight_arg list \<Rightarrow> json" where
  "build_stack ax as = op_node ''stack'' [(''axis'', J_Int ax)] as"

definition build_concat :: "int \<Rightarrow> weight_arg list \<Rightarrow> json" where
  "build_concat ax as = op_node ''concat'' [(''axis'', J_Int ax)] as"

definition build_transpose :: "int list \<Rightarrow> weight_arg \<Rightarrow> json" where
  "build_transpose p a = op_node ''transpose'' [(''perm'', ints_node p)] [a]"

definition build_reshape :: "int list \<Rightarrow> weight_arg \<Rightarrow> json" where
  "build_reshape s a = op_node ''reshape'' [(''shape'', ints_node s)] [a]"

definition build_slice :: "int \<Rightarrow> int \<Rightarrow> int \<Rightarrow> weight_arg \<Rightarrow> json" where
  "build_slice ax a b x = op_node ''slice'' [(''axis'', J_Int ax), (''start'', J_Int a), (''stop'', J_Int b)] [x]"

definition build_scale :: "nat \<Rightarrow> weight_arg \<Rightarrow> json" where
  "build_scale by_double x = op_node ''scale'' [(''by'', J_Float by_double)] [x]"

definition build_cast :: "string \<Rightarrow> weight_arg \<Rightarrow> json" where
  "build_cast d x = op_node ''cast'' [(''dtype'', J_Str d)] [x]"

definition build_add :: "weight_arg \<Rightarrow> weight_arg \<Rightarrow> json" where
  "build_add x y = op_node ''add'' [] [x, y]"

definition build_mul :: "weight_arg \<Rightarrow> weight_arg \<Rightarrow> json" where
  "build_mul x y = op_node ''mul'' [] [x, y]"

definition build_const :: "int list \<Rightarrow> json \<Rightarrow> string \<Rightarrow> json" where
  "build_const s v d = J_Obj [(''op'', J_Str ''const''), (''shape'', ints_node s), (''value'', v), (''dtype'', J_Str d)]"

end
