(* ===== verification/Derivation_Order.thy ===== *)
theory Derivation_Order
  imports Replay
begin

text \<open>
  The depth-first order of the derivation table: it never runs out of fuel, it succeeds exactly on tables whose keys
  read known weights without a cycle, and its result lists every key after the keys it reads.
\<close>

section \<open>What a table reads\<close>

definition reads :: "(string, json) dict \<Rightarrow> (string \<times> string) set" where
  "reads d = {(k, l). \<exists>ls. leaves_of d k = Inr ls \<and> l \<in> set ls \<and> has_key d k \<and> has_key d l}"

definition grounded :: "(string, json) dict \<Rightarrow> string set \<Rightarrow> bool" where
  "grounded d base = (\<forall>k \<in> set (keys d). \<exists>ls. leaves_of d k = Inr ls \<and> set ls \<subseteq> set (keys d) \<union> base)"

text \<open>Every key of \<open>out\<close> has its leaves known, the derived ones further left.\<close>

definition ordered_after :: "(string, json) dict \<Rightarrow> string set \<Rightarrow> string list \<Rightarrow> bool" where
  "ordered_after d base out =
     (distinct out \<and> set out \<subseteq> set (keys d) \<and>
      (\<forall>i < length out. \<exists>ls. leaves_of d (out ! i) = Inr ls \<and>
         (\<forall>l \<in> set ls. if has_key d l then l \<in> set (take i out) else l \<in> base)))"

lemma ordered_after_snoc:
  assumes "ordered_after d base out" "k \<notin> set out" "has_key d k" "leaves_of d k = Inr ls"
    "\<And>l. l \<in> set ls \<Longrightarrow> if has_key d l then l \<in> set out else l \<in> base"
  shows "ordered_after d base (out @ [k])"
  unfolding ordered_after_def
proof (intro conjI allI impI)
  fix i assume i: "i < length (out @ [k])"
  show "\<exists>ls. leaves_of d ((out @ [k]) ! i) = Inr ls \<and>
          (\<forall>l \<in> set ls. if has_key d l then l \<in> set (take i (out @ [k])) else l \<in> base)"
  proof (cases "i < length out")
    case True
    with assms(1) obtain ls' where "leaves_of d (out ! i) = Inr ls'"
      "\<forall>l \<in> set ls'. if has_key d l then l \<in> set (take i out) else l \<in> base" unfolding ordered_after_def by blast
    with True show ?thesis by (auto simp: nth_append)
  next
    case False
    with i have "i = length out" by simp
    with assms(4,5) show ?thesis by auto
  qed
qed (use assms(1-3) in \<open>auto simp: ordered_after_def has_key_iff\<close>)

lemma ordered_after_acyclic:
  assumes "ordered_after d base out" "set out = set (keys d)"
  shows "acyclic (reads d)" "grounded d base"
proof -
  define pos where "pos k = (LEAST i. i < length out \<and> out ! i = k)" for k
  have pos: "pos (out ! i) = i" if "i < length out" for i
    unfolding pos_def using assms(1) that by (intro Least_equality) (auto simp: ordered_after_def nth_eq_iff_index_eq)
  have less: "pos l < pos k" if "(k, l) \<in> reads d" for k l
  proof -
    from that obtain ls where ls: "leaves_of d k = Inr ls" "l \<in> set ls" "has_key d k" "has_key d l" by (auto simp: reads_def)
    with assms(2) obtain i where i: "i < length out" "out ! i = k" by (metis has_key_iff in_set_conv_nth)
    with assms(1) ls have "l \<in> set (take i out)" by (force simp: ordered_after_def)
    then obtain j where "j < i" "out ! j = l" using i(1) by (auto simp: in_set_conv_nth)
    with pos i show ?thesis by (metis less_trans)
  qed
  show "acyclic (reads d)" by (rule acyclicI_order [where f = pos]) (use less in auto)
  show "grounded d base"
    unfolding grounded_def
  proof
    fix k assume "k \<in> set (keys d)"
    with assms(2) obtain i where i: "i < length out" "out ! i = k" by (metis in_set_conv_nth)
    with assms(1) obtain ls where ls: "leaves_of d k = Inr ls" "\<forall>l \<in> set ls. if has_key d l then l \<in> set (take i out) else l \<in> base"
      unfolding ordered_after_def by blast
    then have "set ls \<subseteq> set (keys d) \<union> base" by (force simp: has_key_iff split: if_splits)
    with ls(1) show "\<exists>ls. leaves_of d k = Inr ls \<and> set ls \<subseteq> set (keys d) \<union> base" by blast
  qed
qed

section \<open>The visits\<close>

definition active :: "visits \<Rightarrow> string set" where
  "active s = {k. map_of (fst s) k = Some False}"

definition visits_ok :: "(string, json) dict \<Rightarrow> string set \<Rightarrow> visits \<Rightarrow> bool" where
  "visits_ok d base s =
     (ordered_after d base (snd s) \<and> set (snd s) = {k. map_of (fst s) k = Some True} \<and> set (keys (fst s)) \<subseteq> set (keys d))"

text \<open>What a successful visit of \<open>k\<close> does to the state.\<close>

definition advances :: "(string, json) dict \<Rightarrow> string set \<Rightarrow> visits \<Rightarrow> visits \<Rightarrow> bool" where
  "advances d base s s' =
     (visits_ok d base s' \<and> active s' = active s \<and> set (snd s) \<subseteq> set (snd s') \<and> set (keys (fst s)) \<subseteq> set (keys (fst s')))"

lemma advances_refl: "visits_ok d base s \<Longrightarrow> advances d base s s"
  by (simp add: advances_def)

lemma advances_trans: "advances d base s t \<Longrightarrow> advances d base t u \<Longrightarrow> advances d base s u"
  by (auto simp: advances_def)

definition visit_leaf :: "(string, json) dict \<Rightarrow> string list \<Rightarrow> nat \<Rightarrow> string \<Rightarrow> visits \<Rightarrow> py_error fuelled + visits" where
  "visit_leaf d base n l s =
     (if has_key d l then visit_key d base n l s else if l \<notin> set base then Inl (Stopped (Deriv ''unmapped'')) else Inr s)"

lemma visit_Suc:
  "visit_key d base (Suc n) k s =
     (case map_of (fst s) k of
        Some True \<Rightarrow> Inr s
      | Some False \<Rightarrow> Inl (Stopped (Deriv ''cycle''))
      | None \<Rightarrow> (case leaves_of d k of
          Inl e \<Rightarrow> Inl (Stopped e)
        | Inr ls \<Rightarrow>
            (case for_each (visit_leaf d base n) ls (AList.update k False (fst s), snd s) of
               Inl e \<Rightarrow> Inl e
             | Inr s' \<Rightarrow> Inr (AList.update k True (fst s'), snd s' @ [k]))))"
  by (cases s) (simp add: visit_leaf_def [abs_def] split_def split: option.splits bool.splits sum.splits)

text \<open>The loop over the leaves, from what each visit of a leaf does.\<close>

lemma leaves_advance:
  assumes "for_each (visit_leaf d base n) ls s = Inr s'" "visits_ok d (set base) s"
    and step: "\<And>l s s'. visit_key d base n l s = Inr s' \<Longrightarrow> has_key d l \<Longrightarrow> visits_ok d (set base) s \<Longrightarrow>
                 advances d (set base) s s' \<and> l \<in> set (snd s')"
  shows "advances d (set base) s s' \<and> (\<forall>l \<in> set ls. if has_key d l then l \<in> set (snd s') else l \<in> set base)"
  using assms(1,2)
proof (induction ls arbitrary: s)
  case Nil
  then show ?case by (auto intro: advances_refl)
next
  case (Cons l ls)
  from Cons.prems(1) obtain s1 where s1: "visit_leaf d base n l s = Inr s1" "for_each (visit_leaf d base n) ls s1 = Inr s'"
    by (auto split: sum.splits)
  have 1: "advances d (set base) s s1 \<and> (if has_key d l then l \<in> set (snd s1) else l \<in> set base)"
    using s1(1) step [of l s s1] Cons.prems(2) by (auto simp: visit_leaf_def intro: advances_refl split: if_splits)
  then have "visits_ok d (set base) s1" by (simp add: advances_def)
  from Cons.IH [OF s1(2) this] have 2: "advances d (set base) s1 s'"
    "\<forall>l \<in> set ls. if has_key d l then l \<in> set (snd s') else l \<in> set base" by blast+
  from 1 2 have "if has_key d l then l \<in> set (snd s') else l \<in> set base" by (auto simp: advances_def split: if_splits)
  moreover from 1 2 have "advances d (set base) s s'" by (blast intro: advances_trans)
  ultimately show ?case using 2 by simp
qed

lemma visit_advances:
  "visit_key d base n k s = Inr s' \<Longrightarrow> has_key d k \<Longrightarrow> visits_ok d (set base) s \<Longrightarrow> advances d (set base) s s' \<and> k \<in> set (snd s')"
proof (induction n arbitrary: k s s')
  case (Suc n)
  show ?case
  proof (cases "map_of (fst s) k")
    case None
    from Suc.prems(1) None obtain ls s1 where ls: "leaves_of d k = Inr ls"
      and run: "for_each (visit_leaf d base n) ls (AList.update k False (fst s), snd s) = Inr s1"
      and s': "s' = (AList.update k True (fst s1), snd s1 @ [k])"
      by (auto simp: visit_Suc split: sum.splits)
    let ?t = "(AList.update k False (fst s), snd s)"
    have ok: "visits_ok d (set base) ?t"
      using Suc.prems(2,3) None by (auto simp: visits_ok_def keys_update has_key_iff)
    have act: "active ?t = insert k (active s)" using None by (auto simp: active_def)
    from leaves_advance [OF run ok Suc.IH] have adv: "advances d (set base) ?t s1"
      and kn: "\<forall>l \<in> set ls. if has_key d l then l \<in> set (snd s1) else l \<in> set base" by auto
    have kf: "map_of (fst s1) k = Some False" using adv act by (auto simp: advances_def active_def)
    have o1: "visits_ok d (set base) s1" using adv by (simp add: advances_def)
    have nk: "k \<notin> set (snd s1)" using o1 kf by (auto simp: visits_ok_def)
    have "ordered_after d (set base) (snd s1 @ [k])"
      using o1 nk Suc.prems(2) ls kn by (intro ordered_after_snoc) (auto simp: visits_ok_def)
    moreover have "active s' = active s"
    proof -
      have "active s' = active s1 - {k}" by (auto simp: s' active_def)
      also have "\<dots> = active s" using adv act None by (auto simp: advances_def active_def)
      finally show ?thesis .
    qed
    ultimately show ?thesis using o1 adv Suc.prems(2)
      by (auto simp: s' advances_def visits_ok_def keys_update has_key_iff)
  qed (use Suc.prems in \<open>auto simp: visit_Suc visits_ok_def advances_def split: bool.splits\<close>)
qed simp

text \<open>Fuel: every level marks a key that was not marked before.\<close>

lemma unmarked_less:
  assumes "has_key d k" "map_of (fst s) k = None" "set (keys (fst s)) \<subseteq> set (keys (fst t))" "k \<in> set (keys (fst t))"
  shows "card (set (keys d) - set (keys (fst t))) < card (set (keys d) - set (keys (fst s)))"
proof (rule psubset_card_mono)
  have "k \<in> set (keys d) - set (keys (fst s))" using assms(1,2) by (simp add: has_key_iff keys_def map_of_eq_None_iff)
  with assms(3,4) show "set (keys d) - set (keys (fst t)) \<subset> set (keys d) - set (keys (fst s))" by auto
qed simp

lemma leaves_fuelled:
  assumes "visits_ok d (set base) s"
    and "\<And>l s. has_key d l \<Longrightarrow> visits_ok d (set base) s \<Longrightarrow> set (keys (fst s0)) \<subseteq> set (keys (fst s)) \<Longrightarrow> visit_key d base n l s \<noteq> Inl Out_Of_Fuel"
    and "set (keys (fst s0)) \<subseteq> set (keys (fst s))"
  shows "for_each (visit_leaf d base n) ls s \<noteq> Inl Out_Of_Fuel"
  using assms(1,3)
proof (induction ls arbitrary: s)
  case (Cons l ls)
  show ?case
  proof (cases "visit_leaf d base n l s")
    case (Inl e)
    with assms(2) [of l s] Cons.prems show ?thesis by (auto simp: visit_leaf_def split: if_splits)
  next
    case (Inr s1)
    have "advances d (set base) s s1"
      using Inr Cons.prems visit_advances [of d base n l s s1] by (auto simp: visit_leaf_def intro: advances_refl split: if_splits)
    with Cons.IH [of s1] Cons.prems(2) Inr show ?thesis by (auto simp: advances_def)
  qed
qed simp

lemma visit_fuelled:
  "has_key d k \<Longrightarrow> visits_ok d (set base) s \<Longrightarrow> n > card (set (keys d) - set (keys (fst s))) \<Longrightarrow> visit_key d base n k s \<noteq> Inl Out_Of_Fuel"
proof (induction n arbitrary: k s)
  case (Suc n)
  show ?case
  proof (cases "map_of (fst s) k")
    case None
    let ?t = "(AList.update k False (fst s), snd s)"
    have ok: "visits_ok d (set base) ?t" using Suc.prems(1,2) None by (auto simp: visits_ok_def keys_update has_key_iff)
    have "visit_key d base n l t \<noteq> Inl Out_Of_Fuel"
      if l: "has_key d l" "visits_ok d (set base) t" "set (keys (fst ?t)) \<subseteq> set (keys (fst t))" for l t
    proof (rule Suc.IH [OF l(1,2)])
      have "card (set (keys d) - set (keys (fst t))) < card (set (keys d) - set (keys (fst s)))"
        using Suc.prems(1) None l(3) by (intro unmarked_less [of d k]) (auto simp: keys_update)
      with Suc.prems(3) show "n > card (set (keys d) - set (keys (fst t)))" by simp
    qed
    then have "for_each (visit_leaf d base n) ls ?t \<noteq> Inl Out_Of_Fuel" for ls by (intro leaves_fuelled [OF ok, of ?t]) auto
    with None show ?thesis by (auto simp: visit_Suc split: sum.splits)
  qed (auto simp: visit_Suc split: bool.splits)
qed simp

text \<open>A visit that stops has found an unknown leaf, or a cycle through the keys on the path.\<close>

lemma leaves_stop:
  assumes "for_each (visit_leaf d base n) ls s = Inl (Stopped e)" "visits_ok d (set base) s"
    and "\<And>l s. l \<in> set ls \<Longrightarrow> has_key d l \<Longrightarrow> visits_ok d (set base) s \<Longrightarrow> active s = A \<Longrightarrow> visit_key d base n l s \<noteq> Inl (Stopped e)"
    and "active s = A" "set ls \<subseteq> set (keys d) \<union> set base"
  shows False
  using assms
proof (induction ls arbitrary: s)
  case (Cons l ls)
  show ?case
  proof (cases "visit_leaf d base n l s")
    case (Inl e')
    with Cons.prems(1) have "visit_leaf d base n l s = Inl (Stopped e)" by simp
    with Cons.prems(2-5) show ?thesis by (auto simp: visit_leaf_def has_key_iff split: if_splits)
  next
    case (Inr s1)
    have adv: "advances d (set base) s s1"
      using Inr Cons.prems(2) visit_advances [of d base n l s s1] by (auto simp: visit_leaf_def intro: advances_refl split: if_splits)
    show ?thesis
    proof (rule Cons.IH [of s1])
      show "for_each (visit_leaf d base n) ls s1 = Inl (Stopped e)" using Cons.prems(1) Inr by simp
      show "visits_ok d (set base) s1" "active s1 = A" using adv Cons.prems(4) by (auto simp: advances_def)
      show "visit_key d base n l' t \<noteq> Inl (Stopped e)"
        if "l' \<in> set ls" "has_key d l'" "visits_ok d (set base) t" "active t = A" for l' t
        using Cons.prems(3) that by simp
      show "set ls \<subseteq> set (keys d) \<union> set base" using Cons.prems(5) by simp
    qed
  qed
qed simp

lemma visit_stops:
  assumes "grounded d (set base)" "acyclic (reads d)"
  shows "has_key d k \<Longrightarrow> visits_ok d (set base) s \<Longrightarrow> \<forall>a \<in> active s. (a, k) \<in> (reads d)\<^sup>+ \<Longrightarrow> visit_key d base n k s \<noteq> Inl (Stopped e)"
proof (induction n arbitrary: k s)
  case (Suc n)
  show ?case
  proof (cases "map_of (fst s) k")
    case None
    let ?t = "(AList.update k False (fst s), snd s)"
    from assms(1) Suc.prems(1) obtain ls where ls: "leaves_of d k = Inr ls" "set ls \<subseteq> set (keys d) \<union> set base"
      unfolding grounded_def has_key_iff by blast
    have ok: "visits_ok d (set base) ?t" using Suc.prems(1,2) None by (auto simp: visits_ok_def keys_update has_key_iff)
    have act: "active ?t = insert k (active s)" using None by (auto simp: active_def)
    have "visit_key d base n l t \<noteq> Inl (Stopped e)"
      if l: "l \<in> set ls" "has_key d l" "visits_ok d (set base) t" "active t = active ?t" for l t
    proof (rule Suc.IH [OF l(2,3)])
      have r: "(k, l) \<in> reads d" using ls(1) l(1,2) Suc.prems(1) by (auto simp: reads_def)
      show "\<forall>a \<in> active t. (a, l) \<in> (reads d)\<^sup>+"
        using Suc.prems(3) r unfolding l(4) act by (auto intro: trancl_into_trancl)
    qed
    then have "for_each (visit_leaf d base n) ls ?t \<noteq> Inl (Stopped e)"
      using leaves_stop [of d base n ls ?t e "active ?t"] ok ls(2) by blast
    with None ls(1) show ?thesis by (auto simp: visit_Suc split: sum.splits)
  next
    case (Some b)
    show ?thesis
    proof (cases b)
      case False
      with Some have "k \<in> active s" by (simp add: active_def)
      with Suc.prems(3) assms(2) show ?thesis by (auto simp: acyclic_def)
    qed (simp add: visit_Suc Some)
  qed
qed simp

section \<open>The order of the table\<close>

lemma start_ok: "visits_ok d base ([], [])"
  by (simp add: visits_ok_def ordered_after_def keys_def)

lemma order_loop:
  assumes "for_each (\<lambda>k s. visit_key d base n k s) ks s = Inr s'" "visits_ok d (set base) s" "active s = {}" "set ks \<subseteq> set (keys d)"
  shows "visits_ok d (set base) s' \<and> active s' = {} \<and> set (snd s) \<union> set ks \<subseteq> set (snd s')"
  using assms
proof (induction ks arbitrary: s)
  case (Cons k ks)
  from Cons.prems(1) obtain s1 where s1: "visit_key d base n k s = Inr s1" "for_each (\<lambda>k s. visit_key d base n k s) ks s1 = Inr s'"
    by (auto split: sum.splits)
  have adv: "advances d (set base) s s1" "k \<in> set (snd s1)"
    using visit_advances [OF s1(1)] Cons.prems(2,4) by (auto simp: has_key_iff)
  with Cons.IH [OF s1(2)] Cons.prems(3,4) show ?case by (auto simp: advances_def)
qed simp

lemma order_loop_stops:
  assumes "for_each (\<lambda>k s. visit_key d base n k s) ks s = Inl e" "visits_ok d (set base) s" "active s = {}" "set ks \<subseteq> set (keys d)"
    "n > card (set (keys d))"
  shows "\<exists>c. e = Stopped c \<and> \<not> (grounded d (set base) \<and> acyclic (reads d))"
  using assms
proof (induction ks arbitrary: s)
  case (Cons k ks)
  have hk: "has_key d k" using Cons.prems(4) by (simp add: has_key_iff)
  show ?case
  proof (cases "visit_key d base n k s")
    case (Inl e')
    with Cons.prems(1) have v: "visit_key d base n k s = Inl e" by simp
    have "card (set (keys d) - set (keys (fst s))) < n"
      using Cons.prems(5) by (rule le_less_trans [rotated]) (rule card_mono, auto)
    from visit_fuelled [OF hk Cons.prems(2) this] v have "e \<noteq> Out_Of_Fuel" by auto
    then obtain c where c: "e = Stopped c" by (cases e) auto
    with visit_stops [OF _ _ hk Cons.prems(2), of n c] Cons.prems(3) v show ?thesis by auto
  next
    case (Inr s1)
    have "advances d (set base) s s1" using visit_advances [OF Inr hk Cons.prems(2)] by simp
    with Cons.IH [of s1] Inr Cons.prems show ?thesis by (auto simp: advances_def)
  qed
qed simp

lemma derivation_order_Inr:
  assumes "derivation_order d base = Inr ks"
  shows "ordered_after d (set base) ks" "set ks = set (keys d)"
proof -
  from assms obtain st where run: "for_each (\<lambda>k s. visit_key d base (length d + 1) k s) (sort (keys d)) ([], []) = Inr (st, ks)"
    by (auto simp: derivation_order_def split: sum.splits)
  from order_loop [OF run start_ok] have "visits_ok d (set base) (st, ks)" "set (keys d) \<subseteq> set ks"
    by (auto simp: active_def)
  then show "ordered_after d (set base) ks" "set ks = set (keys d)"
    by (auto simp: visits_ok_def ordered_after_def)
qed

lemma derivation_order_Inl:
  assumes "derivation_order d base = Inl e"
  shows "\<exists>c. e = Stopped c \<and> \<not> (grounded d (set base) \<and> acyclic (reads d))"
proof -
  from assms have run: "for_each (\<lambda>k s. visit_key d base (length d + 1) k s) (sort (keys d)) ([], []) = Inl e"
    by (auto simp: derivation_order_def split: sum.splits)
  have "card (set (keys d)) < length d + 1" using card_length [of "keys d"] by (simp add: keys_def)
  from order_loop_stops [OF run start_ok _ _ this] show ?thesis by (simp add: active_def)
qed

text \<open>
  C34. Ordering a derivation table ends with an order or an error, never by exhausting its fuel. There is an order
  exactly when every derivation reads only weights that exist and no derivation reads itself through others; then
  every key is listed once, after all the derived keys it reads.
\<close>
theorem derivation_order_iff:
  "derivation_order d base \<noteq> Inl Out_Of_Fuel \<and>
   ((\<exists>ks. derivation_order d base = Inr ks) = (grounded d (set base) \<and> acyclic (reads d))) \<and>
   (case derivation_order d base of
      Inl e \<Rightarrow> True
    | Inr ks \<Rightarrow> distinct ks \<and> set ks = set (keys d) \<and>
        (\<forall>i < length ks. \<forall>l. (ks ! i, l) \<in> reads d \<longrightarrow> l \<in> set (take i ks)))"
proof (cases "derivation_order d base")
  case (Inl e)
  from derivation_order_Inl [OF Inl] Inl show ?thesis by auto
next
  case (Inr ks)
  note o = derivation_order_Inr [OF Inr]
  have "\<forall>i < length ks. \<forall>l. (ks ! i, l) \<in> reads d \<longrightarrow> l \<in> set (take i ks)"
  proof (intro allI impI)
    fix i l assume "i < length ks" "(ks ! i, l) \<in> reads d"
    with o(1) show "l \<in> set (take i ks)" by (fastforce simp: ordered_after_def reads_def split: if_splits)
  qed
  with ordered_after_acyclic [OF o] o Inr show ?thesis by (auto simp: ordered_after_def)
qed

text \<open>A table whose first key, in the order of the names, reads the second.\<close>

definition leaf :: "string \<Rightarrow> json" where
  "leaf k = J_Obj [(''w'', J_Str k)]"

definition demo_table :: "(string, json) dict" where
  "demo_table =
     [(''d.a'', record_node ''f32'' [6] (build_concat 0 [Key ''d.b'', Key ''w''])),
      (''d.b'', record_node ''f32'' [4] (build_concat 0 [Key ''w'', Key ''w'']))]"

lemma demo_order: "derivation_order demo_table [''w''] = Inr [''d.b'', ''d.a'']"
  by code_simp

theorem derivation_order_iff_witness:
  "derivation_order demo_table [''w''] = Inr [''d.b'', ''d.a''] \<and> acyclic (reads demo_table) \<and> (''d.b'', ''d.a'') \<notin> reads demo_table"
  using derivation_order_iff [of demo_table "[''w'']"] demo_order by (auto simp: less_Suc_eq)

text \<open>
  What \<open>validate\<close> promises to return as a list it sometimes raises: on a record without an expression, and on
  arguments that are no list, the order is computed all the same.
\<close>

lemma validate_raises:
  "validate_table ((plain_graph [] [''y''])\<lparr>weight_derivations := [(''d.a'', J_Obj [(''dtype'', J_Str ''f32'')])]\<rparr>) [] =
     Inl (Stopped (Py ''KeyError''))"
  "validate_table ((plain_graph [] [''y''])\<lparr>weight_derivations := [(''d.a'',
       record_node ''f32'' [1] (J_Obj [(''op'', J_Str ''pad''), (''args'', J_Str ''x'')]))]\<rparr>) [] =
     Inl (Stopped (Py ''AttributeError''))"
  by code_simp+

end
