(* ===== verification/Replay_Facts.thy ===== *)
theory Replay_Facts
  imports Derivation_Order
begin

text \<open>
  What a replay computes: the one assignment of arrays that satisfies every record of the table. The recorder builds
  such an assignment while it writes the table, a partial replay is a restriction of it, and loaders and writers that
  fill in derived weights agree on it.
\<close>

section \<open>Evaluation depends on the leaves\<close>

lemma eval_obj:
  "eval_node np r (J_Obj kvs) =
     (case map_of kvs ''w'' of
        Some j \<Rightarrow> (case as_str j of None \<Rightarrow> Inl (Deriv ''unmapped'') | Some k \<Rightarrow> r k)
      | None \<Rightarrow> (case map_of kvs ''op'' of
          Some (J_Str opn) \<Rightarrow>
            (if opn = ''const'' then eval_const np kvs
             else case map_of kvs ''args'' of
               None \<Rightarrow> Inl (Py ''KeyError'')
             | Some (J_List xs) \<Rightarrow>
                 (case map_res (eval_node np r) xs of
                    Inl er \<Rightarrow> Inl er
                  | Inr vals \<Rightarrow> apply_op np opn kvs (map fst vals) (map snd vals))
             | Some _ \<Rightarrow> Inl (Py ''TypeError''))
        | _ \<Rightarrow> Inl (Py ''KeyError'')))"
  by (simp add: eval_node.simps [of np r "J_Obj kvs"])

lemma leaves_obj:
  "expr_leaves (J_Obj kvs) acc =
     (case (case map_of kvs ''w'' of
              None \<Rightarrow> Inr acc
            | Some k \<Rightarrow> if hashable k then Inr (List.insert k acc) else Inl (Py ''TypeError'')) of
        Inl er \<Rightarrow> Inl er
      | Inr acc \<Rightarrow> (case map_of kvs ''args'' of
          None \<Rightarrow> Inr acc
        | Some (J_List xs) \<Rightarrow> for_each expr_leaves xs acc
        | Some j \<Rightarrow> (case odd_args j of Inl er \<Rightarrow> Inl er | Inr _ \<Rightarrow> Inr acc)))"
  by (simp add: expr_leaves.simps [of "J_Obj kvs"])

lemma leaves_objD:
  assumes "expr_leaves (J_Obj kvs) acc = Inr ls"
  shows "\<exists>acc1. (acc1 = acc \<and> map_of kvs ''w'' = None \<or> (\<exists>k. map_of kvs ''w'' = Some k \<and> hashable k \<and> acc1 = List.insert k acc)) \<and>
    (\<forall>xs. map_of kvs ''args'' = Some (J_List xs) \<longrightarrow> for_each expr_leaves xs acc1 = Inr ls) \<and>
    ((\<nexists>xs. map_of kvs ''args'' = Some (J_List xs)) \<longrightarrow> ls = acc1)"
proof -
  let ?a = "case map_of kvs ''w'' of None \<Rightarrow> Inr acc | Some k \<Rightarrow> if hashable k then Inr (List.insert k acc) else Inl (Py ''TypeError'')"
  show ?thesis
  proof (cases ?a)
    case (Inr acc1)
    have 1: "acc1 = acc \<and> map_of kvs ''w'' = None \<or> (\<exists>k. map_of kvs ''w'' = Some k \<and> hashable k \<and> acc1 = List.insert k acc)"
      using Inr by (auto split: option.splits if_splits)
    have 2: "for_each expr_leaves xs acc1 = Inr ls" if "map_of kvs ''args'' = Some (J_List xs)" for xs
      using assms unfolding leaves_obj Inr by (simp add: that)
    have 3: "ls = acc1" if "\<nexists>xs. map_of kvs ''args'' = Some (J_List xs)"
      using assms that unfolding leaves_obj Inr by (auto split: option.splits json.splits sum.splits)
    show ?thesis by (rule exI [of _ acc1]) (use 1 2 3 in blast)
  next
    case (Inl er)
    from assms show ?thesis unfolding leaves_obj Inl by simp
  qed
qed

lemma leaves_grow_list:
  assumes "\<And>x acc ls. x \<in> set xs \<Longrightarrow> expr_leaves x acc = Inr ls \<Longrightarrow> set acc \<subseteq> set ls" "for_each expr_leaves xs acc = Inr ls"
  shows "set acc \<subseteq> set ls"
  using assms
proof (induction xs arbitrary: acc)
  case (Cons x xs)
  from Cons.prems(2) obtain l1 where l1: "expr_leaves x acc = Inr l1" "for_each expr_leaves xs l1 = Inr ls" by (auto split: sum.splits)
  from Cons.IH [OF _ l1(2)] Cons.prems(1) [OF _ l1(1)] Cons.prems(1) show ?case by (meson list.set_intros order_trans)
qed simp

lemma leaves_grow: "expr_leaves e acc = Inr ls \<Longrightarrow> set acc \<subseteq> set ls"
proof (induction "size e" arbitrary: e acc ls rule: less_induct)
  case less
  show ?case
  proof (cases e)
    case (J_Obj kvs)
    obtain acc1 where w: "acc1 = acc \<and> map_of kvs ''w'' = None \<or> (\<exists>k. map_of kvs ''w'' = Some k \<and> hashable k \<and> acc1 = List.insert k acc)"
      and acc1: "\<forall>xs. map_of kvs ''args'' = Some (J_List xs) \<longrightarrow> for_each expr_leaves xs acc1 = Inr ls"
      "(\<nexists>xs. map_of kvs ''args'' = Some (J_List xs)) \<longrightarrow> ls = acc1"
      using leaves_objD [OF less.prems [unfolded J_Obj]] by blast
    from w have sub: "set acc \<subseteq> set acc1" by auto
    show ?thesis
    proof (cases "\<exists>xs. map_of kvs ''args'' = Some (J_List xs)")
      case True
      then obtain xs where xs: "map_of kvs ''args'' = Some (J_List xs)" by blast
      have "set acc1 \<subseteq> set ls"
        by (rule leaves_grow_list [OF _ acc1(1) [rule_format, OF xs]], rule less.hyps) (use size_in_field [OF xs] in \<open>auto simp: J_Obj\<close>)
      with sub show ?thesis by auto
    qed (use acc1 sub in auto)
  qed (use less.prems in \<open>auto simp: expr_leaves.simps\<close>)
qed

lemma eval_list_cong:
  assumes "\<And>x. x \<in> set xs \<Longrightarrow> eval_node np r x = eval_node np r' x"
  shows "map_res (eval_node np r) xs = map_res (eval_node np r') xs"
  by (rule map_res_cong) (simp_all add: assms)

lemma for_each_leaves:
  assumes "for_each expr_leaves xs acc = Inr ls" "x \<in> set xs"
  shows "\<exists>a l. expr_leaves x a = Inr l \<and> set l \<subseteq> set ls"
  using assms
proof (induction xs arbitrary: acc)
  case (Cons y xs)
  from Cons.prems(1) obtain l1 where l1: "expr_leaves y acc = Inr l1" "for_each expr_leaves xs l1 = Inr ls" by (auto split: sum.splits)
  have "set l1 \<subseteq> set ls" using l1(2) by (rule leaves_grow_list [rotated]) (rule leaves_grow)
  with l1 Cons.IH [OF l1(2)] Cons.prems(2) show ?case by auto
qed simp

text \<open>Two ways to resolve keys that agree on the leaves give the same value.\<close>

lemma eval_leaves:
  assumes "expr_leaves e acc = Inr ls" "\<And>k. J_Str k \<in> set ls \<Longrightarrow> r k = r' k"
  shows "eval_node np r e = eval_node np r' e"
  using assms
proof (induction "size e" arbitrary: e acc ls rule: less_induct)
  case less
  show ?case
  proof (cases e)
    case (J_Obj kvs)
    show ?thesis
    proof (cases "map_of kvs ''w''")
      case (Some j)
      have "J_Str k \<in> set ls" if "as_str j = Some k" for k
      proof -
        from that have j: "j = J_Str k" by (simp add: as_str_Some)
        obtain acc1 where w: "acc1 = acc \<and> map_of kvs ''w'' = None \<or> (\<exists>k. map_of kvs ''w'' = Some k \<and> hashable k \<and> acc1 = List.insert k acc)"
          and acc1: "\<forall>xs. map_of kvs ''args'' = Some (J_List xs) \<longrightarrow> for_each expr_leaves xs acc1 = Inr ls"
          "(\<nexists>xs. map_of kvs ''args'' = Some (J_List xs)) \<longrightarrow> ls = acc1"
          using leaves_objD [OF less.prems(1) [unfolded J_Obj]] by blast
        from w have here: "J_Str k \<in> set acc1" by (auto simp: Some j)
        show ?thesis
        proof (cases "\<exists>xs. map_of kvs ''args'' = Some (J_List xs)")
          case True
          then obtain xs where "for_each expr_leaves xs acc1 = Inr ls" using acc1(1) by blast
          then have "set acc1 \<subseteq> set ls" by (rule leaves_grow_list [rotated]) (rule leaves_grow)
          with here show ?thesis by blast
        qed (use acc1 here in auto)
      qed
      with less.prems(2) show ?thesis by (auto simp: J_Obj eval_obj Some split: option.splits)
    next
      case None
      have "eval_node np r x = eval_node np r' x" if "map_of kvs ''args'' = Some (J_List xs)" "x \<in> set xs" for xs x
      proof -
        from less.prems(1) have "for_each expr_leaves xs acc = Inr ls" by (simp add: J_Obj leaves_obj None that(1))
        from for_each_leaves [OF this that(2)] obtain a l where l: "expr_leaves x a = Inr l" "set l \<subseteq> set ls" by blast
        show ?thesis by (rule less.hyps [OF _ l(1)]) (use size_in_field [OF that] l(2) less.prems(2) in \<open>auto simp: J_Obj\<close>)
      qed
      then have "map_res (eval_node np r) xs = map_res (eval_node np r') xs" if "map_of kvs ''args'' = Some (J_List xs)" for xs
        using that by (intro eval_list_cong) blast
      then show ?thesis by (auto simp: J_Obj eval_obj None split: option.splits json.splits)
    qed
  qed (auto simp: eval_node.simps)
qed

section \<open>Checked nodes\<close>

text \<open>
  A node that passed the check has string leaves only, all of which its evaluation resolves.
\<close>

definition checked_leaves :: "'a numpy \<Rightarrow> json \<Rightarrow> string set \<Rightarrow> bool" where
  "checked_leaves np e L =
     ((\<forall>acc. \<exists>ls. expr_leaves e acc = Inr ls \<and> set ls = set acc \<union> J_Str ` L) \<and>
      (\<forall>r v. eval_node np r e = Inr v \<longrightarrow> (\<forall>k \<in> L. \<exists>v. r k = Inr v)))"

lemma checked_list:
  assumes "\<And>a ls ls'. a \<in> set args \<Longrightarrow> check_node n a ls = Inr ls' \<Longrightarrow> \<exists>L. set ls' = set ls \<union> L \<and> checked_leaves np a L"
    and "for_each (check_node n) args acc = Inr out"
  shows "\<exists>L. set out = set acc \<union> L \<and>
           (\<forall>acc. \<exists>ls. for_each expr_leaves args acc = Inr ls \<and> set ls = set acc \<union> J_Str ` L) \<and>
           (\<forall>r vs. map_res (eval_node np r) args = Inr vs \<longrightarrow> (\<forall>k \<in> L. \<exists>v. r k = Inr v))"
  using assms
proof (induction args arbitrary: acc)
  case (Cons a args)
  from Cons.prems(2) obtain l1 where l1: "check_node n a acc = Inr l1" "for_each (check_node n) args l1 = Inr out"
    by (auto split: sum.splits)
  from Cons.prems(1) [OF _ l1(1)] obtain L1 where L1: "set l1 = set acc \<union> L1" "checked_leaves np a L1" by auto
  from Cons.IH [OF _ l1(2)] Cons.prems(1) obtain L2 where L2: "set out = set l1 \<union> L2"
    "\<forall>acc. \<exists>ls. for_each expr_leaves args acc = Inr ls \<and> set ls = set acc \<union> J_Str ` L2"
    "\<forall>r vs. map_res (eval_node np r) args = Inr vs \<longrightarrow> (\<forall>k \<in> L2. \<exists>v. r k = Inr v)" by fastforce
  show ?case
  proof (rule exI [of _ "L1 \<union> L2"], intro conjI allI impI)
    show "set out = set acc \<union> (L1 \<union> L2)" using L1 L2 by auto
    fix acc'
    from L1(2) obtain m1 where m1: "expr_leaves a acc' = Inr m1" "set m1 = set acc' \<union> J_Str ` L1" unfolding checked_leaves_def by blast
    from L2(2) obtain m2 where m2: "for_each expr_leaves args m1 = Inr m2" "set m2 = set m1 \<union> J_Str ` L2" by blast
    show "\<exists>ls. for_each expr_leaves (a # args) acc' = Inr ls \<and> set ls = set acc' \<union> J_Str ` (L1 \<union> L2)"
      using m1 m2 by auto
  next
    fix r vs assume "map_res (eval_node np r) (a # args) = Inr vs"
    then show "\<forall>k \<in> L1 \<union> L2. \<exists>v. r k = Inr v"
      using L1(2) L2(3) by (fastforce simp: checked_leaves_def split: sum.splits)
  qed
qed auto

lemma check_headD:
  assumes "check_head kvs = Inr args"
  obtains opn where "node_op kvs = Some opn" "args_list kvs = Some args" "check_params opn kvs = Inr ()"
    "case map_of op_arity opn of Some n \<Rightarrow> length args = n | None \<Rightarrow> args \<noteq> []"
  using assms by (auto simp: check_head_def split: option.splits if_splits sum.splits)

lemma args_listD: "args_list kvs = Some args \<Longrightarrow> map_of kvs ''args'' = None \<and> args = [] \<or> map_of kvs ''args'' = Some (J_List args)"
  by (auto simp: args_list_def split: option.splits json.splits)

lemma node_opD: "node_op kvs = Some opn \<Longrightarrow> map_of kvs ''op'' = Some (J_Str opn) \<and> opn \<in> set all_ops - {''w''}"
  by (auto simp: node_op_def split: option.splits json.splits if_splits)

lemma const_args: "case map_of op_arity ''const'' of Some n \<Rightarrow> length args = n | None \<Rightarrow> args \<noteq> [] \<Longrightarrow> args = []"
  by (simp add: op_arity_def)

lemma other_args: "opn \<noteq> ''const'' \<Longrightarrow> opn \<in> set all_ops - {''w''} \<Longrightarrow>
   case map_of op_arity opn of Some n \<Rightarrow> length args = n | None \<Rightarrow> args \<noteq> [] \<Longrightarrow> args \<noteq> []"
  by (auto simp: op_arity_def all_ops_def structural_def)

lemma checked_node: "check_node n e acc = Inr ls \<Longrightarrow> \<exists>L. set ls = set acc \<union> L \<and> checked_leaves np e L"
proof (induction n e acc arbitrary: ls rule: check_node.induct)
  case (1 n e acc)
  from 1(2) obtain kvs where n: "\<not> n > 64" and e: "e = J_Obj kvs"
    by (auto simp: check_node.simps [of n e] split: if_splits json.splits)
  show ?case
  proof (cases "has_key kvs ''w''")
    case True
    with 1(2) n e obtain k where k: "leaf_key kvs = Some k" "ls = List.insert k acc"
      by (cases "leaf_key kvs") (simp_all add: check_node.simps [of n "J_Obj kvs"])
    from k(1) have w: "map_of kvs ''w'' = Some (J_Str k)" and "set (keys kvs) = {''w''}"
      by (auto simp: leaf_key_def as_str_Some split: if_splits Option.bind_splits)
    then have "\<not> has_key kvs ''args''" by (simp add: has_key_iff)
    then have "map_of kvs ''args'' = None" by (simp add: has_key_def)
    with w have "checked_leaves np e {k}" by (auto simp: checked_leaves_def e leaves_obj eval_obj hashable_def)
    with k(2) show ?thesis by (intro exI [of _ "{k}"]) auto
  next
    case False
    with 1(2) n e obtain args where h: "check_head kvs = Inr args" "for_each (check_node (n + 1)) args acc = Inr ls"
      by (cases "check_head kvs") (simp_all add: check_node.simps [of n "J_Obj kvs"])
    have IH: "\<exists>L. set l' = set l \<union> L \<and> checked_leaves np a L" if "check_node (n + 1) a l = Inr l'" for a l l'
      using 1(1) [OF n e False h(1) that] .
    from checked_list [OF IH h(2)] obtain L where L: "set ls = set acc \<union> L"
      "\<forall>acc. \<exists>ls. for_each expr_leaves args acc = Inr ls \<and> set ls = set acc \<union> J_Str ` L"
      "\<forall>r vs. map_res (eval_node np r) args = Inr vs \<longrightarrow> (\<forall>k \<in> L. \<exists>v. r k = Inr v)" by blast
    from False have w: "map_of kvs ''w'' = None" by (simp add: has_key_def)
    from h(1) obtain opn where opn: "node_op kvs = Some opn" "args_list kvs = Some args"
      "case map_of op_arity opn of Some n \<Rightarrow> length args = n | None \<Rightarrow> args \<noteq> []" by (auto elim!: check_headD)
    have "checked_leaves np e L"
      unfolding checked_leaves_def
    proof (intro conjI allI impI)
      fix acc'
      from L(2) [rule_format, of acc'] args_listD [OF opn(2)]
      show "\<exists>ls. expr_leaves e acc' = Inr ls \<and> set ls = set acc' \<union> J_Str ` L" by (auto simp: e leaves_obj w)
    next
      fix r v assume v: "eval_node np r e = Inr v"
      show "\<forall>k \<in> L. \<exists>v. r k = Inr v"
      proof (cases "args = []")
        case True
        with L(3) show ?thesis by simp
      next
        case False
        with const_args opn(3) have "opn \<noteq> ''const''" by auto
        with v node_opD [OF opn(1)] args_listD [OF opn(2)] False obtain vs where "map_res (eval_node np r) args = Inr vs"
          by (auto simp: e eval_obj w split: sum.splits)
        with L(3) show ?thesis by blast
      qed
    qed
    with L(1) show ?thesis by blast
  qed
qed

section \<open>Solutions of a table\<close>

text \<open>
  \<open>F\<close> solves the table when every record, evaluated with the base weights and \<open>F\<close>, has the value \<open>F\<close> gives its key.
\<close>

type_synonym 'a found = "string \<Rightarrow> ('a \<times> string) option"

definition resolve_from :: "'a numpy \<Rightarrow> graph \<Rightarrow> (string, 'a) dict \<Rightarrow> 'a found \<Rightarrow> string \<Rightarrow> py_error + 'a \<times> string" where
  "resolve_from np bg base F k =
     (case F k of
        Some v \<Rightarrow> Inr v
      | None \<Rightarrow> (case map_of base k of Some a \<Rightarrow> Inr (a, logical_dtype np bg k a) | None \<Rightarrow> Inl (Deriv ''unmapped'')))"

lemma in_keys: "map_of d k = Some r \<Longrightarrow> k \<in> set (keys d)"
  by (metis has_key_def has_key_iff option.distinct(1))

lemma resolve_in_from: "resolve_in np bg base found = resolve_from np bg base (map_of found)"
  by (rule ext) (simp add: resolve_in_def resolve_from_def)

definition solves :: "'a numpy \<Rightarrow> graph \<Rightarrow> (string, json) dict \<Rightarrow> (string, 'a) dict \<Rightarrow> 'a found \<Rightarrow> bool" where
  "solves np bg d base F =
     (dom F = set (keys d) \<and>
      (\<forall>k r. map_of d k = Some r \<longrightarrow> replay_record np (resolve_from np bg base F) r = Inr (the (F k))))"

lemma leaves_ofD:
  assumes "leaves_of d k = Inr ls" "map_of d k = Some r"
  obtains kvs e js where "r = J_Obj kvs" "map_of kvs ''expr'' = Some e" "expr_leaves e [] = Inr js" "set js = J_Str ` set ls"
proof -
  from assms obtain e js where e: "expr_of r = Inr e" "expr_leaves e [] = Inr js" "sorted_leaves js = Inr ls"
    by (auto simp: leaves_of_def bind_res_Inr_iff)
  from e(1) obtain kvs where "r = J_Obj kvs" "map_of kvs ''expr'' = Some e" by (auto simp: expr_of_def split: json.splits option.splits)
  moreover from e(3) obtain ss where ss: "those (map as_str js) = Some ss" "ls = sorted_set ss"
    by (auto simp: sorted_leaves_def split: option.splits if_splits)
  have "set js = J_Str ` set ss"
  proof -
    from ss(1) have "map as_str js = map Some ss" by (simp add: those_Some_iff)
    then have "js = map J_Str ss"
      by (induction ss arbitrary: js) (auto simp: as_str_Some map_eq_Cons_conv)
    then show ?thesis by simp
  qed
  ultimately show thesis using that e(2) ss(2) by simp
qed

lemma replay_record_leaves:
  assumes "leaves_of d k = Inr ls" "map_of d k = Some r" "\<And>l. l \<in> set ls \<Longrightarrow> f l = g l"
  shows "replay_record np f r = replay_record np g r"
proof -
  obtain kvs e js where r: "r = J_Obj kvs" "map_of kvs ''expr'' = Some e" "expr_leaves e [] = Inr js" "set js = J_Str ` set ls"
    using leaves_ofD [OF assms(1,2)] .
  have "eval_node np f e = eval_node np g e" by (rule eval_leaves [OF r(3)]) (use r(4) assms(3) in auto)
  with r(2) show ?thesis by (simp add: r(1) replay_record_def need_def)
qed

lemma resolve_known:
  assumes "if has_key d l then l \<in> K else l \<in> set (keys base)" "\<And>k. k \<in> K \<Longrightarrow> F k = G k"
    "dom F \<subseteq> set (keys d)" "dom G \<subseteq> set (keys d)"
  shows "resolve_from np bg base F l = resolve_from np bg base G l"
proof (cases "has_key d l")
  case False
  then have "F l = None" "G l = None" using assms(3,4) by (auto simp: has_key_iff)
  then show ?thesis by (simp add: resolve_from_def)
qed (use assms(1,2) in \<open>simp add: resolve_from_def\<close>)

definition within_keys :: "string list option \<Rightarrow> string \<Rightarrow> bool" where
  "within_keys want k = (want = None \<or> k \<in> set (the want))"

lemma replay_step_within:
  "replay_step np bg d base want k found =
     (if \<not> within_keys want k then Inr found
      else case map_of d k of
        None \<Rightarrow> Inl (Py ''KeyError'')
      | Some r \<Rightarrow> bind_res (replay_record np (resolve_from np bg base (map_of found)) r) (\<lambda>v. Inr (AList.update k v found)))"
  unfolding replay_step_def within_keys_def resolve_in_from by simp

text \<open>The loop over an ordered table, with a set of wanted keys that is closed under reading.\<close>

definition closed_keys :: "(string, json) dict \<Rightarrow> string list option \<Rightarrow> bool" where
  "closed_keys d want = (\<forall>k l. (k, l) \<in> reads d \<longrightarrow> within_keys want k \<longrightarrow> within_keys want l)"

lemma solution_loop:
  assumes F: "solves np bg d base F" and o: "ordered_after d (set (keys base)) ks" and w: "closed_keys d want"
  shows "\<exists>found. for_each (replay_step np bg d base want) ks [] = Inr found \<and>
           map_of found = F |` {k \<in> set ks. within_keys want k}"
proof -
  have "\<exists>found. for_each (replay_step np bg d base want) pre [] = Inr found \<and>
           map_of found = F |` {k \<in> set pre. within_keys want k}" if "ks = pre @ post" for pre post
    using that
  proof (induction pre arbitrary: post rule: rev_induct)
    case Nil
    show ?case by (simp add: restrict_map_def fun_eq_iff)
  next
    case (snoc k pre)
    from snoc.IH [of "k # post"] snoc.prems obtain found where found: "for_each (replay_step np bg d base want) pre [] = Inr found"
      "map_of found = F |` {k \<in> set pre. within_keys want k}" by auto
    have i: "length pre < length ks" "ks ! length pre = k" "take (length pre) ks = pre" using snoc.prems by auto
    with o obtain ls where ls: "leaves_of d k = Inr ls" "\<forall>l \<in> set ls. if has_key d l then l \<in> set pre else l \<in> set (keys base)"
      unfolding ordered_after_def by metis
    have hk: "has_key d k" using o i by (auto simp: ordered_after_def has_key_iff)
    then obtain r where r: "map_of d k = Some r" by (auto simp: has_key_def)
    show ?case
    proof (cases "within_keys want k")
      case True
      have "resolve_from np bg base (map_of found) l = resolve_from np bg base F l" if l: "l \<in> set ls" for l
      proof (rule resolve_known [of d _ "{k \<in> set pre. within_keys want k}"])
        have "within_keys want l" if "has_key d l"
          using w True ls(1) l hk that by (auto simp: closed_keys_def reads_def)
        then show "if has_key d l then l \<in> {k \<in> set pre. within_keys want k} else l \<in> set (keys base)" using ls(2) l by simp
      qed (use F found(2) in \<open>auto simp: solves_def restrict_map_def split: if_splits\<close>)
      from replay_record_leaves [OF ls(1) r this]
      have "replay_record np (resolve_from np bg base (map_of found)) r = Inr (the (F k))" using F r by (simp add: solves_def)
      with True r found(1) have "for_each (replay_step np bg d base want) (pre @ [k]) [] = Inr (AList.update k (the (F k)) found)"
        by (simp add: for_each_append replay_step_within)
      moreover have "k \<in> dom F" using F hk by (simp add: solves_def has_key_iff)
      then have "F k = Some (the (F k))" by auto
      ultimately show ?thesis using found(2) True by (auto simp: restrict_map_def fun_eq_iff)
    next
      case False
      with found have "for_each (replay_step np bg d base want) (pre @ [k]) [] = Inr found"
        by (simp add: for_each_append replay_step_within)
      with found(2) False show ?thesis by (auto simp: restrict_map_def fun_eq_iff)
    qed
  qed
  from this [of ks "[]"] show ?thesis by simp
qed

lemma replayed_solves:
  assumes run: "for_each (replay_step np bg d base None) ks [] = Inr found" and o: "ordered_after d (set (keys base)) ks"
    and all: "set ks = set (keys d)"
  shows "solves np bg d base (map_of found)"
proof -
  have grow: "dom (map_of found) = set ks \<and>
     (\<forall>k \<in> set ks. \<forall>r. map_of d k = Some r \<longrightarrow> replay_record np (resolve_from np bg base (map_of found)) r = Inr (the (map_of found k)))"
    using run
  proof (rule for_each_prefix_inv)
    fix pre k post s s'
    assume ks: "ks = pre @ k # post" and IH: "dom (map_of s) = set pre \<and> (\<forall>k \<in> set pre. \<forall>r. map_of d k = Some r \<longrightarrow>
        replay_record np (resolve_from np bg base (map_of s)) r = Inr (the (map_of s k)))"
      and step: "replay_step np bg d base None k s = Inr s'"
    from step obtain r v where rv: "map_of d k = Some r" "replay_record np (resolve_from np bg base (map_of s)) r = Inr v"
      "s' = AList.update k v s" by (auto simp: replay_step_within within_keys_def bind_res_Inr_iff split: option.splits)
    have dk: "distinct ks" "set ks \<subseteq> set (keys d)" using o by (simp_all add: ordered_after_def)
    have same: "replay_record np (resolve_from np bg base (map_of s')) r' = replay_record np (resolve_from np bg base (map_of s)) r'"
      if k': "k' \<in> set (pre @ [k])" "map_of d k' = Some r'" for k' r'
    proof -
      from k'(1) obtain i where i: "i < length (pre @ [k])" "(pre @ [k]) ! i = k'" by (metis in_set_conv_nth)
      then have i: "i \<le> length pre" "ks ! i = k'" using ks by (auto simp: nth_append split: if_splits)
      have "i < length ks" using i(1) ks by simp
      with o i(2) obtain ls where ls: "leaves_of d k' = Inr ls" "\<forall>l \<in> set ls. if has_key d l then l \<in> set (take i ks) else l \<in> set (keys base)"
        unfolding ordered_after_def by blast
      have sub: "set (take i ks) \<subseteq> set pre" using i(1) ks by (auto simp: take_append dest: in_set_takeD)
      have kn: "k \<notin> set pre" using dk(1) ks by simp
      show ?thesis
      proof (rule replay_record_leaves [OF ls(1) k'(2)], rule resolve_known [of d _ "set pre"])
        fix l assume "l \<in> set ls"
        with ls(2) sub show "if has_key d l then l \<in> set pre else l \<in> set (keys base)" by (auto split: if_splits)
      qed (use IH kn dk ks rv(3) in auto)
    qed
    show "dom (map_of s') = set (pre @ [k]) \<and> (\<forall>k \<in> set (pre @ [k]). \<forall>r. map_of d k = Some r \<longrightarrow>
        replay_record np (resolve_from np bg base (map_of s')) r = Inr (the (map_of s' k)))"
    proof (intro conjI ballI allI impI)
      show "dom (map_of s') = set (pre @ [k])" using IH rv(3) by auto
      fix k' r' assume k': "k' \<in> set (pre @ [k])" "map_of d k' = Some r'"
      have kn: "k \<notin> set pre" using dk(1) ks by simp
      show "replay_record np (resolve_from np bg base (map_of s')) r' = Inr (the (map_of s' k'))"
        unfolding same [OF k'] using IH k' rv kn by (cases "k' = k") auto
    qed
  qed simp
  with all in_keys [of d] show ?thesis unfolding solves_def by blast
qed

lemma solution_unique:
  assumes "ordered_after d (set (keys base)) ks" "set ks = set (keys d)" "solves np bg d base F" "solves np bg d base G"
  shows "F = G"
proof -
  have "closed_keys d None" by (simp add: closed_keys_def within_keys_def)
  from solution_loop [OF assms(3,1) this] solution_loop [OF assms(4,1) this]
  have "F |` {k \<in> set ks. within_keys None k} = G |` {k \<in> set ks. within_keys None k}" by auto
  then have "F |` set ks = G |` set ks" by (simp add: within_keys_def)
  moreover have "H |` set ks = H" if "dom H = set ks" for H :: "'a found"
    by (rule ext) (metis domIff restrict_in restrict_out that)
  ultimately show ?thesis using assms(2-4) by (metis solves_def)
qed

section \<open>What a replay returns\<close>

text \<open>\<open>_closure\<close> returns the keys of the table the wanted keys reach.\<close>

lemma raw_leaves_of: "leaves_of d k = Inr ls \<Longrightarrow> \<exists>rs. raw_leaves d k = Inr rs \<and> set rs = set ls"
proof -
  assume a: "leaves_of d k = Inr ls"
  then obtain r where r: "map_of d k = Some r" by (auto simp: leaves_of_def split: option.splits)
  obtain kvs e js where e: "r = J_Obj kvs" "map_of kvs ''expr'' = Some e" "expr_leaves e [] = Inr js" "set js = J_Str ` set ls"
    using leaves_ofD [OF a r] .
  have "set (List.map_filter as_str js) = set ls" by (auto simp: set_map_filter e(4))
  then show ?thesis using r e by (simp add: raw_leaves_def expr_of_def)
qed

lemma key_closure_ok:
  assumes "grounded d B"
  shows "\<exists>out'. key_closure d out stack = Inr out' \<and> set out \<subseteq> set out' \<and> set stack \<inter> set (keys d) \<subseteq> set out' \<and>
    ((\<forall>k \<in> set out. \<forall>l. (k, l) \<in> reads d \<longrightarrow> l \<in> set out \<union> set stack) \<longrightarrow>
      (\<forall>k \<in> set out'. \<forall>l. (k, l) \<in> reads d \<longrightarrow> l \<in> set out'))"
  using assms
proof (induction d out stack rule: key_closure.induct)
  case (1 d out stack)
  show ?case
  proof (cases stack)
    case Nil
    then show ?thesis by (simp add: key_closure.simps)
  next
    case (Cons x rest)
    show ?thesis
    proof (cases "x \<in> set out \<or> \<not> has_key d x")
      case True
      from 1(1) [OF Cons True 1(3)] obtain out' where "key_closure d out rest = Inr out'" "set out \<subseteq> set out'"
        "set rest \<inter> set (keys d) \<subseteq> set out'"
        "(\<forall>k \<in> set out. \<forall>l. (k, l) \<in> reads d \<longrightarrow> l \<in> set out \<union> set rest) \<longrightarrow> (\<forall>k \<in> set out'. \<forall>l. (k, l) \<in> reads d \<longrightarrow> l \<in> set out')"
        by blast
      moreover have "key_closure d out stack = key_closure d out rest" using True by (auto simp: Cons key_closure.simps [of d out "x # rest"])
      moreover have "\<forall>k \<in> set out. \<forall>l. (k, l) \<in> reads d \<longrightarrow> l \<in> set out \<union> set rest"
        if "\<forall>k \<in> set out. \<forall>l. (k, l) \<in> reads d \<longrightarrow> l \<in> set out \<union> set stack"
      proof (intro ballI allI impI)
        fix k l assume "k \<in> set out" "(k, l) \<in> reads d"
        moreover from this have "has_key d l" by (auto simp: reads_def)
        ultimately show "l \<in> set out \<union> set rest" using that True Cons by fastforce
      qed
      ultimately show ?thesis using Cons True by (auto simp: has_key_iff)
    next
      case False
      with 1(3) obtain ls where "leaves_of d x = Inr ls" by (auto simp: grounded_def has_key_iff)
      from raw_leaves_of [OF this] obtain rs where rs: "raw_leaves d x = Inr rs" "set rs = set ls" by blast
      from 1(2) [OF Cons False rs(1) 1(3)] obtain out' where out': "key_closure d (x # out) (rev rs @ rest) = Inr out'"
        "set (x # out) \<subseteq> set out'" "set (rev rs @ rest) \<inter> set (keys d) \<subseteq> set out'"
        "(\<forall>k \<in> set (x # out). \<forall>l. (k, l) \<in> reads d \<longrightarrow> l \<in> set (x # out) \<union> set (rev rs @ rest)) \<longrightarrow>
          (\<forall>k \<in> set out'. \<forall>l. (k, l) \<in> reads d \<longrightarrow> l \<in> set out')" by blast
      have "key_closure d out stack = Inr out'"
        using False rs(1) out'(1) by (simp add: Cons key_closure.simps [of d out "x # rest"])
      moreover have "l \<in> set rs" if "(x, l) \<in> reads d" for l
        using that \<open>leaves_of d x = Inr ls\<close> rs(2) by (simp add: reads_def)
      ultimately show ?thesis using Cons out'(2-4) by auto
    qed
  qed
qed

lemma table_closure_ok:
  assumes "grounded d B"
  shows "\<exists>c. table_closure d ks = Inr c \<and> closed_keys d (Some c) \<and> set ks \<inter> set (keys d) \<subseteq> set c"
  using key_closure_ok [OF assms, of "[]" "rev ks"] by (auto simp: table_closure_def closed_keys_def within_keys_def)

lemma valid_order:
  assumes "validate_table g (keys base) = Inr []"
  obtains ks where "derivation_order (weight_derivations g) (keys base) = Inr ks"
    "ordered_after (weight_derivations g) (set (keys base)) ks" "set ks = set (keys (weight_derivations g))"
proof -
  from assms obtain ks where "derivation_order (weight_derivations g) (keys base) = Inr ks"
    by (auto simp: validate_table_def Let_def split: sum.splits fuelled.splits py_error.splits)
  with derivation_order_Inr [OF this] that show thesis by blast
qed

lemma lift_stop_Inr: "lift_stop r = Inr x \<longleftrightarrow> r = Inr x"
  by (auto simp: lift_stop_def split: sum.splits)

definition base_graph :: "graph \<Rightarrow> graph option \<Rightarrow> graph" where
  "base_graph g bgo = (case bgo of None \<Rightarrow> g | Some b \<Rightarrow> b)"

lemma map_of_filter_keys: "map_of (filter (\<lambda>(k, v). P k) d) k = (if P k then map_of d k else None)"
  by (induction d) auto

lemma map_of_map_fst: "map_of (map (\<lambda>(k, v). (k, f v)) d) k = map_option f (map_of d k)"
  by (induction d) auto

text \<open>A valid table with a solution replays to it, or to the wanted part of it.\<close>

lemma replay_of_solution:
  assumes valid: "validate_table g (keys base) = Inr []" and F: "solves np (base_graph g bgo) (weight_derivations g) base F"
  shows "\<exists>r. replay np g base bgo wanted = Inr r \<and>
           (\<forall>k. map_of r k = (if within_keys wanted k then map_option fst (F k) else None))"
proof (cases "weight_derivations g = []")
  case True
  with F have "F = Map.empty" by (simp add: solves_def keys_def)
  with True show ?thesis by (simp add: replay_def)
next
  case False
  let ?d = "weight_derivations g" and ?bg = "base_graph g bgo"
  obtain ks where ks: "derivation_order ?d (keys base) = Inr ks" "ordered_after ?d (set (keys base)) ks" "set ks = set (keys ?d)"
    using valid_order [OF valid] .
  have "\<exists>want. lift_stop (case wanted of None \<Rightarrow> Inr None | Some us \<Rightarrow> map_sum id Some (table_closure ?d us)) = Inr want \<and>
      closed_keys ?d want \<and> (\<forall>k \<in> set (keys ?d). within_keys wanted k \<longrightarrow> within_keys want k)"
  proof (cases wanted)
    case None
    then show ?thesis by (simp add: lift_stop_def closed_keys_def within_keys_def)
  next
    case (Some us)
    from table_closure_ok [OF ordered_after_acyclic(2) [OF ks(2,3)], of us]
    obtain c where "table_closure ?d us = Inr c" "closed_keys ?d (Some c)" "set us \<inter> set (keys ?d) \<subseteq> set c" by blast
    with Some show ?thesis by (auto simp: lift_stop_def within_keys_def)
  qed
  then obtain want where want: "lift_stop (case wanted of None \<Rightarrow> Inr None | Some us \<Rightarrow> map_sum id Some (table_closure ?d us)) = Inr want"
    "closed_keys ?d want" "\<forall>k \<in> set (keys ?d). within_keys wanted k \<longrightarrow> within_keys want k" by blast
  from solution_loop [OF F ks(2) want(2)] obtain found where found: "for_each (replay_step np ?bg ?d base want) ks [] = Inr found"
    "map_of found = F |` {k \<in> set ks. within_keys want k}" by blast
  let ?r = "map (\<lambda>(k, v). (k, fst v)) (filter (\<lambda>(k, v). within_keys wanted k) found)"
  have "replay np g base bgo wanted = Inr ?r"
    using False valid want(1) ks(1) found(1) by (simp add: replay_def Let_def lift_stop_def within_keys_def base_graph_def)
  moreover have "map_of ?r k = (if within_keys wanted k then map_option fst (F k) else None)" for k
  proof -
    have "map_of ?r k = map_option fst (if within_keys wanted k then map_of found k else None)"
      by (simp add: map_of_map_fst map_of_filter_keys)
    moreover have "F k = None" if "k \<notin> set (keys ?d)" using F that by (metis domIff solves_def)
    ultimately show ?thesis using want(3) ks(3) found(2) by (auto simp: restrict_map_def)
  qed
  ultimately show ?thesis by blast
qed

lemma solution_of_replay:
  assumes "replay np g base bgo None = Inr r"
  shows "\<exists>F. solves np (base_graph g bgo) (weight_derivations g) base F \<and> (\<forall>k. map_of r k = map_option fst (F k))"
proof (cases "weight_derivations g = []")
  case True
  with assms show ?thesis by (intro exI [of _ "\<lambda>_. None"]) (simp add: solves_def replay_def keys_def dom_def)
next
  case False
  let ?d = "weight_derivations g" and ?bg = "base_graph g bgo"
  from assms False obtain ks found where valid: "validate_table g (keys base) = Inr []"
    and ord: "derivation_order ?d (keys base) = Inr ks"
    and run: "for_each (replay_step np ?bg ?d base None) ks [] = Inr found" and r: "r = map (\<lambda>(k, v). (k, fst v)) found"
    by (auto simp: replay_def Let_def bind_res_Inr_iff lift_stop_Inr base_graph_def split: if_splits)
  note o = derivation_order_Inr [OF ord]
  from replayed_solves [OF run o] show ?thesis by (intro exI [of _ "map_of found"]) (simp add: r map_of_map_fst)
qed

lemma replay_valid: "replay np g base bgo wanted = Inr r \<Longrightarrow> weight_derivations g \<noteq> [] \<Longrightarrow> validate_table g (keys base) = Inr []"
  by (auto simp: replay_def Let_def bind_res_Inr_iff split: if_splits)

text \<open>
  C35. On a valid table a full replay succeeds exactly when some assignment of arrays satisfies every recorded
  derivation. That assignment is unique, and it is what the replay returns; a replay of some keys returns the same
  arrays for those keys.
\<close>
theorem replay_unique_solution:
  fixes np :: "'a numpy"
  assumes "validate_table g (keys base) = Inr []"
  shows "((\<exists>r. replay np g base bgo None = Inr r) = (\<exists>F. solves np (base_graph g bgo) (weight_derivations g) base F)) \<and>
    (\<forall>F. solves np (base_graph g bgo) (weight_derivations g) base F \<longrightarrow>
       (\<forall>G. solves np (base_graph g bgo) (weight_derivations g) base G \<longrightarrow> G = F) \<and>
       (\<forall>wanted. \<exists>r. replay np g base bgo wanted = Inr r \<and>
          (\<forall>k. map_of r k = (if within_keys wanted k then map_option fst (F k) else None))))"
proof -
  obtain ks where ks: "ordered_after (weight_derivations g) (set (keys base)) ks" "set ks = set (keys (weight_derivations g))"
    using valid_order [OF assms] .
  show ?thesis
    using replay_of_solution [OF assms] solution_of_replay [of np g base bgo] solution_unique [OF ks] by blast
qed

end
