(* ===== verification/Recorder_Facts.thy ===== *)
theory Recorder_Facts
  imports Replay_Facts
begin

text \<open>
  The recorder evaluates while it writes the table. Whatever it has written, the table is ordered as it was written,
  its arrays solve it, and a replay of the document gives the arrays back.
\<close>

section \<open>Dtypes of base weights\<close>

lemma logical_dtype_cong:
  assumes "g_quant g = g_quant h" "get_or (weight_dtypes g) k [] = get_or (weight_dtypes h) k []"
  shows "logical_dtype np g k a = logical_dtype np h k a"
proof -
  have "is_mixed g = is_mixed h" using assms(1) by (simp add: is_mixed_def)
  moreover have "\<not> is_mixed g \<Longrightarrow> ir_dtype g = ir_dtype h" using assms(1) by (simp add: ir_dtype_def is_mixed_def)
  ultimately show ?thesis using assms(2) by (simp add: logical_dtype_def weight_dtype_def Let_def)
qed

lemma declare_dtype_sel [simp]:
  "weight_derivations (declare_dtype k d g) = weight_derivations g" "g_quant (declare_dtype k d g) = g_quant g"
  "k' \<noteq> k \<Longrightarrow> get_or (weight_dtypes (declare_dtype k d g)) k' v = get_or (weight_dtypes g) k' v"
  by (auto simp: declare_dtype_def get_or_def)

section \<open>What the recorder keeps\<close>

definition dtype_in :: "json option \<Rightarrow> string option" where
  "dtype_in r =
     (case r of Some (J_Obj kvs) \<Rightarrow> (case map_of kvs ''dtype'' of Some (J_Str d) \<Rightarrow> Some d | _ \<Rightarrow> None) | _ \<Rightarrow> None)"

lemma dtype_in_record [simp]: "dtype_in (Some (record_node dt sh e)) = Some dt"
  by (simp add: dtype_in_def record_node_def)

definition arrays_of :: "'a recorder \<Rightarrow> 'a found" where
  "arrays_of s k =
     (case (map_of (rc_arrays s) k, dtype_in (map_of (weight_derivations (rc_graph s)) k)) of
        (Some a, Some d) \<Rightarrow> Some (a, d)
      | _ \<Rightarrow> None)"

definition recorded_ok :: "'a numpy \<Rightarrow> graph \<Rightarrow> (string, 'a) dict \<Rightarrow> graph option \<Rightarrow> 'a recorder \<Rightarrow> bool" where
  "recorded_ok np g0 base bgo s =
     (let d = weight_derivations (rc_graph s) in
      rc_base s = base \<and> rc_base_graph s = bgo \<and> g_quant (rc_graph s) = g_quant g0 \<and>
      (\<forall>k \<in> set (keys base). get_or (weight_dtypes (rc_graph s)) k [] = get_or (weight_dtypes g0) k []) \<and>
      set (keys (rc_arrays s)) = set (keys d) \<and> set (keys d) \<inter> set (keys base) = {} \<and>
      ordered_after d (set (keys base)) (keys d) \<and>
      (\<forall>k r. map_of d k = Some r \<longrightarrow> prefix ''d.'' k \<and>
         (\<exists>a dt e. map_of (rc_arrays s) k = Some a \<and> r = record_node dt (np_shape np a) e \<and>
            (\<exists>ls. check_node 0 e [] = Inr ls) \<and>
            eval_node np (resolve_from np (base_graph g0 bgo) base (arrays_of s)) e = Inr (a, dt))))"

lemma arrays_of_record:
  "map_of (rc_arrays s) k = Some a \<Longrightarrow> map_of (weight_derivations (rc_graph s)) k = Some (record_node dt sh e) \<Longrightarrow>
     arrays_of s k = Some (a, dt)"
  by (simp add: arrays_of_def)

lemma rec_resolve_from:
  assumes "recorded_ok np g0 base bgo s"
  shows "rec_resolve np s = resolve_from np (base_graph g0 bgo) base (arrays_of s)"
proof (rule ext)
  fix k
  let ?d = "weight_derivations (rc_graph s)"
  show "rec_resolve np s k = resolve_from np (base_graph g0 bgo) base (arrays_of s) k"
  proof (cases "map_of (rc_arrays s) k")
    case None
    then have "arrays_of s k = None" by (simp add: arrays_of_def)
    moreover have "logical_dtype np (case bgo of None \<Rightarrow> rc_graph s | Some b \<Rightarrow> b) k a = logical_dtype np (base_graph g0 bgo) k a"
      if "map_of base k = Some a" for a
    proof (cases bgo)
      case None
      have "k \<in> set (keys base)" by (rule in_keys [OF that])
      with assms None show ?thesis by (auto simp: recorded_ok_def Let_def base_graph_def intro: logical_dtype_cong)
    qed (simp add: base_graph_def)
    ultimately show ?thesis using assms None
      by (auto simp: rec_resolve_def resolve_from_def recorded_ok_def Let_def split: option.splits)
  next
    case (Some a)
    have "k \<in> set (keys ?d)" using assms in_keys [OF Some] by (simp add: recorded_ok_def Let_def)
    then obtain r where r: "map_of ?d k = Some r" by (metis has_key_def has_key_iff not_None_eq)
    from assms have "\<forall>k r. map_of ?d k = Some r \<longrightarrow> (\<exists>a dt e. map_of (rc_arrays s) k = Some a \<and> r = record_node dt (np_shape np a) e)"
      unfolding recorded_ok_def Let_def by blast
    with r Some obtain dt e where e: "map_of ?d k = Some (record_node dt (np_shape np a) e)" by fastforce
    have "rec_resolve np s k = Inr (a, dt)" by (simp add: rec_resolve_def Some e record_node_def need_def)
    with arrays_of_record [OF Some e] show ?thesis by (simp add: resolve_from_def)
  qed
qed

lemma checked_evaluated:
  assumes "check_node n e [] = Inr ls" "eval_node np r e = Inr v"
  obtains js where "expr_leaves e [] = Inr js" "set js = J_Str ` set ls" "\<forall>k \<in> set ls. \<exists>v. r k = Inr v"
proof -
  from checked_node [OF assms(1), of np] obtain L where L: "set ls = L" "checked_leaves np e L" by auto
  from L(2) have 1: "\<exists>js. expr_leaves e [] = Inr js \<and> set js = set [] \<union> J_Str ` L" unfolding checked_leaves_def by blast
  from L(2) assms(2) have 2: "\<forall>k \<in> L. \<exists>v. r k = Inr v" unfolding checked_leaves_def by blast
  from 1 obtain js where "expr_leaves e [] = Inr js" "set js = J_Str ` L" by auto
  with 2 L(1) that show thesis by blast
qed

lemma eval_more:
  assumes "eval_node np r e = Inr v" "check_node n e [] = Inr ls" "\<And>k v. r k = Inr v \<Longrightarrow> r' k = Inr v"
  shows "eval_node np r' e = Inr v"
proof -
  obtain js where js: "expr_leaves e [] = Inr js" "set js = J_Str ` set ls" "\<forall>k \<in> set ls. \<exists>v. r k = Inr v"
    using checked_evaluated [OF assms(2,1)] .
  have "eval_node np r' e = eval_node np r e"
  proof (rule eval_leaves [OF js(1)])
    fix k assume "J_Str k \<in> set js"
    then have "k \<in> set ls" using js(2) by auto
    from js(3) [rule_format, OF this] obtain v' where "r k = Inr v'" ..
    with assms(3) show "r' k = r k" by metis
  qed
  with assms(1) show ?thesis by simp
qed

text \<open>What the leaves of a node just checked and evaluated are.\<close>

lemma leaves_evaluated:
  assumes "check_node n e [] = Inr ls" "eval_node np r e = Inr v" "map_of d k = Some (record_node dt sh e)"
  shows "\<exists>us. leaves_of d k = Inr us \<and> (\<forall>l \<in> set us. \<exists>v. r l = Inr v)"
proof -
  obtain js where js: "expr_leaves e [] = Inr js" "set js = J_Str ` set ls" "\<forall>k \<in> set ls. \<exists>v. r k = Inr v"
    using checked_evaluated [OF assms(1,2)] .
  let ?ss = "map (\<lambda>j. the (as_str j)) js"
  have "\<forall>j \<in> set js. as_str j = Some (the (as_str j))" using js(2) by auto
  then have "those (map as_str js) = Some ?ss" by (simp add: those_Some_iff)
  then have "leaves_of d k = Inr (sorted_set ?ss)"
    using assms(3) js(1) by (simp add: leaves_of_def expr_of_def record_node_def sorted_leaves_def)
  moreover have "set ?ss = set ls" using js(2) by (auto simp: image_image)
  ultimately show ?thesis using js(3) by auto
qed

lemma record_leaves_same: "map_of d k = map_of d' k \<Longrightarrow> leaves_of d k = leaves_of d' k"
  by (simp add: leaves_of_def)

text \<open>One recording keeps all this.\<close>

lemma put_keeps:
  assumes ok: "recorded_ok np g0 base bgo s" and put: "put np new e s = Inr s'"
  shows "recorded_ok np g0 base bgo s'"
proof -
  let ?g = "rc_graph s" and ?bg = "base_graph g0 bgo"
  let ?d = "weight_derivations ?g"
  from ok have s: "rc_base s = base" "rc_base_graph s = bgo" "g_quant ?g = g_quant g0"
    "\<forall>k \<in> set (keys base). get_or (weight_dtypes ?g) k [] = get_or (weight_dtypes g0) k []"
    "set (keys (rc_arrays s)) = set (keys ?d)" "set (keys ?d) \<inter> set (keys base) = {}"
    "ordered_after ?d (set (keys base)) (keys ?d)"
    and recs: "\<forall>k r. map_of ?d k = Some r \<longrightarrow> prefix ''d.'' k \<and>
         (\<exists>a dt e. map_of (rc_arrays s) k = Some a \<and> r = record_node dt (np_shape np a) e \<and> (\<exists>ls. check_node 0 e [] = Inr ls) \<and>
            eval_node np (resolve_from np ?bg base (arrays_of s)) e = Inr (a, dt))"
    unfolding recorded_ok_def Let_def by blast+
  from put s(1) obtain ls a dt where new: "\<not> has_key ?d new" "\<not> has_key base new" "prefix ''d.'' new"
    and chk: "check_node 0 e [] = Inr ls" and ev: "eval_node np (rec_resolve np s) e = Inr (a, dt)"
    and s': "s' = s\<lparr>rc_graph := declare_dtype new dt (?g\<lparr>weight_derivations := AList.update new (record_node dt (np_shape np a) e) ?d\<rparr>),
                 rc_arrays := AList.update new a (rc_arrays s)\<rparr>"
    by (auto simp: put_def Let_def bind_res_Inr_iff split: if_splits)
  let ?d' = "weight_derivations (rc_graph s')"
  have d': "?d' = AList.update new (record_node dt (np_shape np a) e) ?d" by (simp add: s')
  have keys': "keys ?d' = keys ?d @ [new]"
    using new(1) by (simp add: d' update_fresh has_key_iff) (simp add: keys_def)
  have arr: "rc_arrays s' = AList.update new a (rc_arrays s)" by (simp add: s')
  have grow: "arrays_of s' k = (if k = new then Some (a, dt) else arrays_of s k)" for k
    by (simp add: arrays_of_def d' arr)
  have mono: "resolve_from np ?bg base (arrays_of s') k = Inr v" if "resolve_from np ?bg base (arrays_of s) k = Inr v" for k v
  proof (cases "k = new")
    case True
    have "map_of (rc_arrays s) new = None" "map_of base new = None"
      using new(1,2) s(5) by (metis has_key_def has_key_iff in_keys not_None_eq)+
    then have "resolve_from np ?bg base (arrays_of s) new = Inl (Deriv ''unmapped'')" by (simp add: resolve_from_def arrays_of_def)
    with that True show ?thesis by simp
  qed (use that in \<open>simp add: resolve_from_def grow\<close>)
  have recs': "prefix ''d.'' k \<and>
         (\<exists>a dt e. map_of (rc_arrays s') k = Some a \<and> r = record_node dt (np_shape np a) e \<and> (\<exists>ls. check_node 0 e [] = Inr ls) \<and>
            eval_node np (resolve_from np ?bg base (arrays_of s')) e = Inr (a, dt))" if r: "map_of ?d' k = Some r" for k r
  proof (cases "k = new")
    case True
    have "eval_node np (resolve_from np ?bg base (arrays_of s')) e = Inr (a, dt)"
      using ev mono unfolding rec_resolve_from [OF ok] by (rule eval_more [OF _ chk])
    with True r new(3) chk show ?thesis by (auto simp: d' arr)
  next
    case False
    with r have "map_of ?d k = Some r" by (simp add: d')
    with recs obtain a' dt' e' ls' where "prefix ''d.'' k" "map_of (rc_arrays s) k = Some a'" "r = record_node dt' (np_shape np a') e'"
      "check_node 0 e' [] = Inr ls'" "eval_node np (resolve_from np ?bg base (arrays_of s)) e' = Inr (a', dt')" by blast
    moreover have "eval_node np (resolve_from np ?bg base (arrays_of s')) e' = Inr (a', dt')"
      using eval_more [of np "resolve_from np ?bg base (arrays_of s)", OF calculation(5,4)] mono by blast
    ultimately show ?thesis using False by (auto simp: arr)
  qed
  have "ordered_after ?d' (set (keys base)) (keys ?d @ [new])"
  proof -
    have hk: "has_key ?d' l \<longleftrightarrow> has_key ?d l \<or> l = new" for l by (auto simp: has_key_iff keys')
    have nb: "new \<notin> set (keys base)" using new(2) by (simp add: has_key_iff)
    have old: "ordered_after ?d' (set (keys base)) (keys ?d)"
      unfolding ordered_after_def
    proof (intro conjI allI impI)
      fix i assume i: "i < length (keys ?d)"
      with s(7) obtain us where us: "leaves_of ?d (keys ?d ! i) = Inr us"
        "\<forall>l \<in> set us. if has_key ?d l then l \<in> set (take i (keys ?d)) else l \<in> set (keys base)" unfolding ordered_after_def by blast
      have "keys ?d ! i \<noteq> new" using i new(1) by (metis has_key_iff nth_mem)
      then have "map_of ?d' (keys ?d ! i) = map_of ?d (keys ?d ! i)" by (simp add: d')
      from record_leaves_same [OF this] us(1) have "leaves_of ?d' (keys ?d ! i) = Inr us" by simp
      moreover have "\<forall>l \<in> set us. if has_key ?d' l then l \<in> set (take i (keys ?d)) else l \<in> set (keys base)"
        using us(2) nb by (auto simp: hk split: if_splits)
      ultimately show "\<exists>us. leaves_of ?d' (keys ?d ! i) = Inr us \<and>
          (\<forall>l \<in> set us. if has_key ?d' l then l \<in> set (take i (keys ?d)) else l \<in> set (keys base))" by blast
    qed (use s(7) in \<open>auto simp: ordered_after_def keys'\<close>)
    from leaves_evaluated [OF chk ev, of ?d' new dt "np_shape np a"] obtain us where us: "leaves_of ?d' new = Inr us"
      "\<forall>l \<in> set us. \<exists>v. rec_resolve np s l = Inr v" by (auto simp: d')
    show ?thesis
    proof (rule ordered_after_snoc [OF old _ _ us(1)])
      fix l assume "l \<in> set us"
      with us(2) obtain v where v: "rec_resolve np s l = Inr v" by blast
      have "l \<in> set (keys ?d) \<or> l \<in> set (keys base)"
        using v s(1,5) by (auto simp: rec_resolve_def dest: in_keys split: option.splits)
      then have "has_key ?d l \<or> l \<in> set (keys base)" by (simp add: has_key_iff)
      with nb show "if has_key ?d' l then l \<in> set (keys ?d) else l \<in> set (keys base)"
        using new(1) by (auto simp: hk has_key_iff [of ?d])
    next
      show "new \<notin> set (keys ?d)" using new(1) by (simp add: has_key_iff)
      show "has_key ?d' new" by (simp add: hk)
    qed
  qed
  then have "ordered_after ?d' (set (keys base)) (keys ?d')" by (simp only: keys')
  moreover have "\<forall>k \<in> set (keys base). get_or (weight_dtypes (rc_graph s')) k [] = get_or (weight_dtypes g0) k []"
  proof
    fix k assume k: "k \<in> set (keys base)"
    then have "k \<noteq> new" using new(2) by (auto simp: has_key_iff)
    then show "get_or (weight_dtypes (rc_graph s')) k [] = get_or (weight_dtypes g0) k []" using s(4) k by (simp add: s')
  qed
  moreover have "set (keys (rc_arrays s')) = set (keys ?d')" using s(5) by (simp add: arr keys_update keys')
  moreover have "set (keys ?d') \<inter> set (keys base) = {}" using s(6) new(2) by (auto simp: keys' has_key_iff)
  moreover have "rc_base s' = base" "rc_base_graph s' = bgo" "g_quant (rc_graph s') = g_quant g0" using s(1-3) by (simp_all add: s')
  ultimately show ?thesis using recs' unfolding recorded_ok_def Let_def by blast
qed

lemma puts_keep:
  assumes "for_each (\<lambda>(k, e). put np k e) puts s = Inr s'" "recorded_ok np g0 base bgo s"
  shows "recorded_ok np g0 base bgo s'"
  using assms by (rule for_each_invariant) (auto intro: put_keeps)

lemma new_recorder_ok: "weight_derivations g = [] \<Longrightarrow> recorded_ok np g base bgo (new_recorder g base bgo)"
  by (simp add: recorded_ok_def new_recorder_def keys_def ordered_after_def)

section \<open>Replaying what was recorded\<close>

lemma recorded_record:
  assumes "recorded_ok np g0 base bgo s" "map_of (weight_derivations (rc_graph s)) k = Some r"
  obtains a dt e ls where "prefix ''d.'' k" "map_of (rc_arrays s) k = Some a" "r = record_node dt (np_shape np a) e"
    "check_node 0 e [] = Inr ls" "eval_node np (resolve_from np (base_graph g0 bgo) base (arrays_of s)) e = Inr (a, dt)"
  using assms unfolding recorded_ok_def Let_def by blast

lemma recorded_solves:
  assumes ok: "recorded_ok np g0 base bgo s"
  shows "solves np (base_graph (rc_graph s) bgo) (weight_derivations (rc_graph s)) base (arrays_of s)"
proof -
  let ?d = "weight_derivations (rc_graph s)"
  have q: "g_quant (rc_graph s) = g_quant g0"
    "\<forall>k \<in> set (keys base). get_or (weight_dtypes (rc_graph s)) k [] = get_or (weight_dtypes g0) k []"
    "set (keys (rc_arrays s)) = set (keys ?d)" using ok by (simp_all add: recorded_ok_def Let_def)
  have dt: "logical_dtype np (base_graph (rc_graph s) bgo) k a = logical_dtype np (base_graph g0 bgo) k a" if "map_of base k = Some a" for k a
  proof (cases bgo)
    case None
    with q in_keys [OF that] show ?thesis by (auto simp: base_graph_def intro: logical_dtype_cong)
  qed (simp add: base_graph_def)
  have res: "resolve_from np (base_graph (rc_graph s) bgo) base (arrays_of s) = resolve_from np (base_graph g0 bgo) base (arrays_of s)"
    by (rule ext) (auto simp: resolve_from_def dt split: option.splits)
  have "dom (arrays_of s) = set (keys ?d)"
  proof (rule set_eqI)
    fix k
    show "k \<in> dom (arrays_of s) \<longleftrightarrow> k \<in> set (keys ?d)"
    proof
      assume "k \<in> set (keys ?d)"
      then obtain r where r: "map_of ?d k = Some r" by (metis has_key_def has_key_iff not_None_eq)
      from recorded_record [OF ok this] obtain a dt sh e where "map_of (rc_arrays s) k = Some a" "r = record_node dt sh e" by metis
      with r arrays_of_record show "k \<in> dom (arrays_of s)" by fastforce
    next
      assume "k \<in> dom (arrays_of s)"
      then have "k \<in> set (keys (rc_arrays s))" by (auto simp: arrays_of_def dest: in_keys split: option.splits)
      with q(3) show "k \<in> set (keys ?d)" by simp
    qed
  qed
  moreover have "replay_record np (resolve_from np (base_graph (rc_graph s) bgo) base (arrays_of s)) r = Inr (the (arrays_of s k))"
    if r: "map_of ?d k = Some r" for k r
  proof -
    obtain a dt e where a: "map_of (rc_arrays s) k = Some a" "r = record_node dt (np_shape np a) e"
      "eval_node np (resolve_from np (base_graph g0 bgo) base (arrays_of s)) e = Inr (a, dt)" using recorded_record [OF ok r] .
    have "arrays_of s k = Some (a, dt)" using arrays_of_record a(1,2) r by fastforce
    moreover have "shape_list (J_List (map J_Int sh)) = Some sh" for sh by (simp add: shape_list_def those_Some_iff shape_entry_def comp_def)
    ultimately show ?thesis using a(2,3) by (simp add: res replay_record_def record_node_def need_def rec_shape_def)
  qed
  ultimately show ?thesis by (simp add: solves_def)
qed

lemma recorded_defects:
  assumes ok: "recorded_ok np g0 base bgo s" and kr: "(k, r) \<in> set (weight_derivations (rc_graph s))"
  shows "\<exists>bads. record_defects (rc_graph s) (keys base) (k, r) = Inr bads \<and> fst ` set bads \<subseteq> {''bad_record'', ''dtype_contract''}"
proof -
  let ?d = "weight_derivations (rc_graph s)"
  have d: "distinct (keys ?d)" "set (keys ?d) \<inter> set (keys base) = {}"
    using ok by (simp_all add: recorded_ok_def Let_def ordered_after_def)
  have r: "map_of ?d k = Some r" using d(1) kr by (simp add: keys_def)
  obtain dt sh e ls where e: "prefix ''d.'' k" "r = record_node dt sh e" "check_node 0 e [] = Inr ls"
    using recorded_record [OF ok r] by metis
  have "k \<notin> set (keys base)" using d(2) in_keys [OF r] by auto
  moreover have "record_dtype [(''dtype'', J_Str dt), (''shape'', J_List (map J_Int sh)), (''expr'', e)] = (if dt \<in> set known_dtypes then Some dt else None)"
    by (simp add: record_dtype_def)
  ultimately show ?thesis
    using e by (auto simp: record_defects_def record_node_def Let_def shape_defect_def dtype_defect_def split: option.splits)
qed

lemma recorded_valid:
  assumes ok: "recorded_ok np g0 base bgo s"
  shows "\<exists>errs. validate_table (rc_graph s) (keys base) = Inr errs \<and> fst ` set errs \<subseteq> {''bad_record'', ''dtype_contract''}"
proof -
  let ?g = "rc_graph s"
  let ?d = "weight_derivations ?g"
  have o: "ordered_after ?d (set (keys base)) (keys ?d)" using ok by (simp add: recorded_ok_def Let_def)
  obtain ks where ks: "derivation_order ?d (keys base) = Inr ks"
    using ordered_after_acyclic [OF o refl] derivation_order_Inl [of ?d "keys base"] by (cases "derivation_order ?d (keys base)") auto
  have "\<forall>kr \<in> set (sort_key fst ?d). \<exists>bads. record_defects ?g (keys base) kr = Inr bads"
    using recorded_defects [OF ok] by fastforce
  then obtain bads where bads: "map_res (record_defects ?g (keys base)) (sort_key fst ?d) = Inr bads"
    using map_res_Inr_iff by blast
  have "fst ` set b \<subseteq> {''bad_record'', ''dtype_contract''}" if "b \<in> set bads" for b
    using map_res_set [OF bads that] recorded_defects [OF ok] by fastforce
  then have "fst ` set (concat bads) \<subseteq> {''bad_record'', ''dtype_contract''}" by auto
  with bads ks show ?thesis by (auto simp: validate_table_def Let_def)
qed

text \<open>
  C36. Whatever is recorded on a graph without derivations, the table that comes out is well formed up to the dtype
  and shape conventions of the IR; if it meets them, replaying it from the base weights gives exactly the arrays the
  recorder computed, for any numpy.
\<close>
theorem recorder_replays:
  assumes "for_each (\<lambda>(k, e). put np k e) puts (new_recorder g base bgo) = Inr s" "weight_derivations g = []"
  shows "(\<exists>errs. validate_table (rc_graph s) (keys base) = Inr errs \<and> fst ` set errs \<subseteq> {''bad_record'', ''dtype_contract''} \<and>
    (errs = [] \<longrightarrow> (\<exists>r. replay np (rc_graph s) base bgo None = Inr r \<and> map_of r = map_of (rc_arrays s))))"
proof -
  have ok: "recorded_ok np g base bgo s" using puts_keep [OF assms(1) new_recorder_ok [OF assms(2)]] .
  obtain errs where errs: "validate_table (rc_graph s) (keys base) = Inr errs" "fst ` set errs \<subseteq> {''bad_record'', ''dtype_contract''}"
    using recorded_valid [OF ok] by blast
  have "map_option fst (arrays_of s k) = map_of (rc_arrays s) k" for k
  proof (cases "map_of (rc_arrays s) k")
    case (Some a)
    have "k \<in> set (keys (weight_derivations (rc_graph s)))" using ok in_keys [OF Some] by (simp add: recorded_ok_def Let_def)
    then obtain r where r: "map_of (weight_derivations (rc_graph s)) k = Some r" by (metis has_key_def has_key_iff not_None_eq)
    from recorded_record [OF ok this] obtain dt sh e where "r = record_node dt sh e" by metis
    with Some r arrays_of_record [of s k a dt sh e] show ?thesis by simp
  qed (simp add: arrays_of_def)
  then have "\<exists>r. replay np (rc_graph s) base bgo None = Inr r \<and> map_of r = map_of (rc_arrays s)" if "errs = []"
    using replay_of_solution [OF errs(1) [unfolded that] recorded_solves [OF ok], of None]
    by (auto simp: within_keys_def fun_eq_iff)
  with errs show ?thesis by blast
qed

end
