(* ===== verification/Ndarray.thy ===== *)
theory Ndarray
  imports Storage_Dtype
begin

text \<open>
  Row-major arrays over a commutative ring: numpy's documented behaviour for the operations that move values, and
  exact arithmetic for the others. It shows that the laws the proofs ask of numpy can hold, and evaluates in witnesses.
\<close>

section \<open>Indices\<close>

datatype 'v nd = Nd (nd_shape: "nat list") (nd_data: "'v list")

fun indices :: "nat list \<Rightarrow> nat list list" where
  "indices [] = [[]]"
| "indices (n # ns) = concat (map (\<lambda>i. map ((#) i) (indices ns)) [0..<n])"

fun offset_of :: "nat list \<Rightarrow> nat list \<Rightarrow> nat" where
  "offset_of (n # ns) (i # is) = i * prod_list ns + offset_of ns is"
| "offset_of _ _ = 0"

definition inside :: "nat list \<Rightarrow> nat list \<Rightarrow> bool" where
  "inside sh ix = list_all2 (\<lambda>i n. i < n) ix sh"

definition at :: "'v nd \<Rightarrow> nat list \<Rightarrow> 'v" where
  "at a ix = nd_data a ! offset_of (nd_shape a) ix"

definition build :: "nat list \<Rightarrow> (nat list \<Rightarrow> 'v) \<Rightarrow> 'v nd" where
  "build sh f = Nd sh (map f (indices sh))"

lemma length_indices [simp]: "length (indices sh) = prod_list sh"
proof (induction sh)
  case (Cons n ns)
  have "sum_list (map (\<lambda>i. prod_list ns) [0..<n]) = n * prod_list ns" by (simp add: sum_list_triv)
  with Cons show ?case by (simp add: length_concat comp_def)
qed simp

lemma offset_less: "inside sh ix \<Longrightarrow> offset_of sh ix < prod_list sh"
proof (induction sh ix rule: offset_of.induct)
  case (1 n ns i "is")
  then have i: "i < n" and o: "offset_of ns is < prod_list ns" by (simp_all add: inside_def)
  have "offset_of (n # ns) (i # is) < Suc i * prod_list ns" using o by simp
  also have "\<dots> \<le> n * prod_list ns" using i by (intro mult_le_mono1) simp
  finally show ?case by simp
qed (auto simp: inside_def)

lemma nth_concat_equal:
  "i < n \<Longrightarrow> j < m \<Longrightarrow> (\<And>k. length (f k) = m) \<Longrightarrow> concat (map f [0..<n]) ! (i * m + j) = f i ! j"
proof (induction n)
  case (Suc n)
  show ?case
  proof (cases "i = n")
    case True
    have "length (concat (map f [0..<n])) = n * m" using Suc.prems(3) by (simp add: length_concat comp_def sum_list_triv)
    with True Suc.prems show ?thesis by (simp add: nth_append)
  next
    case False
    with Suc.prems have i: "i < n" by simp
    have "length (concat (map f [0..<n])) = n * m" using Suc.prems(3) by (simp add: length_concat comp_def sum_list_triv)
    moreover have "i * m + j < n * m"
    proof -
      have "i * m + j < Suc i * m" using Suc.prems(2) by simp
      also have "\<dots> \<le> n * m" using i by (intro mult_le_mono1) simp
      finally show ?thesis .
    qed
    ultimately show ?thesis using Suc.IH [OF i Suc.prems(2,3)] by (simp add: nth_append)
  qed
qed simp

lemma indices_nth: "inside sh ix \<Longrightarrow> indices sh ! offset_of sh ix = ix"
proof (induction sh ix rule: offset_of.induct)
  case (1 n ns i "is")
  then have i: "i < n" and o: "inside ns is" by (simp_all add: inside_def)
  have "indices (n # ns) ! offset_of (n # ns) (i # is) = map ((#) i) (indices ns) ! offset_of ns is"
    using nth_concat_equal [of i n "offset_of ns is" "prod_list ns" "\<lambda>i. map ((#) i) (indices ns)"] i offset_less [OF o] by simp
  also have "\<dots> = i # is" using offset_less [OF o] 1(1) [OF o] by simp
  finally show ?case .
qed (auto simp: inside_def)

lemma at_build [simp]: "inside sh ix \<Longrightarrow> at (build sh f) ix = f ix"
  by (simp add: at_def build_def indices_nth offset_less)

lemma shape_build [simp]: "nd_shape (build sh f) = sh"
  by (simp add: build_def)

section \<open>Operations\<close>

definition axis_at :: "int \<Rightarrow> nat \<Rightarrow> nat option" where
  "axis_at ax n = (if - int n \<le> ax \<and> ax < int n then Some (nat (if ax < 0 then ax + int n else ax)) else None)"

fun pad_shape :: "(int \<times> int) list \<Rightarrow> nat list \<Rightarrow> nat list" where
  "pad_shape ((lo, hi) # ps) (n # ns) = (nat lo + n + nat hi) # pad_shape ps ns"
| "pad_shape _ _ = []"

definition unpad :: "(int \<times> int) list \<Rightarrow> nat list \<Rightarrow> nat list \<Rightarrow> nat list option" where
  "unpad ps sh ix =
     (if list_all2 (\<lambda>(i, p) n. nat (fst p) \<le> i \<and> i < nat (fst p) + n) (zip ix ps) sh
      then Some (map (\<lambda>(i, p). i - nat (fst p)) (zip ix ps)) else None)"

definition nd_pad :: "'v \<Rightarrow> (int \<times> int) list \<Rightarrow> 'v nd \<Rightarrow> 'v nd" where
  "nd_pad v ps a = build (pad_shape ps (nd_shape a)) (\<lambda>ix. case unpad ps (nd_shape a) ix of None \<Rightarrow> v | Some jx \<Rightarrow> at a jx)"

text \<open>Where position \<open>i\<close> of a concatenated axis lies.\<close>

fun locate_in :: "nat list \<Rightarrow> nat \<Rightarrow> nat \<times> nat" where
  "locate_in [] i = (0, i)"
| "locate_in (n # ns) i = (if i < n then (0, i) else let (k, j) = locate_in ns (i - n) in (Suc k, j))"

definition nd_concat :: "int \<Rightarrow> 'v nd list \<Rightarrow> 'v nd option" where
  "nd_concat axis as =
     (case as of
        [] \<Rightarrow> None
      | a # _ \<Rightarrow>
          (case axis_at axis (length (nd_shape a)) of
             None \<Rightarrow> None
           | Some k \<Rightarrow>
               (if list_all (\<lambda>b. length (nd_shape b) = length (nd_shape a) \<and> (nd_shape b)[k := 0] = (nd_shape a)[k := 0]) as
                then Some (build ((nd_shape a)[k := sum_list (map (\<lambda>b. nd_shape b ! k) as)])
                            (\<lambda>ix. let (j, i) = locate_in (map (\<lambda>b. nd_shape b ! k) as) (ix ! k) in at (as ! j) (ix[k := i])))
                else None)))"

definition nd_stack :: "int \<Rightarrow> 'v nd list \<Rightarrow> 'v nd option" where
  "nd_stack axis as =
     (case as of
        [] \<Rightarrow> None
      | a # _ \<Rightarrow>
          (case axis_at axis (length (nd_shape a) + 1) of
             None \<Rightarrow> None
           | Some k \<Rightarrow>
               (if list_all (\<lambda>b. nd_shape b = nd_shape a) as
                then Some (build (take k (nd_shape a) @ length as # drop k (nd_shape a))
                            (\<lambda>ix. at (as ! (ix ! k)) (take k ix @ drop (k + 1) ix)))
                else None)))"

definition nd_transpose :: "int list \<Rightarrow> 'v nd \<Rightarrow> 'v nd" where
  "nd_transpose p a =
     build (map (\<lambda>j. nd_shape a ! nat j) p)
       (\<lambda>ix. at a (map (\<lambda>k. the (map_of (zip (map nat p) ix) k)) [0..<length p]))"

definition nd_reshape :: "int list \<Rightarrow> 'v nd \<Rightarrow> 'v nd option" where
  "nd_reshape s a =
     (let total = length (nd_data a); known = prod_list (map nat (filter (\<lambda>x. x \<noteq> -1) s));
          full = map (\<lambda>x. if x = -1 then total div known else nat x) s in
      if known > 0 \<and> prod_list full = total then Some (Nd full (nd_data a)) else None)"

definition nd_slice :: "int \<Rightarrow> int \<Rightarrow> int \<Rightarrow> 'v nd \<Rightarrow> 'v nd" where
  "nd_slice axis lo hi a =
     (case axis_at axis (length (nd_shape a)) of
        None \<Rightarrow> a
      | Some k \<Rightarrow> build ((nd_shape a)[k := nat (hi - lo)]) (\<lambda>ix. at a (ix[k := ix ! k + nat lo])))"

text \<open>Elementwise operations on equal shapes (the broadcasts of \<open>add\<close> and \<open>mul\<close> beyond that are left out).\<close>

definition nd_zip :: "('v \<Rightarrow> 'v \<Rightarrow> 'v) \<Rightarrow> 'v nd \<Rightarrow> 'v nd \<Rightarrow> 'v nd option" where
  "nd_zip f a b = (if nd_shape a = nd_shape b then Some (Nd (nd_shape a) (map2 f (nd_data a) (nd_data b))) else None)"

definition nd_contiguous :: "'v nd \<Rightarrow> 'v nd" where
  "nd_contiguous a = (if nd_shape a = [] then Nd [1] (nd_data a) else a)"

definition exact_numpy :: "(json \<Rightarrow> 'v::comm_ring_1) \<Rightarrow> 'v nd numpy" where
  "exact_numpy lit =
     \<lparr>np_shape = map int \<circ> nd_shape, np_kind = (\<lambda>_. CHR ''f''), np_itemsize = (\<lambda>_. 4), np_contiguous = nd_contiguous,
      np_astype = (\<lambda>_ a. a), np_with_bits = (\<lambda>_ a. a), np_full = (\<lambda>s v. build (map nat s) (\<lambda>_. lit v)),
      np_pad = (\<lambda>ps v. nd_pad (lit v) ps), np_stack = nd_stack, np_concatenate = nd_concat, np_transpose = nd_transpose,
      np_reshape = nd_reshape, np_slice = nd_slice, np_scale = (\<lambda>v a. Nd (nd_shape a) (map ((*) (lit v)) (nd_data a))),
      np_add = nd_zip (+), np_mul = nd_zip (*)\<rparr>"

end
