(* ===== verification/Derivation_Claims.thy ===== *)
theory Derivation_Claims
  imports Recorder_Facts Ndarray
begin

text \<open>
  The derivation language and its table as a whole: which errors a checked expression can still raise, that loaders and
  writers agree on the derived weights, and concrete tables over exact arithmetic.
\<close>

section \<open>Errors of checked expressions\<close>

definition clean_error :: "py_error \<Rightarrow> bool" where
  "clean_error er = (er = Deriv ''shape'' \<or> er = Deriv ''dtype'')"

lemma need_ok: "Option.bind (map_of kvs k) as = Some v \<Longrightarrow> need k as kvs = Inr v"
  by (auto simp: need_def split: Option.bind_splits option.splits)

lemma known_storage: "d \<in> set known_dtypes \<Longrightarrow> \<exists>a'. storage np a d = Inr a'"
  by (auto simp: known_dtypes_def storage_def np_storage_def np_types_def)

lemma float_known: "set float_dtypes \<subseteq> set known_dtypes"
  by (auto simp: float_dtypes_def known_dtypes_def)

lemma dtype_okD: "dtype_ok j \<Longrightarrow> \<exists>d. Option.bind j as_str = Some d \<and> d \<in> set known_dtypes"
  by (auto simp: dtype_ok_def split: option.splits)

lemma require_num_present: "require_num v = Inr () \<Longrightarrow> v \<noteq> None"
  by (cases v) (auto simp: require_num_def is_num_def bad_param_def)

lemma or_shape_clean: "or_shape r = Inl er \<Longrightarrow> clean_error er"
  by (auto simp: or_shape_def clean_error_def split: option.splits)

lemma slice_array_clean: "slice_array np ax a b x = Inl er \<Longrightarrow> clean_error er"
  by (auto simp: slice_array_def Let_def clean_error_def split: if_splits)

lemma bind_res_Inl_iff: "bind_res r f = Inl e \<longleftrightarrow> r = Inl e \<or> (\<exists>x. r = Inr x \<and> f x = Inl e)"
  by (cases r) auto

lemma arith_error:
  assumes "arith np opn kvs arrs = Inl er" "check_params opn kvs = Inr ()" "opn \<in> {''scale'', ''add'', ''mul''}"
  shows "er = Py ''ValueError'' \<and> opn \<noteq> ''scale''"
  using assms require_num_present [of "map_of kvs ''by''"]
  by (auto simp: arith_def Let_def check_params_def split: if_splits option.splits)

text \<open>After the check, an operation fails on shapes and dtypes only, or on a broadcast.\<close>

lemma apply_op_error:
  assumes "apply_op np opn kvs arrs dts = Inl er" "check_params opn kvs = Inr ()" "opn \<in> set all_ops - {''w'', ''const''}" "dts \<noteq> []"
  shows "clean_error er \<or> er = Py ''ValueError'' \<and> opn \<in> {''add'', ''mul''}"
proof -
  have last: "opn = ''cast''"
    if "opn \<notin> {''pad'', ''stack'', ''concat'', ''transpose'', ''reshape'', ''slice'', ''scale'', ''add'', ''mul''}"
  proof -
    let ?rest = "[''w'', ''const'', ''pad'', ''stack'', ''concat'', ''transpose'', ''reshape'', ''slice'', ''scale'', ''add'', ''mul'']"
    have "opn \<in> set (filter (\<lambda>x. x \<notin> set ?rest) all_ops)" using assms(3) that by simp
    moreover have "filter (\<lambda>x. x \<notin> set ?rest) all_ops = [''cast'']" by code_simp
    ultimately have "opn \<in> set [''cast'']" by (simp only:)
    then show ?thesis by simp
  qed
  consider "opn = ''pad''" | "opn = ''stack'' \<or> opn = ''concat''" | "opn = ''transpose''" | "opn = ''reshape''" | "opn = ''slice''"
    | "opn \<in> {''scale'', ''add'', ''mul''}"
    | "opn \<notin> {''pad'', ''stack'', ''concat'', ''transpose'', ''reshape'', ''slice'', ''scale'', ''add'', ''mul''}"
    by (simp only: insert_iff empty_iff) satx
  then show ?thesis
  proof cases
    case 1
    with assms(2) obtain ps where "Option.bind (map_of kvs ''pads'') as_pads = Some ps"
      by (auto simp: check_params_def pads_ok_def bad_param_def split: if_splits option.splits)
    from need_ok [OF this] assms(1) 1 show ?thesis by (auto simp: apply_op_def clean_error_def split: if_splits)
  next
    case 2
    then have "check_params opn kvs = (if Option.bind (map_of kvs ''axis'') as_int = None then bad_param else Inr ())"
      by (elim disjE) (simp_all add: check_params_def)
    with assms(2) obtain ax where "Option.bind (map_of kvs ''axis'') as_int = Some ax" by (auto simp: bad_param_def split: if_splits)
    note ax = need_ok [OF this]
    from 2 have "apply_op np opn kvs arrs dts =
        (if length (remdups dts) \<noteq> 1 then Inl (Deriv ''dtype'')
         else bind_res (or_shape (join_arrays np opn ax arrs)) (\<lambda>r. Inr (r, hd dts)))"
      by (elim disjE) (simp_all add: apply_op_def ax)
    with assms(1) have "er = Deriv ''dtype'' \<or> or_shape (join_arrays np opn ax arrs) = Inl er"
      by (auto simp: bind_res_Inl_iff split: if_splits)
    with or_shape_clean show ?thesis by (auto simp: clean_error_def)
  next
    case 3
    with assms(2) obtain p where "Option.bind (map_of kvs ''perm'') as_ints = Some p"
      by (auto simp: check_params_def bad_param_def split: if_splits)
    from need_ok [OF this] assms(1) 3 show ?thesis by (auto simp: apply_op_def clean_error_def split: if_splits)
  next
    case 4
    with assms(2) obtain p where "Option.bind (map_of kvs ''shape'') as_ints = Some p"
      by (auto simp: check_params_def bad_param_def reshape_ok_def split: if_splits option.splits)
    from need_ok [OF this] assms(1) 4 show ?thesis by (auto simp: apply_op_def bind_res_Inl_iff dest: or_shape_clean)
  next
    case 5
    with assms(2) have "slice_ok kvs" by (simp add: check_params_def bad_param_def split: if_splits)
    then obtain ax a b where "Option.bind (map_of kvs ''axis'') as_int = Some ax" "Option.bind (map_of kvs ''start'') as_int = Some a"
      "Option.bind (map_of kvs ''stop'') as_int = Some b"
      by (auto simp: slice_ok_def simp del: bind_eq_Some_conv split: option.splits)
    note n = this [THEN need_ok]
    from 5 have "apply_op np opn kvs arrs dts = bind_res (slice_array np ax a b (hd arrs)) (\<lambda>r. Inr (r, hd dts))"
      by (simp add: apply_op_def n)
    with assms(1) have "slice_array np ax a b (hd arrs) = Inl er" by (simp add: bind_res_Inl_iff)
    from slice_array_clean [OF this] show ?thesis by (rule disjI1)
  next
    case 6
    then have split: "apply_op np opn kvs arrs dts =
        (if list_ex (\<lambda>d. d \<notin> set float_dtypes) dts then Inl (Deriv ''dtype'')
         else bind_res (arith np opn kvs arrs) (\<lambda>r. bind_res (storage np r (hd dts)) (\<lambda>s. Inr (s, hd dts))))"
      by (elim insertE) (simp_all add: apply_op_def)
    show ?thesis
    proof (cases "list_ex (\<lambda>d. d \<notin> set float_dtypes) dts")
      case True
      with split assms(1) show ?thesis by (simp add: clean_error_def)
    next
      case False
      with assms(4) have "hd dts \<in> set known_dtypes" using float_known by (cases dts) auto
      then have "storage np r (hd dts) \<noteq> Inl er" for r using known_storage [of "hd dts" np r] by auto
      moreover have "bind_res (arith np opn kvs arrs) (\<lambda>r. bind_res (storage np r (hd dts)) (\<lambda>s. Inr (s, hd dts))) = Inl er"
        unfolding assms(1) [symmetric] split using False by simp
      then have "arith np opn kvs arrs = Inl er \<or> (\<exists>r. storage np r (hd dts) = Inl er)"
        by (auto simp: bind_res_Inl_iff)
      ultimately have "arith np opn kvs arrs = Inl er" by blast
      from arith_error [OF this assms(2) 6] 6 show ?thesis by simp
    qed
  next
    case 7
    then have 7: "opn = ''cast''" by (rule last)
    with assms(2) have "dtype_ok (map_of kvs ''dtype'')" by (auto simp: check_params_def bad_param_def split: if_splits)
    from dtype_okD [OF this] obtain d where d: "Option.bind (map_of kvs ''dtype'') as_str = Some d" "d \<in> set known_dtypes" by blast
    let ?x = "if np_kind np (hd arrs) = CHR ''f'' then np_astype np ''float32'' (hd arrs) else hd arrs"
    from 7 have "apply_op np opn kvs arrs dts = bind_res (storage np ?x d) (\<lambda>s. Inr (s, d))"
      by (simp add: apply_op_def need_ok [OF d(1)])
    moreover obtain s where "storage np ?x d = Inr s" using known_storage [OF d(2)] ..
    ultimately show ?thesis using assms(1) by simp
  qed
qed

lemma eval_const_ok: "check_params ''const'' kvs = Inr () \<Longrightarrow> \<exists>v. eval_const np kvs = Inr v"
proof -
  assume a: "check_params ''const'' kvs = Inr ()"
  then have s: "const_shape_ok (map_of kvs ''shape'')" "dtype_ok (map_of kvs ''dtype'')" "map_of kvs ''value'' \<noteq> None"
    using require_num_present [of "map_of kvs ''value''"]
    by (auto simp: check_params_def bad_param_def split: if_splits sum.splits)
  from s(1) obtain sh where "Option.bind (map_of kvs ''shape'') as_ints = Some sh" by (auto simp: const_shape_ok_def split: option.splits)
  note n1 = need_ok [OF this]
  from dtype_okD [OF s(2)] obtain d where d: "Option.bind (map_of kvs ''dtype'') as_str = Some d" "d \<in> set known_dtypes" by blast
  from s(3) obtain v where "map_of kvs ''value'' = Some v" by blast
  with n1 need_ok [OF d(1)] known_storage [OF d(2), of np "np_full np sh v"] show ?thesis by (auto simp: eval_const_def need_def)
qed

lemma all_res_True: "all_res f xs = Inr True \<longleftrightarrow> (\<forall>x \<in> set xs. f x = Inr True)"
  by (induction xs) (auto split: sum.splits if_splits)

lemma exact_obj:
  assumes "map_of kvs ''w'' = None" "map_of kvs ''op'' = Some (J_Str opn)" "map_of kvs ''args'' = Some (J_List args)"
  shows "exact_node (J_Obj kvs) = (if opn \<notin> set structural then Inr False else all_res exact_node args)"
  using assms by (auto simp: exact_node.simps [of "J_Obj kvs"] has_key_def)

lemma map_res_Inl: "map_res f xs = Inl e \<Longrightarrow> \<exists>x \<in> set xs. f x = Inl e"
  by (induction xs) (auto split: sum.splits)

lemma check_grows: "check_node n e acc = Inr ls \<Longrightarrow> set acc \<subseteq> set ls"
  using checked_node [of n e acc ls] by blast

lemma check_list:
  assumes "for_each (check_node n) args acc = Inr ls" "a \<in> set args"
  shows "\<exists>l l'. check_node n a l = Inr l' \<and> set l' \<subseteq> set ls"
  using assms
proof (induction args arbitrary: acc)
  case (Cons b args)
  from Cons.prems(1) obtain l1 where l1: "check_node n b acc = Inr l1" "for_each (check_node n) args l1 = Inr ls" by (auto split: sum.splits)
  from for_each_invariant [OF l1(2), of "\<lambda>l. set l1 \<subseteq> set l"] have "set l1 \<subseteq> set ls" using check_grows by blast
  with Cons.IH [OF l1(2)] l1(1) Cons.prems(2) show ?case by auto
qed simp

lemma checked_errors:
  "check_node n e acc = Inr ls \<Longrightarrow> eval_node np r e = Inl er \<Longrightarrow>
     clean_error er \<or> (\<exists>k \<in> set ls. r k = Inl er) \<or> er = Py ''ValueError'' \<and> exact_node e \<noteq> Inr True"
proof (induction n e acc arbitrary: ls er rule: check_node.induct)
  case (1 n e acc)
  from 1(2) obtain kvs where n: "\<not> n > 64" and e: "e = J_Obj kvs"
    by (auto simp: check_node.simps [of n e] split: if_splits json.splits)
  show ?case
  proof (cases "has_key kvs ''w''")
    case True
    with 1(2) n e obtain k where k: "leaf_key kvs = Some k" "ls = List.insert k acc"
      by (cases "leaf_key kvs") (simp_all add: check_node.simps [of n "J_Obj kvs"])
    from k(1) have "map_of kvs ''w'' = Some (J_Str k)" by (auto simp: leaf_key_def as_str_Some split: if_splits Option.bind_splits)
    with 1(3) have "r k = Inl er" by (simp add: e eval_obj)
    with k(2) show ?thesis by auto
  next
    case False
    with 1(2) n e obtain args where h: "check_head kvs = Inr args" "for_each (check_node (n + 1)) args acc = Inr ls"
      by (cases "check_head kvs") (simp_all add: check_node.simps [of n "J_Obj kvs"])
    from False have w: "map_of kvs ''w'' = None" by (simp add: has_key_def)
    from h(1) obtain opn where opn: "node_op kvs = Some opn" "args_list kvs = Some args" "check_params opn kvs = Inr ()"
      "case map_of op_arity opn of Some n \<Rightarrow> length args = n | None \<Rightarrow> args \<noteq> []" by (auto elim!: check_headD)
    note op = node_opD [OF opn(1)]
    show ?thesis
    proof (cases "opn = ''const''")
      case True
      with eval_const_ok [of kvs np] opn(3) 1(3) op show ?thesis by (auto simp: e eval_obj w)
    next
      case False
      have ne: "args \<noteq> []" by (rule other_args [OF False _ opn(4)]) (use op in blast)
      with args_listD [OF opn(2)] have args: "map_of kvs ''args'' = Some (J_List args)" by simp
      have ex: "exact_node e = (if opn \<notin> set structural then Inr False else all_res exact_node args)"
        using exact_obj [OF w _ args] op by (simp add: e)
      show ?thesis
      proof (cases "map_res (eval_node np r) args")
        case (Inl er')
        with 1(3) op args False have er: "er' = er" by (simp add: e eval_obj w)
        from map_res_Inl [OF Inl] obtain a where a: "a \<in> set args" "eval_node np r a = Inl er" by (auto simp: er)
        from check_list [OF h(2) a(1)] obtain l l' where l: "check_node (n + 1) a l = Inr l'" "set l' \<subseteq> set ls" by blast
        from 1(1) [OF n e \<open>\<not> has_key kvs ''w''\<close> h(1) l(1) a(2)] l(2) a(1) ex show ?thesis
          by (auto simp: all_res_True)
      next
        case (Inr vs)
        with 1(3) op args False have "apply_op np opn kvs (map fst vs) (map snd vs) = Inl er" by (simp add: e eval_obj w)
        moreover have "map snd vs \<noteq> []" using ne map_res_length [OF Inr] by auto
        ultimately have "clean_error er \<or> er = Py ''ValueError'' \<and> opn \<in> {''add'', ''mul''}"
          using apply_op_error [of np opn kvs _ _ er] opn(3) op False by blast
        then show ?thesis using ex by (auto simp: structural_def)
      qed
    qed
  qed
qed


section \<open>A table over exact arithmetic\<close>

definition demo_np :: "int nd numpy" where
  "demo_np = exact_numpy (\<lambda>_. 0)"

definition demo_graph :: graph where
  "demo_graph = (plain_graph [] [''y''])\<lparr>weight_derivations := demo_table\<rparr>"

definition demo_base :: "(string, int nd) dict" where
  "demo_base = [(''w'', Nd [2] [7, 9])]"

definition demo_add :: json where
  "demo_add = build_add (Key ''w'') (Node (build_concat 0 [Key ''w'', Key ''w'']))"

definition demo_puts :: "(string \<times> json) list" where
  "demo_puts = [(''d.p'', build_stack 0 [Key ''w'', Key ''w'']), (''d.q'', build_transpose [1, 0] (Key ''d.p''))]"

text \<open>A broadcast that does not fit passes the check and raises \<open>ValueError\<close>.\<close>

lemma demo_add_evaluates:
  "check_node 0 demo_add [] = Inr [''w'']"
  "eval_node demo_np (resolve_in demo_np demo_graph demo_base []) demo_add = Inl (Py ''ValueError'')"
  "resolve_in demo_np demo_graph demo_base [] ''w'' = Inr (Nd [2] [7, 9], ''f32'')"
  by code_simp+


lemma demo_replays:
  "validate_table demo_graph (keys demo_base) = Inr []"
  "replay demo_np demo_graph demo_base None None = Inr [(''d.b'', Nd [4] [7, 9, 7, 9]), (''d.a'', Nd [6] [7, 9, 7, 9, 7, 9])]"
  by code_simp+

theorem replay_unique_solution_witness:
  "\<exists>F. solves demo_np demo_graph demo_table demo_base F \<and> (\<forall>G. solves demo_np demo_graph demo_table demo_base G \<longrightarrow> G = F) \<and>
     (\<exists>r. replay demo_np demo_graph demo_base None (Some [''d.a'']) = Inr r \<and> map_of r ''d.a'' = map_option fst (F ''d.a''))"
proof -
  have "base_graph demo_graph None = demo_graph" "weight_derivations demo_graph = demo_table"
    by (simp_all add: base_graph_def demo_graph_def)
  note u = replay_unique_solution [OF demo_replays(1), of demo_np None, unfolded this]
  from u demo_replays(2) obtain F where F: "solves demo_np demo_graph demo_table demo_base F" by blast
  with u have "\<exists>r. replay demo_np demo_graph demo_base None (Some [''d.a'']) = Inr r \<and> map_of r ''d.a'' = map_option fst (F ''d.a'')"
    by (fastforce simp: within_keys_def)
  with u F show ?thesis by blast
qed

lemma demo_recorded:
  "case for_each (\<lambda>(k, e). put demo_np k e) demo_puts (new_recorder (plain_graph [] [''y'']) demo_base None) of
     Inl _ \<Rightarrow> False
   | Inr s \<Rightarrow> validate_table (rc_graph s) (keys demo_base) = Inr [] \<and> rc_arrays s = [(''d.p'', Nd [2, 2] [7, 9, 7, 9]), (''d.q'', Nd [2, 2] [7, 7, 9, 9])]"
  by code_simp

theorem recorder_replays_witness:
  "\<exists>s r. for_each (\<lambda>(k, e). put demo_np k e) demo_puts (new_recorder (plain_graph [] [''y'']) demo_base None) = Inr s \<and>
     replay demo_np (rc_graph s) demo_base None None = Inr r \<and> map_of r = map_of [(''d.p'', Nd [2, 2] [7, 9, 7, 9]), (''d.q'', Nd [2, 2] [7, 7, 9, 9])]"
proof -
  from demo_recorded obtain s where s: "for_each (\<lambda>(k, e). put demo_np k e) demo_puts (new_recorder (plain_graph [] [''y'']) demo_base None) = Inr s"
    "validate_table (rc_graph s) (keys demo_base) = Inr []" "rc_arrays s = [(''d.p'', Nd [2, 2] [7, 9, 7, 9]), (''d.q'', Nd [2, 2] [7, 7, 9, 9])]"
    by (auto split: sum.splits)
  have "weight_derivations (plain_graph [] [''y'']) = []" by (simp add: plain_graph_def)
  from recorder_replays [OF s(1) this] s show ?thesis by auto
qed

end
