(* ===== verification/Loader_Facts.thy ===== *)
theory Loader_Facts
  imports Replay_Facts Ndarray
begin

text \<open>
  Writers and loaders of derived weights: \<open>materialize\<close> writes a file with the base weights and all derived ones, and
  \<open>fill_missing\<close> gives them back from any file that has lost some of the derived ones.
\<close>

section \<open>Dictionaries\<close>

lemma map_of_dict_update: "distinct (keys r) \<Longrightarrow> map_of (dict_update w r) = map_of w ++ map_of r"
proof (induction r arbitrary: w)
  case (Cons p r)
  obtain k v where p: "p = (k, v)" by (cases p)
  with Cons.prems have "distinct (keys r)" and k: "k \<notin> dom (map_of r)" by (auto simp: keys_def dom_map_of_conv_image_fst)
  from Cons.IH [OF this(1), of "AList.update k v w"] k show ?case
    by (auto simp: p dict_update_def update_conv' map_add_def fun_eq_iff domIff split: option.splits)
qed (simp add: dict_update_def)

lemma base_part_put: "has_key (weight_derivations g) k \<Longrightarrow> base_part g (AList.update k v w) = base_part g w"
  by (induction w) (auto simp: base_part_def)

lemma base_part_update:
  "set (keys r) \<subseteq> set (keys (weight_derivations g)) \<Longrightarrow> base_part g (dict_update w r) = base_part g w"
proof (induction r arbitrary: w)
  case (Cons p r)
  obtain k v where p: "p = (k, v)" by (cases p)
  with Cons.prems have "has_key (weight_derivations g) k" "set (keys r) \<subseteq> set (keys (weight_derivations g))"
    by (auto simp: keys_def has_key_iff)
  with Cons.IH [of "AList.update k v w"] base_part_put show ?case by (simp add: p dict_update_def)
qed (simp add: dict_update_def)

section \<open>The keys of a replay\<close>

lemma replay_step_keys:
  assumes "replay_step np bg d base want k s = Inr s'" "distinct (keys s) \<and> set (keys s) \<subseteq> set (keys d)"
  shows "distinct (keys s') \<and> set (keys s') \<subseteq> set (keys d)"
  using assms by (auto simp: replay_step_def bind_res_Inr_iff keys_update dest: in_keys split: if_splits option.splits)

lemma replay_keys:
  assumes "replay np g base bgo wanted = Inr r"
  shows "distinct (keys r)" "set (keys r) \<subseteq> set (keys (weight_derivations g))"
proof -
  have "distinct (keys r) \<and> set (keys r) \<subseteq> set (keys (weight_derivations g))"
  proof (cases "weight_derivations g = []")
    case False
    let ?d = "weight_derivations g"
    from assms False obtain bg want ord found where run: "for_each (replay_step np bg ?d base want) ord [] = Inr found"
      and r: "r = map (\<lambda>(k, v). (k, fst v)) (filter (\<lambda>(k, v). wanted = None \<or> k \<in> set (the wanted)) found)"
      by (auto simp: replay_def Let_def bind_res_Inr_iff lift_stop_Inr split: if_splits)
    from run have "distinct (keys found) \<and> set (keys found) \<subseteq> set (keys ?d)"
      by (rule for_each_invariant) (simp add: keys_def, rule replay_step_keys)
    moreover have "keys r = map fst (filter (\<lambda>(k, v). wanted = None \<or> k \<in> set (the wanted)) found)"
      by (simp add: r keys_def comp_def case_prod_beta)
    ultimately show ?thesis by (auto simp: keys_def distinct_map_filter)
  qed (use assms in \<open>simp add: replay_def keys_def\<close>)
  then show "distinct (keys r)" "set (keys r) \<subseteq> set (keys (weight_derivations g))" by auto
qed

section \<open>Loading what was written\<close>

lemma materializeD:
  assumes "materialize np g w = Inr full"
  obtains r where "replay np g (base_part g w) (Some g) None = Inr r" "full = dict_update w r" "map_of full = map_of w ++ map_of r"
    "base_part g full = base_part g w"
proof -
  from assms obtain r where r: "replay np g (base_part g w) (Some g) None = Inr r" "full = dict_update w r"
    by (auto simp: materialize_def bind_res_Inr_iff)
  note k = replay_keys [OF r(1)]
  from that [OF r] map_of_dict_update [OF k(1)] base_part_update [OF k(2)] r(2) show thesis by simp
qed

lemma base_part_kept:
  "base_part g (filter (\<lambda>(k, v). P k \<or> \<not> has_key (weight_derivations g) k) w) = base_part g w"
  by (induction w) (auto simp: base_part_def)

lemma fill_missing_restores_map:
  assumes "materialize np g w = Inr full"
  shows "\<exists>m. fill_missing np g (filter (\<lambda>(k, v). P k \<or> \<not> has_key (weight_derivations g) k) full) = Inr m \<and> map_of m = map_of full"
proof -
  let ?d = "weight_derivations g" and ?w = "filter (\<lambda>(k, v). P k \<or> \<not> has_key (weight_derivations g) k) full"
  obtain r where r: "replay np g (base_part g w) (Some g) None = Inr r" "map_of full = map_of w ++ map_of r"
    "base_part g full = base_part g w" using materializeD [OF assms] .
  obtain F where F: "solves np (base_graph g (Some g)) ?d (base_part g w) F" "\<forall>k. map_of r k = map_option fst (F k)"
    using solution_of_replay [OF r(1)] by blast
  have kept: "map_of ?w k = (if P k \<or> \<not> has_key ?d k then map_of full k else None)" for k by (rule map_of_filter_keys)
  have all: "map_of full k = map_option fst (F k) \<and> F k \<noteq> None" if "has_key ?d k" for k
  proof -
    have "k \<in> dom F" using F(1) that by (simp add: solves_def has_key_iff)
    with F(2) r(2) show ?thesis by (auto simp: map_add_def)
  qed
  define miss where "miss = filter (\<lambda>k. \<not> has_key ?w k) (keys ?d)"
  have miss: "k \<in> set miss \<longleftrightarrow> has_key ?d k \<and> map_of ?w k = None" for k unfolding miss_def has_key_iff [of ?d] by (auto simp: has_key_def)
  show ?thesis
  proof (cases "miss = []")
    case True
    have "map_of ?w k = map_of full k" for k using miss [of k] kept [of k] by (auto simp: True)
    with True show ?thesis by (auto simp: fill_missing_def Let_def miss_def)
  next
    case False
    then have "?d \<noteq> []" by (auto simp: miss_def keys_def)
    from replay_of_solution [OF replay_valid [OF r(1) this] F(1), of "Some miss"]
    obtain r' where r': "replay np g (base_part g w) (Some g) (Some miss) = Inr r'"
      "\<forall>k. map_of r' k = (if k \<in> set miss then map_option fst (F k) else None)" by (auto simp: within_keys_def)
    have "fill_missing np g ?w = Inr (dict_update ?w r')"
      using False r'(1) r(3) by (simp add: fill_missing_def Let_def flip: miss_def) (simp add: base_part_kept)
    moreover have "map_of (dict_update ?w r') k = map_of full k" for k
      unfolding map_of_dict_update [OF replay_keys(1) [OF r'(1)]] map_add_def
      using r'(2) miss [of k] kept [of k] all [of k] by (auto split: option.splits)
    ultimately show ?thesis by blast
  qed
qed

text \<open>
  C38. A file that \<open>materialize\<close> wrote holds every base weight unchanged and every derived weight; whichever derived weights
  it loses, \<open>fill_missing\<close> succeeds and restores exactly their arrays, and materializing it again changes nothing.
\<close>
theorem fill_missing_restores:
  assumes "materialize np g w = Inr full"
  shows "(\<forall>k. if has_key (weight_derivations g) k then has_key full k else map_of full k = map_of w k) \<and>
    (\<forall>P. \<exists>m. fill_missing np g (filter (\<lambda>(k, v). P k \<or> \<not> has_key (weight_derivations g) k) full) = Inr m \<and> map_of m = map_of full) \<and>
    (\<exists>m. materialize np g full = Inr m \<and> map_of m = map_of full)"
proof -
  let ?d = "weight_derivations g"
  obtain r where r: "replay np g (base_part g w) (Some g) None = Inr r" "map_of full = map_of w ++ map_of r"
    "base_part g full = base_part g w" using materializeD [OF assms] .
  obtain F where F: "solves np (base_graph g (Some g)) ?d (base_part g w) F" "\<forall>k. map_of r k = map_option fst (F k)"
    using solution_of_replay [OF r(1)] by blast
  have "if has_key ?d k then has_key full k else map_of full k = map_of w k" for k
  proof -
    have "k \<in> dom F \<longleftrightarrow> has_key ?d k" using F(1) by (simp add: solves_def has_key_iff)
    with F(2) r(2) show ?thesis by (auto simp: map_add_def has_key_def split: option.splits)
  qed
  moreover have "\<exists>m. materialize np g full = Inr m \<and> map_of m = map_of full"
    using r(1,3) by (auto simp: materialize_def map_of_dict_update [OF replay_keys(1) [OF r(1)]] r(2) map_add_def split: option.splits)
  ultimately show ?thesis using fill_missing_restores_map [OF assms] by blast
qed

text \<open>A file that lost one of two derived weights.\<close>

definition loader_np :: "int nd numpy" where
  "loader_np = exact_numpy (\<lambda>_. 0)"

definition loader_graph :: graph where
  "loader_graph = (plain_graph [] [''y''])\<lparr>weight_derivations := demo_table\<rparr>"

lemma demo_materialized:
  "materialize loader_np loader_graph [(''w'', Nd [2] [7, 9])] =
     Inr [(''w'', Nd [2] [7, 9]), (''d.b'', Nd [4] [7, 9, 7, 9]), (''d.a'', Nd [6] [7, 9, 7, 9, 7, 9])]"
  by code_simp

theorem fill_missing_restores_witness:
  "\<exists>m. fill_missing loader_np loader_graph [(''w'', Nd [2] [7, 9]), (''d.a'', Nd [6] [7, 9, 7, 9, 7, 9])] = Inr m \<and>
     map_of m ''d.b'' = Some (Nd [4] [7, 9, 7, 9])"
proof -
  have "filter (\<lambda>(k, v). k = ''d.a'' \<or> \<not> has_key (weight_derivations loader_graph) k)
      [(''w'', Nd [2] [7, 9 :: int]), (''d.b'', Nd [4] [7, 9, 7, 9]), (''d.a'', Nd [6] [7, 9, 7, 9, 7, 9])] =
      [(''w'', Nd [2] [7, 9]), (''d.a'', Nd [6] [7, 9, 7, 9, 7, 9])]" by code_simp
  with fill_missing_restores [OF demo_materialized, THEN conjunct2, THEN conjunct1, rule_format, of "\<lambda>k. k = ''d.a''"]
  show ?thesis by auto
qed

end
