(* ===== verification/Bf16_Rounding.thy ===== *)
theory Bf16_Rounding
  imports Storage_Dtype
begin

text \<open>
  \<^verbatim>\<open>round_bf16\<close> and \<^verbatim>\<open>bf16_bits\<close> of \<^verbatim>\<open>pipeline/cuda_dtypes.py\<close>: adding \<open>0x7FFF\<close> and the parity to a bit pattern and cutting
  it rounds the float32 it stands for to the nearest bfloat16, ties to even. The word arithmetic is first read as
  arithmetic of natural numbers, where the values of float32 patterns are defined.
\<close>

section \<open>Words as numbers\<close>

lemma mask_31: "(0x7FFFFFFF :: 32 word) = mask 31" and mask_16: "(0xFFFF :: 32 word) = mask 16"
  and not_mask_16: "(0xFFFF0000 :: 32 word) = NOT (mask 16)"
  by (simp_all add: mask_numeral)

lemma unat_and_31: "unat (u AND 0x7FFFFFFF :: 32 word) = unat u mod 2 ^ 31"
  unfolding mask_31 by (simp add: take_bit_eq_mod unat_mod flip: take_bit_eq_mask)

lemma unat_and_16: "unat (u AND 0xFFFF :: 32 word) = unat u mod 2 ^ 16"
  unfolding mask_16 by (simp add: take_bit_eq_mod unat_mod flip: take_bit_eq_mask)

lemma unat_drop_16: "unat (drop_bit 16 u :: 32 word) = unat u div 2 ^ 16"
  by (simp add: drop_bit_eq_div unat_div)

lemma unat_and_1: "unat (u AND 1 :: 32 word) = unat u mod 2"
  by (simp add: and_one_eq unat_mod)

lemma and_not_mask: "x AND NOT (mask 16) = push_bit 16 (drop_bit 16 x)" for x :: "32 word"
  by (rule bit_word_eqI) (auto simp: bit_simps)

lemma unat_and_hi: "unat (x AND 0xFFFF0000 :: 32 word) = unat x div 2 ^ 16 * 2 ^ 16"
proof -
  have "x AND 0xFFFF0000 = x - take_bit 16 x"
    unfolding not_mask_16 and_not_mask by (metis add_diff_cancel_right' bits_ident)
  moreover have t: "unat (take_bit 16 x) = unat x mod 2 ^ 16" by (simp add: take_bit_eq_mod unat_mod)
  moreover from t have "take_bit 16 x \<le> x" by (simp add: word_le_nat_alt)
  ultimately have "unat (x AND 0xFFFF0000) = unat x - unat x mod 2 ^ 16" by (simp add: unat_sub)
  then show ?thesis by (simp add: minus_mod_eq_div_mult)
qed

lemma low_zero: "u AND 0xFFFF = 0 \<longleftrightarrow> 2 ^ 16 dvd unat u" for u :: "32 word"
  by (metis unat_and_16 unat_eq_zero mod_eq_0_iff_dvd unsigned_0)

lemma is_nan32_unat: "is_nan32 u \<longleftrightarrow> unat u mod 2 ^ 31 > 0x7F800000"
  by (simp add: is_nan32_def word_less_nat_alt unat_and_31)

section \<open>Values of float32 patterns\<close>

text \<open>The magnitude of a pattern without its sign bit, in units of the least float \<open>2 ^ -149\<close>; infinity counts as \<open>2 ^ 128\<close>.\<close>

definition float_mag :: "nat \<Rightarrow> nat" where
  "float_mag p = (let e = p div 2 ^ 23; m = p mod 2 ^ 23 in if e = 0 then m else (2 ^ 23 + m) * 2 ^ (e - 1))"

definition float_val :: "32 word \<Rightarrow> int" where
  "float_val u = (if unat u < 2 ^ 31 then 1 else - 1) * int (float_mag (unat u mod 2 ^ 31))"

text \<open>Between two bfloat16 patterns the magnitude is linear.\<close>

definition bf16_mag :: "nat \<Rightarrow> nat" where
  "bf16_mag k = float_mag (k * 2 ^ 16)"

definition step_of :: "nat \<Rightarrow> nat" where
  "step_of k = 2 ^ (k div 2 ^ 7 - 1)"

lemma cut_23:
  fixes i k :: nat
  assumes "i < 2 ^ 16"
  shows "(k * 2 ^ 16 + i) div 2 ^ 23 = k div 2 ^ 7" "(k * 2 ^ 16 + i) mod 2 ^ 23 = k mod 2 ^ 7 * 2 ^ 16 + i"
proof -
  have "(q * 2 ^ 7 + r) * 2 ^ 16 + i = q * 2 ^ 23 + (r * 2 ^ 16 + i)" for q r :: nat by (simp add: algebra_simps)
  from this [of "k div 2 ^ 7" "k mod 2 ^ 7"]
  have split: "k * 2 ^ 16 + i = k div 2 ^ 7 * 2 ^ 23 + (k mod 2 ^ 7 * 2 ^ 16 + i)" by (simp only: div_mult_mod_eq)
  have "k mod 2 ^ 7 \<le> 127" by (simp add: less_Suc_eq_le [symmetric])
  then have "k mod 2 ^ 7 * 2 ^ 16 \<le> 127 * 2 ^ 16" by (rule mult_le_mono1)
  with assms have less: "k mod 2 ^ 7 * 2 ^ 16 + i < 2 ^ 23" by simp
  show "(k * 2 ^ 16 + i) div 2 ^ 23 = k div 2 ^ 7" "(k * 2 ^ 16 + i) mod 2 ^ 23 = k mod 2 ^ 7 * 2 ^ 16 + i"
    unfolding split using less by simp_all
qed

lemma bf16_mag_eq:
  "bf16_mag k = (if k div 2 ^ 7 = 0 then k mod 2 ^ 7 * 2 ^ 16 else (2 ^ 23 + k mod 2 ^ 7 * 2 ^ 16) * 2 ^ (k div 2 ^ 7 - 1))"
proof -
  have "(0 :: nat) < 2 ^ 16" by simp
  note c = cut_23 [OF this, of k, unfolded add_0_right]
  show ?thesis unfolding bf16_mag_def float_mag_def Let_def c by (rule refl)
qed

lemma float_mag_below:
  assumes "j < 2 ^ 16"
  shows "float_mag (k * 2 ^ 16 + j) = bf16_mag k + j * step_of k"
proof -
  have "(a + (b + j)) * c = (a + b) * c + j * c" for a b c :: nat by (simp add: distrib_right)
  then show ?thesis
    unfolding bf16_mag_eq float_mag_def step_of_def Let_def cut_23 [OF assms] by (cases "k div 2 ^ 7") (simp_all only: if_True if_False refl, simp_all)
qed

lemma bf16_mag_Suc: "bf16_mag (Suc k) = bf16_mag k + 2 ^ 16 * step_of k"
proof (cases "Suc k mod 2 ^ 7 = 0")
  case True
  then have s: "Suc k mod 128 = 0" by simp
  from s have "Suc k div 128 = Suc (k div 128)" by (simp add: div_Suc)
  moreover from s have "k mod 128 = 127" by (simp add: mod_Suc split: if_splits)
  ultimately have m: "Suc k div 2 ^ 7 = Suc (k div 2 ^ 7)" "k mod 2 ^ 7 = 127" by simp_all
  have "(if Suc q = 0 then (0 :: nat) * 2 ^ 16 else (2 ^ 23 + 0 * 2 ^ 16) * 2 ^ (Suc q - 1)) =
      (if q = 0 then 127 * 2 ^ 16 else (2 ^ 23 + 127 * 2 ^ 16) * 2 ^ (q - 1)) + 2 ^ 16 * 2 ^ (q - 1)" for q :: nat
    by (cases q) simp_all
  then show ?thesis unfolding bf16_mag_eq step_of_def m True .
next
  case False
  then have s: "Suc k mod 128 \<noteq> 0" by simp
  from s have "Suc k div 128 = k div 128" by (simp add: div_Suc)
  moreover from s have "Suc k mod 128 = Suc (k mod 128)" by (simp add: mod_Suc split: if_splits)
  ultimately have m: "Suc k div 2 ^ 7 = k div 2 ^ 7" "Suc k mod 2 ^ 7 = Suc (k mod 2 ^ 7)" by simp_all
  have e: "(a + Suc r * b) * c = (a + r * b) * c + b * c" for a b c r :: nat by (simp add: distrib_right)
  show ?thesis unfolding bf16_mag_eq step_of_def m e by (cases "k div 2 ^ 7") (simp_all only: if_True if_False refl, simp_all)
qed

lemma bf16_mag_mono: "i < j \<Longrightarrow> bf16_mag i < bf16_mag j"
  by (rule lift_Suc_mono_less [of bf16_mag]) (simp_all add: bf16_mag_Suc step_of_def)

lemma bf16_mag_le: "i \<le> j \<Longrightarrow> bf16_mag i \<le> bf16_mag j"
  using bf16_mag_mono [of i j] by (cases "i = j") auto

section \<open>Rounding\<close>

definition round16 :: "nat \<Rightarrow> nat" where
  "round16 p = (p + 0x7FFF + p div 2 ^ 16 mod 2) div 2 ^ 16"

lemma round16_cases:
  assumes "j < 2 ^ 16"
  shows "round16 (k * 2 ^ 16 + j) = (if j > 2 ^ 15 \<or> j = 2 ^ 15 \<and> odd k then Suc k else k)"
proof -
  have "(k * 2 ^ 16 + j) div 2 ^ 16 = k" using assms by simp
  then have "round16 (k * 2 ^ 16 + j) = (k * 2 ^ 16 + (j + 0x7FFF + k mod 2)) div 2 ^ 16" by (simp add: round16_def algebra_simps)
  also have "\<dots> = k + (j + 0x7FFF + k mod 2) div 2 ^ 16" by simp
  also have "(j + 0x7FFF + k mod 2) div 2 ^ 16 = (if j > 2 ^ 15 \<or> j = 2 ^ 15 \<and> odd k then 1 else 0)"
    using assms by (cases "even k") (auto simp: odd_iff_mod_2_eq_one even_iff_mod_2_eq_zero)
  finally show ?thesis by simp
qed

text \<open>No bfloat16 magnitude is nearer, and only an even one is as near.\<close>

lemma round16_nearest:
  defines "dist p k' \<equiv> \<bar>int (bf16_mag k') - int (float_mag p)\<bar>"
  shows "dist p (round16 p) \<le> dist p k'" "dist p k' = dist p (round16 p) \<Longrightarrow> k' = round16 p \<or> even (round16 p)"
proof -
  define k j where "k = p div 2 ^ 16" and "j = p mod 2 ^ 16"
  define t :: int where "t = int (step_of k)"
  have j: "j < 2 ^ 16" and p: "p = k * 2 ^ 16 + j" by (simp_all add: k_def j_def div_mult_mod_eq)
  have t: "t > 0" by (simp add: t_def step_of_def)
  have mag: "int (float_mag p) = int (bf16_mag k) + int j * t" unfolding p float_mag_below [OF j] by (simp add: t_def)
  have k0: "dist p k = int j * t" using t by (simp add: dist_def mag)
  have "dist p (Suc k) = \<bar>(2 ^ 16 - int j) * t\<bar>" by (simp add: dist_def mag bf16_mag_Suc t_def algebra_simps)
  then have k1: "dist p (Suc k) = (2 ^ 16 - int j) * t" using t j by simp
  have far0: "dist p k' > int j * t" if "k' < k" using bf16_mag_mono [OF that] t by (simp add: dist_def mag)
  have far1: "dist p k' > (2 ^ 16 - int j) * t" if "k' > Suc k"
    using bf16_mag_mono [OF that] t by (simp add: dist_def mag bf16_mag_Suc t_def algebra_simps)
  have le: "int j * t \<le> (2 ^ 16 - int j) * t \<longleftrightarrow> j \<le> 2 ^ 15" "(2 ^ 16 - int j) * t \<le> int j * t \<longleftrightarrow> j \<ge> 2 ^ 15"
    using t by (simp_all add: mult_le_cancel_right)
  have "dist p (round16 p) \<le> dist p k' \<and> (dist p k' = dist p (round16 p) \<longrightarrow> k' = round16 p \<or> even (round16 p))"
  proof (cases "j > 2 ^ 15 \<or> j = 2 ^ 15 \<and> odd k")
    case True
    then have r: "round16 p = Suc k" unfolding p round16_cases [OF j] by simp
    from True le have d: "(2 ^ 16 - int j) * t \<le> int j * t" "int j * t \<le> (2 ^ 16 - int j) * t \<Longrightarrow> odd k" by auto
    consider "k' < k" | "k' = k" | "k' = Suc k" | "k' > Suc k" by linarith
    then show ?thesis using d far0 far1 by cases (auto simp: r k0 k1)
  next
    case False
    then have r: "round16 p = k" unfolding p round16_cases [OF j] by simp
    from False le have d: "int j * t \<le> (2 ^ 16 - int j) * t" "(2 ^ 16 - int j) * t \<le> int j * t \<Longrightarrow> even k" by auto
    consider "k' < k" | "k' = k" | "k' = Suc k" | "k' > Suc k" by linarith
    then show ?thesis using d far0 far1 by cases (auto simp: r k0 k1)
  qed
  then show "dist p (round16 p) \<le> dist p k'" "dist p k' = dist p (round16 p) \<Longrightarrow> k' = round16 p \<or> even (round16 p)" by auto
qed

section \<open>The rounding of a word\<close>

lemma nan_bound: "\<not> is_nan32 u \<longleftrightarrow> unat u mod 2 ^ 31 \<le> 0x7F80 * 2 ^ 16"
  by (auto simp: is_nan32_unat)

lemma round16_bound: "p \<le> 0x7F80 * 2 ^ 16 \<Longrightarrow> round16 p \<le> 0x7F80"
proof -
  assume p: "p \<le> 0x7F80 * 2 ^ 16"
  show ?thesis
  proof (cases "p = 0x7F80 * 2 ^ 16")
    case True
    then show ?thesis by (simp add: round16_def)
  next
    case False
    with p have "p div 2 ^ 16 < 0x7F80" by (simp add: div_less_iff_less_mult)
    then have "Suc (p div 2 ^ 16) \<le> 0x7F80" by simp
    moreover have "round16 p \<le> Suc (p div 2 ^ 16)"
      using round16_cases [of "p mod 2 ^ 16" "p div 2 ^ 16"] by (simp add: div_mult_mod_eq split: if_splits)
    ultimately show ?thesis by simp
  qed
qed

lemma sign_split: "unat u = unat u div 2 ^ 31 * 2 ^ 31 + unat u mod 2 ^ 31" "unat u div 2 ^ 31 \<le> 1" for u :: "32 word"
  proof -
  have "unat u < 2 ^ LENGTH(32)" by (rule unsigned_less)
  then show "unat u div 2 ^ 31 \<le> 1" by simp
qed (simp add: div_mult_mod_eq)

lemma bf16_hi_unat:
  assumes "\<not> is_nan32 u"
  shows "unat (bf16_hi u) = unat u div 2 ^ 31 * 2 ^ 31 + round16 (unat u mod 2 ^ 31) * 2 ^ 16"
proof -
  define s p where "s = unat u div 2 ^ 31" and "p = unat u mod 2 ^ 31"
  have u: "unat u = s * 2 ^ 31 + p" and s: "s \<le> 1" and p: "p \<le> 0x7F80 * 2 ^ 16"
    using sign_split [of u] assms by (simp_all add: s_def p_def nan_bound)
  have par: "unat (drop_bit 16 u AND 1) = p div 2 ^ 16 mod 2"
  proof -
    have "unat u div 2 ^ 16 = s * 2 ^ 15 + p div 2 ^ 16" unfolding u by simp
    moreover have "(s * 2 ^ 15 + i) mod 2 = i mod 2" for i :: nat by (simp add: mod_add_eq [symmetric] mod_mult_right_eq [symmetric])
    ultimately show ?thesis by (simp only: unat_and_1 unat_drop_16)
  qed
  have "unat (u + 0x7FFF) = unat u + 0x7FFF" using s p by (simp add: unat_word_ariths u)
  moreover have "unat u + 0x7FFF + p div 2 ^ 16 mod 2 < 2 ^ 32"
  proof -
    have "s * 2 ^ 31 \<le> 2 ^ 31" using s by simp
    then show ?thesis using p unfolding u by simp
  qed
  ultimately have "unat (u + 0x7FFF + (drop_bit 16 u AND 1)) = unat u + 0x7FFF + p div 2 ^ 16 mod 2"
    unfolding unat_word_ariths(1) [of "u + 0x7FFF"] par by simp
  then have "unat (bf16_hi u) = (unat u + 0x7FFF + p div 2 ^ 16 mod 2) div 2 ^ 16 * 2 ^ 16"
    using assms by (simp add: bf16_hi_def Let_def unat_and_hi)
  also have "unat u + 0x7FFF + p div 2 ^ 16 mod 2 = s * 2 ^ 15 * 2 ^ 16 + (p + 0x7FFF + p div 2 ^ 16 mod 2)" by (simp add: u)
  also have "\<dots> div 2 ^ 16 = s * 2 ^ 15 + round16 p" unfolding round16_def by simp
  finally show ?thesis by (simp add: s_def p_def algebra_simps)
qed

lemma bf16_hi_parts:
  assumes "\<not> is_nan32 u"
  shows "unat (bf16_hi u) mod 2 ^ 31 = round16 (unat u mod 2 ^ 31) * 2 ^ 16" "unat (bf16_hi u) div 2 ^ 31 = unat u div 2 ^ 31"
    "\<not> is_nan32 (bf16_hi u)" "bf16_hi u AND 0xFFFF = 0"
proof -
  have r: "round16 (unat u mod 2 ^ 31) \<le> 0x7F80" using assms by (intro round16_bound) (simp add: nan_bound)
  then have "round16 (unat u mod 2 ^ 31) * 2 ^ 16 < 2 ^ 31" by simp
  note h = bf16_hi_unat [OF assms]
  show m: "unat (bf16_hi u) mod 2 ^ 31 = round16 (unat u mod 2 ^ 31) * 2 ^ 16" "unat (bf16_hi u) div 2 ^ 31 = unat u div 2 ^ 31"
    unfolding h using \<open>_ < 2 ^ 31\<close> by simp_all
  show "\<not> is_nan32 (bf16_hi u)" unfolding nan_bound m using r by simp
  show "bf16_hi u AND 0xFFFF = 0" unfolding low_zero h
    by (intro dvd_add dvd_mult dvd_triv_right) simp
qed

lemma float_val_sign: "float_val u = (if unat u div 2 ^ 31 = 0 then 1 else - 1) * int (float_mag (unat u mod 2 ^ 31))"
  by (simp add: float_val_def div_eq_0_iff)

lemma bf16_hi_nearest:
  assumes u: "\<not> is_nan32 u" and v: "v AND 0xFFFF = 0"
  shows "\<bar>float_val (bf16_hi u) - float_val u\<bar> \<le> \<bar>float_val v - float_val u\<bar>"
    "\<bar>float_val v - float_val u\<bar> = \<bar>float_val (bf16_hi u) - float_val u\<bar> \<Longrightarrow> v \<noteq> bf16_hi u \<Longrightarrow> drop_bit 16 (bf16_hi u) AND 1 = 0"
proof -
  define p where "p = unat u mod 2 ^ 31"
  obtain k where k: "unat v mod 2 ^ 31 = k * 2 ^ 16"
  proof -
    have "2 ^ 16 dvd unat v mod 2 ^ 31" using v unfolding low_zero by (intro dvd_mod) (simp_all add: le_imp_power_dvd)
    with that show thesis by (metis dvdE mult.commute)
  qed
  let ?d = "\<lambda>k. \<bar>int (bf16_mag k) - int (float_mag p)\<bar>"
  have hi: "\<bar>float_val (bf16_hi u) - float_val u\<bar> = ?d (round16 p)"
    unfolding float_val_sign bf16_hi_parts [OF u] by (auto simp: p_def bf16_mag_def)
  have zero: "?d 0 = int (float_mag p)" by (simp add: bf16_mag_def float_mag_def)
  have far: "\<bar>float_val v - float_val u\<bar> = (if unat v div 2 ^ 31 = unat u div 2 ^ 31 then ?d k else int (bf16_mag k) + ?d 0)"
  proof -
    have "unat v div 2 ^ 31 \<le> 1" "unat u div 2 ^ 31 \<le> 1" by (rule sign_split)+
    then have "unat v div 2 ^ 31 = 0 \<or> unat v div 2 ^ 31 = 1" "unat u div 2 ^ 31 = 0 \<or> unat u div 2 ^ 31 = 1" by linarith+
    then show ?thesis unfolding float_val_sign zero k p_def [symmetric] bf16_mag_def [symmetric] by (elim disjE) simp_all
  qed
  show "\<bar>float_val (bf16_hi u) - float_val u\<bar> \<le> \<bar>float_val v - float_val u\<bar>"
    unfolding hi far using round16_nearest(1) [of p k] round16_nearest(1) [of p 0] by simp
  assume eq: "\<bar>float_val v - float_val u\<bar> = \<bar>float_val (bf16_hi u) - float_val u\<bar>" and ne: "v \<noteq> bf16_hi u"
  have "even (round16 p)"
  proof (cases "unat v div 2 ^ 31 = unat u div 2 ^ 31")
    case True
    with eq have "?d k = ?d (round16 p)" unfolding hi far by simp
    from round16_nearest(2) [OF this] show ?thesis
    proof
      assume "k = round16 p"
      then have "unat v = unat (bf16_hi u)" unfolding bf16_hi_unat [OF u] using True sign_split(1) [of v] k by (simp add: p_def)
      then have "v = bf16_hi u" by (simp only: word_unat_eq_iff)
      with ne show ?thesis by simp
    qed
  next
    case False
    with eq have "?d 0 = ?d (round16 p)" unfolding hi far using round16_nearest(1) [of p 0] by simp
    from round16_nearest(2) [OF this] show ?thesis by auto
  qed
  moreover have "unat (drop_bit 16 (bf16_hi u)) = unat u div 2 ^ 31 * 2 ^ 15 + round16 p"
    unfolding unat_drop_16 bf16_hi_unat [OF u] by (simp add: p_def)
  ultimately have "unat (drop_bit 16 (bf16_hi u) AND 1) = 0" unfolding unat_and_1 by simp
  then show "drop_bit 16 (bf16_hi u) AND 1 = 0" by (simp add: unat_eq_zero)
qed

section \<open>NaN patterns\<close>

lemma nan_hi: "is_nan32 u \<Longrightarrow> bf16_hi u = (u OR 0x400000) AND 0xFFFF0000"
  by (simp add: bf16_hi_def)

lemma bf16_hi_low: "bf16_hi u AND 0xFFFF = 0"
proof (cases "is_nan32 u")
  case True
  have "(x AND 0xFFFF0000) AND 0xFFFF = 0" for x :: "32 word"
    unfolding not_mask_16 mask_16 by (rule bit_word_eqI) (simp add: bit_simps)
  then show ?thesis by (simp only: nan_hi [OF True])
qed (rule bf16_hi_parts)

text \<open>A quiet NaN stays one.\<close>

lemma bf16_hi_nan: "is_nan32 u \<Longrightarrow> is_nan32 (bf16_hi u)"
proof -
  assume u: "is_nan32 u"
  define p where "p = u AND 0x7FFFFFFF"
  have p: "unat p > 0x7F800000" using u by (simp add: is_nan32_def p_def word_less_nat_alt)
  have "unat p < 2 ^ 31" unfolding p_def unat_and_31 by simp
  have or: "p OR 0x400000 = p + of_bool (\<not> bit p 22) * 2 ^ 22"
    using set_bit_eq_or [of 22 p] set_bit_eq [of 22 p] by simp
  have "unat (p OR 0x400000) \<ge> 0x7FC00000"
  proof (cases "bit p 22")
    case True
    then have "bit (unat p) 22" by (simp add: bit_unsigned_iff)
    then have "odd (unat p div 2 ^ 22)" by (simp only: bit_iff_odd not_not not_False_eq_True)
    moreover have "unat p div 2 ^ 22 \<ge> 510" using p by simp
    moreover have "m \<ge> 511" if "odd m" "m \<ge> 510" for m :: nat using that by (cases "m = 510") auto
    ultimately have "unat p div 2 ^ 22 \<ge> 511" by blast
    with True or show ?thesis by simp
  next
    case False
    with or p \<open>unat p < 2 ^ 31\<close> show ?thesis by (simp add: unat_word_ariths)
  qed
  then have "unat ((p OR 0x400000) AND 0xFFFF0000) > 0x7F800000" unfolding unat_and_hi by simp
  moreover have "((u OR c) AND h) AND m = ((u AND m) OR (c AND m)) AND h" for c h m :: "32 word"
    by (rule bit_word_eqI) (auto simp: bit_simps)
  from this [of "0x400000" "0xFFFF0000" "0x7FFFFFFF"]
  have "((u OR 0x400000) AND 0xFFFF0000) AND 0x7FFFFFFF = (p OR 0x400000) AND 0xFFFF0000" by (simp add: p_def)
  ultimately show ?thesis by (simp add: is_nan32_def nan_hi [OF u] word_less_nat_alt)
qed

lemma bf16_hi_exact: "u AND 0xFFFF = 0 \<Longrightarrow> \<not> is_nan32 u \<Longrightarrow> bf16_hi u = u"
proof -
  assume u: "u AND 0xFFFF = 0" "\<not> is_nan32 u"
  then have "2 ^ 16 dvd unat u mod 2 ^ 31" unfolding low_zero by (intro dvd_mod) (simp_all add: le_imp_power_dvd)
  then obtain k where k: "unat u mod 2 ^ 31 = k * 2 ^ 16" by (metis dvdE mult.commute)
  have r: "round16 (k * 2 ^ 16) = k" using round16_cases [of 0 k] by simp
  have "unat (bf16_hi u) = unat u" unfolding bf16_hi_unat [OF u(2)] k r by (rule sign_split(1) [of u, unfolded k, symmetric])
  then show "bf16_hi u = u" by (simp only: word_unat_eq_iff)
qed

lemma bf16_hi_idem: "bf16_hi (bf16_hi u) = bf16_hi u"
proof (cases "is_nan32 u")
  case True
  have "((x OR c) AND h OR c) AND h = (x OR c) AND h" for x c h :: "32 word"
    by (rule bit_word_eqI) (auto simp: bit_simps)
  then show ?thesis unfolding nan_hi [OF bf16_hi_nan [OF True]] unfolding nan_hi [OF True] .
qed (rule bf16_hi_exact [OF bf16_hi_low bf16_hi_parts(3)])

section \<open>Whole arrays\<close>

lemma bf16_bits_map: "bf16_bits us = map (\<lambda>u. ucast (drop_bit 16 (bf16_hi u))) us"
  by (simp add: bf16_bits_def chunked_map bf16_chunk_def)

lemma widen_hi: "push_bit 16 (ucast (ucast (drop_bit 16 u) :: 16 word)) = u" if "u AND 0xFFFF = 0" for u :: "32 word"
proof -
  have "ucast (ucast (drop_bit 16 u) :: 16 word) = drop_bit 16 u" by (rule bit_word_eqI) (auto simp: bit_simps dest: bit_imp_le_length)
  moreover have "push_bit 16 (drop_bit 16 u) = u"
    using bits_ident [of 16 u] that unfolding mask_16 by (simp flip: take_bit_eq_mask)
  ultimately show ?thesis by simp
qed

text \<open>
  C39. Every float32 but a NaN is rounded to a bfloat16 pattern whose value is nearest to its own (an overflow counts
  as \<open>2 ^ 128\<close>, which is infinity), and if another bfloat16 value is as near, the result is the one with an even last bit.
\<close>
theorem round_bf16_nearest:
  assumes "i < length us" "\<not> is_nan32 (us ! i)"
  shows "let u = us ! i; r = round_bf16_bits us ! i in
    r AND 0xFFFF = 0 \<and> \<not> is_nan32 r \<and>
    (\<forall>v. v AND 0xFFFF = 0 \<longrightarrow> \<bar>float_val r - float_val u\<bar> \<le> \<bar>float_val v - float_val u\<bar> \<and>
       (\<bar>float_val v - float_val u\<bar> = \<bar>float_val r - float_val u\<bar> \<longrightarrow> v = r \<or> drop_bit 16 r AND 1 = 0))"
  using bf16_hi_nearest [OF assms(2)] bf16_hi_parts [OF assms(2)] assms(1) by (auto simp: Let_def round_bf16_bits_map)

text \<open>A tie: halfway between two patterns the even one is taken.\<close>

theorem round_bf16_nearest_witness:
  "round_bf16_bits [0x3F818000] ! 0 = 0x3F820000 \<and>
   \<bar>float_val 0x3F820000 - float_val 0x3F818000\<bar> \<le> \<bar>float_val 0x3F810000 - float_val 0x3F818000\<bar>"
proof -
  have r: "round_bf16_bits [0x3F818000] ! 0 = 0x3F820000" unfolding round_bf16_bits_map by code_simp
  have n: "\<not> is_nan32 ([0x3F818000] ! 0)" by code_simp
  from round_bf16_nearest [of 0 "[0x3F818000]", OF _ n] r show ?thesis by (simp add: Let_def)
qed

text \<open>
  C40. What is uploaded as 2-byte values widens back to exactly the rounded array, rounding twice is rounding once, and
  a rounded array counts as exact; an array that is exact and has no NaN is not changed.
\<close>
theorem bf16_bits_roundtrip:
  "map (\<lambda>h. push_bit 16 (ucast h)) (bf16_bits us) = round_bf16_bits us \<and>
   round_bf16_bits (round_bf16_bits us) = round_bf16_bits us \<and> bf16_bits (round_bf16_bits us) = bf16_bits us \<and>
   bf16_exact (round_bf16_bits us) \<and> (bf16_exact us \<and> list_all (\<lambda>u. \<not> is_nan32 u) us \<longrightarrow> round_bf16_bits us = us)"
proof -
  have "round_bf16_bits us = us" if "bf16_exact us" "list_all (\<lambda>u. \<not> is_nan32 u) us"
    unfolding round_bf16_bits_map using that bf16_hi_exact by (intro map_idI) (auto simp: bf16_exact_def list_all_iff)
  moreover have "map (\<lambda>h. push_bit 16 (ucast h)) (bf16_bits us) = round_bf16_bits us"
    "round_bf16_bits (round_bf16_bits us) = round_bf16_bits us" "bf16_bits (round_bf16_bits us) = bf16_bits us"
    "bf16_exact (round_bf16_bits us)"
    by (simp_all add: round_bf16_bits_map bf16_bits_map bf16_hi_idem widen_hi [OF bf16_hi_low] bf16_exact_def bf16_hi_low list_all_iff comp_def)
  ultimately show ?thesis by blast
qed

theorem bf16_bits_roundtrip_witness:
  "bf16_bits [0x3F818000] = [0x3F82] \<and> round_bf16_bits [0x3F820000] = [0x3F820000]"
proof -
  have "bf16_bits [0x3F818000] = [0x3F82]" unfolding bf16_bits_map by code_simp
  moreover have "bf16_exact [0x3F820000] \<and> list_all (\<lambda>u. \<not> is_nan32 u) [0x3F820000]" by code_simp
  ultimately show ?thesis using bf16_bits_roundtrip [of "[0x3F820000]"] by simp
qed

end
