(* ===== verification/Split_Facts.thy ===== *)
theory Split_Facts
  imports Split
begin

text \<open>
  What a split promises: the tiles cut the axis into equal consecutive pieces, the renumbering
  follows the contract of \<open>renumbering\<close>, and a consumer of a split op waits for all its tiles.
\<close>

section \<open>The splitters\<close>

text \<open>The interval of the axis a tile computes, from what it records.\<close>

definition tile_range :: "split_tag \<Rightarrow> int set" where
  "tile_range tag = {tag_offset tag ..< tag_offset tag + tag_width tag}"

definition tile_tags :: "op list \<Rightarrow> split_tag list" where
  "tile_tags tiles = List.map_filter (\<lambda>x. split_from (flds x)) tiles"

lemma split_linear_Inr:
  assumes "split_linear_s8 x n = Inr tiles"
  obtains N t where "shape_key x ''N'' = Inr N" "N mod n = 0"
    "tiles = map (linear_tile x t n (N div n)) [0..<nat n]"
proof -
  from assms obtain N t where "shape_key x ''N'' = Inr N" "first_output x = Inr t" "N mod n = 0"
    "tiles = map (linear_tile x t n (N div n)) [0..<nat n]"
    by (cases "shape_key x ''N''"; cases "first_output x")
      (auto simp: split_linear_s8_def split: if_splits)
  then show thesis by (intro that)
qed

lemma split_conv_Inr:
  assumes "split_conv2d_s8 x n = Inr tiles"
  obtains N t where "shape_key x ''OC'' = Inr N" "N mod n = 0"
    "tiles = map (conv_tile x t n (N div n)) [0..<nat n]"
proof -
  from assms obtain N t where "shape_key x ''OC'' = Inr N" "first_output x = Inr t" "N mod n = 0"
    "tiles = map (conv_tile x t n (N div n)) [0..<nat n]"
    by (cases "shape_key x ''OC''"; cases "first_output x")
      (auto simp: split_conv2d_s8_def split: if_splits)
  then show thesis by (intro that)
qed

lemma split_fused_Inr:
  assumes "split_fused_conv_s8 x n = Inr tiles"
  obtains conv N t where "List.find is_conv_sub (subs x) = Some conv" "shape_key conv ''OC'' = Inr N"
    "N mod n = 0" "first_output x = Inr t"
    "map_res (fused_tile x (concat (map o_outs (subs x))) t n N (N div n)) [0..<nat n] = Inr tiles"
  using assms by (auto simp: split_fused_conv_s8_def split: sum.splits if_splits option.splits)

lemma fused_tile_Inr:
  assumes "fused_tile x inner t n N w i = Inr y"
  shows "o_deps y = o_deps x" "split_from (flds y) = Some (Tile_OC (the_id x) (int i) n w (int i * w))"
    "o_outs y = [t @ tile_suffix i]" "o_ins y = o_ins x"
  using assms by (auto simp: fused_tile_def split: sum.splits)

lemma tags_mapped:
  assumes "length tiles = k" and "\<And>i. i < k \<Longrightarrow> split_from (flds (tiles ! i)) = Some (tag i)"
  shows "tile_tags tiles = map tag [0..<k]"
proof -
  have "tile_tags tiles = map (\<lambda>x. the (split_from (flds x))) (filter (\<lambda>x. split_from (flds x) \<noteq> None) tiles)"
    by (simp add: tile_tags_def List.map_filter_def comp_def)
  also have "filter (\<lambda>x. split_from (flds x) \<noteq> None) tiles = tiles"
    using assms by (auto simp: filter_id_conv in_set_conv_nth)
  also have "map (\<lambda>x. the (split_from (flds x))) tiles = map tag [0..<k]"
    using assms by (intro nth_equalityI) auto
  finally show ?thesis .
qed

text \<open>What all three splitters have in common.\<close>

lemma splitter_tiles:
  assumes "splittable (o_kind x) = Some f" and "f x n = Inr tiles"
  obtains N tag where "N mod n = 0" "length tiles = nat n"
    "\<And>y. y \<in> set tiles \<Longrightarrow> o_deps y = o_deps x"
    "tile_tags tiles = map tag [0..<nat n]"
    "\<And>i. tag_offset (tag i) = int i * (N div n) \<and> tag_width (tag i) = N div n \<and> tag_op (tag i) = the_id x \<and>
          tag_tile (tag i) = int i \<and> tag_n_splits (tag i) = n"
proof -
  from assms(1) consider "f = split_linear_s8" | "f = split_conv2d_s8" | "f = split_fused_conv_s8"
    by (auto simp: splittable_def split: if_splits)
  then show thesis
  proof cases
    case 1
    with assms(2) have "split_linear_s8 x n = Inr tiles" by simp
    then obtain N t where N: "N mod n = 0" and t: "tiles = map (linear_tile x t n (N div n)) [0..<nat n]"
      by (rule split_linear_Inr)
    show thesis
    proof (rule that [OF N])
      show "tile_tags tiles = map (\<lambda>i. Tile_N (the_id x) (int i) n (N div n) (int i * (N div n))) [0..<nat n]"
        by (rule tags_mapped) (simp_all add: t linear_tile_def)
    qed (auto simp: t linear_tile_def set_shape_key_def)
  next
    case 2
    with assms(2) have "split_conv2d_s8 x n = Inr tiles" by simp
    then obtain N t where N: "N mod n = 0" and t: "tiles = map (conv_tile x t n (N div n)) [0..<nat n]"
      by (rule split_conv_Inr)
    show thesis
    proof (rule that [OF N])
      show "tile_tags tiles = map (\<lambda>i. Tile_OC (the_id x) (int i) n (N div n) (int i * (N div n))) [0..<nat n]"
        by (rule tags_mapped) (simp_all add: t conv_tile_def)
    qed (auto simp: t conv_tile_def set_shape_key_def)
  next
    case 3
    with assms(2) have "split_fused_conv_s8 x n = Inr tiles" by simp
    then obtain conv N t where N: "N mod n = 0" and
      t: "map_res (fused_tile x (concat (map o_outs (subs x))) t n N (N div n)) [0..<nat n] = Inr tiles"
      by (rule split_fused_Inr)
    have len: "length tiles = nat n" using map_res_length [OF t] by simp
    have each: "fused_tile x (concat (map o_outs (subs x))) t n N (N div n) i = Inr (tiles ! i)"
      if "i < nat n" for i using map_res_nth [OF t, of i] that by simp
    show thesis
    proof (rule that [OF N len])
      show "o_deps y = o_deps x" if "y \<in> set tiles" for y
        using that each len fused_tile_Inr(1) by (metis in_set_conv_nth)
      show "tile_tags tiles = map (\<lambda>i. Tile_OC (the_id x) (int i) n (N div n) (int i * (N div n))) [0..<nat n]"
        by (rule tags_mapped [OF len]) (rule fused_tile_Inr(2) [OF each])
    qed simp_all
  qed
qed

lemma tiles_cover:
  fixes w :: int
  assumes "0 \<le> w"
  shows "(\<Union>i < k. {int i * w ..< int i * w + w}) = {0 ..< int k * w}"
proof (induction k)
  case (Suc k)
  have "(\<Union>i < Suc k. {int i * w ..< int i * w + w}) = {0 ..< int k * w} \<union> {int k * w ..< int k * w + w}"
    using Suc by (simp add: lessThan_Suc Un_commute)
  also have "\<dots> = {0 ..< int k * w + w}" using assms by (intro ivl_disj_un_two(3)) auto
  also have "\<dots> = {0 ..< int (Suc k) * w}" by (simp add: algebra_simps)
  finally show ?case .
qed simp

lemma tiles_disjoint:
  fixes w :: int
  assumes "i < j"
  shows "{int i * w ..< int i * w + w} \<inter> {int j * w ..< int j * w + w} = {}"
proof (cases "0 \<le> w")
  case True
  have "(int i + 1) * w \<le> int j * w" using assms True by (intro mult_right_mono) auto
  then show ?thesis by (auto simp: algebra_simps)
qed auto

text \<open>
  A splitter cuts the op's axis exactly: there are \<open>n_splits\<close> tiles, in order, of one width,
  and the intervals they record are disjoint and together the whole axis \<open>0 .. N - 1\<close>, where \<open>N\<close>
  is a multiple of \<open>n_splits\<close>.
\<close>
theorem tiles_partition_axis:
  assumes "splittable (o_kind x) = Some f" and "f x n = Inr tiles" and "0 < n"
  shows "\<exists>N. n dvd N \<and> length (tile_tags tiles) = nat n \<and> length tiles = nat n \<and>
             map tag_width (tile_tags tiles) = replicate (nat n) (N div n) \<and>
             \<Union> (tile_range ` set (tile_tags tiles)) = {0 ..< N} \<and>
             sorted_wrt (\<lambda>a b. tile_range a \<inter> tile_range b = {}) (tile_tags tiles)"
proof -
  obtain N tag where N: "N mod n = 0" "length tiles = nat n"
    and tags: "tile_tags tiles = map tag [0..<nat n]"
    and at: "\<And>i. tag_offset (tag i) = int i * (N div n) \<and> tag_width (tag i) = N div n \<and> tag_op (tag i) = the_id x \<and>
          tag_tile (tag i) = int i \<and> tag_n_splits (tag i) = n"
    using splitter_tiles [OF assms(1,2)] by metis
  have range: "tile_range (tag i) = {int i * (N div n) ..< int i * (N div n) + N div n}" for i
    using at by (simp add: tile_range_def)
  have "\<Union> (tile_range ` set (tile_tags tiles)) = (\<Union>i < nat n. tile_range (tag i))"
    using tags by auto
  also have "\<dots> = {0 ..< N}"
  proof (cases "0 \<le> N")
    case True
    then have "0 \<le> N div n" using assms(3) by (simp add: pos_imp_zdiv_nonneg_iff)
    then show ?thesis using N(1) assms(3) by (auto simp: range tiles_cover mult.commute)
  next
    case False
    then have "N div n < 0" using assms(3) by (simp add: neg_imp_zdiv_neg_iff pos_imp_zdiv_neg_iff)
    with False show ?thesis by (auto simp: range)
  qed
  finally have "\<Union> (tile_range ` set (tile_tags tiles)) = {0 ..< N}" .
  moreover have "map tag_width (tile_tags tiles) = replicate (nat n) (N div n)"
    using tags at by (auto intro: nth_equalityI)
  moreover have "sorted_wrt (\<lambda>a b. tile_range a \<inter> tile_range b = {}) (tile_tags tiles)"
    unfolding tags using tiles_disjoint by (auto simp: sorted_wrt_map range sorted_wrt_iff_nth_less)
  ultimately show ?thesis using N tags by (intro exI [of _ N]) (auto simp: dvd_eq_mod_eq_0)
qed

definition demo_conv :: op where
  "demo_conv = upd (\<lambda>f. f\<lparr>shape := Some [(''N'', 1), (''OC'', 8)]\<rparr>)
                 (mk_op ''c0'' ''conv2d_s8'' (Some 0) [] [''x''] [''t0''])"

theorem tiles_partition_axis_witness:
  "\<exists>tiles N. split_conv2d_s8 demo_conv 4 = Inr tiles \<and> length tiles = 4 \<and>
             \<Union> (tile_range ` set (tile_tags tiles)) = {0 ..< N}"
proof -
  have s: "splittable (o_kind demo_conv) = Some split_conv2d_s8"
    by (simp add: splittable_def demo_conv_def)
  have "case split_conv2d_s8 demo_conv 4 of Inl _ \<Rightarrow> False | Inr _ \<Rightarrow> True" by code_simp
  then obtain tiles where t: "split_conv2d_s8 demo_conv 4 = Inr tiles" by (auto split: sum.splits)
  from tiles_partition_axis [OF s t] t show ?thesis by auto
qed

section \<open>The walk obeys the renumbering contract\<close>

lemma dids_assign_ids: "dids (assign_ids n xs) = new_block n (length xs)"
proof -
  have "dids (map (\<lambda>(i, x). upd (\<lambda>f. f\<lparr>dispatch_id := Some (n + int i)\<rparr>) x) (enumerate k xs)) =
      map (\<lambda>i. n + int i) [k..<k + length xs]" for k
    by (induction xs arbitrary: k) (auto simp: upt_rec)
  then show ?thesis by (simp add: assign_ids_def new_block_def)
qed

lemma assign_ids_deps: "y \<in> set (assign_ids n xs) \<Longrightarrow> \<exists>x \<in> set xs. o_deps y = o_deps x"
  by (auto simp: assign_ids_def in_set_enumerate_eq)

definition tile_count :: "(int, int) dict \<Rightarrow> op \<Rightarrow> nat" where
  "tile_count tgt x =
     (case o_did x of None \<Rightarrow> 0
      | Some d \<Rightarrow> (case map_of tgt d of None \<Rightarrow> 1 | Some n \<Rightarrow> nat n))"

definition same_deps :: "op \<Rightarrow> op \<Rightarrow> bool" where
  "same_deps x y = (o_deps y = o_deps x)"

lemma split_step_dispatch:
  assumes d: "o_did x = Some d" and s': "split_step tgt x s = Inr s'"
  shows "\<exists>ys. ss_ops s' = ss_ops s @ ys \<and> dids ys = new_block (ss_next s) (tile_count tgt x) \<and>
           (\<forall>y \<in> set ys. same_deps x y) \<and> ss_next s' = ss_next s + int (tile_count tgt x) \<and>
           ss_remap s' = AList.update d (new_block (ss_next s) (tile_count tgt x)) (ss_remap s)"
proof (cases "map_of tgt d")
  case None
  then have "tile_count tgt x = 1" using d by (simp add: tile_count_def)
  moreover have "\<forall>y \<in> set (assign_ids (ss_next s) [x]). same_deps x y"
    using assign_ids_deps [of _ _ "[x]"] by (auto simp: same_deps_def)
  ultimately show ?thesis using None d s' dids_assign_ids [of "ss_next s" "[x]"]
    by (auto simp: split_step_def new_block_def)
next
  case (Some n)
  then obtain f tiles where f: "splittable (o_kind x) = Some f" and t: "f x n = Inr tiles"
    using s' d by (auto simp: split_step_def split: option.splits sum.splits)
  obtain N tag where len: "length tiles = nat n" and deps: "\<And>y. y \<in> set tiles \<Longrightarrow> o_deps y = o_deps x"
    by (rule splitter_tiles [OF f t]) blast
  have c: "tile_count tgt x = nat n" using Some d by (simp add: tile_count_def)
  have "\<forall>y \<in> set (assign_ids (ss_next s) tiles). same_deps x y"
    using assign_ids_deps deps by (fastforce simp: same_deps_def)
  then show ?thesis using s' d Some f t len c dids_assign_ids [of "ss_next s" tiles]
    by (auto simp: split_step_def)
qed

interpretation split_walk: renumbering "split_step tgt" ss_ops ss_next ss_remap "tile_count tgt" same_deps
  for tgt
proof
  fix x s s' assume "o_did x = None" "split_step tgt x s = Inr s'"
  then show "ss_ops s' = ss_ops s @ [x] \<and> ss_next s' = ss_next s \<and> ss_remap s' = ss_remap s"
    by (auto simp: split_step_def)
qed (rule split_step_dispatch)

section \<open>The rewritten graph\<close>

lemma apply_split_cases:
  assumes "apply_split_hint g specs = Inr g'" "specs \<noteq> []"
  obtains s where "for_each (split_step (split_targets specs)) (ops g) (split_start g) = Inr s"
    "ops g' = map (rewire_split (ss_remap s)) (ss_ops s)" "tensors g' = ss_tensors s"
    "id_remap g' = Some (publish_many (ss_remap s))" "dispatches g' = refresh_ids (ops g') (dispatches g)"
    "for_each (\<lambda>sp _. check_split_spec (ops_by_id (ops g)) sp) specs () = Inr ()"
  using assms by (auto simp: apply_split_hint_def Let_def split: sum.splits)

lemma split_start_empty [simp]:
  "ss_ops (split_start g) = []" "ss_next (split_start g) = 0" "ss_remap (split_start g) = []"
  by (simp_all add: split_start_def)

lemma did_rewire_split [simp]: "o_did (rewire_split m x) = o_did x"
  by (simp add: rewire_split_def split: option.splits)

lemma dids_rewire_split [simp]: "dids (map (rewire_split m) xs) = dids xs"
  by (induction xs) (auto split: option.splits)

lemma set_expand_deps: "set (expand_deps m ds) = (\<Union>d \<in> set ds. set (ids_of m d))"
  by (simp add: expand_deps_def)

lemma map_of_publish_many:
  assumes "distinct (keys m)"
  shows "map_of (publish_many m) d = map_option To_Many (map_of m d)"
proof -
  have d: "distinct (map fst m)" using assms by (simp add: keys_def)
  then have ds: "distinct (map fst (sort_key fst m))"
    by (metis distinct_map distinct_sort set_sort inj_on_def)
  have "map_of (sort_key fst m) = map_of m" by (rule map_of_eqI) (use d ds in auto)
  moreover have "map_of (map (\<lambda>(d, ids). (d, To_Many ids)) kvs) d = map_option To_Many (map_of kvs d)" for kvs
    by (induction kvs) auto
  ultimately show ?thesis by (simp add: publish_many_def)
qed

text \<open>The ids a published remap gives for an old id.\<close>

definition remapped :: "graph \<Rightarrow> int \<Rightarrow> int set" where
  "remapped g d =
     (case id_remap g of None \<Rightarrow> {}
      | Some m \<Rightarrow> (case map_of m d of None \<Rightarrow> {} | Some (To_One n) \<Rightarrow> {n} | Some (To_Many ns) \<Rightarrow> set ns))"

lemma distinct_keys_split:
  "for_each (split_step tgt) xs s = Inr s' \<Longrightarrow> distinct (keys (ss_remap s)) \<Longrightarrow> distinct (keys (ss_remap s'))"
proof (erule for_each_invariant [where P = "\<lambda>s. distinct (keys (ss_remap s))"])
  fix x s s' assume "distinct (keys (ss_remap s))" "split_step tgt x s = Inr s'"
  then show "distinct (keys (ss_remap s'))"
    by (auto simp: split_step_def intro: distinct_keys_update split: option.splits sum.splits)
qed

lemma remapped_split:
  assumes run: "for_each (split_step tgt) xs (split_start g) = Inr s"
    and pub: "id_remap g' = Some (publish_many (ss_remap s))"
  shows "remapped g' d = set (ids_of (ss_remap s) d)"
proof -
  have "distinct (keys (ss_remap s))"
    by (rule distinct_keys_split [OF run]) (simp add: keys_def)
  then show ?thesis by (simp add: remapped_def pub map_of_publish_many ids_of_def get_or_def split: option.splits)
qed

definition split_demo :: graph where
  "split_demo = plain_graph [demo_conv, mk_op ''r0'' ''relu_s8'' (Some 1) [0] [''t0''] [''y'']] [''y'']
                  \<lparr>tensors := [(''t0'', plain_tensor [1, 8, 4, 4])], dispatches := Some [0, 1]\<rparr>"

definition split_demo_specs :: "split_spec list" where
  "split_demo_specs = [\<lparr>sp_op = 0, sp_n_splits = Some 4\<rparr>]"

definition split_demo_out :: graph where
  "split_demo_out = (case apply_split_hint split_demo split_demo_specs of
                       Inl _ \<Rightarrow> plain_graph [] [] | Inr g' \<Rightarrow> g')"

lemma split_demo_run: "apply_split_hint split_demo split_demo_specs = Inr split_demo_out"
  by code_simp

lemma split_demo_facts:
  "split_demo_specs \<noteq> []" "distinct (dids (ops split_demo))"
  "id_remap split_demo_out = Some [(0, To_Many [0, 1, 2, 3]), (1, To_Many [4])]"
  by code_simp+

text \<open>
  Splitting renumbers contiguously and publishes it: the new ids are \<open>0, 1, 2, ...\<close> in op
  order, \<open>dispatches\<close> lists exactly them, every old id maps to as many new ids as it has tiles
  (one when it is not split), and two different old ids share none.
\<close>
theorem split_renumbering:
  assumes hint: "apply_split_hint g specs = Inr g'" "specs \<noteq> []" and ids: "distinct (dids (ops g))"
  shows "dids (ops g') = map int [0..<length (dids (ops g'))] \<and>
         dispatches g' = map_option (\<lambda>_. dids (ops g')) (dispatches g) \<and>
         (\<Union>d \<in> set (dids (ops g)). remapped g' d) = set (dids (ops g')) \<and>
         (\<forall>d \<in> set (dids (ops g)).
            card (remapped g' d) = (case map_of (split_targets specs) d of None \<Rightarrow> 1 | Some n \<Rightarrow> nat n)) \<and>
         (\<forall>d \<in> set (dids (ops g)). \<forall>e \<in> set (dids (ops g)). d \<noteq> e \<longrightarrow> remapped g' d \<inter> remapped g' e = {})"
proof -
  obtain s where s: "for_each (split_step (split_targets specs)) (ops g) (split_start g) = Inr s"
    and o': "ops g' = map (rewire_split (ss_remap s)) (ss_ops s)"
    and pub: "id_remap g' = Some (publish_many (ss_remap s))"
    and disp: "dispatches g' = refresh_ids (ops g') (dispatches g)"
    by (rule apply_split_cases [OF hint])
  note init = split_start_empty [of g]
  note R = remapped_split [OF s pub]
  have out: "dids (ops g') = dids (ss_ops s)" by (simp add: o')
  have dense: "dids (ss_ops s) = map int [0..<length (dids (ss_ops s))]"
    by (rule split_walk.contiguous [OF s init])
  have all: "concat (map (ids_of (ss_remap s)) (dids (ops g))) = dids (ss_ops s)"
    by (rule split_walk.remap_concat [OF s init ids])
  have dist: "distinct (concat (map (ids_of (ss_remap s)) (dids (ops g))))"
    unfolding all by (subst dense) (simp add: distinct_map)
  have "card (remapped g' d) = (case map_of (split_targets specs) d of None \<Rightarrow> 1 | Some n \<Rightarrow> nat n)"
    if d: "d \<in> set (dids (ops g))" for d
  proof -
    from d obtain x where x: "x \<in> set (ops g)" "o_did x = Some d" by (auto simp: in_dids_iff)
    have "distinct (ids_of (ss_remap s) d)" using dist d by (auto simp: distinct_concat_iff)
    then have "card (remapped g' d) = length (ids_of (ss_remap s) d)" by (simp add: R distinct_card)
    also have "\<dots> = tile_count (split_targets specs) x" by (rule split_walk.remap_count [OF s init ids x])
    finally show ?thesis using x(2) by (simp add: tile_count_def)
  qed
  moreover have "remapped g' d \<inter> remapped g' e = {}"
    if "d \<in> set (dids (ops g))" "e \<in> set (dids (ops g))" "d \<noteq> e" for d e
    using split_walk.remap_inj [OF s init ids that(1,2)] that(3) by (auto simp: R)
  moreover have "(\<Union>d \<in> set (dids (ops g)). remapped g' d) = set (dids (ops g'))"
    using all by (simp add: R out flip: all)
  ultimately show ?thesis using dense out disp by (simp add: refresh_ids_def)
qed

theorem split_renumbering_witness:
  "dids (ops split_demo_out) = map int [0..<length (dids (ops split_demo_out))] \<and>
   dispatches split_demo_out = Some (dids (ops split_demo_out)) \<and> card (remapped split_demo_out 0) = 4"
proof -
  note T = split_renumbering [OF split_demo_run split_demo_facts(1,2)]
  have "0 \<in> set (dids (ops split_demo))" "map_of (split_targets split_demo_specs) 0 = Some 4"
    "dispatches split_demo = Some [0, 1]" by code_simp+
  with T show ?thesis by auto
qed

text \<open>
  C7. After a split the dependency relation is the input's, with every dispatch replaced by all its
  tiles: a consumer of a split op waits for every tile, and a tile for everything its op waited for.
\<close>
theorem split_dependencies:
  assumes hint: "apply_split_hint g specs = Inr g'" "specs \<noteq> []" and ids: "distinct (dids (ops g))"
  shows "dep_rel (ops g') = {(m, n). \<exists>a b. (a, b) \<in> dep_rel (ops g) \<and> m \<in> remapped g' a \<and> n \<in> remapped g' b}"
    (is "_ = ?R")
proof -
  obtain s where s: "for_each (split_step (split_targets specs)) (ops g) (split_start g) = Inr s"
    and o': "ops g' = map (rewire_split (ss_remap s)) (ss_ops s)"
    and pub: "id_remap g' = Some (publish_many (ss_remap s))"
    by (rule apply_split_cases [OF hint])
  note init = split_start_empty [of g]
  note R = remapped_split [OF s pub]
  have all: "concat (map (ids_of (ss_remap s)) (dids (ops g))) = dids (ss_ops s)"
    by (rule split_walk.remap_concat [OF s init ids])
  have out: "dids (ops g') = dids (ss_ops s)" by (simp add: o')
  have keys: "d \<in> set (dids (ops g))" if "m \<in> set (ids_of (ss_remap s) d)" for m d
  proof -
    from that have "has_key (ss_remap s) d"
      by (cases "map_of (ss_remap s) d") (simp_all add: ids_of_def get_or_def has_key_def)
    then show ?thesis using split_walk.remap_keys [OF s init] by (simp add: has_key_iff)
  qed
  have in_out: "m \<in> set (dids (ops g'))" if "m \<in> set (ids_of (ss_remap s) d)" for m d
    using that keys [OF that] unfolding out all [symmetric] by auto
  have lr: "(m, n) \<in> ?R" if "(m, n) \<in> dep_rel (ops g')" for m n
  proof -
    from that o' obtain y where y: "y \<in> set (ss_ops s)" "o_did y = Some n"
      "m \<in> set (o_deps (rewire_split (ss_remap s) y))" by (auto simp: dep_rel_def)
    from split_walk.origin [OF s init ids y(1,2)] obtain x b where
      x: "x \<in> set (ops g)" "o_did x = Some b" "n \<in> set (ids_of (ss_remap s) b)" "same_deps x y" by blast
    from y have "m \<in> set (expand_deps (ss_remap s) (o_deps y))" by (simp add: rewire_split_def)
    then obtain a where a: "a \<in> set (o_deps x)" "m \<in> set (ids_of (ss_remap s) a)"
      using x(4) by (auto simp: set_expand_deps same_deps_def)
    then have "(a, b) \<in> dep_rel (ops g)" using x keys by (auto simp: dep_rel_def)
    with a(2) x(3) R show ?thesis by blast
  qed
  have rl: "(m, n) \<in> dep_rel (ops g')" if "(m, n) \<in> ?R" for m n
  proof -
    from that obtain a b where ab: "(a, b) \<in> dep_rel (ops g)" "m \<in> set (ids_of (ss_remap s) a)"
      "n \<in> set (ids_of (ss_remap s) b)" by (auto simp: R)
    from ab(1) obtain x where x: "x \<in> set (ops g)" "o_did x = Some b" "a \<in> set (o_deps x)"
      by (auto simp: dep_rel_def)
    from in_out [OF ab(3)] o' obtain y where y: "y \<in> set (ss_ops s)" "o_did y = Some n"
      by (auto simp: in_dids_iff)
    from split_walk.origin [OF s init ids y] obtain x' b' where
      x': "x' \<in> set (ops g)" "o_did x' = Some b'" "n \<in> set (ids_of (ss_remap s) b')" "same_deps x' y" by blast
    have "b' = b" using split_walk.remap_inj [OF s init ids keys keys] x'(3) ab(3) by blast
    then have "x' = x"
      using map_of_ops_by_id [OF ids x'(1)] map_of_ops_by_id [OF ids x(1,2)] x'(2) by simp
    then have "m \<in> set (o_deps (rewire_split (ss_remap s) y))"
      using y(2) x' x(3) ab(2) by (auto simp: rewire_split_def set_expand_deps same_deps_def)
    then show ?thesis using y o' in_out [OF ab(2)] by (auto simp: dep_rel_def)
  qed
  show ?thesis by (intro equalityI subrelI; (rule lr | rule rl); assumption)
qed

theorem split_dependencies_witness:
  "{0, 1, 2, 3} \<times> {4} \<subseteq> dep_rel (ops split_demo_out)"
proof -
  have "(0, 1) \<in> dep_rel (ops split_demo)"
    by (simp add: dep_rel_def split_demo_def plain_graph_def demo_conv_def)
  moreover have "remapped split_demo_out 0 = {0, 1, 2, 3}" "remapped split_demo_out 1 = {4}"
    by (simp_all add: remapped_def split_demo_facts(3))
  ultimately show ?thesis
    unfolding split_dependencies [OF split_demo_run split_demo_facts(1,2)]
    by blast
qed

section \<open>The tiles of a fused convolution\<close>

lemma tile_suffix_inj:
  assumes "a @ tile_suffix i = b @ tile_suffix j"
  shows "a = b \<and> i = j"
proof -
  have run: "takeWhile is_digit (rev (c @ tile_suffix k)) = rev (str_nat k)" for c k
  proof -
    have "rev (c @ tile_suffix k) = rev (str_nat k) @ CHR ''_'' # rev (c @ ''.tile'')"
      by (simp add: tile_suffix_def)
    moreover have "list_all is_digit (rev (str_nat k))" by (simp add: str_nat_digits)
    moreover have "\<not> is_digit CHR ''_''" by (simp add: is_digit_def)
    ultimately show ?thesis
      by (simp only: takeWhile_append2 list_all_iff) (simp add: takeWhile_append2 list_all_iff)
  qed
  from assms run [of a i] run [of b j] have "rev (str_nat i) = rev (str_nat j)" by simp
  then have "i = j" by simp
  with assms show ?thesis by simp
qed

text \<open>
  The tiles of a fused convolution never share a tensor they produce: whatever the constituents
  of two different tiles write, and the tiles' own outputs, carry different names. (Two tiles that
  both claimed a constituent's tensor would give one tensor two producers.)
\<close>
theorem fused_tiles_disjoint_tensors:
  assumes "split_fused_conv_s8 x n = Inr tiles" and "i < length tiles" and "j < length tiles" and "i \<noteq> j"
  shows "(set (o_outs (tiles ! i)) \<union> (\<Union>s \<in> set (subs (tiles ! i)). set (o_outs s))) \<inter>
         (set (o_outs (tiles ! j)) \<union> (\<Union>s \<in> set (subs (tiles ! j)). set (o_outs s))) = {}"
proof -
  let ?inner = "concat (map o_outs (subs x))"
  obtain N t where t: "map_res (fused_tile x ?inner t n N (N div n)) [0..<nat n] = Inr tiles"
    using assms(1) by (rule split_fused_Inr)
  have named: "\<exists>b. nm = b @ tile_suffix k"
    if k: "k < length tiles" and nm: "nm \<in> set (o_outs (tiles ! k)) \<union> (\<Union>s \<in> set (subs (tiles ! k)). set (o_outs s))"
    for k nm
  proof -
    have "k < nat n" using k map_res_length [OF t] by simp
    then have tk: "fused_tile x ?inner t n N (N div n) k = Inr (tiles ! k)"
      using map_res_nth [OF t, of k] by simp
    then obtain ss where ss: "map_res (\<lambda>sub. narrow_sub_shape (rename_internal ?inner (tile_suffix k) sub) N (N div n))
        (subs x) = Inr ss" and op: "tiles ! k = Op ((flds x)\<lparr>outputs := [t @ tile_suffix k],
           name := o_name x @ tile_suffix k,
           split_from := Some (Tile_OC (the_id x) (int k) n (N div n) (int k * (N div n)))\<rparr>) (Some ss)"
      by (auto simp: fused_tile_def split: sum.splits)
    then have sk: "subs (tiles ! k) = ss" by (simp add: subs_def)
    have out: "o_outs (tiles ! k) = [t @ tile_suffix k]" by (rule fused_tile_Inr(3) [OF tk])
    show ?thesis
    proof (cases "nm \<in> set (o_outs (tiles ! k))")
      case False
      with nm sk obtain y where y: "y \<in> set ss" "nm \<in> set (o_outs y)" by auto
      from map_res_set [OF ss y(1)] obtain sub where sub: "sub \<in> set (subs x)"
        "narrow_sub_shape (rename_internal ?inner (tile_suffix k) sub) N (N div n) = Inr y" by blast
      then have "o_outs y = o_outs (rename_internal ?inner (tile_suffix k) sub)"
        by (auto simp: narrow_sub_shape_def set_shape_key_def split: option.splits if_splits)
      with y(2) sub(1) show ?thesis by (auto simp: rename_internal_def)
    qed (use out in auto)
  qed
  show ?thesis
  proof (rule ccontr)
    assume "\<not> ?thesis"
    then obtain nm where "\<exists>b. nm = b @ tile_suffix i" "\<exists>b. nm = b @ tile_suffix j"
      using named [OF assms(2)] named [OF assms(3)] by blast
    then show False using tile_suffix_inj assms(4) by metis
  qed
qed

definition demo_fused :: op where
  "demo_fused =
     Op (flds (mk_op ''f0'' ''conv2d_batchnorm2d_s8'' (Some 0) [] [''x''] [''y'']))
       (Some [upd (\<lambda>f. f\<lparr>shape := Some [(''OC'', 8)]\<rparr>) (mk_op ''c'' ''conv2d_s8'' None [] [''x''] [''t'']),
              upd (\<lambda>f. f\<lparr>shape := Some [(''C'', 8)]\<rparr>) (mk_op ''b'' ''batchnorm2d_s8'' None [] [''t''] [''y''])])"

theorem fused_tiles_disjoint_tensors_witness:
  "\<exists>tiles. split_fused_conv_s8 demo_fused 2 = Inr tiles \<and>
           set (o_outs (tiles ! 0)) \<inter> set (o_outs (tiles ! 1)) = {}"
proof -
  have "case split_fused_conv_s8 demo_fused 2 of Inl _ \<Rightarrow> False | Inr ts \<Rightarrow> length ts = 2" by code_simp
  then obtain tiles where t: "split_fused_conv_s8 demo_fused 2 = Inr tiles" "length tiles = 2"
    by (auto split: sum.splits)
  from fused_tiles_disjoint_tensors [OF t(1), of 0 1] t show ?thesis by auto
qed

end
