(* ===== verification/Unfuse_Facts.thy ===== *)
theory Unfuse_Facts
  imports Unfuse Fusion Annotate
begin

text \<open>
  What unfusing promises: the renumbering contract, dependencies that are the producer relation of
  the rewritten graph, and the fusion rewrite undone; and where the derived dependencies differ from
  those the extractor derives.
\<close>

section \<open>The restored ops\<close>

fun restored_list :: "op \<Rightarrow> int \<Rightarrow> nat \<Rightarrow> nat \<Rightarrow> int \<Rightarrow> op list \<Rightarrow> op list" where
  "restored_list fused d n j nid [] = []"
| "restored_list fused d n j nid (sub # rest) =
     restored fused d n j nid sub # restored_list fused d n (Suc j) (nid + 1) rest"

lemma restore_subs_Inr:
  "restore_subs fused d n fshape j parts s = Inr s' \<Longrightarrow>
     us_ops s' = us_ops s @ restored_list fused d n j (us_next s) parts \<and>
     us_next s' = us_next s + int (length parts) \<and> us_remap s' = us_remap s"
proof (induction fused d n fshape j parts s rule: restore_subs.induct)
  case (2 fused d n fshape j sub rest s)
  show ?case
  proof (cases rest)
    case Nil
    with "2.prems" show ?thesis by (auto simp: Let_def)
  next
    case (Cons c cs)
    let ?s1 = "s\<lparr>us_ops := us_ops s @ [restored fused d n j (us_next s) sub], us_next := us_next s + 1\<rparr>"
    from "2.prems" Cons obtain ts where ts: "register_internal (us_tensors ?s1) sub c fshape d = Inr ts"
      and r: "restore_subs fused d n fshape (Suc j) rest (?s1\<lparr>us_tensors := ts\<rparr>) = Inr s'"
      by (auto simp: Let_def split: sum.splits)
    from "2.IH" [OF refl Cons ts r] show ?thesis by simp
  qed
qed simp

lemma dids_restored_list: "dids (restored_list fused d n j nid parts) = new_block nid (length parts)"
proof -
  have "dids (restored_list fused d n j nid parts) = map (\<lambda>i. nid + int i) [0..<length parts]"
  proof (induction parts arbitrary: j nid)
    case (Cons p parts)
    have "map (\<lambda>i. nid + int i) [0..<Suc (length parts)] =
        nid # map (\<lambda>i. (nid + 1) + int i) [0..<length parts]"
      by (rule nth_equalityI) (auto simp: nth_Cons nth_append split: nat.splits)
    with Cons show ?case by (simp add: restored_def)
  qed simp
  then show ?thesis by (simp add: new_block_def)
qed

lemma restored_fields:
  "o_ins (restored fused d n j nid x) = o_ins x" "o_outs (restored fused d n j nid x) = o_outs x"
  "o_name (restored fused d n j nid x) = o_name x" "o_kind (restored fused d n j nid x) = o_kind x"
  "o_did (restored fused d n j nid x) = Some nid"
  by (simp_all add: restored_def)

definition piece_count :: "(int, op list) dict \<Rightarrow> op \<Rightarrow> nat" where
  "piece_count parts x =
     (case o_did x of None \<Rightarrow> 0
      | Some d \<Rightarrow> (case map_of parts d of None \<Rightarrow> 1 | Some ps \<Rightarrow> length ps))"

text \<open>What an emitted op reads and writes is what the op, or one of its parts, reads and writes.\<close>

definition same_io :: "(int, op list) dict \<Rightarrow> op \<Rightarrow> op \<Rightarrow> bool" where
  "same_io parts x y =
     (\<exists>p \<in> set (case o_did x of None \<Rightarrow> [x] | Some d \<Rightarrow> get_or parts d [x]).
        o_ins y = o_ins p \<and> o_outs y = o_outs p)"

lemma restored_list_io:
  "y \<in> set (restored_list fused d n j nid parts) \<Longrightarrow>
     \<exists>p \<in> set parts. o_ins y = o_ins p \<and> o_outs y = o_outs p"
  by (induction parts arbitrary: j nid) (auto simp: restored_fields)

lemma unfuse_step_dispatch:
  assumes d: "o_did x = Some d" and s': "unfuse_step parts x s = Inr s'"
  shows "\<exists>ys. us_ops s' = us_ops s @ ys \<and> dids ys = new_block (us_next s) (piece_count parts x) \<and>
           (\<forall>y \<in> set ys. same_io parts x y) \<and> us_next s' = us_next s + int (piece_count parts x) \<and>
           us_remap s' = AList.update d (new_block (us_next s) (piece_count parts x)) (us_remap s)"
proof (cases "map_of parts d")
  case None
  then have "piece_count parts x = 1" using d by (simp add: piece_count_def)
  then show ?thesis using None d s'
    by (auto simp: unfuse_step_def new_block_def same_io_def get_or_def)
next
  case (Some ps)
  then obtain s1 where s1: "restore_subs x d (length ps) (fused_shape_of (us_tensors s) x) 0 ps s = Inr s1"
    and s'': "s' = s1\<lparr>us_remap := AList.update d (new_block (us_next s) (length ps)) (us_remap s1)\<rparr>"
    using s' d by (auto simp: unfuse_step_def split: sum.splits)
  have c: "piece_count parts x = length ps" using Some d by (simp add: piece_count_def)
  have "\<forall>y \<in> set (restored_list x d (length ps) 0 (us_next s) ps). same_io parts x y"
    using restored_list_io d Some by (fastforce simp: same_io_def get_or_def)
  then show ?thesis
    using restore_subs_Inr [OF s1] s'' c
      dids_restored_list [of x d "length ps" 0 "us_next s" ps] by auto
qed

interpretation unfuse_walk: renumbering "unfuse_step parts" us_ops us_next us_remap "piece_count parts"
  "same_io parts" for parts
proof
  fix x s s' assume "o_did x = None" "unfuse_step parts x s = Inr s'"
  then show "us_ops s' = us_ops s @ [x] \<and> us_next s' = us_next s \<and> us_remap s' = us_remap s"
    by (auto simp: unfuse_step_def)
qed (rule unfuse_step_dispatch)

section \<open>Which ops are unfused\<close>

lemma collect_targets_Inr:
  "collect_targets by_id oids acc = Inr parts \<Longrightarrow>
     (\<forall>d. map_of parts d =
        (if Some d \<in> set oids then map_option subs (map_of by_id d) else map_of acc d)) \<and>
     (\<forall>d. Some d \<in> set oids \<longrightarrow> (\<exists>x. map_of by_id d = Some x \<and> validate_unfuse x d = Inr (subs x)))"
proof (induction by_id oids acc rule: collect_targets.induct)
  case (2 by_id oid rest acc)
  from "2.prems" obtain d x ps where o: "oid = Some d" "map_of by_id d = Some x" "\<not> has_key acc d"
    "validate_unfuse x d = Inr ps" "collect_targets by_id rest (AList.update d ps acc) = Inr parts"
    by (auto split: option.splits sum.splits if_splits)
  have ps: "ps = subs x"
    using o(4) by (auto simp: validate_unfuse_def split: if_splits option.splits)
  from "2.IH" [OF o(1) o(2) o(3) o(4) o(5)] o(2) ps o(4)
  show ?case by (auto simp: o(1))
qed simp

lemma apply_unfuse_cases:
  assumes "apply_unfuse_hint g oids model = Inr g'" "oids \<noteq> []"
  obtains parts s where "collect_targets (ops_by_id (ops g)) oids [] = Inr parts"
    "for_each (unfuse_step parts) (ops g) (unfuse_start g) = Inr s"
    "ops g' = rederive (us_ops s)" "tensors g' = us_tensors s"
    "id_remap g' = Some (publish_pieces (us_remap s))"
    "dispatches g' = map_option (\<lambda>_. dids (ops g')) (dispatches g)"
  using assms by (auto simp: apply_unfuse_hint_def Let_def split: sum.splits)

lemma unfuse_start_empty [simp]:
  "us_ops (unfuse_start g) = []" "us_next (unfuse_start g) = 0" "us_remap (unfuse_start g) = []"
  by (simp_all add: unfuse_start_def)

lemma dids_rederive [simp]: "dids (rederive xs) = dids xs"
proof -
  have "dids (map (\<lambda>x. if o_did x = None then x else upd (\<lambda>f. f\<lparr>depends_on := D x\<rparr>) x) xs) = dids xs"
    for D by (induction xs) (auto split: option.splits)
  then show ?thesis by (simp add: rederive_def)
qed

text \<open>The number of dispatches an op of the input becomes.\<close>

definition pieces_of :: "graph \<Rightarrow> int option list \<Rightarrow> op \<Rightarrow> nat" where
  "pieces_of g oids x = (if o_did x \<in> set oids then length (subs x) else 1)"

definition quantized :: "(string \<times> int) list \<Rightarrow> op \<Rightarrow> op" where
  "quantized sh x = upd (\<lambda>f. f\<lparr>shape := Some sh, quant := Some [(''scale_in'', ''0.5''), (''scale_out'', ''0.25'')]\<rparr>) x"

definition fused_block :: op where
  "fused_block =
     Op (flds (mk_op ''f'' ''__fused__conv2d_s8__relu_s8'' (Some 0) [] [''x''] [''t1'']))
       (Some [quantized [(''N'', 1), (''OC'', 4), (''OH'', 2), (''OW'', 2)]
                (mk_op ''c'' ''conv2d_s8'' (Some 0) [] [''x''] [''t0'']),
              quantized [(''n'', 16)] (mk_op ''r'' ''relu_s8'' (Some 1) [0] [''t0''] [''t1''])])"

definition unfuse_demo :: graph where
  "unfuse_demo = plain_graph
     [fused_block, mk_op ''v'' ''view'' None [] [''t1''] [''t1v''],
      mk_op ''l'' ''linear_s8'' (Some 1) [0] [''t1v''] [''y'']] [''y'']
     \<lparr>tensors := [(''t1'', plain_tensor [1, 4, 2, 2])], dispatches := Some [0, 1]\<rparr>"

definition unfuse_demo_out :: graph where
  "unfuse_demo_out = (case apply_unfuse_hint unfuse_demo [Some 0] None of
                        Inl _ \<Rightarrow> plain_graph [] [] | Inr g' \<Rightarrow> g')"

lemma unfuse_demo_run: "apply_unfuse_hint unfuse_demo [Some 0] None = Inr unfuse_demo_out"
  by code_simp

text \<open>
  Unfusing renumbers contiguously: the new ids are \<open>0, 1, 2, ...\<close> in op order, \<open>dispatches\<close>
  lists exactly them, and there are as many as the input has dispatches, each target counted once
  per sub-op.
\<close>
theorem unfuse_renumbering:
  assumes hint: "apply_unfuse_hint g oids model = Inr g'" "oids \<noteq> []" and ids: "distinct (dids (ops g))"
  shows "dids (ops g') = map int [0..<(\<Sum>x\<leftarrow>filter (\<lambda>x. o_did x \<noteq> None) (ops g). pieces_of g oids x)] \<and>
         dispatches g' = map_option (\<lambda>_. dids (ops g')) (dispatches g)"
proof -
  obtain parts s where parts: "collect_targets (ops_by_id (ops g)) oids [] = Inr parts"
    and s: "for_each (unfuse_step parts) (ops g) (unfuse_start g) = Inr s"
    and o': "ops g' = rederive (us_ops s)"
    and disp: "dispatches g' = map_option (\<lambda>_. dids (ops g')) (dispatches g)"
    by (rule apply_unfuse_cases [OF hint])
  note init = unfuse_start_empty [of g]
  have dense: "dids (us_ops s) = map int [0..<length (dids (us_ops s))]"
    by (rule unfuse_walk.contiguous [OF s init])
  have all: "concat (map (ids_of (us_remap s)) (dids (ops g))) = dids (us_ops s)"
    by (rule unfuse_walk.remap_concat [OF s init ids])
  have len: "length (ids_of (us_remap s) d) = pieces_of g oids x"
    if x: "x \<in> set (ops g)" "o_did x = Some d" for x d
  proof -
    have "length (ids_of (us_remap s) d) = piece_count parts x"
      by (rule unfuse_walk.remap_count [OF s init ids x])
    also have "\<dots> = pieces_of g oids x"
      using collect_targets_Inr [OF parts] map_of_ops_by_id [OF ids x] x(2)
      by (auto simp: piece_count_def pieces_of_def)
    finally show ?thesis .
  qed
  have "length (concat (map f (dids xs))) =
      (\<Sum>x\<leftarrow>filter (\<lambda>x. o_did x \<noteq> None) xs. pieces_of g oids x)"
    if "\<And>x d. x \<in> set xs \<Longrightarrow> o_did x = Some d \<Longrightarrow> length (f d) = pieces_of g oids x"
    for f :: "int \<Rightarrow> int list" and xs
    using that
  proof (induction xs)
    case (Cons x xs)
    then show ?case by (cases "o_did x") auto
  qed simp
  from this [of "ops g" "ids_of (us_remap s)"] len
  have "length (dids (us_ops s)) = (\<Sum>x\<leftarrow>filter (\<lambda>x. o_did x \<noteq> None) (ops g). pieces_of g oids x)"
    unfolding all by blast
  with dense disp show ?thesis by (simp add: o')
qed

theorem unfuse_renumbering_witness:
  "dids (ops unfuse_demo_out) = [0, 1, 2] \<and> dispatches unfuse_demo_out = Some (dids (ops unfuse_demo_out))"
proof -
  have d: "distinct (dids (ops unfuse_demo))" by code_simp
  have sum: "(\<Sum>x\<leftarrow>filter (\<lambda>x. o_did x \<noteq> None) (ops unfuse_demo). pieces_of unfuse_demo [Some 0] x) = 3"
    "map_option (\<lambda>_. dids (ops unfuse_demo_out)) (dispatches unfuse_demo) = Some (dids (ops unfuse_demo_out))"
    by code_simp+
  from unfuse_renumbering [OF unfuse_demo_run _ d] show ?thesis
    unfolding sum by (simp add: upt_rec)
qed

section \<open>The derived dependencies\<close>

lemma map_of_outputs: "map_of (fold (\<lambda>t. AList.update t d) ts m) t = (if t \<in> set ts then Some d else map_of m t)"
  by (induction ts arbitrary: m) auto

lemma output_owners_unique:
  assumes "distinct (concat (map o_outs (filter (\<lambda>x. o_did x \<noteq> None) xs)))"
  shows "map_of (output_owners xs) t = Some d \<longleftrightarrow> (\<exists>x \<in> set xs. o_did x = Some d \<and> t \<in> set (o_outs x))"
proof -
  let ?f = "\<lambda>x out. case o_did x of None \<Rightarrow> out | Some d \<Rightarrow> fold (\<lambda>t. AList.update t d) (o_outs x) out"
  have "map_of (fold ?f xs m) t = Some d \<longleftrightarrow>
      (\<exists>x \<in> set xs. o_did x = Some d \<and> t \<in> set (o_outs x)) \<or>
      (\<forall>x \<in> set xs. o_did x \<noteq> None \<longrightarrow> t \<notin> set (o_outs x)) \<and> map_of m t = Some d" for m
    using assms
  proof (induction xs arbitrary: m)
    case (Cons x xs)
    show ?case
    proof (cases "o_did x")
      case None
      then show ?thesis using Cons by simp
    next
      case (Some e)
      with Cons.prems have "distinct (concat (map o_outs (filter (\<lambda>x. o_did x \<noteq> None) xs)))"
        and sep: "\<And>y. y \<in> set xs \<Longrightarrow> o_did y \<noteq> None \<Longrightarrow> set (o_outs x) \<inter> set (o_outs y) = {}" by auto
      from Cons.IH [OF this(1)] have ih: "map_of (fold ?f (x # xs) m) t = Some d \<longleftrightarrow>
          (\<exists>y \<in> set xs. o_did y = Some d \<and> t \<in> set (o_outs y)) \<or>
          (\<forall>y \<in> set xs. o_did y \<noteq> None \<longrightarrow> t \<notin> set (o_outs y)) \<and>
            (if t \<in> set (o_outs x) then Some e else map_of m t) = Some d"
        using Some by (simp add: map_of_outputs)
      show ?thesis
      proof (cases "t \<in> set (o_outs x)")
        case True
        with sep have "\<And>y. y \<in> set xs \<Longrightarrow> o_did y \<noteq> None \<Longrightarrow> t \<notin> set (o_outs y)" by blast
        then show ?thesis unfolding ih using True Some by auto
      next
        case False
        then show ?thesis unfolding ih using Some by auto
      qed
    qed
  qed simp
  from this [of "[]"] show ?thesis by (simp add: output_owners_def)
qed

definition rederived :: "op list \<Rightarrow> op \<Rightarrow> op" where
  "rederived xs x =
     (if o_did x = None then x
      else upd (\<lambda>f. f\<lparr>depends_on := derived_deps (output_owners xs) x\<rparr>) x)"

lemma rederive_map: "rederive xs = map (rederived xs) xs"
  by (simp add: rederive_def rederived_def)

lemma rederived_fields [simp]:
  "o_did (rederived xs x) = o_did x" "o_outs (rederived xs x) = o_outs x"
  "o_ins (rederived xs x) = o_ins x"
  by (simp_all add: rederived_def)

lemma rederived_deps:
  "o_did x \<noteq> None \<Longrightarrow> o_deps (rederived xs x) = derived_deps (output_owners xs) x"
  by (auto simp: rederived_def)



section \<open>Where the derivation is not the extractor's\<close>

text \<open>
  The comment says \<open>depends_on\<close> is derived exactly as \<open>extract_graph\<close> does it. It is not: the
  extractor sees through views, this derivation skips them. A dispatch that reads a restored op's
  result through a view loses its dependency; the extractor, given the same ops, records it.
\<close>
theorem unfuse_drops_dependency_through_view:
  "map (\<lambda>x. (o_did x, o_deps x)) (ops unfuse_demo_out) = [(Some 0, []), (Some 1, [0]), (None, []), (Some 2, [])] \<and>
   map (\<lambda>x. (o_did x, o_deps x)) (fst (annotate_dispatches (ops unfuse_demo_out))) =
     [(Some 0, []), (Some 1, [0]), (None, []), (Some 2, [1])]"
  by code_simp

end
