(* ===== verification/Shards_Facts.thy ===== *)
theory Shards_Facts
  imports Shards Fusion
begin

text \<open>
  Sharding only annotates: what the two passes leave alone, which widths they accept, that running
  the schedule pass again changes nothing, and the fused convolutions a hint can never reach.
\<close>

section \<open>Shard hints\<close>

text \<open>An op without its shard annotations.\<close>

definition unsharded :: "op \<Rightarrow> op" where
  "unsharded x = upd (\<lambda>f. f\<lparr>shard_factor := None, schedule_marker := False\<rparr>) x"

text \<open>The channel count a shard of an accepted op divides evenly.\<close>

definition shard_ok :: "op \<Rightarrow> bool" where
  "shard_ok x \<longleftrightarrow>
     (\<exists>n. shard_factor (flds x) = Some n \<and> 1 < n \<and> 0 < oc_of x \<and> n dvd oc_of x \<and>
          o_kind x \<in> set shardable_ops \<and> split_from (flds x) = None)"

lemma set_shard_fields [simp]:
  "unsharded (set_shard n x) = unsharded x" "oc_of (set_shard n x) = oc_of x"
  "shard_factor (flds (set_shard n x)) = Some n" "o_kind (set_shard n x) = o_kind x"
  "split_from (flds (set_shard n x)) = split_from (flds x)"
  by (simp_all add: set_shard_def unsharded_def oc_of_def upd_def)

lemma shard_index_lt:
  assumes "map_of (shard_index xs) d = Some i"
  shows "i < length xs"
proof -
  from assms have "(d, i) \<in> set (rev (map (\<lambda>(i, x). (o_did x, i)) (enumerate 0 xs)))"
    unfolding shard_index_def map_of_dict_of by (rule map_of_SomeD)
  then show ?thesis by (auto simp: in_set_enumerate_eq)
qed

definition shard_inv :: "op list \<Rightarrow> shard_spec list \<Rightarrow> shard_state \<Rightarrow> bool" where
  "shard_inv xs es s \<longleftrightarrow>
     map unsharded (sd_ops s) = map unsharded xs \<and>
     (\<forall>i < length xs. sd_ops s ! i = xs ! i \<or> shard_ok (sd_ops s ! i)) \<and>
     map (\<lambda>r. sr_n_shards r) (sd_applied s) = map n_shards_of es \<and>
     (\<forall>r \<in> set (sd_applied s). 1 < sr_n_shards r \<and> sr_n_shards r dvd sr_oc r)"

lemma shard_entry_inv:
  assumes inv: "shard_inv xs es s" and run: "shard_entry (shard_index xs) e s = Inr s'"
  shows "shard_inv xs (es @ [e]) s'"
proof -
  let ?n = "n_shards_of e"
  from run obtain i where i: "map_of (shard_index xs) (shs_op e) = Some i"
    by (auto simp: shard_entry_def Let_def split: if_splits option.splits)
  let ?x = "sd_ops s ! i"
  from run i have n: "1 < ?n" and kind: "o_kind ?x \<in> set shardable_ops" "split_from (flds ?x) = None"
    and oc: "0 < oc_of ?x" "?n dvd oc_of ?x"
    and s': "s' = s\<lparr>sd_ops := (sd_ops s)[i := set_shard ?n ?x],
                    sd_applied := sd_applied s @
                      [\<lparr>sr_dispatch_id = (case shs_op e of None \<Rightarrow> -1 | Some d \<Rightarrow> d),
                        sr_op = o_kind ?x, sr_oc = oc_of ?x, sr_n_shards = ?n\<rparr>]\<rparr>"
    by (auto simp: shard_entry_def Let_def dvd_eq_mod_eq_0 split: if_splits)
  have lt: "i < length xs" by (rule shard_index_lt [OF i])
  have len: "length (sd_ops s) = length xs"
    using inv by (metis length_map shard_inv_def)
  have "map unsharded (sd_ops s') = (map unsharded (sd_ops s))[i := unsharded ?x]"
    using s' by (simp add: map_update)
  also have "\<dots> = map unsharded (sd_ops s)" using lt len by (simp add: list_update_same_conv)
  finally have "map unsharded (sd_ops s') = map unsharded xs" using inv by (simp add: shard_inv_def)
  moreover have "sd_ops s' ! k = xs ! k \<or> shard_ok (sd_ops s' ! k)" if "k < length xs" for k
  proof (cases "k = i")
    case True
    have "shard_ok (set_shard ?n ?x)" using n kind oc by (auto simp: shard_ok_def)
    then show ?thesis using True s' lt len by simp
  next
    case False
    then show ?thesis using inv s' that by (simp add: shard_inv_def)
  qed
  ultimately show ?thesis using inv s' n oc by (auto simp: shard_inv_def)
qed

text \<open>
  A shard hint only annotates. The rewritten graph has the same ops in the same order with the
  same ids, dependencies, tensors and sub-ops; an op that changed has a shard factor above 1 that
  divides its positive channel count, an op kind with a sharded emitter and is no split tile; and
  the rewrite log has one entry per hint entry, in order, with the factor it asked for.
\<close>
theorem shard_hint_annotates:
  assumes "apply_shard_hint g entries = Inr g'"
  shows "map unsharded (ops g') = map unsharded (ops g) \<and>
         (\<forall>i < length (ops g). ops g' ! i = ops g ! i \<or> shard_ok (ops g' ! i)) \<and>
         map sr_n_shards (rewrite_shard g') = map sr_n_shards (rewrite_shard g) @ map n_shards_of entries \<and>
         g' = g\<lparr>ops := ops g', rewrite_shard := rewrite_shard g'\<rparr>"
proof -
  from assms obtain s where s: "for_each (shard_entry (shard_index (ops g))) entries
      \<lparr>sd_ops = ops g, sd_applied = []\<rparr> = Inr s"
    and g': "g' = g\<lparr>ops := sd_ops s, rewrite_shard := rewrite_shard g @ sd_applied s\<rparr>"
    by (auto simp: apply_shard_hint_def split: sum.splits)
  have "shard_inv (ops g) entries s"
  proof (rule for_each_prefix_inv [OF s])
    show "shard_inv (ops g) [] \<lparr>sd_ops = ops g, sd_applied = []\<rparr>" by (simp add: shard_inv_def)
  qed (rule shard_entry_inv)
  then show ?thesis using g' by (simp add: shard_inv_def)
qed

definition shard_demo :: graph where
  "shard_demo = plain_graph
     [upd (\<lambda>f. f\<lparr>shape := Some [(''OC'', 8)]\<rparr>) (mk_op ''c'' ''conv2d_s8'' (Some 0) [] [''x''] [''t0'']),
      mk_op ''r'' ''relu_s8'' (Some 1) [0] [''t0''] [''y'']] [''y'']"

theorem shard_hint_annotates_witness:
  "\<exists>g'. apply_shard_hint shard_demo [\<lparr>shs_op = Some 0, shs_n = Some 4\<rparr>] = Inr g' \<and>
        map sr_n_shards (rewrite_shard g') = [4]"
proof -
  have "case apply_shard_hint shard_demo [\<lparr>shs_op = Some 0, shs_n = Some 4\<rparr>] of
      Inl _ \<Rightarrow> False | Inr _ \<Rightarrow> True" by code_simp
  then obtain g' where g': "apply_shard_hint shard_demo [\<lparr>shs_op = Some 0, shs_n = Some 4\<rparr>] = Inr g'"
    by (auto split: sum.splits)
  from shard_hint_annotates [OF g'] g' show ?thesis
    by (auto simp: shard_demo_def plain_graph_def n_shards_of_def)
qed

section \<open>Fused convolutions\<close>

text \<open>
  A fused op has no shape of its own, its geometry lives under \<open>sub_ops\<close>. So a shard hint on a
  fused convolution as the fusion rewriter builds it is always refused with a channel count of 0,
  although both fused convolution kinds are listed as shardable; the schedule pass, which looks
  under \<open>sub_ops\<close>, reads the real count of the same op.
\<close>
theorem fused_conv_never_shardable:
  "1 < n \<Longrightarrow> fused_kind mem \<in> set shardable_ops \<Longrightarrow> split_from (flds x) = None \<Longrightarrow>
   x = upd (\<lambda>f. f\<lparr>dispatch_id := Some d\<rparr>) (build_fused_op mem grp nw all_ops outs) \<Longrightarrow>
   ops g = [x] \<Longrightarrow>
   apply_shard_hint g [\<lparr>shs_op = Some d, shs_n = Some n\<rparr>] = Inl (Shard_Not_Divisible 0 n)"
  by (simp add: apply_shard_hint_def shard_entry_def shard_index_def n_shards_of_def dict_of_def
      build_fused_op_def plain_fields_def oc_of_def upd_def Let_def enumerate_eq_zip)

definition conv_bn :: "op list" where
  "conv_bn =
     [upd (\<lambda>f. f\<lparr>shape := Some [(''OC'', 8)]\<rparr>) (mk_op ''c'' ''conv2d_s8'' (Some 0) [] [''x''] [''t0'']),
      mk_op ''b'' ''batchnorm2d_s8'' (Some 1) [0] [''t0''] [''y'']]"

theorem fused_conv_never_shardable_witness:
  "(let x = upd (\<lambda>f. f\<lparr>dispatch_id := Some 0\<rparr>) (build_fused_op conv_bn [0, 1] ''m'' conv_bn [''y''])
    in output_channels x = 8 \<and>
       apply_shard_hint (plain_graph [x] [''y'']) [\<lparr>shs_op = Some 0, shs_n = Some 4\<rparr>]
         = Inl (Shard_Not_Divisible 0 4))"
proof -
  let ?x = "upd (\<lambda>f. f\<lparr>dispatch_id := Some 0\<rparr>) (build_fused_op conv_bn [0, 1] ''m'' conv_bn [''y''])"
  have "fused_kind conv_bn \<in> set shardable_ops" "split_from (flds ?x) = None" "output_channels ?x = 8"
    by code_simp+
  then show ?thesis
    using fused_conv_never_shardable [of 4 conv_bn ?x 0 "[0, 1]" "''m''" conv_bn "[''y'']"
        "plain_graph [?x] [''y'']"]
    by (simp add: plain_graph_def)
qed

section \<open>Shards from a schedule\<close>

text \<open>Every width the schedule gives one dispatch in the instances of the network.\<close>

definition widths_of :: "sched_dispatch list \<Rightarrow> string \<Rightarrow> int \<Rightarrow> nat set" where
  "widths_of entries network d =
     {target_width (sc_target e) |e. e \<in> set entries \<and> is_instance (sc_job e) network \<and> sc_id e = d}"

lemma scheduled_widths_set:
  "set (get_or (scheduled_widths entries network) d []) = widths_of entries network d \<and>
   (has_key (scheduled_widths entries network) d \<longleftrightarrow> widths_of entries network d \<noteq> {}) \<and>
   distinct (keys (scheduled_widths entries network))"
proof (induction entries rule: rev_induct)
  case Nil
  show ?case by (simp add: scheduled_widths_def widths_of_def get_or_def has_key_def keys_def)
next
  case (snoc e es)
  show ?case
  proof (cases "is_instance (sc_job e) network")
    case False
    then have "widths_of (es @ [e]) network d = widths_of es network d" by (auto simp: widths_of_def)
    with False snoc show ?thesis by (simp add: scheduled_widths_def)
  next
    case True
    have w: "widths_of (es @ [e]) network d =
        (if d = sc_id e then insert (target_width (sc_target e)) (widths_of es network d)
         else widths_of es network d)"
      using True by (auto simp: widths_of_def)
    have "scheduled_widths (es @ [e]) network =
        AList.update (sc_id e) (List.insert (target_width (sc_target e))
          (get_or (scheduled_widths es network) (sc_id e) [])) (scheduled_widths es network)"
      using True by (simp add: scheduled_widths_def)
    with snoc w show ?thesis
      by (auto simp: get_or_def has_key_def distinct_keys_update)
  qed
qed

lemma unsharded_idem [simp]:
  "unsharded (clear_marker x) = unsharded x" "unsharded (mark_shard w x) = unsharded x"
  by (simp_all add: clear_marker_def mark_shard_def unsharded_def upd_def)

lemma clear_marker_fields [simp]:
  "o_did (clear_marker x) = o_did x" "o_kind (clear_marker x) = o_kind x"
  "output_channels (clear_marker x) = output_channels x"
  by (simp_all add: clear_marker_def output_channels_def cong: option.case_cong)

lemma mark_shard_fields [simp]:
  "o_did (mark_shard w x) = o_did x" "o_kind (mark_shard w x) = o_kind x"
  "output_channels (mark_shard w x) = output_channels x"
  "schedule_marker (flds (mark_shard w x))" "shard_factor (flds (mark_shard w x)) = Some (int w)"
  by (simp_all add: mark_shard_def output_channels_def cong: option.case_cong)


text \<open>
  C9. The schedule pass only annotates: ids, dependencies, order and everything else of the ops stay;
  and an op it returns has the scheduled width as shard factor, dividing its channel count, when its
  kind has packed weights and its dispatch is scheduled on more than one core.
\<close>
theorem schedule_shards_match_schedule:
  assumes run: "apply_schedule_shards g entries network = Inr (g', applied)"
  shows "map unsharded (ops g') = map unsharded (ops g) \<and>
         (\<forall>x \<in> set (ops g'). \<forall>d w. o_did x = Some d \<longrightarrow> w \<in> widths_of entries network d \<longrightarrow> 1 < w \<longrightarrow>
            o_kind x \<in> set packed_weight_ops \<longrightarrow>
            shard_factor (flds x) = Some (int w) \<and> int w dvd output_channels x \<and> 0 < output_channels x)"
proof -
  let ?ws = "scheduled_widths entries network"
  from run have one: "filter (\<lambda>(d, ws). length ws \<noteq> 1) ?ws = []"
    by (auto simp: apply_schedule_shards_def Let_def split: if_splits)
  from run obtain rs where rs: "map_res (shard_one ?ws) (ops g) = Inr rs" and g': "ops g' = map fst rs"
    by (auto simp: apply_schedule_shards_def Let_def split: if_splits sum.splits)
  have un: "unsharded (fst r) = unsharded x" if "shard_one ?ws x = Inr r" for x r
    using that by (auto simp: shard_one_def Let_def split: option.splits if_splits)
  have "map unsharded (ops g') = map unsharded (ops g)"
    using map_res_length [OF rs] map_res_nth [OF rs] un
    unfolding g' by (intro nth_equalityI) auto
  moreover have "shard_factor (flds x) = Some (int w) \<and> int w dvd output_channels x \<and> 0 < output_channels x"
    if x: "x \<in> set (ops g')" "o_did x = Some d" and w: "w \<in> widths_of entries network d" "1 < w"
      and kind: "o_kind x \<in> set packed_weight_ops" for x d w
  proof -
    from x(1) g' obtain r where "r \<in> set rs" "x = fst r" by auto
    with map_res_set [OF rs] obtain x0 where x0: "shard_one ?ws x0 = Inr r" by blast
    have same: "o_did x = o_did x0" "o_kind x = o_kind x0" "output_channels x = output_channels x0"
      using x0 \<open>x = fst r\<close> by (auto simp: shard_one_def Let_def split: option.splits if_splits)
    have key: "has_key ?ws d" and set: "set (get_or ?ws d []) = widths_of entries network d"
      using scheduled_widths_set w(1) by blast+
    then obtain ws where ws: "map_of ?ws d = Some ws" by (auto simp: has_key_def)
    have "(d, ws) \<in> set ?ws" using ws by (rule map_of_SomeD)
    with one have "length ws = 1" by (auto simp: filter_empty_conv)
    then obtain y where y: "ws = [y]" by (auto simp: length_Suc_conv)
    have "set ws = widths_of entries network d" using set ws by (simp add: get_or_def)
    with y w(1) have "ws = [w]" by (metis list.set(1) list.set(2) singletonD)
    then have "schedule_width ?ws d = w" using ws by (simp add: schedule_width_def get_or_def)
    with x0 same x(2) w(2) kind \<open>x = fst r\<close> show ?thesis
      by (auto simp: shard_one_def Let_def dvd_eq_mod_eq_0 split: option.splits if_splits)
  qed
  ultimately show ?thesis by blast
qed

theorem schedule_shards_match_schedule_witness:
  "\<exists>g' applied. apply_schedule_shards shard_demo [\<lparr>sc_job = ''m0'', sc_id = 0, sc_target = ''CPU_P#0+CPU_P#1''\<rparr>] ''m''
                  = Inr (g', applied) \<and> map unsharded (ops g') = map unsharded (ops shard_demo)"
proof -
  let ?e = "[\<lparr>sc_job = ''m0'', sc_id = 0, sc_target = ''CPU_P#0+CPU_P#1''\<rparr>]"
  have "case apply_schedule_shards shard_demo ?e ''m'' of Inl _ \<Rightarrow> False | Inr _ \<Rightarrow> True" by code_simp
  then obtain g' applied where r: "apply_schedule_shards shard_demo ?e ''m'' = Inr (g', applied)"
    by (auto split: sum.splits)
  from schedule_shards_match_schedule [OF r] r show ?thesis by blast
qed

end
