(* ===== verification/Registry.thy ===== *)
theory Registry
  imports Graph_IR
begin

text \<open>
  \<^verbatim>\<open>pipeline/core_registry.py\<close>: the hardware a schedule may use. A registry document is loaded with
  its capability aliases resolved; a dispatch's target is "any", a core's name or a kind.
\<close>

section \<open>Cores and registries\<close>

record core =
  c_name :: string
  c_kind :: string
  c_harts :: "int list"
  c_caps :: "string list"
  c_isa :: string
  c_descr :: string

record registry =
  r_system :: string
  r_description :: string
  r_default :: string
  r_cores :: "core list"
  r_by_name :: "(string, core) dict"
  r_by_kind :: "(string, core list) dict"

definition reg_kinds :: "registry \<Rightarrow> string set" where
  "reg_kinds reg = set (keys (r_by_kind reg))"

definition reg_names :: "registry \<Rightarrow> string set" where
  "reg_names reg = set (keys (r_by_name reg))"

definition cores_for_op :: "registry \<Rightarrow> string \<Rightarrow> core list" where
  "cores_for_op reg kind = filter (\<lambda>c. kind \<in> set (c_caps c)) (r_cores reg)"

definition resolve_target :: "registry \<Rightarrow> string \<Rightarrow> string \<Rightarrow> core list" where
  "resolve_target reg tgt kind =
     (if tgt = ''any'' then cores_for_op reg kind
      else case map_of (r_by_name reg) tgt of
        Some c \<Rightarrow> if kind \<in> set (c_caps c) then [c] else []
      | None \<Rightarrow>
          (case map_of (r_by_kind reg) tgt of
             Some cs \<Rightarrow> filter (\<lambda>c. kind \<in> set (c_caps c)) cs
           | None \<Rightarrow> []))"

section \<open>Loading a registry document\<close>

record core_entry =
  ce_name :: "string option"
  ce_kind :: "string option"
  ce_harts :: "int list"
  ce_caps :: "string list option"
  ce_ref :: "string option"
  ce_isa :: string
  ce_descr :: string

record registry_doc =
  rd_system :: "string option"
  rd_description :: string
  rd_default :: "string option"
  rd_cores :: "core_entry list option"

datatype registry_error =
    No_Core_List
  | Core_Without_Name
  | Duplicate_Core string
  | Unknown_Ref string string
  | Ref_Without_Caps string string
  | No_Capabilities string
  | Core_Without_Kind string

fun index_entries ::
  "core_entry list \<Rightarrow> (string, core_entry) dict \<Rightarrow> registry_error + (string, core_entry) dict" where
  "index_entries [] raw = Inr raw"
| "index_entries (e # es) raw =
     (case ce_name e of
        None \<Rightarrow> Inl Core_Without_Name
      | Some n \<Rightarrow>
          (if has_key raw n then Inl (Duplicate_Core n)
           else index_entries es (AList.update n e raw)))"

definition entry_caps :: "(string, core_entry) dict \<Rightarrow> string \<Rightarrow> core_entry \<Rightarrow> registry_error + string list" where
  "entry_caps raw n e =
     (case ce_caps e of
        Some caps \<Rightarrow> Inr caps
      | None \<Rightarrow>
          (case ce_ref e of
             None \<Rightarrow> Inl (No_Capabilities n)
           | Some ref \<Rightarrow>
               (case map_of raw ref of
                  None \<Rightarrow> Inl (Unknown_Ref n ref)
                | Some e' \<Rightarrow>
                    (case ce_caps e' of None \<Rightarrow> Inl (Ref_Without_Caps n ref) | Some caps \<Rightarrow> Inr caps))))"

definition load_core :: "(string, core_entry) dict \<Rightarrow> core_entry \<Rightarrow> registry_error + core" where
  "load_core raw e =
     (case ce_name e of
        None \<Rightarrow> Inl Core_Without_Name
      | Some n \<Rightarrow>
          (case entry_caps raw n e of
             Inl err \<Rightarrow> Inl err
           | Inr caps \<Rightarrow>
               (case ce_kind e of
                  None \<Rightarrow> Inl (Core_Without_Kind n)
                | Some k \<Rightarrow>
                    Inr \<lparr>c_name = n, c_kind = k, c_harts = ce_harts e, c_caps = caps,
                         c_isa = ce_isa e, c_descr = ce_descr e\<rparr>)))"

definition group_by_kind :: "core list \<Rightarrow> (string, core list) dict" where
  "group_by_kind cs = fold (\<lambda>c. append_to (c_kind c) c) cs []"

text \<open>\<open>stem\<close> is the file name without its extension.\<close>

definition load_registry :: "string \<Rightarrow> registry_doc \<Rightarrow> registry_error + registry" where
  "load_registry stem doc =
     (case rd_cores doc of
        None \<Rightarrow> Inl No_Core_List
      | Some entries \<Rightarrow>
          (case index_entries entries [] of
             Inl e \<Rightarrow> Inl e
           | Inr raw \<Rightarrow>
               (case map_res (load_core raw) entries of
                  Inl e \<Rightarrow> Inl e
                | Inr cs \<Rightarrow>
                    Inr \<lparr>r_system = (case rd_system doc of None \<Rightarrow> stem | Some s \<Rightarrow> s),
                         r_description = rd_description doc,
                         r_default = (case rd_default doc of None \<Rightarrow> ''any'' | Some d \<Rightarrow> d),
                         r_cores = cs,
                         r_by_name = dict_of (map (\<lambda>c. (c_name c, c)) cs),
                         r_by_kind = group_by_kind cs\<rparr>)))"

section \<open>Checking a graph's targets\<close>

datatype target_error =
    Unknown_Target "int option" string string
  | No_Core_Satisfies "int option" string string

definition validate_dispatch_targets :: "registry \<Rightarrow> op list \<Rightarrow> target_error list" where
  "validate_dispatch_targets reg xs =
     List.map_filter (\<lambda>x.
       if o_kind x = ''view'' then None
       else let tgt = (case o_target x of None \<Rightarrow> ''any'' | Some t \<Rightarrow> t) in
         if tgt \<notin> insert ''any'' (reg_kinds reg \<union> reg_names reg)
         then Some (Unknown_Target (o_did x) (o_name x) tgt)
         else if resolve_target reg tgt (o_kind x) = []
         then Some (No_Core_Satisfies (o_did x) tgt (o_kind x))
         else None) xs"

section \<open>What a loaded registry guarantees\<close>

text \<open>The indices agree with the list of cores, and names are unique.\<close>

definition registry_ok :: "registry \<Rightarrow> bool" where
  "registry_ok reg \<longleftrightarrow>
     distinct (map c_name (r_cores reg)) \<and>
     r_by_name reg = map (\<lambda>c. (c_name c, c)) (r_cores reg) \<and>
     (\<forall>k. get_or (r_by_kind reg) k [] = filter (\<lambda>c. c_kind c = k) (r_cores reg)) \<and>
     reg_kinds reg = c_kind ` set (r_cores reg)"

lemma group_by_kind_facts:
  "get_or (group_by_kind cs) k [] = filter (\<lambda>c. c_kind c = k) cs \<and>
   (has_key (group_by_kind cs) k \<longleftrightarrow> k \<in> c_kind ` set cs)"
proof (induction cs rule: rev_induct)
  case Nil
  show ?case by (simp add: group_by_kind_def get_or_def has_key_def)
next
  case (snoc c cs)
  have "group_by_kind (cs @ [c]) = append_to (c_kind c) c (group_by_kind cs)"
    by (simp add: group_by_kind_def)
  with snoc show ?case by (auto simp: get_or_append_to has_key_append_to)
qed

lemma index_entries_distinct:
  "index_entries es raw = Inr raw' \<Longrightarrow>
     distinct (map ce_name es) \<and> None \<notin> set (map ce_name es) \<and>
     (\<forall>n. Some n \<in> set (map ce_name es) \<longrightarrow> \<not> has_key raw n)"
proof (induction es raw rule: index_entries.induct)
  case (2 e es raw)
  from "2.prems" obtain n where n: "ce_name e = Some n" "\<not> has_key raw n"
    and rest: "index_entries es (AList.update n e raw) = Inr raw'"
    by (auto split: option.splits if_splits)
  from "2.IH" [OF n(1) n(2) rest] have ih: "distinct (map ce_name es)" "None \<notin> set (map ce_name es)"
    "\<And>k. Some k \<in> set (map ce_name es) \<Longrightarrow> \<not> has_key (AList.update n e raw) k" by blast+
  have "k \<noteq> n \<and> \<not> has_key raw k" if "Some k \<in> set (map ce_name es)" for k
    using ih(3) [OF that] by (auto simp: has_key_def split: if_splits)
  with ih(1,2) n show ?case by auto
qed simp

lemma load_core_name: "load_core raw e = Inr c \<Longrightarrow> ce_name e = Some (c_name c)"
  by (auto simp: load_core_def split: option.splits sum.splits)

lemma loaded_consistent:
  assumes "load_registry stem doc = Inr reg"
  shows "registry_ok reg"
proof -
  from assms obtain entries raw cs where e: "index_entries entries [] = Inr raw"
    and cs: "map_res (load_core raw) entries = Inr cs"
    and reg: "r_cores reg = cs" "r_by_name reg = dict_of (map (\<lambda>c. (c_name c, c)) cs)"
      "r_by_kind reg = group_by_kind cs"
    by (auto simp: load_registry_def split: option.splits sum.splits)
  have "map (\<lambda>c. Some (c_name c)) cs = map ce_name entries"
  proof (rule nth_equalityI)
    fix i assume "i < length (map (\<lambda>c. Some (c_name c)) cs)"
    then have i: "i < length entries" using map_res_length [OF cs] by simp
    from map_res_nth [OF cs i] have "ce_name (entries ! i) = Some (c_name (cs ! i))"
      by (rule load_core_name)
    then show "map (\<lambda>c. Some (c_name c)) cs ! i = map ce_name entries ! i"
      using i map_res_length [OF cs] by simp
  qed (use map_res_length [OF cs] in simp)
  then have "distinct (map (\<lambda>c. Some (c_name c)) cs)" using index_entries_distinct [OF e] by simp
  then have d: "distinct (map c_name cs)" by (simp add: distinct_map inj_on_def)
  then have "dict_of (map (\<lambda>c. (c_name c, c)) cs) = map (\<lambda>c. (c_name c, c)) cs"
    by (intro dict_of_distinct) (simp add: comp_def)
  moreover have "reg_kinds reg = c_kind ` set cs"
    using group_by_kind_facts [of cs] reg(3) by (auto simp: reg_kinds_def has_key_iff [symmetric])
  ultimately show ?thesis using d reg group_by_kind_facts [of cs] by (simp add: registry_ok_def)
qed

text \<open>
  A registry that loads is consistent: core names are unique, the name index is exactly the list
  of cores, and the kind index gives for every kind the cores of that kind in document order.
\<close>
theorem load_registry_ok: "load_registry stem doc = Inr reg \<Longrightarrow> registry_ok reg"
  by (rule loaded_consistent)

definition demo_doc :: registry_doc where
  "demo_doc = \<lparr>rd_system = None, rd_description = '''', rd_default = None,
     rd_cores = Some
       [\<lparr>ce_name = Some ''rvv0'', ce_kind = Some ''rvv'', ce_harts = [0], ce_caps = Some [''linear_s8'', ''relu_s8''],
         ce_ref = None, ce_isa = '''', ce_descr = ''''\<rparr>,
        \<lparr>ce_name = Some ''rvv1'', ce_kind = Some ''rvv'', ce_harts = [1], ce_caps = None,
         ce_ref = Some ''rvv0'', ce_isa = '''', ce_descr = ''''\<rparr>]\<rparr>"

definition demo_reg :: registry where
  "demo_reg = (case load_registry ''demo'' demo_doc of
                 Inr reg \<Rightarrow> reg
               | Inl _ \<Rightarrow> \<lparr>r_system = '''', r_description = '''', r_default = '''', r_cores = [],
                          r_by_name = [], r_by_kind = []\<rparr>)"

lemma demo_reg_load: "load_registry ''demo'' demo_doc = Inr demo_reg"
  by code_simp

theorem load_registry_ok_witness: "registry_ok demo_reg"
  by (rule load_registry_ok [OF demo_reg_load])

text \<open>Which cores a target admits, read off the list of cores alone.\<close>

definition admits :: "registry \<Rightarrow> string \<Rightarrow> core \<Rightarrow> bool" where
  "admits reg tgt c \<longleftrightarrow>
     tgt = ''any'' \<or> c_name c = tgt \<or> (tgt \<notin> c_name ` set (r_cores reg) \<and> c_kind c = tgt)"

lemma resolve_target_set:
  assumes ok: "registry_ok reg"
  shows "set (resolve_target reg tgt kind) =
           {c \<in> set (r_cores reg). kind \<in> set (c_caps c) \<and> admits reg tgt c}"
proof (cases "tgt = ''any''")
  case True
  then show ?thesis by (auto simp: resolve_target_def cores_for_op_def admits_def)
next
  case any: False
  have d: "distinct (map c_name (r_cores reg))" and bn: "r_by_name reg = map (\<lambda>c. (c_name c, c)) (r_cores reg)"
    using ok by (simp_all add: registry_ok_def)
  have by_name: "map_of (r_by_name reg) tgt = Some c \<longleftrightarrow> c \<in> set (r_cores reg) \<and> c_name c = tgt" for c
  proof -
    have "distinct (map fst (r_by_name reg))" using d bn by (simp add: comp_def)
    then have "map_of (r_by_name reg) tgt = Some c \<longleftrightarrow> (tgt, c) \<in> set (r_by_name reg)" by simp
    then show ?thesis using bn by auto
  qed
  show ?thesis
  proof (cases "map_of (r_by_name reg) tgt")
    case (Some c)
    then have c: "c \<in> set (r_cores reg)" "c_name c = tgt" using by_name by auto
    have only: "c' = c" if "c' \<in> set (r_cores reg)" "c_name c' = tgt" for c'
      using by_name [of c'] that Some by simp
    have "tgt \<in> c_name ` set (r_cores reg)" using c by blast
    then have "c' \<in> set (r_cores reg) \<and> admits reg tgt c' \<longleftrightarrow> c' = c" for c'
      using any c only unfolding admits_def by blast
    then have "{c' \<in> set (r_cores reg). kind \<in> set (c_caps c') \<and> admits reg tgt c'} =
        {c' \<in> {c}. kind \<in> set (c_caps c')}" by blast
    also have "\<dots> = set (resolve_target reg tgt kind)" using any Some by (auto simp: resolve_target_def)
    finally show ?thesis by simp
  next
    case None
    then have n: "tgt \<notin> c_name ` set (r_cores reg)" using by_name by force
    have "get_or (r_by_kind reg) tgt [] = filter (\<lambda>c. c_kind c = tgt) (r_cores reg)"
      using ok unfolding registry_ok_def by blast
    moreover have "resolve_target reg tgt kind = filter (\<lambda>c. kind \<in> set (c_caps c)) (get_or (r_by_kind reg) tgt [])"
      using any None by (cases "map_of (r_by_kind reg) tgt") (simp_all add: resolve_target_def get_or_def)
    moreover have "admits reg tgt c \<longleftrightarrow> c_kind c = tgt" if "c \<in> set (r_cores reg)" for c
      using any n that unfolding admits_def by blast
    ultimately show ?thesis by auto
  qed
qed

text \<open>
  On a consistent registry \<open>validate_dispatch_targets\<close> reports nothing exactly when every op
  that is not a view has a core that can execute it and that its target admits: any core, the core of
  that name, or a core of that kind when no core has the name.
\<close>
theorem validate_targets_iff:
  assumes "registry_ok reg"
  shows "validate_dispatch_targets reg xs = [] \<longleftrightarrow>
           (\<forall>x \<in> set xs. o_kind x \<noteq> ''view'' \<longrightarrow>
              (\<exists>c \<in> set (r_cores reg). o_kind x \<in> set (c_caps c) \<and>
                 admits reg (case o_target x of None \<Rightarrow> ''any'' | Some t \<Rightarrow> t) c))"
proof -
  have nonempty: "resolve_target reg tgt kind = [] \<longleftrightarrow>
      \<not> (\<exists>c \<in> set (r_cores reg). kind \<in> set (c_caps c) \<and> admits reg tgt c)" for tgt kind
    using resolve_target_set [OF assms, of tgt kind] by (metis (no_types, lifting) empty_Collect_eq set_empty)
  have names: "reg_names reg = c_name ` set (r_cores reg)" "reg_kinds reg = c_kind ` set (r_cores reg)"
    using assms by (auto simp: registry_ok_def reg_names_def keys_def comp_def)
  have known: "tgt \<in> insert ''any'' (reg_kinds reg \<union> reg_names reg)"
    if "c \<in> set (r_cores reg)" "admits reg tgt c" for tgt c
    using that by (auto simp: names admits_def)
  have "validate_dispatch_targets reg xs = [] \<longleftrightarrow> (\<forall>x \<in> set xs. o_kind x = ''view'' \<or>
      (let tgt = case o_target x of None \<Rightarrow> ''any'' | Some t \<Rightarrow> t in
         tgt \<in> insert ''any'' (reg_kinds reg \<union> reg_names reg) \<and> resolve_target reg tgt (o_kind x) \<noteq> []))"
    by (auto simp: validate_dispatch_targets_def List.map_filter_def filter_empty_conv Let_def)
  also have "\<dots> \<longleftrightarrow> (\<forall>x \<in> set xs. o_kind x \<noteq> ''view'' \<longrightarrow>
              (\<exists>c \<in> set (r_cores reg). o_kind x \<in> set (c_caps c) \<and>
                 admits reg (case o_target x of None \<Rightarrow> ''any'' | Some t \<Rightarrow> t) c))"
    unfolding Let_def nonempty using known by blast
  finally show ?thesis .
qed

theorem validate_targets_iff_witness:
  "validate_dispatch_targets demo_reg [mk_op ''l'' ''linear_s8'' (Some 0) [] [''x''] [''y'']] = []"
proof -
  have "r_cores demo_reg = [\<lparr>c_name = ''rvv0'', c_kind = ''rvv'', c_harts = [0],
      c_caps = [''linear_s8'', ''relu_s8''], c_isa = '''', c_descr = ''''\<rparr>,
    \<lparr>c_name = ''rvv1'', c_kind = ''rvv'', c_harts = [1],
      c_caps = [''linear_s8'', ''relu_s8''], c_isa = '''', c_descr = ''''\<rparr>]" by code_simp
  then show ?thesis
    by (simp add: validate_targets_iff [OF loaded_consistent [OF demo_reg_load]] admits_def
        mk_op_def plain_fields_def)
qed

end
