(* ===== verification/Schedule.thy ===== *)
theory Schedule
  imports Registry Kahn
begin

text \<open>
  \<^verbatim>\<open>pipeline/ingest_schedule.py\<close>: read a single-model schedule, check it against the IR and the
  core registry, and emit the dispatch table the runtime includes.
\<close>

section \<open>The document and the placements\<close>

record sched_entry =
  se_id :: "int option"
  se_core :: "string option"
  se_deps :: "int list option"
  se_priority :: "int option"
  se_start :: "int option"

record schedule_doc =
  sd_model :: "string option"
  sd_registry :: "string option"
  sd_dispatches :: "sched_entry list option"

record placement =
  p_id :: int
  p_core :: string
  p_deps :: "int list"
  p_priority :: int
  p_start :: "int option"
  p_op :: string
  p_name :: string

record schedule =
  sch_model :: string
  sch_registry :: string
  sch_placements :: "placement list"

datatype schedule_error =
    Model_Mismatch
  | Registry_Mismatch
  | No_Dispatches
  | Entry_Without_Id
  | No_Such_Id int
  | Listed_Again int
  | Core_Not_In_Registry int string
  | Cannot_Execute int string
  | Drops_Data_Deps int "int list"
  | Unknown_Dep int int
  | Missing_Dispatches "int list"
  | Schedule_Key_Error int
  | Dependency_Cycle
  | Table_Key_Error string

section \<open>Reading one entry\<close>

definition ir_dispatch_index :: "graph \<Rightarrow> (int, op) dict" where
  "ir_dispatch_index ir = ops_by_id (ops ir)"

definition entry_deps ::
  "(int, op) dict \<Rightarrow> int \<Rightarrow> op \<Rightarrow> sched_entry \<Rightarrow> schedule_error + int list" where
  "entry_deps idx d x e =
     (case se_deps e of
        None \<Rightarrow> Inr (sorted_set (o_deps x))
      | Some ds \<Rightarrow>
          (let missing = sorted_set (filter (\<lambda>i. i \<notin> set ds) (o_deps x)) in
           if missing \<noteq> [] then Inl (Drops_Data_Deps d missing)
           else case List.find (\<lambda>i. \<not> has_key idx i) (sorted_set ds) of
             Some i \<Rightarrow> Inl (Unknown_Dep d i)
           | None \<Rightarrow> Inr (sorted_set ds)))"

definition place_entry ::
  "(int, op) dict \<Rightarrow> registry \<Rightarrow> sched_entry \<Rightarrow> placement list \<Rightarrow> schedule_error + placement list" where
  "place_entry idx reg e ps =
     (case se_id e of
        None \<Rightarrow> Inl Entry_Without_Id
      | Some d \<Rightarrow>
          (case map_of idx d of
             None \<Rightarrow> Inl (No_Such_Id d)
           | Some x \<Rightarrow>
               (let tgt = (case se_core e of None \<Rightarrow> ''any'' | Some c \<Rightarrow> c) in
                if d \<in> set (map p_id ps) then Inl (Listed_Again d)
                else if tgt \<notin> insert ''any'' (reg_names reg) then Inl (Core_Not_In_Registry d tgt)
                else if resolve_target reg tgt (o_kind x) = [] then Inl (Cannot_Execute d tgt)
                else (case entry_deps idx d x e of
                        Inl err \<Rightarrow> Inl err
                      | Inr deps \<Rightarrow>
                          Inr (ps @ [\<lparr>p_id = d, p_core = tgt, p_deps = deps,
                                      p_priority = (case se_priority e of None \<Rightarrow> 0 | Some p \<Rightarrow> p),
                                      p_start = se_start e, p_op = o_kind x, p_name = o_name x\<rparr>])))))"

section \<open>The cycle check\<close>

definition dep_pairs :: "placement list \<Rightarrow> (int \<times> int) list" where
  "dep_pairs ps = concat (map (\<lambda>p. map (\<lambda>d. (d, p_id p)) (p_deps p)) ps)"

definition indegrees :: "'a list \<Rightarrow> ('a \<times> 'a) list \<Rightarrow> ('a, int) dict" where
  "indegrees ns es =
     fold (\<lambda>(s, t) m. AList.update t (get_or m t 0 + 1) m) es (dict_of (map (\<lambda>d. (d, 0)) ns))"

definition ready_nodes :: "'a list \<Rightarrow> ('a, int) dict \<Rightarrow> 'a list" where
  "ready_nodes ns indeg = filter (\<lambda>d. get_or indeg d 0 = 0) ns"

text \<open>\<open>q.pop()\<close> takes the last.\<close>

definition pick_last :: "placement list \<Rightarrow> int list \<Rightarrow> nat" where
  "pick_last ps ready = length ready - 1"

definition visit_order :: "placement list \<Rightarrow> int list" where
  "visit_order ps =
     (let es = dep_pairs ps; ns = map p_id ps; indeg = indegrees ns es in
      fst (kahn_loop (pick_last ps) (\<lambda>d. count_down (children es d)) (length ps)
             (ready_nodes ns indeg) indeg []))"

text \<open>Coverage, the children index (which raises on a dependency that is no dispatch), the cycle check.\<close>

definition finish_schedule :: "graph \<Rightarrow> registry \<Rightarrow> placement list \<Rightarrow> schedule_error + schedule" where
  "finish_schedule ir reg ps =
     (let missing = sorted_set (filter (\<lambda>d. d \<notin> set (map p_id ps)) (keys (ir_dispatch_index ir))) in
      if missing \<noteq> [] then Inl (Missing_Dispatches missing)
      else case List.find (\<lambda>d. d \<notin> set (map p_id ps)) (concat (map p_deps ps)) of
        Some d \<Rightarrow> Inl (Schedule_Key_Error d)
      | None \<Rightarrow>
          (if length (visit_order ps) \<noteq> length ps then Inl Dependency_Cycle
           else Inr \<lparr>sch_model = (case g_name ir of None \<Rightarrow> [] | Some n \<Rightarrow> n),
                     sch_registry = r_system reg, sch_placements = sort_key p_id ps\<rparr>))"

definition load_schedule :: "schedule_doc \<Rightarrow> graph \<Rightarrow> registry \<Rightarrow> schedule_error + schedule" where
  "load_schedule doc ir reg =
     (if sd_model doc \<notin> {None, Some []} \<and> sd_model doc \<noteq> g_name ir then Inl Model_Mismatch
      else if sd_registry doc \<notin> {None, Some [], Some (r_system reg)} then Inl Registry_Mismatch
      else case sd_dispatches doc of
        None \<Rightarrow> Inl No_Dispatches
      | Some entries \<Rightarrow>
          (if entries = [] then Inl No_Dispatches
           else case for_each (place_entry (ir_dispatch_index ir) reg) entries [] of
             Inl e \<Rightarrow> Inl e
           | Inr ps \<Rightarrow> finish_schedule ir reg ps))"

section \<open>The dispatch table\<close>

definition deps_symbol :: "placement \<Rightarrow> string" where
  "deps_symbol p = ''dispatch_'' @ str_int (p_id p) @ ''_deps''"

definition deps_array :: "placement \<Rightarrow> string" where
  "deps_array p =
     (if p_deps p \<noteq> []
      then ''static const int '' @ deps_symbol p @ ''[] = { '' @ join '', '' (map str_int (p_deps p)) @ '' };''
      else ''#define '' @ deps_symbol p @ '' NULL'')"

definition table_row :: "registry \<Rightarrow> placement \<Rightarrow> schedule_error + string" where
  "table_row reg p =
     (case (if p_core p = ''any'' then Inr (''any'', -1)
            else case map_of (rev (map (\<lambda>c. (c_name c, c_kind c)) (r_cores reg))) (p_core p) of
              None \<Rightarrow> Inl (Table_Key_Error (p_core p))
            | Some kind \<Rightarrow>
                (case map_of (r_by_name reg) (p_core p) of
                   None \<Rightarrow> Inl (Table_Key_Error (p_core p))
                 | Some c \<Rightarrow> Inr (kind, case c_harts c of [] \<Rightarrow> -1 | h # _ \<Rightarrow> h))) of
        Inl e \<Rightarrow> Inl e
      | Inr (kind, hart) \<Rightarrow>
          Inr (''    { .dispatch_id = '' @ str_int (p_id p) @ '', '' @
               ''.op = \"'' @ p_op p @ ''\", .name = \"'' @ p_name p @ ''\", '' @
               ''.core_name = \"'' @ p_core p @ ''\", .core_kind = \"'' @ kind @ ''\", .hart = '' @ str_int hart @ '', '' @
               ''.priority = '' @ str_int (p_priority p) @ '', .start_time = '' @
               str_int (case p_start p of None \<Rightarrow> -1 | Some s \<Rightarrow> s) @ '', '' @
               ''.n_deps = '' @ str_nat (length (p_deps p)) @ '', .deps = '' @
               (if p_deps p \<noteq> [] then deps_symbol p else ''NULL'') @ '' },''))"

text \<open>
  The source file: the include, the dependency arrays, the rows in schedule order. The banner line
  (\<open>HEADER\<close>, which is not ASCII) is an argument.
\<close>

definition table_source :: "string \<Rightarrow> schedule \<Rightarrow> registry \<Rightarrow> schedule_error + string" where
  "table_source banner sched reg =
     (case map_res (table_row reg) (sch_placements sched) of
        Inl e \<Rightarrow> Inl e
      | Inr rows \<Rightarrow>
          (let mid = c_ident (sch_model sched); umid = upper mid in
           Inr (join newline
             [banner, ''#include <stddef.h>'', ''#include \"'' @ mid @ ''_dispatch_table.h\"'', '''',
              join newline (map deps_array (sch_placements sched)), '''',
              ''const model_'' @ mid @ ''_dispatch_entry_t'',
              ''MODEL_'' @ umid @ ''_DISPATCH_TABLE[MODEL_'' @ umid @ ''_N_DISPATCHES] = {'',
              join newline rows, ''};'', ''''])))"

definition table_header :: "string \<Rightarrow> schedule \<Rightarrow> string" where
  "table_header banner sched =
     (let mid = c_ident (sch_model sched); umid = upper mid in
      join newline
        [banner,
         ''#pragma once'',
         '''',
         ''#include <stddef.h>'',
         '''',
         ''#ifdef __cplusplus'',
         ''extern \"C\" {'',
         ''#endif'',
         '''',
         ''/* One entry per IR dispatch (non-view ops). The table is laid out in'',
         '' * dispatch_id order; the runtime is responsible for honoring'',
         '' * `deps[]` before invoking. */'',
         ''typedef struct {'',
         ''    int            dispatch_id;'',
         ''    const char    *op;          /* IR op kind, e.g. \"linear\" */'',
         ''    const char    *name;        /* IR node name, e.g. \"mlp.0\" */'',
         ''    const char    *core_name;   /* registry core name; \"any\" if unbound */'',
         ''    const char    *core_kind;   /* registry kind; \"any\" if unbound */'',
         ''    int            hart;         /* preferred hart, or -1 if unbound */'',
         ''    int            priority;'',
         ''    int            start_time;  /* cycles from start; -1 = \"as deps resolve\" */'',
         ''    int            n_deps;'',
         ''    const int     *deps;        /* dispatch_ids that must complete first */'',
         ''} model_'' @ mid @ ''_dispatch_entry_t;'',
         '''',
         ''#define MODEL_'' @ umid @ ''_N_DISPATCHES   '' @ str_nat (length (sch_placements sched)),
         ''#define MODEL_'' @ umid @ ''_SCHEDULE_SYS   \"'' @ sch_registry sched @ ''\"'',
         '''',
         ''extern const model_'' @ mid @ ''_dispatch_entry_t'',
         ''    MODEL_'' @ umid @ ''_DISPATCH_TABLE[MODEL_'' @ umid @ ''_N_DISPATCHES];'',
         '''',
         ''#ifdef __cplusplus'',
         ''}'',
         ''#endif'',
         ''''])"

definition table_paths :: "string \<Rightarrow> schedule \<Rightarrow> string \<times> string" where
  "table_paths out_dir sched =
     (let mid = c_ident (sch_model sched) in
      (path_join out_dir (mid @ ''_dispatch_table.h''), path_join out_dir (mid @ ''_dispatch_table.c'')))"

definition emit_dispatch_table ::
  "string \<Rightarrow> schedule \<Rightarrow> registry \<Rightarrow> string \<Rightarrow> schedule_error + (string \<times> string) list" where
  "emit_dispatch_table banner sched reg out_dir =
     (case table_source banner sched reg of
        Inl e \<Rightarrow> Inl e
      | Inr src \<Rightarrow>
          Inr [(fst (table_paths out_dir sched), table_header banner sched),
               (snd (table_paths out_dir sched), src)])"

section \<open>The cycle check is Kahn's\<close>

lemma get_or_indegrees:
  "get_or (indegrees ns es) x 0 = int (length (filter (\<lambda>e. snd e = x) es))"
proof -
  have "get_or (fold (\<lambda>(s, t) m. AList.update t (get_or m t 0 + 1) m) es m) x 0 =
      get_or m x 0 + int (length (filter (\<lambda>e. snd e = x) es))" for m :: "('a, int) dict"
  proof (induction es arbitrary: m)
    case (Cons e es)
    obtain s t where e: "e = (s, t)" by fastforce
    have "get_or (AList.update t (get_or m t 0 + 1) m) x 0 = (if x = t then get_or m t 0 + 1 else get_or m x 0)"
      by (simp add: get_or_def)
    with Cons e show ?case by simp
  qed simp
  moreover have "get_or (dict_of (map (\<lambda>d. (d, 0)) ns)) x 0 = (0 :: int)"
    by (auto simp: get_or_def map_of_dict_of split: option.splits dest!: map_of_SomeD)
  ultimately show ?thesis by (simp add: indegrees_def)
qed

lemma set_dep_pairs: "(d, c) \<in> set (dep_pairs ps) \<longleftrightarrow> (\<exists>p \<in> set ps. p_id p = c \<and> d \<in> set (p_deps p))"
  by (auto simp: dep_pairs_def)

interpretation cycle_check: counters pick_last "map p_id" dep_pairs
  by unfold_locales (simp add: pick_last_def)

definition placement_deps :: "placement list \<Rightarrow> (int \<times> int) set" where
  "placement_deps ps = {(d, c). \<exists>p \<in> set ps. p_id p = c \<and> d \<in> set (p_deps p)}"

lemma visit_order_facts:
  assumes "distinct (map p_id ps)" "set (concat (map p_deps ps)) \<subseteq> set (map p_id ps)"
  shows "length (visit_order ps) = length ps \<longleftrightarrow> acyclic (placement_deps ps)"
proof -
  have pairs: "set (dep_pairs ps) = placement_deps ps" by (auto simp: set_dep_pairs placement_deps_def)
  have wf: "cycle_check.closed_graph ps"
    using assms by (force simp: cycle_check.closed_graph_def set_dep_pairs pairs placement_deps_def)
  have cnt: "get_or (indegrees (map p_id ps) (dep_pairs ps)) x 0 = int (waits (dep_pairs ps) {} x)" for x
    by (simp add: get_or_indegrees waits_def)
  have start: "cycle_check.start_ok ps
      (ready_nodes (map p_id ps) (indegrees (map p_id ps) (dep_pairs ps)))
      (indegrees (map p_id ps) (dep_pairs ps))"
    using assms(1) by (auto simp: cycle_check.start_ok_def cycle_check.counts_ok_def cnt ready_nodes_def
        waits_def filter_empty_conv)
  have graph: "cycle_check.dep_graph ps = placement_deps ps"
    unfolding cycle_check.dep_graph_def unfolding placement_deps_def set_dep_pairs by auto
  from cycle_check.kahn_complete_iff [OF wf start, of "length ps"] show ?thesis
    by (simp add: visit_order_def Let_def graph)
qed

section \<open>What a loaded schedule guarantees\<close>

text \<open>One placement against the IR, the registry and the entry it came from.\<close>

definition placed :: "(int, op) dict \<Rightarrow> registry \<Rightarrow> sched_entry \<Rightarrow> placement \<Rightarrow> bool" where
  "placed idx reg e p \<longleftrightarrow>
     (\<exists>x. se_id e = Some (p_id p) \<and> map_of idx (p_id p) = Some x \<and>
          p_core p = (case se_core e of None \<Rightarrow> ''any'' | Some c \<Rightarrow> c) \<and>
          p_core p \<in> insert ''any'' (reg_names reg) \<and> resolve_target reg (p_core p) (o_kind x) \<noteq> [] \<and>
          p_op p = o_kind x \<and> p_name p = o_name x \<and> p_start p = se_start e \<and>
          p_priority p = (case se_priority e of None \<Rightarrow> 0 | Some n \<Rightarrow> n) \<and>
          p_deps p = sorted_set (case se_deps e of None \<Rightarrow> o_deps x | Some ds \<Rightarrow> ds) \<and>
          set (o_deps x) \<subseteq> set (p_deps p) \<and>
          (se_deps e \<noteq> None \<longrightarrow> set (p_deps p) \<subseteq> set (keys idx)))"

lemma entry_deps_iff:
  "entry_deps idx d x e = Inr deps \<longleftrightarrow>
     deps = sorted_set (case se_deps e of None \<Rightarrow> o_deps x | Some ds \<Rightarrow> ds) \<and>
     set (o_deps x) \<subseteq> set deps \<and> (se_deps e \<noteq> None \<longrightarrow> set deps \<subseteq> set (keys idx))"
proof (cases "se_deps e")
  case None
  then show ?thesis by (auto simp: entry_deps_def)
next
  case (Some ds)
  have "sorted_set (filter (\<lambda>i. i \<notin> set ds) (o_deps x)) = [] \<longleftrightarrow> set (o_deps x) \<subseteq> set ds"
    by (metis (no_types, lifting) empty_filter_conv set_empty set_sorted_set subset_code(1))
  moreover have "List.find (\<lambda>i. \<not> has_key idx i) (sorted_set ds) = None \<longleftrightarrow> set ds \<subseteq> set (keys idx)"
    by (auto simp: find_None_iff has_key_iff)
  ultimately show ?thesis using Some
    by (cases "List.find (\<lambda>i. \<not> has_key idx i) (sorted_set ds)") (auto simp: entry_deps_def Let_def)
qed

lemma place_entry_iff:
  "place_entry idx reg e ps = Inr ps' \<longleftrightarrow>
     (\<exists>p. ps' = ps @ [p] \<and> placed idx reg e p \<and> p_id p \<notin> set (map p_id ps))"
proof
  assume r: "place_entry idx reg e ps = Inr ps'"
  from r obtain d x where dx: "se_id e = Some d" "map_of idx d = Some x"
    by (auto simp: place_entry_def Let_def split: option.splits)
  let ?tgt = "case se_core e of None \<Rightarrow> ''any'' | Some c \<Rightarrow> c"
  from r dx obtain deps where c: "d \<notin> set (map p_id ps)" "?tgt \<in> insert ''any'' (reg_names reg)"
    "resolve_target reg ?tgt (o_kind x) \<noteq> []" and deps: "entry_deps idx d x e = Inr deps"
    and ps': "ps' = ps @ [\<lparr>p_id = d, p_core = ?tgt, p_deps = deps,
                  p_priority = (case se_priority e of None \<Rightarrow> 0 | Some p \<Rightarrow> p),
                  p_start = se_start e, p_op = o_kind x, p_name = o_name x\<rparr>]"
    by (auto simp: place_entry_def Let_def simp del: insert_iff split: if_splits sum.splits)
  define p where "p = \<lparr>p_id = d, p_core = ?tgt, p_deps = deps,
                  p_priority = (case se_priority e of None \<Rightarrow> 0 | Some p \<Rightarrow> p),
                  p_start = se_start e, p_op = o_kind x, p_name = o_name x\<rparr>"
  have p: "p_id p = d" "p_core p = ?tgt" "p_deps p = deps" "p_start p = se_start e" "p_op p = o_kind x"
    "p_name p = o_name x" "p_priority p = (case se_priority e of None \<Rightarrow> 0 | Some n \<Rightarrow> n)"
    by (simp_all add: p_def)
  have "placed idx reg e p"
    unfolding placed_def p
  proof (intro exI [of _ x] conjI refl)
    show "se_id e = Some d" "map_of idx d = Some x" by (rule dx)+
    show "?tgt \<in> insert ''any'' (reg_names reg)" "resolve_target reg ?tgt (o_kind x) \<noteq> []" by (rule c)+
    show "deps = sorted_set (case se_deps e of None \<Rightarrow> o_deps x | Some ds \<Rightarrow> ds)"
      "set (o_deps x) \<subseteq> set deps" "se_deps e \<noteq> None \<longrightarrow> set deps \<subseteq> set (keys idx)"
      using deps unfolding entry_deps_iff by blast+
  qed
  moreover have "ps' = ps @ [p]" unfolding p_def by (rule ps')
  moreover have "p_id p \<notin> set (map p_id ps)" unfolding p(1) by (rule c(1))
  ultimately show "\<exists>p. ps' = ps @ [p] \<and> placed idx reg e p \<and> p_id p \<notin> set (map p_id ps)"
    by (intro exI [of _ p] conjI)
next
  assume "\<exists>p. ps' = ps @ [p] \<and> placed idx reg e p \<and> p_id p \<notin> set (map p_id ps)"
  then obtain p x where ps': "ps' = ps @ [p]" "p_id p \<notin> set (map p_id ps)"
    and p: "se_id e = Some (p_id p)" "map_of idx (p_id p) = Some x"
      "p_core p = (case se_core e of None \<Rightarrow> ''any'' | Some c \<Rightarrow> c)"
      "p_core p \<in> insert ''any'' (reg_names reg)" "resolve_target reg (p_core p) (o_kind x) \<noteq> []"
      "p_op p = o_kind x" "p_name p = o_name x" "p_start p = se_start e"
      "p_priority p = (case se_priority e of None \<Rightarrow> 0 | Some n \<Rightarrow> n)"
    and deps: "entry_deps idx (p_id p) x e = Inr (p_deps p)"
    unfolding placed_def entry_deps_iff by blast
  then show "place_entry idx reg e ps = Inr ps'"
    by (simp add: place_entry_def Let_def)
qed

lemma place_all_iff:
  "for_each (place_entry idx reg) es ps = Inr ps' \<longleftrightarrow>
     (\<exists>qs. ps' = ps @ qs \<and> list_all2 (placed idx reg) es qs \<and> distinct (map p_id qs) \<and>
           set (map p_id qs) \<inter> set (map p_id ps) = {})"
proof (induction es arbitrary: ps)
  case Nil
  show ?case by auto
next
  case (Cons e es)
  have "for_each (place_entry idx reg) (e # es) ps = Inr ps' \<longleftrightarrow>
      (\<exists>s. place_entry idx reg e ps = Inr s \<and> for_each (place_entry idx reg) es s = Inr ps')"
    by (auto split: sum.splits)
  also have "\<dots> \<longleftrightarrow> (\<exists>p. placed idx reg e p \<and> p_id p \<notin> set (map p_id ps) \<and>
           for_each (place_entry idx reg) es (ps @ [p]) = Inr ps')"
    unfolding place_entry_iff by blast
  also have "\<dots> \<longleftrightarrow> (\<exists>p qs. placed idx reg e p \<and> p_id p \<notin> set (map p_id ps) \<and> ps' = ps @ p # qs \<and>
      list_all2 (placed idx reg) es qs \<and> distinct (map p_id qs) \<and>
      set (map p_id qs) \<inter> set (map p_id (ps @ [p])) = {})"
    unfolding Cons.IH by (simp only: append.assoc append_Cons append_Nil) blast
  also have "\<dots> \<longleftrightarrow> (\<exists>qs. ps' = ps @ qs \<and> list_all2 (placed idx reg) (e # es) qs \<and> distinct (map p_id qs) \<and>
           set (map p_id qs) \<inter> set (map p_id ps) = {})"
    by (subst list_all2_Cons1) (auto 0 4)
  finally show ?case .
qed

lemma keys_ir_index: "set (keys (ir_dispatch_index ir)) = set (dids (ops ir))"
  by (simp add: ir_dispatch_index_def keys_ops_by_id)

lemma placed_in_ir:
  assumes "list_all2 (placed (ir_dispatch_index ir) reg) entries ps"
  shows "set (map p_id ps) \<subseteq> set (dids (ops ir))"
proof
  fix d assume "d \<in> set (map p_id ps)"
  then obtain p where p: "p \<in> set ps" "d = p_id p" by auto
  with assms obtain e where "placed (ir_dispatch_index ir) reg e p"
    by (auto simp: list_all2_conv_all_nth in_set_conv_nth)
  then have "has_key (ir_dispatch_index ir) d" using p by (auto simp: placed_def has_key_def)
  then show "d \<in> set (dids (ops ir))" by (simp add: has_key_iff keys_ir_index)
qed

lemma finish_schedule_iff:
  assumes "distinct (map p_id ps)"
  shows "finish_schedule ir reg ps = Inr sch \<longleftrightarrow>
     set (dids (ops ir)) \<subseteq> set (map p_id ps) \<and> set (concat (map p_deps ps)) \<subseteq> set (map p_id ps) \<and>
     acyclic (placement_deps ps) \<and>
     sch = \<lparr>sch_model = (case g_name ir of None \<Rightarrow> [] | Some n \<Rightarrow> n), sch_registry = r_system reg,
            sch_placements = sort_key p_id ps\<rparr>"
proof -
  have missing: "sorted_set (filter (\<lambda>d. d \<notin> set (map p_id ps)) (keys (ir_dispatch_index ir))) = [] \<longleftrightarrow>
      set (dids (ops ir)) \<subseteq> set (map p_id ps)"
    unfolding keys_ir_index [symmetric]
    by (metis (no_types, lifting) empty_filter_conv set_empty set_sorted_set subset_code(1))
  have dangling: "List.find (\<lambda>d. d \<notin> set (map p_id ps)) (concat (map p_deps ps)) = None \<longleftrightarrow>
      set (concat (map p_deps ps)) \<subseteq> set (map p_id ps)"
    unfolding find_None_iff by blast
  show ?thesis
  proof (cases "List.find (\<lambda>d. d \<notin> set (map p_id ps)) (concat (map p_deps ps))")
    case None
    then have c: "set (concat (map p_deps ps)) \<subseteq> set (map p_id ps)" unfolding dangling .
    show ?thesis using c
      unfolding finish_schedule_def Let_def None visit_order_facts [OF assms c] missing by auto
  next
    case (Some d)
    then have "\<not> set (concat (map p_deps ps)) \<subseteq> set (map p_id ps)"
      unfolding dangling [symmetric] by simp
    then show ?thesis unfolding finish_schedule_def Let_def Some by auto
  qed
qed

lemma load_schedule_iff_aux:
  "load_schedule doc ir reg = Inr sch \<longleftrightarrow>
     sd_model doc \<in> {None, Some [], g_name ir} \<and> sd_registry doc \<in> {None, Some [], Some (r_system reg)} \<and>
     (\<exists>entries ps. sd_dispatches doc = Some entries \<and> entries \<noteq> [] \<and>
        list_all2 (placed (ir_dispatch_index ir) reg) entries ps \<and> distinct (map p_id ps) \<and>
        set (map p_id ps) = set (dids (ops ir)) \<and> set (concat (map p_deps ps)) \<subseteq> set (map p_id ps) \<and>
        acyclic (placement_deps ps) \<and>
        sch = \<lparr>sch_model = (case g_name ir of None \<Rightarrow> [] | Some n \<Rightarrow> n), sch_registry = r_system reg,
               sch_placements = sort_key p_id ps\<rparr>)"
proof -
  let ?idx = "ir_dispatch_index ir"
  have place: "for_each (place_entry ?idx reg) entries [] = Inr ps \<longleftrightarrow>
      list_all2 (placed ?idx reg) entries ps \<and> distinct (map p_id ps)" for entries ps
    by (simp add: place_all_iff)
  have body: "load_schedule doc ir reg = Inr sch \<longleftrightarrow>
      sd_model doc \<in> {None, Some [], g_name ir} \<and> sd_registry doc \<in> {None, Some [], Some (r_system reg)} \<and>
      (\<exists>entries ps. sd_dispatches doc = Some entries \<and> entries \<noteq> [] \<and>
         list_all2 (placed ?idx reg) entries ps \<and> distinct (map p_id ps) \<and> finish_schedule ir reg ps = Inr sch)"
    unfolding load_schedule_def place [symmetric] conj_assoc [symmetric]
    by (cases "sd_dispatches doc") (auto split: sum.splits)
  have ids: "set (map p_id ps) = set (dids (ops ir)) \<longleftrightarrow> set (dids (ops ir)) \<subseteq> set (map p_id ps)"
    if "list_all2 (placed ?idx reg) entries ps" for entries ps
    using placed_in_ir [OF that] by blast
  show ?thesis unfolding body by (simp only: finish_schedule_iff ids cong: conj_cong)
qed

text \<open>
  C10. \<open>ingest_schedule.load\<close> accepts a schedule exactly when its model and registry names match (or
  are absent), it has one entry for every dispatch of the IR and no other, each entry's core exists
  and can execute the op, its dependencies keep all the IR's and name dispatches of the IR, and the
  dependencies have no cycle. The result lists the placements by increasing id, with the core,
  dependencies, priority and start time of their entries.
\<close>
theorem load_schedule_iff:
  "load_schedule doc ir reg = Inr sch \<longleftrightarrow>
     sd_model doc \<in> {None, Some [], g_name ir} \<and> sd_registry doc \<in> {None, Some [], Some (r_system reg)} \<and>
     (\<exists>entries ps. sd_dispatches doc = Some entries \<and> entries \<noteq> [] \<and>
        list_all2 (placed (ir_dispatch_index ir) reg) entries ps \<and> distinct (map p_id ps) \<and>
        set (map p_id ps) = set (dids (ops ir)) \<and> set (concat (map p_deps ps)) \<subseteq> set (map p_id ps) \<and>
        acyclic (placement_deps ps) \<and>
        sch = \<lparr>sch_model = (case g_name ir of None \<Rightarrow> [] | Some n \<Rightarrow> n), sch_registry = r_system reg,
               sch_placements = sort_key p_id ps\<rparr>)"
  by (rule load_schedule_iff_aux)

text \<open>
  An IR dependency on an id that is no dispatch surfaces as the \<open>KeyError\<close> of the children index
  when the schedule entry keeps the IR's dependencies, not as the \<open>ValueError\<close> it gets when the
  entry lists it.
\<close>

lemma dangling_dep_key_error:
  "load_schedule \<lparr>sd_model = None, sd_registry = None, sd_dispatches =
       Some [\<lparr>se_id = Some 0, se_core = None, se_deps = None, se_priority = None, se_start = None\<rparr>]\<rparr>
     (plain_graph [mk_op ''l'' ''linear_s8'' (Some 0) [7] [''x''] [''y'']] [''y'']) demo_reg =
   Inl (Schedule_Key_Error 7) \<and>
   load_schedule \<lparr>sd_model = None, sd_registry = None, sd_dispatches =
       Some [\<lparr>se_id = Some 0, se_core = None, se_deps = Some [7], se_priority = None, se_start = None\<rparr>]\<rparr>
     (plain_graph [mk_op ''l'' ''linear_s8'' (Some 0) [7] [''x''] [''y'']] [''y'']) demo_reg =
   Inl (Unknown_Dep 0 7)"
  by code_simp

section \<open>A loaded schedule can be emitted\<close>

lemma loaded_placement_core:
  assumes ok: "registry_ok reg" and ld: "load_schedule doc ir reg = Inr sch" and p: "p \<in> set (sch_placements sch)"
  shows "p_core p = ''any'' \<or>
           (\<exists>c \<in> set (r_cores reg). c_name c = p_core p \<and> p_op p \<in> set (c_caps c))"
proof -
  from ld obtain entries ps where ps: "list_all2 (placed (ir_dispatch_index ir) reg) entries ps"
    and sch: "sch_placements sch = sort_key p_id ps"
    unfolding load_schedule_iff_aux by auto
  from p sch have "p \<in> set ps" by simp
  with ps obtain e where pl: "placed (ir_dispatch_index ir) reg e p"
    by (auto simp: list_all2_conv_all_nth in_set_conv_nth)
  then have known: "p_core p \<in> insert ''any'' (reg_names reg)" and run: "resolve_target reg (p_core p) (p_op p) \<noteq> []"
    by (auto simp: placed_def)
  from run obtain c where c: "c \<in> set (r_cores reg)" "p_op p \<in> set (c_caps c)" "admits reg (p_core p) c"
    using resolve_target_set [OF ok, of "p_core p" "p_op p"] by (cases "resolve_target reg (p_core p) (p_op p)") auto
  have "reg_names reg = c_name ` set (r_cores reg)" using ok by (auto simp: registry_ok_def reg_names_def keys_def comp_def)
  with known c show ?thesis by (auto simp: admits_def)
qed

lemma table_row_total:
  assumes ok: "registry_ok reg" and "p_core p = ''any'' \<or> p_core p \<in> c_name ` set (r_cores reg)"
  shows "\<exists>row. table_row reg p = Inr row"
proof (cases "p_core p = ''any''")
  case True
  then show ?thesis by (simp add: table_row_def)
next
  case False
  with assms obtain c where c: "c \<in> set (r_cores reg)" "p_core p = c_name c" by auto
  have "map_of (rev (map (\<lambda>c. (c_name c, c_kind c)) (r_cores reg))) (p_core p) \<noteq> None"
    unfolding map_of_eq_None_iff using c by force
  moreover have "map_of (r_by_name reg) (p_core p) \<noteq> None"
    unfolding map_of_eq_None_iff using ok c by (force simp: registry_ok_def)
  ultimately show ?thesis using False by (auto simp: table_row_def)
qed

text \<open>
  Against a consistent registry, every placement of a loaded schedule is unbound or names a core
  whose capabilities include its op, and emitting the dispatch table raises no lookup error: it
  writes the header and the source, in that order.
\<close>
theorem loaded_schedule_emits:
  assumes "registry_ok reg" "load_schedule doc ir reg = Inr sch"
  shows "(\<forall>p \<in> set (sch_placements sch). p_core p = ''any'' \<or>
            (\<exists>c \<in> set (r_cores reg). c_name c = p_core p \<and> p_op p \<in> set (c_caps c))) \<and>
         (\<exists>h src. emit_dispatch_table banner sch reg out_dir =
            Inr [(fst (table_paths out_dir sch), h), (snd (table_paths out_dir sch), src)])"
proof
  show all: "\<forall>p \<in> set (sch_placements sch). p_core p = ''any'' \<or>
      (\<exists>c \<in> set (r_cores reg). c_name c = p_core p \<and> p_op p \<in> set (c_caps c))"
    using loaded_placement_core [OF assms] by blast
  have "\<exists>row. table_row reg p = Inr row" if "p \<in> set (sch_placements sch)" for p
    using all that by (intro table_row_total [OF assms(1)]) force
  then obtain rows where "map_res (table_row reg) (sch_placements sch) = Inr rows"
    using map_res_Inr_iff [of "table_row reg" "sch_placements sch"] by blast
  then show "\<exists>h src. emit_dispatch_table banner sch reg out_dir =
      Inr [(fst (table_paths out_dir sch), h), (snd (table_paths out_dir sch), src)]"
    by (simp add: emit_dispatch_table_def table_source_def Let_def)
qed

definition demo_schedule :: schedule_doc where
  "demo_schedule = \<lparr>sd_model = Some ''m'', sd_registry = Some ''demo'', sd_dispatches = Some
     [\<lparr>se_id = Some 1, se_core = Some ''rvv1'', se_deps = Some [0], se_priority = Some 2, se_start = Some 5\<rparr>,
      \<lparr>se_id = Some 0, se_core = None, se_deps = None, se_priority = None, se_start = None\<rparr>]\<rparr>"

definition demo_ir :: graph where
  "demo_ir = plain_graph [mk_op ''l'' ''linear_s8'' (Some 0) [] [''x''] [''y''],
                          mk_op ''r'' ''relu_s8'' (Some 1) [0] [''y''] [''z'']] [''z'']"

theorem loaded_schedule_emits_witness:
  "(\<exists>h src. emit_dispatch_table ''b''
      \<lparr>sch_model = ''m'', sch_registry = ''demo'', sch_placements =
         [\<lparr>p_id = 0, p_core = ''any'', p_deps = [], p_priority = 0, p_start = None, p_op = ''linear_s8'', p_name = ''l''\<rparr>,
          \<lparr>p_id = 1, p_core = ''rvv1'', p_deps = [0], p_priority = 2, p_start = Some 5, p_op = ''relu_s8'', p_name = ''r''\<rparr>]\<rparr>
      demo_reg ''out'' = Inr [(''out/m_dispatch_table.h'', h), (''out/m_dispatch_table.c'', src)])"
proof -
  let ?sch = "\<lparr>sch_model = ''m'', sch_registry = ''demo'', sch_placements =
         [\<lparr>p_id = 0, p_core = ''any'', p_deps = [], p_priority = 0, p_start = None, p_op = ''linear_s8'', p_name = ''l''\<rparr>,
          \<lparr>p_id = 1, p_core = ''rvv1'', p_deps = [0], p_priority = 2, p_start = Some 5, p_op = ''relu_s8'', p_name = ''r''\<rparr>]\<rparr>"
  have "load_schedule demo_schedule demo_ir demo_reg = Inr ?sch" by code_simp
  from loaded_schedule_emits [OF loaded_consistent [OF demo_reg_load] this, of "''b''" "''out''"]
  show ?thesis by (simp add: table_paths_def c_ident_def path_join_def Let_def)
qed

end
