(* ===== verification/Dispatch_Graph.thy ===== *)
theory Dispatch_Graph
  imports Annotate
begin

text \<open>
  \<^verbatim>\<open>pipeline/emit_dispatch_graph.py\<close>: the dispatch graph the external scheduler reads, one entry per
  non-view op, keyed by its id, with its dependencies as keys.
\<close>

section \<open>The document\<close>

record dg_entry =
  dg_id :: int
  dg_ordinal :: int
  dg_total :: int
  dg_deps :: "string list"

record dispatch_graph =
  dg_dot_file :: string
  dg_dispatches :: "(string, dg_entry) dict"

datatype emit_error = No_Ops | No_Dispatch_Id

definition dispatch_key :: "int \<Rightarrow> string" where
  "dispatch_key d = ''dispatch_'' @ str_int d"

text \<open>\<open>op["dispatch_id"]\<close> of an op that is not a view raises when there is none.\<close>

definition add_entry :: "op \<Rightarrow> (string, dg_entry) dict \<Rightarrow> emit_error + (string, dg_entry) dict" where
  "add_entry x m =
     (if is_view x then Inr m
      else case o_did x of
        None \<Rightarrow> Inl No_Dispatch_Id
      | Some d \<Rightarrow>
          Inr (AList.update (dispatch_key d)
                 \<lparr>dg_id = d, dg_ordinal = 1, dg_total = 1, dg_deps = map dispatch_key (o_deps x)\<rparr> m))"

definition build_graph :: "graph \<Rightarrow> emit_error + dispatch_graph" where
  "build_graph ir =
     (case for_each add_entry (ops ir) [] of
        Inl e \<Rightarrow> Inl e
      | Inr m \<Rightarrow> Inr \<lparr>dg_dot_file = '''', dg_dispatches = m\<rparr>)"

definition output_path :: "string \<Rightarrow> string \<Rightarrow> string \<Rightarrow> string \<Rightarrow> string \<Rightarrow> string" where
  "output_path out_root model target hw qt =
     (let basename = model @ ''.'' @ qt in
      foldl path_join out_root [model, target, hw, basename, basename @ ''_dispatch_graph.json''])"

text \<open>The written file: its path and the document. \<open>model\<close> and \<open>quant\<close> are the IR's name and quantisation.\<close>

definition emit_graph ::
  "graph \<Rightarrow> string \<Rightarrow> string option \<Rightarrow> string \<Rightarrow> string \<Rightarrow> string \<Rightarrow> emit_error + string \<times> dispatch_graph" where
  "emit_graph ir model qt out_root target hw =
     (if ops ir = [] then Inl No_Ops
      else if list_ex (\<lambda>x. \<not> is_view x \<and> o_did x = None) (ops ir) then Inl No_Dispatch_Id
      else case build_graph ir of
        Inl e \<Rightarrow> Inl e
      | Inr doc \<Rightarrow>
          Inr (output_path out_root model target hw (case qt of None \<Rightarrow> ''fp32'' | Some q \<Rightarrow> q), doc))"

section \<open>One entry per dispatch\<close>

lemma dispatch_key_inject [simp]: "dispatch_key d = dispatch_key e \<longleftrightarrow> d = e"
  by (simp add: dispatch_key_def)

definition entry_of :: "op \<Rightarrow> int \<Rightarrow> string \<times> dg_entry" where
  "entry_of x d =
     (dispatch_key d, \<lparr>dg_id = d, dg_ordinal = 1, dg_total = 1, dg_deps = map dispatch_key (o_deps x)\<rparr>)"

lemma fst_entry_of [simp]: "fst (entry_of x d) = dispatch_key d"
  by (simp add: entry_of_def)

lemma add_entries:
  assumes "\<forall>x \<in> set xs. is_view x \<longleftrightarrow> o_did x = None" "distinct (dids xs)"
    and "\<forall>d \<in> set (dids xs). dispatch_key d \<notin> set (keys m)"
  shows "for_each add_entry xs m = Inr (m @ map (\<lambda>(d, x). entry_of x d) (id_pairs xs))"
  using assms
proof (induction xs arbitrary: m)
  case (Cons x xs)
  show ?case
  proof (cases "o_did x")
    case None
    then have "add_entry x m = Inr m" using Cons.prems(1) by (simp add: add_entry_def)
    with None Cons show ?thesis by simp
  next
    case (Some d)
    have fresh: "dispatch_key d \<notin> set (keys m)" using Cons.prems(3) Some by simp
    have "add_entry x m = Inr (m @ [entry_of x d])"
      using Cons.prems(1) Some fresh by (simp add: add_entry_def update_fresh entry_of_def)
    moreover have "for_each add_entry xs (m @ [entry_of x d]) =
        Inr ((m @ [entry_of x d]) @ map (\<lambda>(d, x). entry_of x d) (id_pairs xs))"
      by (rule Cons.IH) (use Cons.prems Some in \<open>auto simp: keys_def entry_of_def\<close>)
    ultimately show ?thesis using Some by simp
  qed
qed simp

text \<open>The entry at position \<open>i\<close> of a graph numbered \<open>0 .. n - 1\<close> with backward dependencies.\<close>

lemma entry_deps_before:
  assumes ids: "dids xs = map int [0..<n]" and bw: "backward xs"
    and cl: "\<Union> (set ` o_deps ` set xs) \<subseteq> set (dids xs)" and i: "i < n"
  shows "\<exists>x. id_pairs xs ! i = (int i, x) \<and> set (o_deps x) \<subseteq> set (map int [0..<i])"
proof -
  obtain d x where dx: "id_pairs xs ! i = (d, x)" by fastforce
  have len: "length (id_pairs xs) = n" using ids by (metis length_map length_upt map_fst_id_pairs diff_zero)
  then have "(d, x) \<in> set (id_pairs xs)" using i dx by (metis nth_mem)
  then have x: "x \<in> set xs" "o_did x = Some d" by (simp_all add: in_id_pairs)
  have d: "d = int i"
    using dx i len ids by (metis fst_conv map_fst_id_pairs nth_map nth_map_upt add_0 diff_zero)
  have "e \<in> set (map int [0..<i])" if "e \<in> set (o_deps x)" for e
  proof -
    have "e < int i" using bw x that d by (fastforce simp: backward_def)
    moreover have "e \<in> set (dids xs)" using cl x that by auto
    ultimately show ?thesis unfolding ids by auto
  qed
  with dx d show ?thesis by auto
qed

text \<open>
  On what \<open>_annotate_dispatches\<close> returns, the emitted document has one entry for every op that is
  not a view, in order and under distinct keys, with the op's id; every dependency it lists is the
  key of an entry before it, so the reader can resolve all of them.
\<close>
theorem dispatch_graph_closed:
  assumes "ops ir = fst (annotate_dispatches xs)" "xs \<noteq> []"
  shows "\<exists>doc. emit_graph ir model qt out_root target hw =
                 Inr (output_path out_root model target hw (case qt of None \<Rightarrow> ''fp32'' | Some q \<Rightarrow> q), doc) \<and>
           map fst (dg_dispatches doc) = map (dispatch_key \<circ> int) [0..<length (filter (\<lambda>x. \<not> is_view x) xs)] \<and>
           (\<forall>i < length (dg_dispatches doc).
              dg_id (snd (dg_dispatches doc ! i)) = int i \<and>
              set (dg_deps (snd (dg_dispatches doc ! i))) \<subseteq> set (map fst (take i (dg_dispatches doc))))"
proof -
  let ?n = "length (filter (\<lambda>x. \<not> is_view x) xs)"
  note A = annotated_closed [of xs, folded assms(1)]
  then have bw: "backward (ops ir)" and cl: "\<Union> (set ` o_deps ` set (ops ir)) \<subseteq> set (dids (ops ir))" by simp_all
  have ids: "dids (ops ir) = map int [0..<?n]" using A by (simp add: annotated_closed_form)
  have views: "\<forall>x \<in> set (ops ir). is_view x \<longleftrightarrow> o_did x = None"
    using assms(1) by (auto simp: annotated_closed_form annotated_def set_dispatch_def is_view_def)
  define doc where "doc = \<lparr>dg_dot_file = '''', dg_dispatches = map (\<lambda>(d, x). entry_of x d) (id_pairs (ops ir))\<rparr>"
  have build: "build_graph ir = Inr doc"
    using add_entries [OF views, of "[]"] by (simp add: build_graph_def doc_def ids distinct_map keys_def)
  have emit: "emit_graph ir model qt out_root target hw =
      Inr (output_path out_root model target hw (case qt of None \<Rightarrow> ''fp32'' | Some q \<Rightarrow> q), doc)"
    using build views assms by (auto simp: emit_graph_def list_ex_iff annotated_closed_form)
  have "map fst (dg_dispatches doc) = map dispatch_key (map fst (id_pairs (ops ir)))"
    by (simp add: doc_def comp_def case_prod_unfold del: map_fst_id_pairs)
  then have fsts: "map fst (dg_dispatches doc) = map (dispatch_key \<circ> int) [0..<?n]" unfolding map_fst_id_pairs ids by simp
  then have len: "length (dg_dispatches doc) = ?n" by (metis length_map length_upt diff_zero)
  have entry: "dg_id (snd (dg_dispatches doc ! i)) = int i \<and>
      set (dg_deps (snd (dg_dispatches doc ! i))) \<subseteq> set (map fst (take i (dg_dispatches doc)))" if i: "i < ?n" for i
  proof -
    obtain x where x: "id_pairs (ops ir) ! i = (int i, x)" "set (o_deps x) \<subseteq> set (map int [0..<i])"
      using entry_deps_before [OF ids bw cl i] by (elim exE conjE)
    have "dg_dispatches doc ! i = entry_of x (int i)" using x(1) len i by (simp add: doc_def)
    moreover have "map fst (take i (dg_dispatches doc)) = map dispatch_key (map int [0..<i])"
      using i unfolding take_map [symmetric] fsts by (simp add: take_map)
    ultimately show ?thesis using x(2) by (auto simp: entry_of_def)
  qed
  from emit fsts entry show ?thesis by (intro exI [of _ doc]) (simp add: len)
qed

theorem dispatch_graph_closed_witness:
  "\<exists>doc. emit_graph (plain_graph (fst (annotate_dispatches
            [mk_op ''l'' ''linear_s8'' None [] [''x''] [''y''], mk_op ''r'' ''relu_s8'' None [] [''y''] [''z'']])) [''z''])
           ''m'' None ''gen'' ''riscv'' ''RVV'' = Inr (''gen/m/riscv/RVV/m.fp32/m.fp32_dispatch_graph.json'', doc) \<and>
         map fst (dg_dispatches doc) = [''dispatch_0'', ''dispatch_1'']"
proof -
  let ?xs = "[mk_op ''l'' ''linear_s8'' None [] [''x''] [''y''], mk_op ''r'' ''relu_s8'' None [] [''y''] [''z'']]"
  have p: "output_path ''gen'' ''m'' ''riscv'' ''RVV'' (case None of None \<Rightarrow> ''fp32'' | Some q \<Rightarrow> q) =
      ''gen/m/riscv/RVV/m.fp32/m.fp32_dispatch_graph.json''" by code_simp
  have k: "map (dispatch_key \<circ> int) [0..<length (filter (\<lambda>x. \<not> is_view x) ?xs)] = [''dispatch_0'', ''dispatch_1'']"
    by code_simp
  have o: "ops (plain_graph (fst (annotate_dispatches ?xs)) [''z'']) = fst (annotate_dispatches ?xs)"
    by (simp add: plain_graph_def)
  from dispatch_graph_closed [OF o list.distinct(2), of "''m''" None "''gen''" "''riscv''" "''RVV''", unfolded p k]
  show ?thesis by (elim exE conjE) (intro exI conjI, assumption, assumption)
qed

end
