(* ===== verification/Xpurt.thy ===== *)
theory Xpurt
  imports Schedule "HOL-Library.Char_ord" "HOL-Library.List_Lexorder" "HOL-Library.Product_Lexorder"
begin

text \<open>
  \<^verbatim>\<open>pipeline/ingest_xpurt_schedule.py\<close>: a schedule for several networks, read against their IRs and the
  core registry, completed with the IR ops the scheduler dropped, ordered, and resolved to the table
  the runtime walks. Start times and durations are floats in the source; here they are any ordered
  type with a zero and an addition, about which nothing else is assumed. The content-hash warning
  and the messages are left out.
\<close>

section \<open>The document and the table\<close>

record 't raw_entry =
  re_id :: int
  re_job :: string
  re_deps :: "string list"
  re_target :: "string option"
  re_start :: "'t option"
  re_duration :: "'t option"
  re_impl :: "string option"
  re_time_dep :: "string option"
  re_synthesized :: bool

type_synonym 't raw = "(string, 't raw_entry) dict"

record 't xpurt_entry =
  x_entry_id :: nat
  x_key :: string
  x_job :: string
  x_network :: string
  x_instance :: nat
  x_dispatch_id :: int
  x_op :: string
  x_name :: string
  x_core_name :: string
  x_core_kind :: string
  x_impl :: string
  x_hart :: int
  x_harts :: "int list"
  x_start :: 't
  x_duration :: 't
  x_deps :: "nat list"
  x_time_dep :: int
  x_fanout :: "nat list"

datatype xpurt_error =
    No_Entries
  | Bad_Core_Index string
  | Unknown_Label string
  | No_Core_Of_Kind string
  | Core_Index_Too_Large int
  | Core_Index_Error int
  | Empty_Target
  | Mixed_Kinds "string list"
  | Hart_Twice "int list"
  | Unbound_Hart "int list"
  | Entries_Cycle "string list"
  | Unknown_Network string string
  | Dispatch_Not_In_IR string int
  | Missing_Target string
  | Depends_On_Unknown string string
  | Forward_Dep string string
  | Time_Dep_Unknown string string
  | Forward_Time_Dep string string

section \<open>Names and targets\<close>

text \<open>The known networks by decreasing length; a trailing number is the instance.\<close>

fun match_known :: "string \<Rightarrow> string list \<Rightarrow> (string \<times> nat) option" where
  "match_known job [] = None"
| "match_known job (b # bs) =
     (if job = b then Some (b, 0)
      else if prefix b job \<and> isdigit (drop (length b) job) then Some (b, digits_val (drop (length b) job))
      else match_known job bs)"

definition split_job_name :: "string \<Rightarrow> string list \<Rightarrow> string \<times> nat" where
  "split_job_name job known =
     (case match_known job (rev (sort_key length known)) of
        Some r \<Rightarrow> r
      | None \<Rightarrow>
          (case List.find (\<lambda>i. isdigit (drop i job)) [1..<length job] of
             None \<Rightarrow> (job, 0)
           | Some i \<Rightarrow> (take i job, digits_val (drop i job))))"

text \<open>\<open>label.partition("#")\<close> without the separator, and \<open>int(s)\<close>: blanks, a sign and digits.\<close>

definition partition_hash :: "string \<Rightarrow> string \<times> string" where
  "partition_hash s = (takeWhile (\<lambda>c. c \<noteq> CHR ''#'') s, drop 1 (dropWhile (\<lambda>c. c \<noteq> CHR ''#'') s))"

definition int_of_text :: "string \<Rightarrow> int option" where
  "int_of_text s =
     (case strip s of
        [] \<Rightarrow> None
      | c # cs \<Rightarrow>
          (if c = CHR ''-'' then if isdigit cs then Some (- int (digits_val cs)) else None
           else if c = CHR ''+'' then if isdigit cs then Some (int (digits_val cs)) else None
           else if isdigit (c # cs) then Some (int (digits_val (c # cs))) else None))"

text \<open>\<open>xs[i]\<close>: a negative index counts from the end.\<close>

definition py_index :: "'a list \<Rightarrow> int \<Rightarrow> 'a option" where
  "py_index xs i =
     (let j = (if i < 0 then i + int (length xs) else i) in
      if 0 \<le> j \<and> j < int (length xs) then Some (xs ! nat j) else None)"

definition resolve_label :: "string \<Rightarrow> string \<Rightarrow> registry \<Rightarrow> string \<Rightarrow> xpurt_error + string \<times> string \<times> int" where
  "resolve_label p_kind e_kind reg label =
     (let (base, idx_str) = partition_hash label in
      case (if idx_str = [] then Some 0 else int_of_text idx_str) of
        None \<Rightarrow> Inl (Bad_Core_Index label)
      | Some idx \<Rightarrow>
          (case (if upper base = ''CPU_P'' then Some p_kind else if upper base = ''CPU_E'' then Some e_kind else None) of
             None \<Rightarrow> Inl (Unknown_Label label)
           | Some kind \<Rightarrow>
               (let cs = get_or (r_by_kind reg) kind [] in
                if cs = [] then Inl (No_Core_Of_Kind kind)
                else if idx \<ge> int (length cs) then Inl (Core_Index_Too_Large idx)
                else case py_index cs idx of
                  None \<Rightarrow> Inl (Core_Index_Error idx)
                | Some c \<Rightarrow> Inr (c_name c, c_kind c, case c_harts c of [] \<Rightarrow> -1 | h # _ \<Rightarrow> h))))"

text \<open>The owner's core and kind with all reserved harts, the owner's first.\<close>

definition resolve_labels :: "string \<Rightarrow> string \<Rightarrow> registry \<Rightarrow> string \<Rightarrow> xpurt_error + string \<times> string \<times> int \<times> int list" where
  "resolve_labels p_kind e_kind reg target =
     (let labels = filter (\<lambda>l. l \<noteq> []) (map strip (split_on (CHR ''+'') target)) in
      if labels = [] then Inl Empty_Target
      else case map_res (resolve_label p_kind e_kind reg) labels of
        Inl e \<Rightarrow> Inl e
      | Inr rs \<Rightarrow>
          (let kinds = map (\<lambda>(n, k, h). k) rs; harts = map (\<lambda>(n, k, h). h) rs in
           if length (remdups kinds) \<noteq> 1 then Inl (Mixed_Kinds kinds)
           else if \<not> distinct harts then Inl (Hart_Twice harts)
           else if length harts > 1 \<and> list_ex (\<lambda>h. h < 0) harts then Inl (Unbound_Hart harts)
           else case hd rs of (n, k, h) \<Rightarrow> Inr (n, k, h, harts)))"

section \<open>The networks\<close>

definition zero_cost_ops :: "string set" where
  "zero_cost_ops = {''view'', ''chunk2_c1''}"

text \<open>Dispatch ids to the ops, and to the index in the generated dispatch table (-1: no call).\<close>

definition remap_step :: "op \<Rightarrow> (int, op) dict \<times> (int, int) dict \<times> int \<Rightarrow> (int, op) dict \<times> (int, int) dict \<times> int" where
  "remap_step x s =
     (case o_did x of
        None \<Rightarrow> s
      | Some d \<Rightarrow>
          (case s of (idx, rm, n) \<Rightarrow>
             (if o_kind x \<in> zero_cost_ops then (AList.update d x idx, AList.update d (-1) rm, n)
              else (AList.update d x idx, AList.update d n rm, n + 1))))"

definition network_index :: "graph \<Rightarrow> (int, op) dict \<times> (int, int) dict" where
  "network_index ir = (case fold remap_step (ops ir) ([], [], 0) of (idx, rm, n) \<Rightarrow> (idx, rm))"

type_synonym networks = "(string, graph) dict"

definition op_index :: "networks \<Rightarrow> string \<Rightarrow> (int, op) dict" where
  "op_index irs net = (case map_of irs net of None \<Rightarrow> [] | Some ir \<Rightarrow> fst (network_index ir))"

section \<open>Completing the schedule with the IR's ops\<close>

definition entry_key :: "string \<Rightarrow> int \<Rightarrow> string" where
  "entry_key job d = job @ ''_dispatch_'' @ str_int d"

definition start_of :: "'t::zero raw_entry \<Rightarrow> 't" where
  "start_of d = (case re_start d of None \<Rightarrow> 0 | Some t \<Rightarrow> t)"

definition duration_of :: "'t::zero raw_entry \<Rightarrow> 't" where
  "duration_of d = (case re_duration d of None \<Rightarrow> 0 | Some t \<Rightarrow> t)"

text \<open>The scheduled ids of every job, and the network of the jobs whose network is known.\<close>

definition scheduled_jobs :: "'t raw \<Rightarrow> (string, int list) dict" where
  "scheduled_jobs raw = fold (\<lambda>(k, d). append_to (re_job d) (re_id d)) raw []"

definition job_network :: "networks \<Rightarrow> string \<Rightarrow> string option" where
  "job_network irs job =
     (let net = fst (split_job_name job (keys irs)) in if has_key irs net then Some net else None)"

definition scalar_fp_ops :: "string set" where
  "scalar_fp_ops = {''silu_s8'', ''elu_s8'', ''relu_s8'', ''sigmoid_s8'', ''tanh_s8'', ''gelu_s8'', ''hardswish_s8'', ''softmax_s8''}"

text \<open>From the producers present: their keys, the latest end, the target of the first that has one.\<close>

definition producer_step ::
  "'t raw \<Rightarrow> string \<Rightarrow> int \<Rightarrow> string list \<times> 't \<times> string option \<Rightarrow> string list \<times> ('t::{linorder,zero,plus}) \<times> string option" where
  "producer_step raw job p s =
     (case map_of raw (entry_key job p) of
        None \<Rightarrow> s
      | Some pr \<Rightarrow>
          (case s of (ks, m, tgt) \<Rightarrow>
             (ks @ [entry_key job p], if start_of pr + duration_of pr > m then start_of pr + duration_of pr else m,
              case tgt of None \<Rightarrow> re_target pr | Some t \<Rightarrow> Some t)))"

definition synthesize :: "string \<Rightarrow> (int, op) dict \<Rightarrow> int \<Rightarrow> 't raw \<Rightarrow> ('t::{linorder,zero,plus}) raw" where
  "synthesize job idx did raw =
     (case map_of idx did of
        None \<Rightarrow> raw
      | Some x \<Rightarrow>
          (let (ks, m, tgt) = fold (producer_step raw job) (o_deps x) ([], 0, None);
               (m, tgt) = (if tgt \<noteq> None then (m, tgt)
                           else case List.find (\<lambda>kd. re_job (snd kd) = job) raw of
                             None \<Rightarrow> (m, None)
                           | Some (k, d) \<Rightarrow> (start_of d, re_target d));
               tgt = (if o_kind x \<in> scalar_fp_ops then ''CPU_E#0'' else case tgt of None \<Rightarrow> ''CPU_P#0'' | Some t \<Rightarrow> t)
           in AList.update (entry_key job did)
                \<lparr>re_id = did, re_job = job, re_deps = ks, re_target = Some tgt, re_start = Some m,
                 re_duration = Some 0, re_impl = None, re_time_dep = None, re_synthesized = True\<rparr> raw))"

text \<open>The synthesized producers of an op become dependencies of its entry.\<close>

definition thread_deps :: "string \<Rightarrow> int list \<Rightarrow> op \<Rightarrow> 't raw \<Rightarrow> 't raw" where
  "thread_deps job synth x raw =
     (case o_did x of
        None \<Rightarrow> raw
      | Some c \<Rightarrow>
          (case map_of raw (entry_key job c) of
             None \<Rightarrow> raw
           | Some d \<Rightarrow>
               (let deps = fold (\<lambda>p ds. if p \<in> set synth \<and> entry_key job p \<notin> set ds then ds @ [entry_key job p] else ds)
                             (o_deps x) (re_deps d)
                in AList.update (entry_key job c) (d\<lparr>re_deps := deps\<rparr>) raw)))"

definition complete_job :: "networks \<Rightarrow> string \<times> int list \<Rightarrow> 't raw \<Rightarrow> ('t::{linorder,zero,plus}) raw" where
  "complete_job irs js raw =
     (case job_network irs (fst js) of
        None \<Rightarrow> raw
      | Some net \<Rightarrow>
          (let idx = op_index irs net; missing = sorted_set (filter (\<lambda>d. d \<notin> set (snd js)) (keys idx)) in
           if missing = [] then raw
           else case map_of irs net of
             None \<Rightarrow> raw
           | Some ir \<Rightarrow>
               fold (thread_deps (fst js) missing) (ops ir) (fold (synthesize (fst js) idx) missing raw)))"

definition complete_schedule :: "networks \<Rightarrow> 't raw \<Rightarrow> ('t::{linorder,zero,plus}) raw" where
  "complete_schedule irs raw = fold (complete_job irs) (scheduled_jobs raw) raw"

section \<open>Edges\<close>

definition data_edges :: "'t raw \<Rightarrow> (string \<times> string) list" where
  "data_edges raw = concat (map (\<lambda>(k, d). map (\<lambda>dep. (dep, k)) (filter (has_key raw) (re_deps d))) raw)"

text \<open>\<open>_reaches\<close>: a depth-first search along the edges admitted so far.\<close>

fun visit_next :: "'a \<Rightarrow> 'a list \<Rightarrow> 'a list \<Rightarrow> 'a list \<Rightarrow> ('a list \<times> 'a list) option" where
  "visit_next dst [] seen stack = Some (seen, stack)"
| "visit_next dst (n # ns) seen stack =
     (if n = dst then None
      else if n \<in> set seen then visit_next dst ns seen stack
      else visit_next dst ns (n # seen) (stack @ [n]))"

lemma visit_next_measure:
  "visit_next dst ns seen stack = Some (seen', stack') \<Longrightarrow> finite T \<Longrightarrow> set ns \<subseteq> T \<Longrightarrow>
   2 * card (T - set seen') + length stack' \<le> 2 * card (T - set seen) + length stack"
proof (induction dst ns seen stack rule: visit_next.induct)
  case (2 dst n ns seen stack)
  show ?case
  proof (cases "n \<in> set seen")
    case True
    with 2 show ?thesis by (auto split: if_splits)
  next
    case False
    have nd: "n \<noteq> dst" using "2.prems"(1) by auto
    have "2 * card (T - set seen') + length stack' \<le> 2 * card (T - set (n # seen)) + length (stack @ [n])"
      by (rule "2.IH"(2)) (use 2 False nd in auto)
    moreover have "card (T - set (n # seen)) < card (T - set seen)"
      using 2 False by (intro psubset_card_mono) auto
    ultimately show ?thesis by simp
  qed
qed simp

function search :: "('a \<times> 'a) list \<Rightarrow> 'a \<Rightarrow> 'a list \<Rightarrow> 'a list \<Rightarrow> bool" where
  "search es dst seen stack =
     (if stack = [] then False
      else case visit_next dst (children es (last stack)) seen (butlast stack) of
        None \<Rightarrow> True
      | Some (seen', stack') \<Rightarrow> search es dst seen' stack')"
  by pat_completeness auto
termination
proof (relation "measure (\<lambda>(es, dst, seen, stack). 2 * card (snd ` set es - set seen) + length stack)", goal_cases)
  case (2 es dst seen stack x seen' stack')
  then have *: "visit_next dst (children es (last stack)) seen (butlast stack) = Some (seen', stack')" "stack \<noteq> []"
    by simp_all
  have "set (children es (last stack)) \<subseteq> snd ` set es" by (auto simp: children_def)
  from visit_next_measure [OF *(1) _ this] *(2) show ?case by (cases stack rule: rev_cases) simp_all
qed simp

declare search.simps [simp del]

definition reaches :: "('a \<times> 'a) list \<Rightarrow> 'a \<Rightarrow> 'a \<Rightarrow> bool" where
  "reaches es src dst = (src = dst \<or> search es dst [src] [src])"

text \<open>A time dependency is admitted unless it closes a cycle; the second component collects the dropped ones.\<close>

definition admit_step ::
  "'t raw \<Rightarrow> string \<times> 't raw_entry \<Rightarrow> (string \<times> string) list \<times> (string \<times> string) list \<Rightarrow>
   (string \<times> string) list \<times> (string \<times> string) list" where
  "admit_step raw kd s =
     (case re_time_dep (snd kd) of
        None \<Rightarrow> s
      | Some t \<Rightarrow>
          (if t = [] \<or> \<not> has_key raw t then s
           else if reaches (fst s) (fst kd) t then (fst s, snd s @ [(fst kd, t)])
           else (fst s @ [(t, fst kd)], snd s)))"

definition all_edges :: "'t raw \<Rightarrow> (string \<times> string) list \<times> (string \<times> string) list" where
  "all_edges raw = fold (admit_step raw) (sort_key fst raw) (data_edges raw, [])"

section \<open>The order\<close>

definition heap_key :: "'t raw \<Rightarrow> string \<Rightarrow> ('t::{linorder,zero}) \<times> string" where
  "heap_key raw k = ((case map_of raw k of None \<Rightarrow> 0 | Some d \<Rightarrow> start_of d), k)"

definition pop_earliest ::
  "('t::{linorder,zero}) raw \<times> (string \<times> string) list \<Rightarrow> string list \<Rightarrow> nat" where
  "pop_earliest g ready = min_index (heap_key (fst g)) ready"

definition entry_order :: "('t::{linorder,zero}) raw \<Rightarrow> (string \<times> string) list \<Rightarrow> string list" where
  "entry_order raw es =
     (let indeg = indegrees (keys raw) es in
      fst (kahn_loop (pop_earliest (raw, es)) (\<lambda>k. count_down (children es k)) (length raw)
             (ready_nodes (keys raw) indeg) indeg []))"

section \<open>The entries\<close>

definition resolve_deps :: "string list \<Rightarrow> string \<Rightarrow> nat \<Rightarrow> string list \<Rightarrow> xpurt_error + nat list" where
  "resolve_deps order key i deps =
     map_res (\<lambda>dep. case List.find (\<lambda>j. order ! j = dep) [0..<length order] of
         None \<Rightarrow> Inl (Depends_On_Unknown key dep)
       | Some j \<Rightarrow> if j \<ge> i then Inl (Forward_Dep key dep) else Inr j) deps"

definition resolve_time_dep :: "string list \<Rightarrow> string \<Rightarrow> nat \<Rightarrow> string option \<Rightarrow> xpurt_error + int" where
  "resolve_time_dep order key i td =
     (case td of
        None \<Rightarrow> Inr (-1)
      | Some t \<Rightarrow>
          (if t = [] then Inr (-1)
           else case List.find (\<lambda>j. order ! j = t) [0..<length order] of
             None \<Rightarrow> Inl (Time_Dep_Unknown key t)
           | Some j \<Rightarrow> if j \<ge> i then Inl (Forward_Time_Dep key t) else Inr (int j)))"

definition make_entry ::
  "string \<Rightarrow> string \<Rightarrow> networks \<Rightarrow> registry \<Rightarrow> 't raw \<Rightarrow> string list \<Rightarrow> nat \<times> string \<Rightarrow>
   xpurt_error + ('t::zero) xpurt_entry" where
  "make_entry p_kind e_kind irs reg raw order ik =
     (let i = fst ik; key = snd ik in
      case map_of raw key of
        None \<Rightarrow> Inl (Missing_Target key)
      | Some d \<Rightarrow>
          (let (net, inst) = split_job_name (re_job d) (keys irs) in
           case map_of irs net of
             None \<Rightarrow> Inl (Unknown_Network key net)
           | Some ir \<Rightarrow>
               (case map_of (fst (network_index ir)) (re_id d) of
                  None \<Rightarrow> Inl (Dispatch_Not_In_IR key (re_id d))
                | Some x \<Rightarrow>
                    (case re_target d of
                       None \<Rightarrow> Inl (Missing_Target key)
                     | Some tgt \<Rightarrow>
                         (case resolve_labels p_kind e_kind reg tgt of
                            Inl e \<Rightarrow> Inl e
                          | Inr (cname, ckind, hart, harts) \<Rightarrow>
                              (case resolve_deps order key i (re_deps d) of
                                 Inl e \<Rightarrow> Inl e
                               | Inr deps \<Rightarrow>
                                   (case resolve_time_dep order key i (re_time_dep d) of
                                      Inl e \<Rightarrow> Inl e
                                    | Inr td \<Rightarrow>
                                        Inr \<lparr>x_entry_id = i, x_key = key, x_job = re_job d, x_network = net, x_instance = inst,
                                             x_dispatch_id = get_or (snd (network_index ir)) (re_id d) (-1),
                                             x_op = o_kind x, x_name = o_name x, x_core_name = cname, x_core_kind = ckind,
                                             x_impl = (case re_impl d of Some (c # cs) \<Rightarrow> c # cs | _ \<Rightarrow> ckind),
                                             x_hart = hart, x_harts = harts, x_start = start_of d, x_duration = duration_of d,
                                             x_deps = sorted_set deps, x_time_dep = td, x_fanout = []\<rparr>)))))))"

text \<open>The consumers that wait on an entry, each once.\<close>

definition consumers :: "'t xpurt_entry list \<Rightarrow> nat \<Rightarrow> nat list" where
  "consumers es i =
     sorted_set (concat (map (\<lambda>c. (if i \<in> set (x_deps c) then [x_entry_id c] else []) @
                                  (if x_time_dep c = int i then [x_entry_id c] else [])) es))"

definition add_fanout :: "'t xpurt_entry list \<Rightarrow> 't xpurt_entry list" where
  "add_fanout es = map (\<lambda>e. e\<lparr>x_fanout := consumers es (x_entry_id e)\<rparr>) es"

definition load_xpurt ::
  "string \<Rightarrow> string \<Rightarrow> bool \<Rightarrow> 't raw option \<Rightarrow> networks \<Rightarrow> registry \<Rightarrow>
   xpurt_error + ('t::{linorder,zero,plus}) xpurt_entry list" where
  "load_xpurt p_kind e_kind skip_completion doc irs reg =
     (case doc of
        None \<Rightarrow> Inl No_Entries
      | Some raw0 \<Rightarrow>
          (if raw0 = [] then Inl No_Entries
           else let raw = (if skip_completion then raw0 else complete_schedule irs raw0);
                    order = entry_order raw (fst (all_edges raw))
             in if length order \<noteq> length raw then Inl (Entries_Cycle (filter (\<lambda>k. k \<notin> set order) (keys raw)))
                else case map_res (make_entry p_kind e_kind irs reg raw order) (enumerate 0 order) of
                  Inl e \<Rightarrow> Inl e
                | Inr es \<Rightarrow> Inr (add_fanout es)))"

end
