(* ===== verification/Xpurt_Facts.thy ===== *)
theory Xpurt_Facts
  imports Xpurt
begin

text \<open>
  The table of \<^verbatim>\<open>ingest_xpurt_schedule.load\<close>: every wait points backward and is matched by exactly one
  signal, every IR dispatch of a scheduled job has an entry, admitting time dependencies never closes
  a cycle, and a dropped one makes the load fail after all.
\<close>

section \<open>The search\<close>

lemma visit_next_None: "visit_next dst ns seen stack = None \<longleftrightarrow> dst \<in> set ns"
  by (induction dst ns seen stack rule: visit_next.induct) auto

lemma visit_next_Some:
  "visit_next dst ns seen stack = Some (seen', stack') \<Longrightarrow>
   dst \<notin> set ns \<and> set seen' = set seen \<union> set ns \<and> set stack \<subseteq> set stack' \<and>
   set stack' \<subseteq> set stack \<union> set ns \<and> set seen' \<subseteq> set seen \<union> set stack'"
  by (induction dst ns seen stack rule: visit_next.induct) (auto split: if_splits)

lemma set_children: "set (children es x) = {y. (x, y) \<in> set es}"
  by (force simp: children_def)

lemma search_sound: "search es dst seen stack \<Longrightarrow> \<exists>x \<in> set stack. (x, dst) \<in> (set es)\<^sup>+"
proof (induction es dst seen stack rule: search.induct)
  case (1 es dst seen stack)
  then have ne: "stack \<noteq> []" by (subst (asm) search.simps) (simp split: if_splits)
  show ?case
  proof (cases "visit_next dst (children es (last stack)) seen (butlast stack)")
    case None
    then have "(last stack, dst) \<in> set es" by (simp add: visit_next_None set_children)
    then show ?thesis using ne by (intro bexI [of _ "last stack"]) auto
  next
    case (Some r)
    obtain seen' stack' where r: "r = (seen', stack')" by fastforce
    have "search es dst seen' stack'" using "1.prems" ne Some r by (subst (asm) search.simps) simp
    then obtain x where x: "x \<in> set stack'" "(x, dst) \<in> (set es)\<^sup>+"
      using "1.IH" [OF ne Some [unfolded r] refl] by blast
    from visit_next_Some [OF Some [unfolded r]] x(1)
    have "x \<in> set (butlast stack) \<or> (last stack, x) \<in> set es" by (auto simp: set_children)
    then show ?thesis
    proof
      assume "x \<in> set (butlast stack)"
      with x(2) show ?thesis by (meson in_set_butlastD)
    next
      assume "(last stack, x) \<in> set es"
      with x(2) have "(last stack, dst) \<in> (set es)\<^sup>+" by (metis trancl_into_trancl2)
      then show ?thesis using ne by (intro bexI [of _ "last stack"]) auto
    qed
  qed
qed

lemma search_complete:
  "\<not> search es dst seen stack \<Longrightarrow> set stack \<subseteq> set seen \<Longrightarrow>
   \<forall>x \<in> set seen - set stack. \<forall>y. (x, y) \<in> set es \<longrightarrow> y \<in> set seen \<and> y \<noteq> dst \<Longrightarrow>
   \<exists>C. set seen \<subseteq> C \<and> (\<forall>x \<in> C. \<forall>y. (x, y) \<in> set es \<longrightarrow> y \<in> C \<and> y \<noteq> dst)"
proof (induction es dst seen stack rule: search.induct)
  case (1 es dst seen stack)
  show ?case
  proof (cases "stack = []")
    case True
    with "1.prems" show ?thesis by (intro exI [of _ "set seen"]) auto
  next
    case ne: False
    obtain seen' stack' where r: "visit_next dst (children es (last stack)) seen (butlast stack) = Some (seen', stack')"
      using "1.prems"(1) ne by (subst (asm) search.simps) (auto split: option.splits)
    note V = visit_next_Some [OF r]
    have "\<not> search es dst seen' stack'" using "1.prems"(1) ne r by (subst (asm) search.simps) simp
    moreover have "set stack' \<subseteq> set seen'"
    proof -
      have "set (butlast stack) \<subseteq> set seen" using "1.prems"(2) by (auto dest: in_set_butlastD)
      with V show ?thesis by blast
    qed
    moreover have "\<forall>x \<in> set seen' - set stack'. \<forall>y. (x, y) \<in> set es \<longrightarrow> y \<in> set seen' \<and> y \<noteq> dst"
    proof (intro ballI allI impI)
      fix x y assume x: "x \<in> set seen' - set stack'" and y: "(x, y) \<in> set es"
      show "y \<in> set seen' \<and> y \<noteq> dst"
      proof (cases "x = last stack")
        case True
        with y have "y \<in> set (children es (last stack))" by (simp add: set_children)
        then show ?thesis using V by auto
      next
        case False
        have "set stack = insert (last stack) (set (butlast stack))"
          using ne by (metis append_butlast_last_id insert_is_Un list.simps(15) rotate1.simps(2) set_append set_rotate1 sup_bot.right_neutral)
        with False x V have "x \<in> set seen - set stack" by auto
        with "1.prems"(3) y V show ?thesis by blast
      qed
    qed
    ultimately obtain C where C: "set seen' \<subseteq> C" "\<forall>x \<in> C. \<forall>y. (x, y) \<in> set es \<longrightarrow> y \<in> C \<and> y \<noteq> dst"
      using "1.IH" [OF ne r refl] by metis
    with V show ?thesis by (intro exI [of _ C]) auto
  qed
qed

lemma reaches_iff: "reaches es src dst \<longleftrightarrow> (src, dst) \<in> (set es)\<^sup>*"
proof
  assume "reaches es src dst"
  then show "(src, dst) \<in> (set es)\<^sup>*"
    using search_sound [of es dst "[src]" "[src]"] by (auto simp: reaches_def trancl_into_rtrancl)
next
  assume r: "(src, dst) \<in> (set es)\<^sup>*"
  show "reaches es src dst"
  proof (rule ccontr)
    assume n: "\<not> reaches es src dst"
    then have ne: "src \<noteq> dst" and "\<not> search es dst [src] [src]" by (auto simp: reaches_def)
    from search_complete [OF this(2)] obtain C
      where C: "src \<in> C" "\<forall>x \<in> C. \<forall>y. (x, y) \<in> set es \<longrightarrow> y \<in> C \<and> y \<noteq> dst" by auto
    have "z \<in> C \<and> (z = src \<or> z \<noteq> dst)" if "(src, z) \<in> (set es)\<^sup>*" for z
      using that by (induction rule: rtrancl_induct) (use C in auto)
    from this [OF r] ne show False by simp
  qed
qed

section \<open>Admitting time dependencies\<close>

definition edges_in :: "string set \<Rightarrow> (string \<times> string) list \<Rightarrow> bool" where
  "edges_in K es \<longleftrightarrow> fst ` set es \<subseteq> K \<and> snd ` set es \<subseteq> K"

lemma edges_in_data: "edges_in (set (keys raw)) (data_edges raw)"
  by (force simp: edges_in_def data_edges_def has_key_iff keys_def)

text \<open>
  Invariant of the loop over the entries: edges are only added, stay acyclic when the data edges are, and
  every dropped pair was already reachable.
\<close>

definition admit_inv :: "'t raw \<Rightarrow> (string \<times> string) list \<times> (string \<times> string) list \<Rightarrow> bool" where
  "admit_inv raw s \<longleftrightarrow>
     set (data_edges raw) \<subseteq> set (fst s) \<and> edges_in (set (keys raw)) (fst s) \<and>
     (acyclic (set (data_edges raw)) \<longrightarrow> acyclic (set (fst s))) \<and>
     (\<forall>(k, t) \<in> set (snd s). t \<noteq> [] \<and> (k, t) \<in> (set (fst s))\<^sup>* \<and>
        (\<exists>d. (k, d) \<in> set raw \<and> re_time_dep d = Some t))"

lemma admit_step_inv:
  assumes I: "admit_inv raw s" and kd: "kd \<in> set raw"
  shows "admit_inv raw (admit_step raw kd s)"
proof (cases "re_time_dep (snd kd)")
  case None
  with I show ?thesis by (simp add: admit_step_def)
next
  case (Some t)
  show ?thesis
  proof (cases "t = [] \<or> \<not> has_key raw t")
    case True
    with I Some show ?thesis by (simp add: admit_step_def)
  next
    case ok: False
    show ?thesis
    proof (cases "reaches (fst s) (fst kd) t")
      case True
      then have "(fst kd, t) \<in> (set (fst s))\<^sup>*" by (simp add: reaches_iff)
      moreover have "\<exists>d. (fst kd, d) \<in> set raw \<and> re_time_dep d = Some t"
        using kd Some by (intro exI [of _ "snd kd"]) simp
      ultimately show ?thesis using I Some ok True by (simp add: admit_step_def admit_inv_def)
    next
      case False
      then have no: "(fst kd, t) \<notin> (set (fst s))\<^sup>*" by (simp add: reaches_iff)
      have step: "admit_step raw kd s = (fst s @ [(t, fst kd)], snd s)"
        using Some ok False by (simp add: admit_step_def)
      have "fst kd \<in> set (keys raw)" using kd by (force simp: keys_def)
      moreover have "t \<in> set (keys raw)" using ok by (simp add: has_key_iff)
      moreover have "acyclic (insert (t, fst kd) (set (fst s)))" if "acyclic (set (fst s))"
        using that no by (simp add: acyclic_insert)
      moreover have "(set (fst s))\<^sup>* \<subseteq> (insert (t, fst kd) (set (fst s)))\<^sup>*"
        by (intro rtrancl_mono) auto
      ultimately show ?thesis using I unfolding step admit_inv_def by (auto simp: edges_in_def)
    qed
  qed
qed

lemma all_edges_inv: "admit_inv raw (all_edges raw)"
proof -
  have "set kds \<subseteq> set raw \<Longrightarrow> admit_inv raw s \<Longrightarrow> admit_inv raw (fold (admit_step raw) kds s)" for kds s
  proof (induction kds arbitrary: s)
    case (Cons kd kds)
    then have "admit_inv raw (admit_step raw kd s)" by (intro admit_step_inv) auto
    with Cons show ?case by simp
  qed simp
  moreover have "admit_inv raw (data_edges raw, [])" by (simp add: admit_inv_def edges_in_data)
  ultimately show ?thesis by (simp add: all_edges_def)
qed

section \<open>The order of the entries\<close>

interpretation xpurt_sort: counters pop_earliest "\<lambda>g. keys (fst g)" snd
  by unfold_locales (simp add: pop_earliest_def min_index_lt)

lemma entry_order_facts:
  fixes raw :: "('t::{linorder,zero}) raw"
  assumes d: "distinct (keys raw)" and e: "edges_in (set (keys raw)) es"
  shows "distinct (entry_order raw es)" "set (entry_order raw es) \<subseteq> set (keys raw)"
    "topo (\<lambda>k. {p. (p, k) \<in> set es}) (entry_order raw es)"
    "length (entry_order raw es) = length raw \<longleftrightarrow> acyclic (set es)"
proof -
  let ?g = "(raw, es)"
  have wf: "xpurt_sort.closed_graph ?g" using d e by (simp add: xpurt_sort.closed_graph_def edges_in_def)
  have cnt: "get_or (indegrees (keys raw) es) x 0 = int (waits es {} x)" for x
    by (simp add: get_or_indegrees waits_def)
  have start: "xpurt_sort.start_ok ?g (ready_nodes (keys raw) (indegrees (keys raw) es)) (indegrees (keys raw) es)"
    using d by (auto simp: xpurt_sort.start_ok_def xpurt_sort.counts_ok_def cnt ready_nodes_def waits_def filter_empty_conv)
  have f: "length (keys (fst ?g)) \<le> length raw" by (simp add: keys_def)
  note R = xpurt_sort.kahn_result [OF wf start f]
  have o: "entry_order raw es = fst (kahn_loop (pop_earliest ?g) (\<lambda>k. count_down (children (snd ?g) k)) (length raw)
      (ready_nodes (keys raw) (indegrees (keys raw) es)) (indegrees (keys raw) es) [])"
    by (simp add: entry_order_def Let_def)
  show "distinct (entry_order raw es)" unfolding o by (rule R(1))
  show "set (entry_order raw es) \<subseteq> set (keys raw)" unfolding o using R(2) by simp
  show "topo (\<lambda>k. {p. (p, k) \<in> set es}) (entry_order raw es)" unfolding o using R(3) by simp
  have graph: "xpurt_sort.dep_graph ?g = set es"
    unfolding xpurt_sort.dep_graph_def using e by (force simp: edges_in_def)
  have l: "length (keys (fst ?g)) = length raw" by (simp add: keys_def)
  show "length (entry_order raw es) = length raw \<longleftrightarrow> acyclic (set es)"
    using xpurt_sort.kahn_complete_iff [OF wf start f] unfolding o graph l .
qed

lemma full_order:
  fixes raw :: "('t::{linorder,zero}) raw"
  assumes "distinct (keys raw)" "edges_in (set (keys raw)) es" "length (entry_order raw es) = length raw"
  shows "set (entry_order raw es) = set (keys raw)"
proof (rule card_subset_eq)
  note F = entry_order_facts [OF assms(1,2)]
  show "set (entry_order raw es) \<subseteq> set (keys raw)" by (rule F(2))
  have "length (keys raw) = length raw" by (simp add: keys_def)
  then show "card (set (entry_order raw es)) = card (set (keys raw))"
    using distinct_card [OF F(1)] distinct_card [OF assms(1)] assms(3) by simp
qed simp

section \<open>What a load returns\<close>

lemma make_entry_parts:
  assumes "make_entry p_kind e_kind irs reg raw order (i, key) = Inr e"
  shows "\<exists>d deps. map_of raw key = Some d \<and> x_entry_id e = i \<and> x_key e = key \<and> x_job e = re_job d \<and>
           x_network e = fst (split_job_name (re_job d) (keys irs)) \<and>
           resolve_deps order key i (re_deps d) = Inr deps \<and> x_deps e = sorted_set deps \<and>
           resolve_time_dep order key i (re_time_dep d) = Inr (x_time_dep e)"
  using assms
  by (auto simp: make_entry_def Let_def split: option.splits prod.splits sum.splits)

lemma resolve_deps_back: "resolve_deps order key i deps = Inr js \<Longrightarrow> j \<in> set js \<Longrightarrow> j < i"
  unfolding resolve_deps_def by (auto dest!: map_res_set split: option.splits if_splits)

lemma resolve_time_dep_back: "resolve_time_dep order key i td = Inr j \<Longrightarrow> - 1 \<le> j \<and> j < int i"
  by (auto simp: resolve_time_dep_def split: option.splits if_splits)

lemma load_parts:
  assumes "load_xpurt p_kind e_kind skip doc irs reg = Inr es"
  obtains raw0 raw order ms where "doc = Some raw0" "raw = (if skip then raw0 else complete_schedule irs raw0)"
    "order = entry_order raw (fst (all_edges raw))" "length order = length raw" "length es = length order"
    "es = add_fanout ms" "\<And>i. i < length order \<Longrightarrow> make_entry p_kind e_kind irs reg raw order (i, order ! i) = Inr (ms ! i)"
    "length ms = length order"
proof -
  from assms obtain raw0 where raw0: "doc = Some raw0" "raw0 \<noteq> []"
    by (auto simp: load_xpurt_def split: option.splits if_splits)
  define raw where "raw = (if skip then raw0 else complete_schedule irs raw0)"
  define order where "order = entry_order raw (fst (all_edges raw))"
  have run: "load_xpurt p_kind e_kind skip doc irs reg =
      (if length order \<noteq> length raw then Inl (Entries_Cycle (filter (\<lambda>k. k \<notin> set order) (keys raw)))
       else case map_res (make_entry p_kind e_kind irs reg raw order) (enumerate 0 order) of
         Inl e \<Rightarrow> Inl e | Inr es \<Rightarrow> Inr (add_fanout es))"
    using raw0 unfolding load_xpurt_def Let_def by (simp only: option.case if_False raw_def order_def)
  with assms have len: "length order = length raw" by (auto split: if_splits)
  from assms len obtain ms where ms: "map_res (make_entry p_kind e_kind irs reg raw order) (enumerate 0 order) = Inr ms"
    "es = add_fanout ms" unfolding run by (auto split: sum.splits)
  show ?thesis
  proof (rule that [OF raw0(1) raw_def order_def len _ ms(2)])
    show l: "length ms = length order" using map_res_length [OF ms(1)] by simp
    then show "length es = length order" by (simp add: ms(2) add_fanout_def)
    show "make_entry p_kind e_kind irs reg raw order (i, order ! i) = Inr (ms ! i)" if "i < length order" for i
      using map_res_nth [OF ms(1), of i] that by (simp add: nth_enumerate_eq)
  qed
qed

lemma consumers_filter:
  assumes "\<And>i. i < length ms \<Longrightarrow> x_entry_id (ms ! i) = i"
  shows "consumers ms i = filter (\<lambda>c. i \<in> set (x_deps (ms ! c)) \<or> x_time_dep (ms ! c) = int i) [0..<length ms]"
proof (rule sorted_distinct_set_unique)
  show "sorted (consumers ms i)" "distinct (consumers ms i)" by (simp_all add: consumers_def)
  have "c \<in> set (consumers ms i) \<longleftrightarrow> (\<exists>e \<in> set ms. c = x_entry_id e \<and> (i \<in> set (x_deps e) \<or> x_time_dep e = int i))" for c
    by (auto simp: consumers_def)
  also have "\<dots> c \<longleftrightarrow> (\<exists>k < length ms. c = k \<and> (i \<in> set (x_deps (ms ! k)) \<or> x_time_dep (ms ! k) = int i))" for c
    using assms by (metis in_set_conv_nth)
  finally show "set (consumers ms i) = set (filter (\<lambda>c. i \<in> set (x_deps (ms ! c)) \<or> x_time_dep (ms ! c) = int i) [0..<length ms])"
    by auto
qed (simp_all add: sorted_wrt_filter)

text \<open>
  C16. In a table that loads, entry \<open>i\<close> has id \<open>i\<close>, waits only for entries before it (its data dependencies,
  sorted and without repetition, and at most one time dependency), and its fanout is exactly the list of
  the entries that wait for it, each once: walking the table in order every wait is matched by one signal
  of an earlier entry, so the walk cannot block on itself.
\<close>
theorem xpurt_waits_backward:
  assumes "load_xpurt p_kind e_kind skip doc irs reg = Inr es"
  shows "\<forall>i < length es. x_entry_id (es ! i) = i \<and> sorted (x_deps (es ! i)) \<and> distinct (x_deps (es ! i)) \<and>
           (\<forall>j \<in> set (x_deps (es ! i)). j < i) \<and> - 1 \<le> x_time_dep (es ! i) \<and> x_time_dep (es ! i) < int i \<and>
           x_fanout (es ! i) = filter (\<lambda>c. i \<in> set (x_deps (es ! c)) \<or> x_time_dep (es ! c) = int i) [0..<length es]"
proof (intro allI impI)
  fix i assume i: "i < length es"
  from assms obtain raw0 raw order ms where L: "es = add_fanout ms" "length ms = length order"
    "\<And>i. i < length order \<Longrightarrow> make_entry p_kind e_kind irs reg raw order (i, order ! i) = Inr (ms ! i)"
    by (rule load_parts) blast
  have n: "length es = length ms" by (simp add: L(1) add_fanout_def)
  have ids: "x_entry_id (ms ! k) = k" if "k < length ms" for k
    using make_entry_parts [OF L(3), of k] that L(2) by auto
  have same: "x_deps (es ! k) = x_deps (ms ! k)" "x_time_dep (es ! k) = x_time_dep (ms ! k)"
      "x_entry_id (es ! k) = x_entry_id (ms ! k)" if "k < length ms" for k
    using that by (simp_all add: L(1) add_fanout_def)
  have fan: "x_fanout (es ! i) = consumers ms i" using i n ids by (simp add: L(1) add_fanout_def)
  have filt: "filter (\<lambda>c. i \<in> set (x_deps (es ! c)) \<or> x_time_dep (es ! c) = int i) [0..<length es] =
      filter (\<lambda>c. i \<in> set (x_deps (ms ! c)) \<or> x_time_dep (ms ! c) = int i) [0..<length ms]"
    using same n by (intro filter_cong) auto
  have cons: "consumers ms i = filter (\<lambda>c. i \<in> set (x_deps (ms ! c)) \<or> x_time_dep (ms ! c) = int i) [0..<length ms]"
    by (rule consumers_filter [OF ids])
  have io: "i < length order" using i n L(2) by simp
  from make_entry_parts [OF L(3) [OF io]] obtain d deps
    where "map_of raw (order ! i) = Some d" "resolve_deps order (order ! i) i (re_deps d) = Inr deps" "x_deps (ms ! i) = sorted_set deps"
      "resolve_time_dep order (order ! i) i (re_time_dep d) = Inr (x_time_dep (ms ! i))" by (elim exE conjE)
  with resolve_deps_back resolve_time_dep_back same [of i] ids [of i] i n
  show "x_entry_id (es ! i) = i \<and> sorted (x_deps (es ! i)) \<and> distinct (x_deps (es ! i)) \<and>
      (\<forall>j \<in> set (x_deps (es ! i)). j < i) \<and> - 1 \<le> x_time_dep (es ! i) \<and> x_time_dep (es ! i) < int i \<and>
      x_fanout (es ! i) = filter (\<lambda>c. i \<in> set (x_deps (es ! c)) \<or> x_time_dep (es ! c) = int i) [0..<length es]"
    unfolding fan filt cons by auto
qed

section \<open>Every dispatch of a scheduled job\<close>

text \<open>An entry key determines its job and its dispatch id: the id has no underscore.\<close>

lemma str_int_no_underscore: "CHR ''_'' \<notin> set (str_int i)"
proof -
  have "CHR ''_'' \<notin> set (str_nat n)" for n
    using str_nat_digits [of n] by (auto simp: list_all_iff is_digit_def)
  then show ?thesis by (simp add: str_int_def)
qed

lemma entry_key_inject: "entry_key a i = entry_key b j \<longleftrightarrow> a = b \<and> i = j"
proof
  assume e: "entry_key a i = entry_key b j"
  have tail: "takeWhile (\<lambda>c. c \<noteq> CHR ''_'') (rev (entry_key a i)) = rev (str_int i)" for a i
  proof -
    have "rev (entry_key a i) = rev (str_int i) @ CHR ''_'' # rev (a @ ''_dispatch'')" by (simp add: entry_key_def)
    moreover have "takeWhile (\<lambda>c. c \<noteq> CHR ''_'') (rev (str_int i) @ CHR ''_'' # ys) = rev (str_int i)" for ys
      using str_int_no_underscore [of i] by (subst takeWhile_append2) auto
    ultimately show ?thesis by simp
  qed
  have "str_int i = str_int j" using tail [of a i] tail [of b j] e by simp
  with e show "a = b \<and> i = j" by (simp add: entry_key_def)
qed simp

text \<open>The scheduler's naming: every key is made of the entry's job and id.\<close>

definition canonical :: "'t raw \<Rightarrow> bool" where
  "canonical raw \<longleftrightarrow> (\<forall>(k, d) \<in> set raw. k = entry_key (re_job d) (re_id d))"

lemma set_update: "set (AList.update k v d) \<subseteq> insert (k, v) (set d)"
  by (induction d) auto

lemma canonical_update:
  "canonical raw \<Longrightarrow> k = entry_key (re_job d) (re_id d) \<Longrightarrow> canonical (AList.update k d raw)"
  using set_update [of k d raw] by (auto simp: canonical_def)

definition grows :: "'t raw \<Rightarrow> 't raw \<Rightarrow> bool" where
  "grows raw raw' \<longleftrightarrow> (distinct (keys raw) \<longrightarrow> distinct (keys raw')) \<and> (canonical raw \<longrightarrow> canonical raw') \<and>
                     set (keys raw) \<subseteq> set (keys raw')"

lemma grows_refl [simp, intro]: "grows raw raw"
  by (simp add: grows_def)

lemma grows_trans: "grows a b \<Longrightarrow> grows b c \<Longrightarrow> grows a c"
  by (auto simp: grows_def)

lemma grows_fold: "(\<And>x r. grows r (f x r)) \<Longrightarrow> grows raw (fold f xs raw)"
  by (induction xs arbitrary: raw) (auto intro: grows_trans)

lemma grows_update: "k = entry_key (re_job d) (re_id d) \<Longrightarrow> grows raw (AList.update k d raw)"
  by (auto simp: grows_def keys_update canonical_update intro: distinct_keys_update)

lemma synthesize_update:
  "\<exists>d. synthesize job idx did raw = (if has_key idx did then AList.update (entry_key job did) d raw else raw) \<and>
       re_job d = job \<and> re_id d = did"
proof (cases "map_of idx did")
  case None
  then show ?thesis by (intro exI [of _ "\<lparr>re_id = did, re_job = job, re_deps = [], re_target = None, re_start = None,
      re_duration = None, re_impl = None, re_time_dep = None, re_synthesized = True\<rparr>"])
    (simp add: synthesize_def has_key_def)
next
  case (Some x)
  then show ?thesis
    unfolding synthesize_def Let_def option.case has_key_def
    by (simp only: option.case not_None_eq if_True ex_simps simp_thms split: prod.split) auto
qed

lemma synthesize_grows: "grows raw (synthesize job idx did raw)"
proof -
  from synthesize_update [of job idx did raw] obtain d
    where "synthesize job idx did raw = (if has_key idx did then AList.update (entry_key job did) d raw else raw)"
      "re_job d = job" "re_id d = did" by blast
  then show ?thesis by (simp add: grows_update)
qed

lemma thread_deps_grows: "canonical raw \<Longrightarrow> grows raw (thread_deps job synth x raw)"
proof -
  assume c: "canonical raw"
  show ?thesis
  proof (cases "o_did x")
    case (Some cd)
    show ?thesis
    proof (cases "map_of raw (entry_key job cd)")
      case (Some d)
      then have "entry_key job cd = entry_key (re_job d) (re_id d)"
        using c by (auto simp: canonical_def dest!: map_of_SomeD)
      then show ?thesis using Some \<open>o_did x = Some cd\<close> by (simp add: thread_deps_def Let_def grows_update)
    qed (use Some in \<open>simp add: thread_deps_def\<close>)
  qed (simp add: thread_deps_def)
qed

text \<open>A grown schedule keeps its keys and, from a canonical one, its naming.\<close>

lemma threads_grow:
  "canonical raw \<Longrightarrow> grows raw (fold (thread_deps job synth) xs raw)"
proof (induction xs arbitrary: raw)
  case (Cons x xs)
  note g = thread_deps_grows [OF Cons.prems, of job synth x]
  then have "canonical (thread_deps job synth x raw)" using Cons.prems by (simp add: grows_def)
  from grows_trans [OF g Cons.IH [OF this]] show ?case by simp
qed simp

lemma synthesize_all:
  "grows raw (fold (synthesize job idx) ds raw) \<and>
   (\<forall>d \<in> set ds. has_key idx d \<longrightarrow> entry_key job d \<in> set (keys (fold (synthesize job idx) ds raw)))"
proof (induction ds arbitrary: raw)
  case (Cons d ds)
  let ?r = "synthesize job idx d raw"
  have g: "grows raw ?r" by (rule synthesize_grows)
  have "entry_key job d \<in> set (keys ?r)" if "has_key idx d"
    using synthesize_update [of job idx d raw] that by (auto simp: keys_update)
  with Cons.IH [of ?r] g show ?case by (auto intro: grows_trans simp: grows_def)
qed simp

lemma complete_job_grows: "canonical raw \<Longrightarrow> grows raw (complete_job irs js raw)"
proof -
  assume c: "canonical raw"
  have "grows raw (fold (thread_deps (fst js) m) xs (fold (synthesize (fst js) idx) m raw))" for m xs idx
  proof -
    have g: "grows raw (fold (synthesize (fst js) idx) m raw)" using synthesize_all by blast
    with c have "canonical (fold (synthesize (fst js) idx) m raw)" by (simp add: grows_def)
    from grows_trans [OF g threads_grow [OF this]] show ?thesis .
  qed
  then show ?thesis by (auto simp: complete_job_def Let_def split: option.splits)
qed

lemma complete_job_covers:
  assumes c: "canonical raw" and net: "job_network irs (fst js) = Some net"
    and did: "did \<in> set (keys (op_index irs net))" "did \<notin> set (snd js)"
  shows "entry_key (fst js) did \<in> set (keys (complete_job irs js raw))"
proof -
  let ?idx = "op_index irs net"
  let ?m = "sorted_set (filter (\<lambda>d. d \<notin> set (snd js)) (keys ?idx))"
  have m: "did \<in> set ?m" using did by simp
  have "has_key irs net" using net by (auto simp: job_network_def Let_def split: if_splits)
  then obtain ir where ir: "map_of irs net = Some ir" by (auto simp: has_key_def)
  let ?r = "fold (synthesize (fst js) ?idx) ?m raw"
  have S: "grows raw ?r" "entry_key (fst js) did \<in> set (keys ?r)"
    using synthesize_all [of raw "fst js" ?idx ?m] m did(1) by (auto simp: has_key_iff)
  then have "canonical ?r" using c by (simp add: grows_def)
  from threads_grow [OF this, of "fst js" ?m "ops ir"] S(2)
  have "entry_key (fst js) did \<in> set (keys (fold (thread_deps (fst js) ?m) (ops ir) ?r))" by (auto simp: grows_def)
  moreover have "?m \<noteq> []" using m by (metis empty_iff list.set(1))
  ultimately show ?thesis by (simp add: complete_job_def net ir Let_def)
qed

lemma complete_jobs_grow: "canonical raw \<Longrightarrow> grows raw (fold (complete_job irs) jss raw)"
proof (induction jss arbitrary: raw)
  case (Cons js jss)
  note g = complete_job_grows [OF Cons.prems, of irs js]
  then have "canonical (complete_job irs js raw)" using Cons.prems by (simp add: grows_def)
  from grows_trans [OF g Cons.IH [OF this]] show ?case by simp
qed simp

lemma scheduled_jobs_ids:
  "(job, ids) \<in> set (scheduled_jobs raw) \<Longrightarrow> ids = map (\<lambda>kd. re_id (snd kd)) (filter (\<lambda>kd. re_job (snd kd) = job) raw)"
  "(k, d) \<in> set raw \<Longrightarrow> \<exists>ids. (re_job d, ids) \<in> set (scheduled_jobs raw)"
proof -
  have e: "scheduled_jobs raw = fold (\<lambda>kd. append_to (re_job (snd kd)) (re_id (snd kd))) raw []"
    by (simp add: scheduled_jobs_def case_prod_unfold)
  have dist: "distinct (map fst (scheduled_jobs raw))"
    unfolding e using distinct_keys_fold_append [of "[]"] by (simp add: keys_def)
  assume "(job, ids) \<in> set (scheduled_jobs raw)"
  with dist have "map_of (scheduled_jobs raw) job = Some ids" by simp
  then have "ids = get_or (scheduled_jobs raw) job []" by (simp add: get_or_def)
  then show "ids = map (\<lambda>kd. re_id (snd kd)) (filter (\<lambda>kd. re_job (snd kd) = job) raw)"
    unfolding e get_or_fold_append by (simp add: get_or_def)
next
  have e: "scheduled_jobs raw = fold (\<lambda>kd. append_to (re_job (snd kd)) (re_id (snd kd))) raw []"
    by (simp add: scheduled_jobs_def case_prod_unfold)
  assume "(k, d) \<in> set raw"
  then have "has_key (scheduled_jobs raw) (re_job d)"
    unfolding e has_key_fold_append by force
  then show "\<exists>ids. (re_job d, ids) \<in> set (scheduled_jobs raw)"
    by (auto simp: has_key_def dest: map_of_SomeD)
qed

lemma completed_covers:
  assumes c: "canonical raw" and kd: "(k, d) \<in> set raw" and net: "job_network irs (re_job d) = Some net"
    and did: "did \<in> set (keys (op_index irs net))"
  shows "entry_key (re_job d) did \<in> set (keys (complete_schedule irs raw))"
proof -
  let ?job = "re_job d"
  from scheduled_jobs_ids(2) [OF kd] obtain ids where ids: "(?job, ids) \<in> set (scheduled_jobs raw)" by blast
  then obtain pre post where split: "scheduled_jobs raw = pre @ (?job, ids) # post" by (meson split_list)
  let ?r = "fold (complete_job irs) pre raw"
  note gp = complete_jobs_grow [OF c, of irs pre]
  then have cp: "canonical ?r" using c by (simp add: grows_def)
  let ?r' = "complete_job irs (?job, ids) ?r"
  note gj = complete_job_grows [OF cp, of irs "(?job, ids)"]
  then have cj: "canonical ?r'" using cp by (simp add: grows_def)
  note g = complete_jobs_grow [OF cj, of irs post]
  have "entry_key ?job did \<in> set (keys ?r')"
  proof (cases "did \<in> set ids")
    case True
    then obtain k' d' where "(k', d') \<in> set raw" "re_job d' = ?job" "re_id d' = did"
      using scheduled_jobs_ids(1) [OF ids] by auto
    with c have "entry_key ?job did \<in> set (keys raw)" by (force simp: canonical_def keys_def)
    then show ?thesis using gp gj by (auto simp: grows_def)
  next
    case False
    from complete_job_covers [OF cp, of irs "(?job, ids)" net did] net did False show ?thesis by simp
  qed
  with g show ?thesis by (auto simp: complete_schedule_def split grows_def)
qed

text \<open>
  When the scheduler names its entries by job and dispatch id, a loaded table has, for every job of the
  schedule whose network is known, an entry for every dispatch of that network's IR, whether or not the
  scheduler listed it.
\<close>
theorem xpurt_completes_jobs:
  assumes "load_xpurt p_kind e_kind False (Some raw) irs reg = Inr es"
    and "canonical raw" "distinct (keys raw)"
    and "(k, d) \<in> set raw" "job_network irs (re_job d) = Some net" "did \<in> set (keys (op_index irs net))"
  shows "\<exists>e \<in> set es. x_key e = entry_key (re_job d) did \<and> x_job e = re_job d \<and> x_network e = net"
proof -
  let ?raw = "complete_schedule irs raw"
  let ?key = "entry_key (re_job d) did"
  from assms(1) obtain order ms where L: "order = entry_order ?raw (fst (all_edges ?raw))"
    "length order = length ?raw" "es = add_fanout ms" "length ms = length order"
    "\<And>i. i < length order \<Longrightarrow> make_entry p_kind e_kind irs reg ?raw order (i, order ! i) = Inr (ms ! i)"
    by (rule load_parts) auto
  have grow: "grows raw ?raw" unfolding complete_schedule_def by (rule complete_jobs_grow [OF assms(2)])
  then have can: "canonical ?raw" and dist: "distinct (keys ?raw)" using assms(2,3) by (simp_all add: grows_def)
  have edges: "edges_in (set (keys ?raw)) (fst (all_edges ?raw))" using all_edges_inv [of ?raw] by (simp add: admit_inv_def)
  have all: "set order = set (keys ?raw)" using full_order [OF dist edges] L(1,2) by simp
  have "?key \<in> set order" unfolding all by (rule completed_covers [OF assms(2,4,5,6)])
  then obtain i where i: "i < length order" "order ! i = ?key" by (auto simp: in_set_conv_nth)
  from make_entry_parts [OF L(5) [OF i(1)]] obtain d' where d': "map_of ?raw (order ! i) = Some d'"
    "x_key (ms ! i) = order ! i" "x_job (ms ! i) = re_job d'"
    "x_network (ms ! i) = fst (split_job_name (re_job d') (keys irs))" by (elim exE conjE)
  have "?key = entry_key (re_job d') (re_id d')"
    using can d'(1) i(2) by (auto simp: canonical_def dest!: map_of_SomeD)
  then have job: "re_job d' = re_job d" by (simp add: entry_key_inject)
  have "net = fst (split_job_name (re_job d) (keys irs))"
    using assms(5) by (auto simp: job_network_def Let_def split: if_splits)
  moreover have "es ! i \<in> set es" "x_key (es ! i) = x_key (ms ! i)" "x_job (es ! i) = x_job (ms ! i)"
      "x_network (es ! i) = x_network (ms ! i)"
    using i(1) L(4) by (simp_all add: L(3) add_fanout_def)
  ultimately show ?thesis using d' i(2) job by (intro bexI [of _ "es ! i"]) simp_all
qed

section \<open>Dropped time dependencies\<close>

lemma topo_before:
  assumes "topo preds xs" "distinct xs" "(a, b) \<in> {(p, k). k \<in> set xs \<and> p \<in> preds k}\<^sup>*"
    and "i < length xs" "xs ! i = a" "j < length xs" "xs ! j = b"
  shows "i \<le> j"
proof -
  have "b \<in> set xs \<Longrightarrow> a = b \<or> (\<forall>j < length xs. xs ! j = b \<longrightarrow> (\<exists>i < j. xs ! i = a))"
    using assms(3)
  proof (induction rule: rtrancl_induct)
    case (step y z)
    have pos: "\<exists>k < j. xs ! k = y" if j: "j < length xs" "xs ! j = z" for j
    proof -
      have "xs = take j xs @ xs ! j # drop (Suc j) xs" by (rule id_take_nth_drop [OF j(1)])
      then have "preds z \<subseteq> set (take j xs)" using assms(1) j(2) unfolding topo_def by blast
      with step.hyps(2) have "y \<in> set (take j xs)" by auto
      then obtain k where "k < length (take j xs)" "take j xs ! k = y" by (metis in_set_conv_nth)
      then show ?thesis by auto
    qed
    show ?case
    proof (intro disjI2 allI impI)
      fix j assume j: "j < length xs" "xs ! j = z"
      from pos [OF j] obtain k where k: "k < j" "xs ! k = y" by blast
      with j have "k < length xs" by simp
      with k step.IH show "\<exists>i < j. xs ! i = a" by (metis nth_mem less_trans)
    qed
  qed simp
  then show ?thesis using assms(2,4-7) nth_eq_iff_index_eq [OF assms(2)] by (metis less_imp_le nth_mem order_refl less_trans)
qed

text \<open>
  A load succeeds only if no time dependency was dropped: an admitted schedule keeps the entry of a
  dropped one before the entry it waits for, which the check for forward time dependencies then refuses.
  Dropping a contradictory ordering hint therefore never saves a schedule.
\<close>
theorem dropped_time_dep_refused:
  assumes "load_xpurt p_kind e_kind skip (Some raw0) irs reg = Inr es"
    and "raw = (if skip then raw0 else complete_schedule irs raw0)" "distinct (keys raw)"
  shows "snd (all_edges raw) = []"
proof (rule ccontr)
  assume "snd (all_edges raw) \<noteq> []"
  then obtain k t where "(k, t) \<in> set (snd (all_edges raw))"
    by (cases "snd (all_edges raw)") auto
  with all_edges_inv [of raw] obtain d where kt: "t \<noteq> []" "(k, t) \<in> (set (fst (all_edges raw)))\<^sup>*"
    "(k, d) \<in> set raw" "re_time_dep d = Some t" by (fastforce simp: admit_inv_def)
  define order where "order = entry_order raw (fst (all_edges raw))"
  from assms(1) obtain ms where L: "length order = length raw"
    "\<And>i. i < length order \<Longrightarrow> make_entry p_kind e_kind irs reg raw order (i, order ! i) = Inr (ms ! i)"
    by (rule load_parts) (auto simp: order_def assms(2))
  have edges: "edges_in (set (keys raw)) (fst (all_edges raw))" using all_edges_inv [of raw] by (simp add: admit_inv_def)
  note F = entry_order_facts [OF assms(3) edges, folded order_def]
  have all: "set order = set (keys raw)" using full_order [OF assms(3) edges] L(1) by (simp add: order_def)
  have "k \<in> set order" unfolding all using kt(3) by (force simp: keys_def)
  then obtain i where i: "i < length order" "order ! i = k" by (auto simp: in_set_conv_nth)
  from make_entry_parts [OF L(2) [OF i(1)]] obtain d' where d': "map_of raw (order ! i) = Some d'"
    "resolve_time_dep order (order ! i) i (re_time_dep d') = Inr (x_time_dep (ms ! i))" by (elim exE conjE)
  have "d' = d" using d'(1) kt(3) i(2) assms(3) by (simp add: keys_def)
  with d'(2) kt(1,4) i(2) obtain j where j: "List.find (\<lambda>j. order ! j = t) [0..<length order] = Some j" "j < i"
    by (auto simp: resolve_time_dep_def split: option.splits if_splits)
  from j(1) have jt: "j < length order" "order ! j = t" by (auto simp: find_Some_iff)
  have same: "{(p, k). k \<in> set order \<and> p \<in> {p. (p, k) \<in> set (fst (all_edges raw))}} = set (fst (all_edges raw))"
    unfolding all using edges by (force simp: edges_in_def)
  have "i \<le> j" by (rule topo_before [OF F(3,1) _ i jt]) (use kt(2) in \<open>simp only: same\<close>)
  with j(2) show False by simp
qed

section \<open>A concrete schedule\<close>

text \<open>Two instances of one network; the scheduler dropped the second op of instance 1.\<close>

definition two_jobs :: "int raw" where
  "two_jobs =
     [(''m0_dispatch_0'', \<lparr>re_id = 0, re_job = ''m0'', re_deps = [], re_target = Some ''CPU_P#0'', re_start = Some 0,
        re_duration = Some 2, re_impl = None, re_time_dep = None, re_synthesized = False\<rparr>),
      (''m0_dispatch_1'', \<lparr>re_id = 1, re_job = ''m0'', re_deps = [''m0_dispatch_0''], re_target = Some ''CPU_P#1'', re_start = Some 2,
        re_duration = Some 1, re_impl = None, re_time_dep = None, re_synthesized = False\<rparr>),
      (''m1_dispatch_0'', \<lparr>re_id = 0, re_job = ''m1'', re_deps = [], re_target = Some ''CPU_P#0'', re_start = Some 2,
        re_duration = Some 2, re_impl = None, re_time_dep = Some ''m0_dispatch_0'', re_synthesized = False\<rparr>)]"

definition two_nets :: networks where
  "two_nets = [(''m'', demo_ir)]"

definition two_table :: "int xpurt_entry list" where
  "two_table = (case load_xpurt ''rvv'' ''rvv'' False (Some two_jobs) two_nets demo_reg of Inr es \<Rightarrow> es | Inl _ \<Rightarrow> [])"

lemma two_table_load: "load_xpurt ''rvv'' ''rvv'' False (Some two_jobs) two_nets demo_reg = Inr two_table"
  by code_simp

lemma two_jobs_facts: "canonical two_jobs" "distinct (keys two_jobs)" "length two_table = 4"
  by code_simp+

theorem xpurt_waits_backward_witness:
  "x_deps (two_table ! 3) = [2] \<and> x_fanout (two_table ! 2) = [3] \<and> x_fanout (two_table ! 0) = [1, 2] \<and>
   list_all (\<lambda>j. j < 3) (x_deps (two_table ! 3))"
proof -
  have v: "map (\<lambda>e. (x_deps e, x_fanout e)) two_table = [([], [1, 2]), ([0], []), ([], [3]), ([2], [])]" by code_simp
  have "x_deps (two_table ! 3) = [2]" "x_fanout (two_table ! 2) = [3]" "x_fanout (two_table ! 0) = [1, 2]"
    using arg_cong [OF v, of "\<lambda>l. l ! 3"] arg_cong [OF v, of "\<lambda>l. l ! 2"] arg_cong [OF v, of "\<lambda>l. l ! 0"] two_jobs_facts(3)
    by (simp_all add: nth_map)
  with xpurt_waits_backward [OF two_table_load, rule_format, of 3] two_jobs_facts(3) show ?thesis
    by (simp add: list_all_iff)
qed

theorem xpurt_completes_jobs_witness:
  "\<exists>e \<in> set two_table. x_key e = ''m1_dispatch_1'' \<and> x_job e = ''m1'' \<and> x_network e = ''m''"
proof -
  obtain k d where kd2: "two_jobs ! 2 = (k, d)" by fastforce
  have len: "length two_jobs = 3" by code_simp
  have job: "re_job (snd (two_jobs ! 2)) = ''m1''" by code_simp
  from kd2 nth_mem [of 2 two_jobs] len job have kd: "(k, d) \<in> set two_jobs" "re_job d = ''m1''" by simp_all
  have net: "job_network two_nets ''m1'' = Some ''m''" by code_simp
  have did: "1 \<in> set (keys (op_index two_nets ''m''))" by code_simp
  have key: "entry_key ''m1'' 1 = ''m1_dispatch_1''" by code_simp
  from xpurt_completes_jobs [OF two_table_load two_jobs_facts(1,2) kd(1), of "''m''" 1] kd(2) net did key
  show ?thesis by simp
qed

theorem dropped_time_dep_refused_witness: "snd (all_edges (complete_schedule two_nets two_jobs)) = []"
proof (rule dropped_time_dep_refused [OF two_table_load])
  show "complete_schedule two_nets two_jobs = (if False then two_jobs else complete_schedule two_nets two_jobs)" by simp
  show "distinct (keys (complete_schedule two_nets two_jobs))"
    using complete_jobs_grow [OF two_jobs_facts(1)] two_jobs_facts(2) unfolding complete_schedule_def grows_def by blast
qed

text \<open>A hint that contradicts the data dependencies is dropped and then refused.\<close>

definition contradicting :: "int raw" where
  "contradicting =
     AList.update ''m0_dispatch_0'' \<lparr>re_id = 0, re_job = ''m0'', re_deps = [], re_target = Some ''CPU_P#0'',
        re_start = Some 0, re_duration = Some 2, re_impl = None, re_time_dep = Some ''m0_dispatch_1'', re_synthesized = False\<rparr> two_jobs"

lemma contradictory_hint_refused:
  "snd (all_edges contradicting) = [(''m0_dispatch_0'', ''m0_dispatch_1'')]"
  "load_xpurt ''rvv'' ''rvv'' False (Some contradicting) two_nets demo_reg = Inl (Forward_Time_Dep ''m0_dispatch_0'' ''m0_dispatch_1'')"
  by code_simp+

end
