(* ===== verification/Xpurt_Table.thy ===== *)
theory Xpurt_Table
  imports Xpurt_Facts
begin

text \<open>
  The C table written by \<open>emit_table\<close> of \<^verbatim>\<open>pipeline/ingest_xpurt_schedule.py\<close>: per entry its
  arrays, then one row per entry that refers to them. The text of a float is a parameter. The facts
  at the end state that every array a row refers to is declared, and under its own name.
\<close>

section \<open>Names\<close>

definition header_path :: "string \<Rightarrow> string" where
  "header_path p = (if suffix ''.c'' p then take (length p - 2) p @ ''.h'' else p @ ''.h'')"

definition basename :: "string \<Rightarrow> string" where
  "basename p = rev (takeWhile (\<lambda>c. c \<noteq> CHR ''/'') (rev p))"

definition sched_symbol :: "nat \<Rightarrow> string \<Rightarrow> string" where
  "sched_symbol i what = ''sched_'' @ str_nat i @ ''_'' @ what"

definition int_array :: "nat \<Rightarrow> string \<Rightarrow> string list \<Rightarrow> string" where
  "int_array i what items =
     ''static const int '' @ sched_symbol i what @ ''[] = { '' @ join '', '' items @ '' };''"

text \<open>The arrays declared for an entry, as their names with their items.\<close>

definition entry_arrays :: "'t xpurt_entry \<Rightarrow> (string \<times> string list) list" where
  "entry_arrays e =
     [(''harts'', map str_int (x_harts e))] @
     (if x_deps e \<noteq> [] then [(''deps'', map str_nat (x_deps e))] else []) @
     (if x_fanout e \<noteq> [] then [(''fanout'', map str_nat (x_fanout e))] else [])"

definition array_lines :: "'t xpurt_entry list \<Rightarrow> string list" where
  "array_lines es = concat (map (\<lambda>e. map (\<lambda>(w, items). int_array (x_entry_id e) w items) (entry_arrays e)) es)"

definition array_ref :: "nat \<Rightarrow> string \<Rightarrow> 'a list \<Rightarrow> string" where
  "array_ref i what xs = (if length xs \<noteq> 0 then sched_symbol i what else ''NULL'')"

definition entry_row :: "('t \<Rightarrow> string) \<Rightarrow> 't xpurt_entry \<Rightarrow> string" where
  "entry_row float_repr e =
     ''    { .entry_id = '' @ str_nat (x_entry_id e) @ '', '' @
     ''.network = \"'' @ x_network e @ ''\", .instance = '' @ str_nat (x_instance e) @ '', '' @
     ''.dispatch_id = '' @ str_int (x_dispatch_id e) @ '', '' @
     ''.job_name = \"'' @ x_job e @ ''\", '' @
     ''.op = \"'' @ x_op e @ ''\", .name = \"'' @ x_name e @ ''\", '' @
     ''.core_name = \"'' @ x_core_name e @ ''\", .core_kind = \"'' @ x_core_kind e @ ''\", '' @
     ''.impl = \"'' @ x_impl e @ ''\", '' @
     ''.hart = '' @ str_int (x_hart e) @ '', '' @
     ''.n_harts = '' @ str_nat (length (x_harts e)) @ '', .harts = '' @ sched_symbol (x_entry_id e) ''harts'' @ '', '' @
     ''.start_time_ms = '' @ float_repr (x_start e) @ ''f, '' @
     ''.duration_ms = '' @ float_repr (x_duration e) @ ''f, '' @
     ''.n_deps = '' @ str_nat (length (x_deps e)) @ '', .deps = '' @ array_ref (x_entry_id e) ''deps'' (x_deps e) @ '', '' @
     ''.time_dep_entry_id = '' @ str_int (x_time_dep e) @ '', '' @
     ''.n_fanout = '' @ str_nat (length (x_fanout e)) @ '', .fanout = '' @
     array_ref (x_entry_id e) ''fanout'' (x_fanout e) @ '' },''"

section \<open>The two files\<close>

definition xpurt_header :: "string \<Rightarrow> string \<Rightarrow> 't xpurt_entry list \<Rightarrow> string" where
  "xpurt_header banner sname es =
     (let up = upper (c_ident sname) in
      join newline
       [banner,
        ''#pragma once'',
        '''',
        ''#include <stddef.h>'',
        '''',
        ''#ifdef __cplusplus'',
        ''extern \"C\" {'',
        ''#endif'',
        '''',
        ''/* One entry per XPU-RT-scheduled dispatch, sorted by start_time.'',
        '' * The runtime walks this table; entries' .deps[] / .time_dep_entry_id'',
        '' * are in-table indices used to enforce cross-dispatch ordering. */'',
        ''typedef struct {'',
        ''    int            entry_id;'',
        ''    const char    *network;        /* IR network name, e.g. \"mlp_control\" */'',
        ''    int            instance;       /* 0..K-1 across multiple instances of the same network */'',
        ''    int            dispatch_id;    /* IR dispatch_id within `network` */'',
        ''    const char    *job_name;       /* XPU-RT job_name, e.g. \"mlp_control3\" */'',
        ''    const char    *op;             /* IR op kind (e.g. \"linear\") */'',
        ''    const char    *name;           /* IR node name (e.g. \"mlp.0\") */'',
        ''    const char    *core_name;      /* registry core name (rocket0/rvv0/...) */'',
        ''    const char    *core_kind;      /* registry kind (scalar/rvv/gemmini/...) */'',
        ''    const char    *impl;           /* kernel impl for THIS dispatch (rvv/ime/...);'',
        ''                                    * equals core_kind unless the schedule'',
        ''                                    * chose per-dispatch implementations */'',
        ''    int            hart;           /* preferred hart, -1 if unbound */'',
        ''    int            n_harts;        /* full reserved machine-combination width */'',
        ''    const int     *harts;           /* master first, followed by helper harts */'',
        ''    float          start_time_ms;  /* XPU-RT-issued start time (ms) */'',
        ''    float          duration_ms;    /* XPU-RT-modeled duration (ms) */'',
        ''    int            n_deps;'',
        ''    const int     *deps;           /* in-table entry_ids of intra-job data deps */'',
        ''    int            time_dep_entry_id; /* cross-job ordering edge, -1 if none */'',
        ''    /* Producer-side fanout: entry_ids of consumers that wait on this'',
        ''     * entry's completion sem (data-dep or time-dep). The walker uses'',
        ''     * .n_fanout to k_sem_give() the consumer's sem exactly once per'',
        ''     * consumer at producer-side, instead of the old multi-consumer'',
        ''     * take/re-give pattern. */'',
        ''    int            n_fanout;'',
        ''    const int     *fanout;'',
        ''} xpurt_sched_entry_t;'',
        '''',
        ''#define '' @ up @ ''_N_ENTRIES   '' @ str_nat (length es),
        '''',
        ''extern const xpurt_sched_entry_t '' @ up @ ''_TABLE['' @ up @ ''_N_ENTRIES];'',
        '''',
        ''#ifdef __cplusplus'',
        ''}'',
        ''#endif'',
        ''''])"

definition xpurt_source :: "('t \<Rightarrow> string) \<Rightarrow> string \<Rightarrow> string \<Rightarrow> string \<Rightarrow> 't xpurt_entry list \<Rightarrow> string" where
  "xpurt_source float_repr banner h_path sname es =
     (let up = upper (c_ident sname) in
      join newline
       [banner,
        ''#include <stddef.h>'',
        ''#include \"'' @ basename h_path @ ''\"'',
        '''',
        if array_lines es \<noteq> [] then join newline (array_lines es) else ''/* (no entries with deps) */'',
        '''',
        ''const xpurt_sched_entry_t '' @ up @ ''_TABLE['' @ up @ ''_N_ENTRIES] = {'',
        join newline (map (entry_row float_repr) es),
        ''};'',
        ''''])"

definition emit_xpurt_table ::
  "('t \<Rightarrow> string) \<Rightarrow> string \<Rightarrow> 't xpurt_entry list \<Rightarrow> string \<Rightarrow> string \<Rightarrow> (string \<times> string) list" where
  "emit_xpurt_table float_repr banner es out_path sname =
     (let h_path = header_path out_path in
      [(h_path, xpurt_header banner sname es), (out_path, xpurt_source float_repr banner h_path sname es)])"

section \<open>The arrays of the rows are declared\<close>

lemma concat_map_memb: "x \<in> set xs \<Longrightarrow> y \<in> set (f x) \<Longrightarrow> y \<in> set (concat (map f xs))"
  by auto

lemma case_map_memb: "(a, b) \<in> set ps \<Longrightarrow> f a b \<in> set (map (\<lambda>(a, b). f a b) ps)"
  by force

lemma array_lines_memb:
  assumes "e \<in> set es" "(w, items) \<in> set (entry_arrays e)"
  shows "int_array (x_entry_id e) w items \<in> set (array_lines es)"
  unfolding array_lines_def by (rule concat_map_memb [OF assms(1)]) (rule case_map_memb [OF assms(2)])

lemma harts_declared:
  "e \<in> set es \<Longrightarrow> int_array (x_entry_id e) ''harts'' (map str_int (x_harts e)) \<in> set (array_lines es)"
  by (rule array_lines_memb) (simp_all add: entry_arrays_def)

lemma deps_declared:
  "e \<in> set es \<Longrightarrow> x_deps e \<noteq> [] \<Longrightarrow>
   int_array (x_entry_id e) ''deps'' (map str_nat (x_deps e)) \<in> set (array_lines es)"
  by (rule array_lines_memb) (simp_all add: entry_arrays_def)

lemma fanout_declared:
  "e \<in> set es \<Longrightarrow> x_fanout e \<noteq> [] \<Longrightarrow>
   int_array (x_entry_id e) ''fanout'' (map str_nat (x_fanout e)) \<in> set (array_lines es)"
  by (rule array_lines_memb) (simp_all add: entry_arrays_def)

lemma array_ref_null: "array_ref i w xs = ''NULL'' \<longleftrightarrow> xs = []"
  by (simp add: array_ref_def sched_symbol_def)

lemma take_until: "c \<notin> set xs \<Longrightarrow> takeWhile (\<lambda>x. x \<noteq> c) (xs @ c # ys) = xs"
  by (induction xs) auto

text \<open>Distinct entries and distinct arrays of one entry have distinct names.\<close>

lemma str_nat_no_underscore: "CHR ''_'' \<notin> set (str_nat n)"
  using str_nat_digits [of n] by (auto simp: list_all_iff is_digit_def)

lemma sched_symbol_inject: "sched_symbol i w = sched_symbol j v \<longleftrightarrow> i = j \<and> w = v"
proof
  assume "sched_symbol i w = sched_symbol j v"
  then have eq: "str_nat i @ CHR ''_'' # w = str_nat j @ CHR ''_'' # v" by (simp add: sched_symbol_def)
  then have "takeWhile (\<lambda>x. x \<noteq> CHR ''_'') (str_nat i @ CHR ''_'' # w) =
      takeWhile (\<lambda>x. x \<noteq> CHR ''_'') (str_nat j @ CHR ''_'' # v)" by simp
  then have "str_nat i = str_nat j" by (simp only: take_until [OF str_nat_no_underscore])
  with eq show "i = j \<and> w = v" by simp
qed simp

end
