(* ===== verification/Spec2Isabelle.thy ===== *)
theory Spec2Isabelle
  imports Fusion_Claims Hint_Doc_Facts Hint_Account Layout_Fold_Facts View_Fusion Round_Facts Kernel_Abi Annotate Derivation_Claims Loader_Facts Bf16_Rounding Split_Facts Unfuse_Facts Shards_Facts Schedule Dispatch_Graph Prune Concurrency_Facts Patch_Facts Xpurt_Table
begin

text \<open>
  Verification library of ModelBlaster's pipeline (\<^verbatim>\<open>src/pipeline\<close>).

  \<^bold>\<open>The program.\<close> ModelBlaster extracts a neural network into a graph document (\<^verbatim>\<open>graph.json\<close>: a list of
  ops, the tensors they read and write, dispatch ids and dependencies), rewrites the graph, generates
  kernels for its ops and emits static schedules that a runtime executes on several cores. The passes modelled
  here are the ones that read and write that document and those schedules: a mistake in one of them is a wrong
  result or a deadlock of the deployed network, whatever the kernels do.

  \<^bold>\<open>How the model is built.\<close> A JSON object is a record, a dictionary an association list in insertion order
  (\<open>Prelude\<close>), an exception the left summand of a sum, a loop that may not end a \<open>partial_function\<close>. Python
  integers are \<open>int\<close>. What comes from code outside the modelled files (measured times, the float parser, rounding,
  the numerics of a kernel) is an argument of the definitions.

  \<^bold>\<open>Shared theories.\<close>
  \<open>Prelude\<close> has dictionaries, loops that raise, decimal text, order-preserving de-duplication.
  \<open>Graph_IR\<close> has the graph document and the semantics \<open>run_ops\<close> of an op list over any kernels.
  \<open>Kahn\<close> is the worklist sort three passes use, stated as a locale over their queues: its fuel is the number of
  nodes, and \<open>kahn_result\<close> shows that this is enough. \<open>Bitmask\<close> are the Python integers used as sets.

  \<^bold>\<open>RISC-V rewrites.\<close>
  \<open>Reachability\<close>, \<open>Fusion\<close>, \<open>Fusion_Facts\<close>, \<open>Fusion_Claims\<close> (\<^verbatim>\<open>apply_fusion_hint.py\<close>): the validator of
  a group and the rewrite that replaces it by one op; the accepted groups are exactly the convex ones, and the
  dependencies of the result are the image of the old ones.
  \<open>Annotate\<close> (\<^verbatim>\<open>extract_graph._annotate_dispatches\<close>): dispatch ids and dependencies through views.
  \<open>Renumber\<close>, \<open>Split\<close>, \<open>Split_Facts\<close> (\<^verbatim>\<open>apply_split_hint.py\<close>), \<open>Unfuse\<close>, \<open>Unfuse_Facts\<close>
  (\<^verbatim>\<open>apply_unfuse_hint.py\<close>), \<open>Shards\<close>, \<open>Shards_Facts\<close> (\<^verbatim>\<open>apply_shard_hint.py\<close>,
  \<^verbatim>\<open>schedule_shards.py\<close>): tiling, its inverse of fusion, and shard widths.

  \<^bold>\<open>Schedules.\<close>
  \<open>Registry\<close> (\<^verbatim>\<open>core_registry.py\<close>), \<open>Schedule\<close> (\<^verbatim>\<open>ingest_schedule.py\<close>), \<open>Dispatch_Graph\<close>
  (\<^verbatim>\<open>emit_dispatch_graph.py\<close>), \<open>Xpurt\<close>, \<open>Xpurt_Facts\<close>, \<open>Xpurt_Table\<close>
  (\<^verbatim>\<open>ingest_xpurt_schedule.py\<close>), \<open>Concurrency\<close>, \<open>Concurrency_Facts\<close> (\<^verbatim>\<open>kb_concurrency.py\<close>): loaded
  tables only wait backward, lanes of unordered ops differ, a plan is the transitive reduction of the hazards.

  \<^bold>\<open>Graph optimisation.\<close>
  \<open>Prune\<close> (\<^verbatim>\<open>graph_prune.py\<close>), \<open>Graph_Edit\<close>, \<open>Graph_Edit_Facts\<close>, \<open>Patch_Facts\<close>
  (\<^verbatim>\<open>graph_edit.py\<close>), \<open>Layout\<close>, \<open>Layout_Facts\<close>, \<open>Layout_Compose\<close>, \<open>Layout_Fold\<close>,
  \<open>Layout_Fold_Facts\<close> (\<^verbatim>\<open>layout_fold.py\<close>), \<open>Op_Class\<close> (\<^verbatim>\<open>op_classes.py\<close>), \<open>View_Fusion\<close>
  (\<^verbatim>\<open>view_fusion.py\<close>), \<open>Kernel_Abi\<close> (\<^verbatim>\<open>kernel_abi.py\<close>), \<open>Round_Control\<close>, \<open>Round_Facts\<close>
  (\<^verbatim>\<open>round_controller.py\<close>).

  \<^bold>\<open>Kernel fusion for CUDA.\<close>
  \<open>Fused_Kind\<close>, \<open>Chain_Fusion\<close>, \<open>Chain_Fusion_Facts\<close>, \<open>Fused_Binding\<close>, \<open>Siblings\<close>
  (\<^verbatim>\<open>kb_proposals.py\<close>, \<^verbatim>\<open>cuda_dtypes.op_dtype\<close>): names of fused kinds and their parser, the fusion of a producer with
  its reader, chains, siblings, and the arguments a fused kernel is called with. A fused op computes what its stages
  compute in sequence.

  \<^bold>\<open>Hints.\<close>
  \<open>Hint_Doc\<close>, \<open>Hint_Doc_Facts\<close> (\<^verbatim>\<open>graph_hints.py\<close>): the documents, merging, decisions by majority, proposals
  from profiles. \<open>Hint_Apply\<close>, \<open>Hint_Flow\<close>, \<open>Hint_Rewrites\<close>, \<open>Hint_Apply_Facts\<close>, \<open>Hint_Account\<close>: applying the
  accepted hints to a graph. The outputs keep their values, the new dispatch ids can be scheduled, and every hint is either
  reported as applied or as skipped with a reason.

  \<^bold>\<open>Derived weights.\<close>
  \<open>Json\<close> has JSON values as Python reads them. \<open>Storage_Dtype\<close> (\<^verbatim>\<open>cuda_dtypes.py\<close>) has the dtypes of graphs and weights, the
  rounding to bfloat16 on 32-bit words, and the record of numpy operations the other theories are parametric in.
  \<open>Derivation\<close> and \<open>Replay\<close> (\<^verbatim>\<open>weight_derivations.py\<close>): checking and evaluating a derivation, the order of the table, its
  validation and replay, \<open>fill_missing\<close> and \<open>materialize\<close>, and the \<open>Recorder\<close>.
  \<open>Derivation_Order\<close> shows that the order exists exactly for well-founded tables, \<open>Replay_Facts\<close> that a replay is the
  unique solution of the recorded equations, \<open>Recorder_Facts\<close> that what a recorder wrote replays to its arrays, and
  \<open>Loader_Facts\<close> that \<open>fill_missing\<close> undoes the loss of derived weights from a file, and \<open>Derivation_Claims\<close> which exceptions are left after the check. \<open>Ndarray\<close> has row-major arrays, an instance of the numpy
  record on which the witnesses evaluate. \<open>Bf16_Rounding\<close> shows that the bit arithmetic of \<open>round_bf16\<close> is rounding to the
  nearest value, ties to even, and that narrowing to 2 bytes loses nothing more.

  \<^bold>\<open>Bounds and fuel.\<close> \<open>visit_key\<close> has one unit of fuel more than there are derived keys, and
  \<open>derivation_order_iff\<close> shows that it is never used up; \<open>check_node\<close> ends by the depth limit 64 of the code.
  \<open>fresh_index\<close> searches one more candidate than there are taken names, which suffices for an
  injective naming; \<open>take_extent\<close> ends by a measure; \<open>split_work\<close>, \<open>source_loop\<close>, \<open>sink_loop\<close> and \<open>fold_loop\<close> are
  partial functions, and \<open>compose_returns\<close> shows that composition returns on the maps the pass makes
  (\<open>split_work_diverges\<close> is an input outside them on which the loop runs forever).

  \<^bold>\<open>Not modelled.\<close> Lowering of PyTorch models (torch is the input), the text of kernels, skeletons and build files
  (templates), the search loop around the passes (external runs, clocks, files), the language model clients (services),
  the C++ runtime. Of the modelled files, file access, command lines and messages are left out, and from
  \<^verbatim>\<open>weight_derivations.py\<close> also \<open>write_weights\<close> and \<open>digest\<close>.
\<close>

end
